(* ===== verification/Prelude.thy ===== *)
theory Prelude
  imports Main "HOL-Library.Word" "HOL-Library.Sublist" "HOL-Library.Code_Target_Nat"
begin

text \<open>
  Shared vocabulary of the development.

  \<^item> Rust's fallible code: \<open>'e failure + 'a\<close>, where \<open>Rejected e\<close> is an \<^verbatim>\<open>Err(e)\<close> the code
    returns and \<open>Panicked\<close> is a panic (an out-of-range index, an \<^verbatim>\<open>expect\<close>, an
    \<^verbatim>\<open>unreachable!\<close>). Sequencing with the question mark operator is \<open>rbind\<close>.
  \<^item> Rust's integers: \<open>usize\<close>, \<open>u64\<close> and \<open>u32\<close> values are natural numbers; every
    saturating, checked or truncating operation of the source is written out against the
    bound of its width. Bytes are \<open>8 word\<close>.
  \<^item> \<^verbatim>\<open>BTreeMap\<close> and \<^verbatim>\<open>BTreeSet\<close>: association lists and lists in strictly increasing key
    order, so that iteration order is the source's.
\<close>

named_theorems rust_simps \<open>definitions of the Rust arithmetic and result vocabulary\<close>
named_theorems rust_splits \<open>inversion rules for results\<close>

section \<open>Results and panics\<close>

datatype 'e failure = Rejected 'e | Panicked

type_synonym ('e, 'a) fallible = "'e failure + 'a"

definition rbind :: "'f + 'a \<Rightarrow> ('a \<Rightarrow> 'f + 'b) \<Rightarrow> 'f + 'b" where
  "rbind r f = (case r of Inl e \<Rightarrow> Inl e | Inr x \<Rightarrow> f x)"

definition reject :: "'e \<Rightarrow> ('e, 'a) fallible" where
  "reject e = Inl (Rejected e)"

definition panic :: "('e, 'a) fallible" where
  "panic = Inl Panicked"

definition ok_or :: "'f \<Rightarrow> 'a option \<Rightarrow> 'f + 'a" where
  "ok_or e x = (case x of None \<Rightarrow> Inl e | Some v \<Rightarrow> Inr v)"

text \<open>\<open>expect\<close> panics on \<open>None\<close>.\<close>

definition expect :: "'a option \<Rightarrow> ('e, 'a) fallible" where
  "expect x = ok_or Panicked x"

text \<open>\<open>xs[i]\<close>: a panic out of range.\<close>

definition index :: "'a list \<Rightarrow> nat \<Rightarrow> ('e, 'a) fallible" where
  "index xs i = (if i < length xs then Inr (xs ! i) else panic)"

text \<open>\<open>xs.get(i)\<close>.\<close>

definition get_opt :: "'a list \<Rightarrow> nat \<Rightarrow> 'a option" where
  "get_opt xs i = (if i < length xs then Some (xs ! i) else None)"

definition last_opt :: "'a list \<Rightarrow> 'a option" where
  "last_opt xs = (if xs = [] then None else Some (last xs))"

lemma rbind_simps [simp]:
  "rbind (Inr x) f = f x" "rbind (Inl e) f = Inl e"
  by (simp_all add: rbind_def)

lemma rbind_Inr_iff [rust_splits]:
  "rbind r f = Inr y \<longleftrightarrow> (\<exists>x. r = Inr x \<and> f x = Inr y)"
  by (cases r) simp_all

lemma rbind_Inl_iff:
  "rbind r f = Inl e \<longleftrightarrow> r = Inl e \<or> (\<exists>x. r = Inr x \<and> f x = Inl e)"
  by (cases r) simp_all

lemma rbind_cong [fundef_cong]:
  "r = r' \<Longrightarrow> (\<And>x. r' = Inr x \<Longrightarrow> f x = f' x) \<Longrightarrow> rbind r f = rbind r' f'"
  by (cases r') simp_all

lemma rbind_assoc: "rbind (rbind r f) g = rbind r (\<lambda>x. rbind (f x) g)"
  by (cases r) simp_all

lemma reject_neq_Inr [simp]: "reject e \<noteq> Inr x" "Inr x \<noteq> reject e"
  by (simp_all add: reject_def)

lemma panic_neq_Inr [simp]: "panic \<noteq> Inr x" "Inr x \<noteq> panic"
  by (simp_all add: panic_def)

lemma reject_neq_Panicked [simp]: "reject e \<noteq> Inl Panicked"
  by (simp add: reject_def)

lemma rbind_reject [simp]: "rbind (reject e) f = reject e"
  by (simp add: reject_def)

lemma rbind_panic [simp]: "rbind panic f = panic"
  by (simp add: panic_def)

lemma ok_or_Inr_iff [simp]: "ok_or e x = Inr v \<longleftrightarrow> x = Some v"
  by (cases x) (simp_all add: ok_or_def)

lemma ok_or_simps [simp]: "ok_or e (Some v) = Inr v" "ok_or e None = Inl e"
  by (simp_all add: ok_or_def)

lemma expect_Inr_iff [simp]: "expect x = Inr v \<longleftrightarrow> x = Some v"
  by (simp add: expect_def)

lemma expect_simps [simp]: "expect (Some v) = Inr v" "expect None = panic"
  by (simp_all add: expect_def panic_def)

lemma index_Inr_iff [rust_splits]: "index xs i = Inr v \<longleftrightarrow> i < length xs \<and> v = xs ! i"
  by (auto simp: index_def)

lemma index_in_range [simp]: "i < length xs \<Longrightarrow> index xs i = Inr (xs ! i)"
  by (simp add: index_def)

lemma get_opt_Some_iff [simp]: "get_opt xs i = Some v \<longleftrightarrow> i < length xs \<and> v = xs ! i"
  by (auto simp: get_opt_def)

lemma get_opt_None_iff [simp]: "get_opt xs i = None \<longleftrightarrow> length xs \<le> i"
  by (auto simp: get_opt_def)

lemma last_opt_simps [simp]: "last_opt [] = None" "last_opt (xs @ [x]) = Some x"
  by (simp_all add: last_opt_def)

lemma last_opt_Some_iff: "last_opt xs = Some x \<longleftrightarrow> xs \<noteq> [] \<and> x = last xs"
  by (auto simp: last_opt_def)

text \<open>Results that never panic.\<close>

definition no_panic :: "('e, 'a) fallible \<Rightarrow> bool" where
  "no_panic r \<longleftrightarrow> r \<noteq> Inl Panicked"

lemma no_panic_simps [simp]:
  "no_panic (Inr x)" "no_panic (reject e)" "no_panic (Inl (Rejected e))" "\<not> no_panic panic"
  "\<not> no_panic (Inl Panicked)"
  by (simp_all add: no_panic_def reject_def panic_def)

lemma no_panic_rbind [intro]:
  "no_panic r \<Longrightarrow> (\<And>x. r = Inr x \<Longrightarrow> no_panic (f x)) \<Longrightarrow> no_panic (rbind r f)"
  by (cases r) (simp_all add: no_panic_def)

lemma no_panic_ok_or [simp]: "no_panic (ok_or (Rejected e) x)"
  by (cases x) simp_all

section \<open>Machine integers\<close>

definition u16_max :: nat where "u16_max = 65535"
definition u32_max :: nat where "u32_max = 4294967295"
definition u64_max :: nat where "u64_max = 18446744073709551615"

text \<open>The compiler targets 64-bit hosts: \<open>usize\<close> has 64 bits.\<close>

definition usize_max :: nat where "usize_max = 18446744073709551615"

definition sat_add :: "nat \<Rightarrow> nat \<Rightarrow> nat \<Rightarrow> nat" where
  "sat_add bound a b = min bound (a + b)"

definition sat_mul :: "nat \<Rightarrow> nat \<Rightarrow> nat \<Rightarrow> nat" where
  "sat_mul bound a b = min bound (a * b)"

text \<open>\<open>saturating_sub\<close> on unsigned integers is subtraction on \<open>nat\<close>.\<close>

definition sat_sub :: "nat \<Rightarrow> nat \<Rightarrow> nat" where
  "sat_sub a b = a - b"

definition checked_add :: "nat \<Rightarrow> nat \<Rightarrow> nat \<Rightarrow> nat option" where
  "checked_add bound a b = (if a + b \<le> bound then Some (a + b) else None)"

definition checked_mul :: "nat \<Rightarrow> nat \<Rightarrow> nat \<Rightarrow> nat option" where
  "checked_mul bound a b = (if a * b \<le> bound then Some (a * b) else None)"

definition checked_sub :: "nat \<Rightarrow> nat \<Rightarrow> nat option" where
  "checked_sub a b = (if b \<le> a then Some (a - b) else None)"

text \<open>\<open>n as u32\<close> truncates.\<close>

definition as_u32 :: "nat \<Rightarrow> nat" where
  "as_u32 n = n mod 4294967296"

text \<open>\<open>u32::try_from\<close> on a signed 64-bit value.\<close>

definition u32_try_from :: "int \<Rightarrow> nat option" where
  "u32_try_from z = (if 0 \<le> z \<and> z \<le> int u32_max then Some (nat z) else None)"

text \<open>Reading two's complement at 16 and 32 bits.\<close>

definition as_i16 :: "nat \<Rightarrow> int" where
  "as_i16 n = (if n < 32768 then int n else int n - 65536)"

definition as_i32 :: "nat \<Rightarrow> int" where
  "as_i32 n = (if n < 2147483648 then int n else int n - 4294967296)"

lemma as_u32_small [simp]: "n \<le> u32_max \<Longrightarrow> as_u32 n = n"
  by (simp add: as_u32_def u32_max_def)

lemma as_u32_le [simp]: "as_u32 n \<le> u32_max"
proof -
  have "as_u32 n < 4294967296" by (simp add: as_u32_def)
  then show ?thesis by (simp add: u32_max_def)
qed

lemma u32_le_usize: "u32_max \<le> usize_max"
  by (simp add: u32_max_def usize_max_def)

lemma checked_add_Some_iff [simp]:
  "checked_add b x y = Some z \<longleftrightarrow> x + y \<le> b \<and> z = x + y"
  by (auto simp: checked_add_def)

lemma checked_mul_Some_iff [simp]:
  "checked_mul b x y = Some z \<longleftrightarrow> x * y \<le> b \<and> z = x * y"
  by (auto simp: checked_mul_def)

lemma checked_sub_Some_iff [simp]: "checked_sub x y = Some z \<longleftrightarrow> y \<le> x \<and> z = x - y"
  by (auto simp: checked_sub_def)

lemma sat_add_le [simp]: "sat_add b x y \<le> b"
  by (simp add: sat_add_def)

lemma sat_add_exact: "x + y \<le> b \<Longrightarrow> sat_add b x y = x + y"
  by (simp add: sat_add_def)

lemma sat_add_ge: "x \<le> b \<Longrightarrow> x \<le> sat_add b x y"
  by (simp add: sat_add_def)

lemma sat_add_less: "x < b \<Longrightarrow> 0 < y \<Longrightarrow> x < sat_add b x y"
  by (simp add: sat_add_def)

lemma sat_add_mono: "x \<le> x' \<Longrightarrow> y \<le> y' \<Longrightarrow> sat_add b x y \<le> sat_add b x' y'"
  by (auto simp: sat_add_def min_def)

lemma sat_mul_le [simp]: "sat_mul b x y \<le> b"
  by (simp add: sat_mul_def)

lemma sat_mul_exact: "x * y \<le> b \<Longrightarrow> sat_mul b x y = x * y"
  by (simp add: sat_mul_def)

lemma u32_try_from_Some_iff [simp]:
  "u32_try_from z = Some n \<longleftrightarrow> z = int n \<and> n \<le> u32_max"
  by (auto simp: u32_try_from_def)

section \<open>Ordered maps and sets\<close>

text \<open>
  A \<^verbatim>\<open>BTreeMap\<close> is an association list in strictly increasing key order; a lookup is
  \<open>map_of\<close>. A \<^verbatim>\<open>BTreeSet\<close> is a strictly increasing list; membership is \<open>\<in> set\<close>.
\<close>

abbreviation strict_sorted_keys :: "('k::linorder \<times> 'v) list \<Rightarrow> bool" where
  "strict_sorted_keys m \<equiv> sorted_wrt (<) (map fst m)"

fun bt_insert :: "'k::linorder \<Rightarrow> 'v \<Rightarrow> ('k \<times> 'v) list \<Rightarrow> ('k \<times> 'v) list" where
  "bt_insert k v [] = [(k, v)]"
| "bt_insert k v (e # m) =
     (if fst e < k then e # bt_insert k v m
      else if fst e = k then (k, v) # m
      else (k, v) # e # m)"

definition bt_remove :: "'k \<Rightarrow> ('k \<times> 'v) list \<Rightarrow> ('k \<times> 'v) list" where
  "bt_remove k m = filter (\<lambda>e. fst e \<noteq> k) m"

fun bs_insert :: "'a::linorder \<Rightarrow> 'a list \<Rightarrow> 'a list" where
  "bs_insert x [] = [x]"
| "bs_insert x (y # ys) =
     (if y < x then y # bs_insert x ys else if y = x then y # ys else x # y # ys)"

text \<open>\<open>get_mut(&k)\<close> followed by an update of the value: nothing happens on a missing key.\<close>

definition bt_update :: "'k \<Rightarrow> ('v \<Rightarrow> 'v) \<Rightarrow> ('k \<times> 'v) list \<Rightarrow> ('k \<times> 'v) list" where
  "bt_update k f m = map (\<lambda>e. if fst e = k then (k, f (snd e)) else e) m"

definition bs_of_list :: "'a::linorder list \<Rightarrow> 'a list" where
  "bs_of_list xs = fold bs_insert xs []"

definition bt_of_list :: "('k::linorder \<times> 'v) list \<Rightarrow> ('k \<times> 'v) list" where
  "bt_of_list es = fold (\<lambda>e. bt_insert (fst e) (snd e)) es []"

lemma set_bs_insert [simp]: "set (bs_insert x ys) = insert x (set ys)"
  by (induction ys) auto

lemma sorted_bs_insert [simp]: "sorted_wrt (<) ys \<Longrightarrow> sorted_wrt (<) (bs_insert x ys)"
  by (induction ys) auto

lemma set_fold_bs_insert: "set (fold bs_insert xs ys) = set xs \<union> set ys"
  by (induction xs arbitrary: ys) auto

lemma sorted_fold_bs_insert: "sorted_wrt (<) ys \<Longrightarrow> sorted_wrt (<) (fold bs_insert xs ys)"
  by (induction xs arbitrary: ys) auto

lemma set_bs_of_list [simp]: "set (bs_of_list xs) = set xs"
  by (simp add: bs_of_list_def set_fold_bs_insert)

lemma sorted_bs_of_list [simp]: "sorted_wrt (<) (bs_of_list xs)"
  by (simp add: bs_of_list_def sorted_fold_bs_insert)

lemma bs_insert_id: "sorted_wrt (<) xs \<Longrightarrow> x \<in> set xs \<Longrightarrow> bs_insert x xs = xs"
  by (induction xs) auto

lemma keys_bt_insert [simp]: "set (map fst (bt_insert k v m)) = insert k (set (map fst m))"
  by (induction m) auto

lemma fst_image_bt_insert [simp]: "fst ` set (bt_insert k v m) = insert k (fst ` set m)"
  using keys_bt_insert [of k v m] by simp

lemma sorted_bt_insert [simp]: "strict_sorted_keys m \<Longrightarrow> strict_sorted_keys (bt_insert k v m)"
proof (induction m)
  case (Cons e m)
  have "set (map fst (bt_insert k v m)) = insert k (set (map fst m))" by (rule keys_bt_insert)
  with Cons show ?case by (auto simp del: keys_bt_insert)
qed simp

lemma map_of_bt_insert [simp]:
  "strict_sorted_keys m \<Longrightarrow> map_of (bt_insert k v m) = (map_of m)(k \<mapsto> v)"
proof (induction m)
  case (Cons e m)
  obtain a b where e: "e = (a, b)" by (cases e)
  show ?case
  proof (cases "k < a")
    case True
    with Cons e show ?thesis by auto
  next
    case False
    with Cons e show ?thesis by (auto simp: fun_eq_iff)
  qed
qed simp

lemma keys_bt_remove [simp]: "set (map fst (bt_remove k m)) = set (map fst m) - {k}"
  by (auto simp: bt_remove_def)

lemma sorted_bt_remove [simp]: "strict_sorted_keys m \<Longrightarrow> strict_sorted_keys (bt_remove k m)"
  by (induction m) (auto simp: bt_remove_def)

lemma map_of_bt_remove [simp]: "map_of (bt_remove k m) = (map_of m)(k := None)"
  by (induction m) (auto simp: bt_remove_def fun_eq_iff)

lemma map_fst_bt_update [simp]: "map fst (bt_update k f m) = map fst m"
  by (induction m) (auto simp: bt_update_def)

lemma map_of_bt_update [simp]:
  "map_of (bt_update k f m) = (map_of m)(k := map_option f (map_of m k))"
  by (induction m) (auto simp: bt_update_def fun_eq_iff)

lemma strict_sorted_distinct: "strict_sorted_keys m \<Longrightarrow> distinct (map fst m)"
  using strict_sorted_iff by blast

lemma map_of_strict_sorted_iff:
  "strict_sorted_keys m \<Longrightarrow> map_of m k = Some v \<longleftrightarrow> (k, v) \<in> set m"
  by (simp add: strict_sorted_distinct)

lemma sorted_fold_bt_insert:
  "strict_sorted_keys m \<Longrightarrow>
   strict_sorted_keys (fold (\<lambda>e. bt_insert (fst e) (snd e)) es m)"
  by (induction es arbitrary: m) simp_all

lemma sorted_bt_of_list [simp]: "strict_sorted_keys (bt_of_list es)"
  by (simp add: bt_of_list_def sorted_fold_bt_insert)

lemma map_of_fold_bt_insert:
  "strict_sorted_keys m \<Longrightarrow> distinct (map fst es) \<Longrightarrow>
   map_of (fold (\<lambda>e. bt_insert (fst e) (snd e)) es m) = map_of m ++ map_of es"
proof (induction es arbitrary: m)
  case (Cons e es)
  obtain k v where e: "e = (k, v)" by (cases e)
  from Cons.prems e have "k \<notin> dom (map_of es)"
    by (simp add: dom_map_of_conv_image_fst)
  then have none: "map_of es k = None" by (simp add: domIff)
  have "map_of (fold (\<lambda>e. bt_insert (fst e) (snd e)) es (bt_insert k v m)) =
      (map_of m)(k \<mapsto> v) ++ map_of es"
    using Cons.IH [of "bt_insert k v m"] Cons.prems e by (simp add: fun_upd_def)
  also have "\<dots> = map_of m ++ map_of (e # es)"
    using none e by (auto simp: map_add_def fun_eq_iff split: option.splits)
  finally show ?case by (simp only: e fold_simps fst_conv snd_conv)
qed simp

lemma map_of_bt_of_list [simp]:
  "distinct (map fst es) \<Longrightarrow> map_of (bt_of_list es) = map_of es"
  by (simp add: bt_of_list_def map_of_fold_bt_insert)

lemma keys_fold_bt_insert:
  "fst ` set (fold (\<lambda>e. bt_insert (fst e) (snd e)) es m) = fst ` set es \<union> fst ` set m"
  by (induction es arbitrary: m) auto

lemma keys_bt_of_list [simp]: "fst ` set (bt_of_list es) = fst ` set es"
  by (simp add: bt_of_list_def keys_fold_bt_insert)

section \<open>Loops over lists\<close>

text \<open>\<open>iter().position(P)\<close>.\<close>

fun position :: "('a \<Rightarrow> bool) \<Rightarrow> 'a list \<Rightarrow> nat option" where
  "position P [] = None"
| "position P (x # xs) = (if P x then Some 0 else map_option Suc (position P xs))"

text \<open>A loop that pushes one result per element and stops at the first failure.\<close>

fun map_res :: "('a \<Rightarrow> 'f + 'b) \<Rightarrow> 'a list \<Rightarrow> 'f + 'b list" where
  "map_res f [] = Inr []"
| "map_res f (x # xs) = rbind (f x) (\<lambda>y. rbind (map_res f xs) (\<lambda>ys. Inr (y # ys)))"

text \<open>A loop that updates a state and stops at the first failure.\<close>

fun fold_res :: "('a \<Rightarrow> 's \<Rightarrow> 'f + 's) \<Rightarrow> 'a list \<Rightarrow> 's \<Rightarrow> 'f + 's" where
  "fold_res f [] s = Inr s"
| "fold_res f (x # xs) s = rbind (f x s) (fold_res f xs)"

lemma position_takeWhile:
  "(case position P xs of None \<Rightarrow> length xs | Some k \<Rightarrow> k) = length (takeWhile (\<lambda>x. \<not> P x) xs)"
  by (induction xs) (auto split: option.splits)

lemma map_res_Inr_iff:
  "map_res f xs = Inr ys \<longleftrightarrow> list_all2 (\<lambda>x y. f x = Inr y) xs ys"
  by (induction xs arbitrary: ys) (auto simp: rbind_Inr_iff list_all2_Cons1)

lemma map_res_total: "(\<And>x. x \<in> set xs \<Longrightarrow> f x = Inr (g x)) \<Longrightarrow> map_res f xs = Inr (map g xs)"
  by (induction xs) auto

lemma no_panic_map_res:
  "(\<And>x. x \<in> set xs \<Longrightarrow> no_panic (f x)) \<Longrightarrow> no_panic (map_res f xs)"
  by (induction xs) (auto intro!: no_panic_rbind)

lemma fold_res_append: "fold_res f (xs @ ys) s = rbind (fold_res f xs s) (fold_res f ys)"
proof (induction xs arbitrary: s)
  case (Cons x xs)
  then show ?case by (cases "f x s") simp_all
qed simp

text \<open>Invariants of a loop: of its state at the end, and of panics on the way.\<close>

lemma fold_res_invariant:
  assumes "fold_res f xs s = Inr s'" "I s"
    and "\<And>x s s'. x \<in> set xs \<Longrightarrow> I s \<Longrightarrow> f x s = Inr s' \<Longrightarrow> I s'"
  shows "I s'"
  using assms by (induction xs arbitrary: s) (auto simp: rbind_Inr_iff)

lemma no_panic_fold_res:
  assumes "I s"
    and "\<And>x s s'. x \<in> set xs \<Longrightarrow> I s \<Longrightarrow> f x s = Inr s' \<Longrightarrow> I s'"
    and "\<And>x s. x \<in> set xs \<Longrightarrow> I s \<Longrightarrow> no_panic (f x s)"
  shows "no_panic (fold_res f xs s)"
  using assms
proof (induction xs arbitrary: s)
  case (Cons x xs)
  have "no_panic (f x s)" using Cons.prems(1) Cons.prems(3) by simp
  moreover have "no_panic (fold_res f xs s')" if "f x s = Inr s'" for s'
  proof (rule Cons.IH)
    show "I s'" using Cons.prems(2) [of x s s'] Cons.prems(1) that by simp
  qed (use Cons.prems(2,3) in auto)
  ultimately show ?case by auto
qed simp

section \<open>Lists\<close>

lemma nth_strict_sorted_less:
  "sorted_wrt (<) xs \<Longrightarrow> i < j \<Longrightarrow> j < length xs \<Longrightarrow> xs ! i < (xs ! j :: 'a::order)"
  by (simp add: sorted_wrt_iff_nth_less)

lemma strict_sorted_nth_inj:
  "sorted_wrt (<) xs \<Longrightarrow> i < length xs \<Longrightarrow> j < length xs \<Longrightarrow> xs ! i = xs ! j \<Longrightarrow> i = (j::nat)"
  for xs :: "'a::linorder list"
  using strict_sorted_iff nth_eq_iff_index_eq by blast

lemma take_eq_take_mono: "take n xs = take n ys \<Longrightarrow> m \<le> n \<Longrightarrow> take m xs = take m ys"
  by (metis min.absorb1 take_take)

lemma map_of_zip_index:
  "distinct xs \<Longrightarrow> map_of (zip xs [0..<length xs]) x = Some j \<longleftrightarrow> j < length xs \<and> xs ! j = x"
  by (auto simp: in_set_zip)

lemma bt_insert_last:
  "\<forall>e \<in> set m. fst e < k \<Longrightarrow> bt_insert k v m = m @ [(k, v)]"
  by (induction m) auto

lemma bt_of_list_sorted: "strict_sorted_keys es \<Longrightarrow> bt_of_list es = es"
proof (induction es rule: rev_induct)
  case (snoc e es)
  then have "bt_of_list es = es" by (simp add: sorted_wrt_append)
  moreover have "\<forall>x \<in> set es. fst x < fst e" using snoc.prems by (simp add: sorted_wrt_append)
  ultimately show ?case by (simp add: bt_of_list_def bt_insert_last)
qed (simp add: bt_of_list_def)

lemma length_takeWhile_index:
  assumes "k \<le> m" "m \<le> length xs" "\<forall>j. k \<le> j \<and> j < m \<longrightarrow> P (xs ! j)"
    and "m < length xs \<Longrightarrow> \<not> P (xs ! m)"
  shows "k + length (takeWhile P (drop k xs)) = m"
proof -
  have "takeWhile P (drop k xs) = take (m - k) (drop k xs)"
    by (rule takeWhile_eq_take_P_nth) (use assms in auto)
  then show ?thesis using assms by simp
qed

lemma strict_sorted_gap:
  assumes "sorted_wrt (<) xs" "x \<in> set xs" "xs ! k < x" "k < length xs"
  shows "Suc k < length xs \<and> xs ! Suc k \<le> (x :: 'a::linorder)"
proof -
  obtain j where j: "j < length xs" "x = xs ! j" using assms(2) by (auto simp: in_set_conv_nth)
  then have "k < j" using assms nth_strict_sorted_less [of xs j k]
    by (metis linorder_neqE_nat order_less_asym less_irrefl)
  then have "Suc k \<le> j" by simp
  with j show ?thesis using nth_strict_sorted_less [OF assms(1), of "Suc k" j]
    by (metis le_less_trans nat_less_le order_less_imp_le order_refl)
qed

lemma nth_last: "Suc j = length xs \<Longrightarrow> xs ! j = last xs"
  by (cases xs rule: rev_cases) auto

end
