(* ===== verification/Decode.thy ===== *)
theory Decode
  imports Prelude
begin

text \<open>
  Bytecode decoding, \<^verbatim>\<open>jit/src/bytecode/decode.rs\<close>: operand formats, opcode metadata,
  instructions with their operand readers, branch targets, and the bounded decoder.

  The opcode table \<^verbatim>\<open>QJSJIT_GENERATED_OPCODES\<close> is generated by the build from the QuickJS
  headers, which are not part of this repository: it is the parameter \<open>tbl\<close>. What the Rust
  code relies on of one entry is \<open>wf_opcode_layout\<close>: a positive size, a known operand format,
  and room for the operand bytes the readers access.
\<close>

datatype operand_format =
    FmtNone | NoneInt | NoneLocal | NoneArgument | NoneClosure
  | U8 | I8 | Local8 | Constant8 | Label8
  | U16 | I16 | Label16 | NPop | NPopFixed | NPopU16
  | Local | Argument | Closure
  | U32 | U32x2 | I32 | Constant | Label
  | Atom | AtomU8 | AtomU16 | AtomLabelU8 | AtomLabelU16 | LabelU16

definition from_name :: "string \<Rightarrow> operand_format option" where
  "from_name nm =
     (if nm = ''none'' then Some FmtNone
      else if nm = ''none_int'' then Some NoneInt
      else if nm = ''none_loc'' then Some NoneLocal
      else if nm = ''none_arg'' then Some NoneArgument
      else if nm = ''none_var_ref'' then Some NoneClosure
      else if nm = ''u8'' then Some U8
      else if nm = ''i8'' then Some I8
      else if nm = ''loc8'' then Some Local8
      else if nm = ''const8'' then Some Constant8
      else if nm = ''label8'' then Some Label8
      else if nm = ''u16'' then Some U16
      else if nm = ''i16'' then Some I16
      else if nm = ''label16'' then Some Label16
      else if nm = ''npop'' then Some NPop
      else if nm = ''npopx'' then Some NPopFixed
      else if nm = ''npop_u16'' then Some NPopU16
      else if nm = ''loc'' then Some Local
      else if nm = ''arg'' then Some Argument
      else if nm = ''var_ref'' then Some Closure
      else if nm = ''u32'' then Some U32
      else if nm = ''u32x2'' then Some U32x2
      else if nm = ''i32'' then Some I32
      else if nm = ''const'' then Some Constant
      else if nm = ''label'' then Some Label
      else if nm = ''atom'' then Some Atom
      else if nm = ''atom_u8'' then Some AtomU8
      else if nm = ''atom_u16'' then Some AtomU16
      else if nm = ''atom_label_u8'' then Some AtomLabelU8
      else if nm = ''atom_label_u16'' then Some AtomLabelU16
      else if nm = ''label_u16'' then Some LabelU16
      else None)"

text \<open>\<^verbatim>\<open>JitGeneratedOpcode\<close>, one row of the generated table.\<close>

record opcode =
  op_code :: "8 word"
  op_size :: nat
  op_n_pop :: nat
  op_n_push :: nat
  op_format_name :: string
  op_name :: string

type_synonym opcode_table = "opcode list"

definition from_byte :: "opcode_table \<Rightarrow> 8 word \<Rightarrow> opcode option" where
  "from_byte tbl v =
     (case get_opt tbl (unat v) of
        None \<Rightarrow> None
      | Some info \<Rightarrow> if op_code info = v then Some info else None)"

text \<open>\<open>Opcode::format\<close>; an unknown format name is an \<^verbatim>\<open>unreachable!\<close>.\<close>

definition op_format :: "opcode \<Rightarrow> ('e, operand_format) fallible" where
  "op_format op = expect (from_name (op_format_name op))"

record instruction =
  ins_pc :: nat
  ins_opcode :: opcode
  ins_bytes :: "8 word list"

abbreviation ins_name :: "instruction \<Rightarrow> string" where
  "ins_name i \<equiv> op_name (ins_opcode i)"

definition ins_size :: "instruction \<Rightarrow> nat" where
  "ins_size i = length (ins_bytes i)"

definition ins_format :: "instruction \<Rightarrow> ('e, operand_format) fallible" where
  "ins_format i = op_format (ins_opcode i)"

definition operand_u8 :: "instruction \<Rightarrow> nat \<Rightarrow> ('e, nat) fallible" where
  "operand_u8 i k = rbind (index (ins_bytes i) k) (\<lambda>b. Inr (unat b))"

definition operand_i8 :: "instruction \<Rightarrow> nat \<Rightarrow> ('e, int) fallible" where
  "operand_i8 i k = rbind (index (ins_bytes i) k) (\<lambda>b. Inr (sint b))"

definition operand_u16 :: "instruction \<Rightarrow> nat \<Rightarrow> ('e, nat) fallible" where
  "operand_u16 i k =
     rbind (operand_u8 i k) (\<lambda>b0. rbind (operand_u8 i (k + 1)) (\<lambda>b1. Inr (b0 + 256 * b1)))"

definition operand_i16 :: "instruction \<Rightarrow> nat \<Rightarrow> ('e, int) fallible" where
  "operand_i16 i k = rbind (operand_u16 i k) (\<lambda>n. Inr (as_i16 n))"

definition operand_u32 :: "instruction \<Rightarrow> nat \<Rightarrow> ('e, nat) fallible" where
  "operand_u32 i k =
     rbind (operand_u8 i k) (\<lambda>b0. rbind (operand_u8 i (k + 1)) (\<lambda>b1.
     rbind (operand_u8 i (k + 2)) (\<lambda>b2. rbind (operand_u8 i (k + 3)) (\<lambda>b3.
       Inr (b0 + 256 * b1 + 65536 * b2 + 16777216 * b3)))))"

definition operand_i32 :: "instruction \<Rightarrow> nat \<Rightarrow> ('e, int) fallible" where
  "operand_i32 i k = rbind (operand_u32 i k) (\<lambda>n. Inr (as_i32 n))"

definition branch_target :: "instruction \<Rightarrow> ('e, int option) fallible" where
  "branch_target i =
     rbind (ins_format i) (\<lambda>f.
       let operand_pc = int (ins_pc i) + 1 in
       case f of
         Label8 \<Rightarrow> rbind (operand_i8 i 1) (\<lambda>d. Inr (Some (operand_pc + d)))
       | Label16 \<Rightarrow> rbind (operand_i16 i 1) (\<lambda>d. Inr (Some (operand_pc + d)))
       | Label \<Rightarrow> rbind (operand_i32 i 1) (\<lambda>d. Inr (Some (operand_pc + d)))
       | LabelU16 \<Rightarrow> rbind (operand_i32 i 1) (\<lambda>d. Inr (Some (operand_pc + d)))
       | AtomLabelU8 \<Rightarrow> rbind (operand_i32 i 5) (\<lambda>d. Inr (Some (operand_pc + 4 + d)))
       | AtomLabelU16 \<Rightarrow> rbind (operand_i32 i 5) (\<lambda>d. Inr (Some (operand_pc + 4 + d)))
       | _ \<Rightarrow> Inr None)"

datatype decode_error =
    UnknownOpcode nat "8 word"
  | InvalidOpcode nat
  | Truncated nat nat

datatype bounded_decode_error = DecodeErr decode_error | InstructionLimit nat

text \<open>
  The loop of \<open>decode_bounded\<close>. It stops because each round adds one instruction and the
  guard stops at \<open>max_instructions\<close>, whatever sizes the table has.
\<close>

function decode_loop ::
  "opcode_table \<Rightarrow> 8 word list \<Rightarrow> nat \<Rightarrow> instruction list \<Rightarrow> nat
    \<Rightarrow> bounded_decode_error + instruction list"
where
  "decode_loop tbl bytes max_instructions result p =
     (if p < length bytes then
        if max_instructions \<le> length result then Inl (InstructionLimit (as_u32 p))
        else
          case from_byte tbl (bytes ! p) of
            None \<Rightarrow> Inl (DecodeErr (UnknownOpcode (as_u32 p) (bytes ! p)))
          | Some op \<Rightarrow>
              if op_name op = ''invalid'' then Inl (DecodeErr (InvalidOpcode (as_u32 p)))
              else
                case checked_add usize_max p (op_size op) of
                  None \<Rightarrow> Inl (DecodeErr (Truncated (as_u32 p) (op_size op)))
                | Some e \<Rightarrow>
                    if length bytes < e then Inl (DecodeErr (Truncated (as_u32 p) (op_size op)))
                    else decode_loop tbl bytes max_instructions
                           (result @ [\<lparr>ins_pc = as_u32 p, ins_opcode = op,
                                       ins_bytes = take (op_size op) (drop p bytes)\<rparr>]) e
      else Inr result)"
  by pat_completeness auto
termination
  by (relation "measure (\<lambda>(tbl, bytes, mx, result, p). mx - length result)") auto

declare decode_loop.simps [simp del]

definition decode_bounded ::
  "opcode_table \<Rightarrow> 8 word list \<Rightarrow> nat \<Rightarrow> bounded_decode_error + instruction list" where
  "decode_bounded tbl bytes max_instructions = decode_loop tbl bytes max_instructions [] 0"

definition decode_raw ::
  "opcode_table \<Rightarrow> 8 word list \<Rightarrow> (decode_error, instruction list) fallible" where
  "decode_raw tbl bytes =
     (case decode_bounded tbl bytes usize_max of
        Inl (DecodeErr e) \<Rightarrow> reject e
      | Inl (InstructionLimit _) \<Rightarrow> panic
      | Inr is \<Rightarrow> Inr is)"

section \<open>What the operand readers need of the table\<close>

text \<open>The number of leading bytes of an instruction that the readers of its format access.\<close>

fun operand_extent :: "operand_format \<Rightarrow> nat" where
  "operand_extent Label8 = 2"
| "operand_extent Local8 = 2"
| "operand_extent Constant8 = 2"
| "operand_extent U8 = 2"
| "operand_extent Label16 = 3"
| "operand_extent NPop = 3"
| "operand_extent NPopU16 = 3"
| "operand_extent Local = 3"
| "operand_extent Argument = 3"
| "operand_extent Closure = 3"
| "operand_extent Label = 5"
| "operand_extent LabelU16 = 5"
| "operand_extent Constant = 5"
| "operand_extent AtomU16 = 7"
| "operand_extent AtomLabelU8 = 9"
| "operand_extent AtomLabelU16 = 9"
| "operand_extent _ = 1"

definition wf_opcode_layout :: "opcode \<Rightarrow> bool" where
  "wf_opcode_layout op \<longleftrightarrow>
     (case from_name (op_format_name op) of
        None \<Rightarrow> False
      | Some f \<Rightarrow> operand_extent f \<le> op_size op)"

lemma operand_extent_pos: "1 \<le> operand_extent f"
  by (cases f) simp_all

lemma wf_opcode_layout_size: "wf_opcode_layout op \<Longrightarrow> 0 < op_size op"
  by (auto simp: wf_opcode_layout_def split: option.splits
      dest: order_trans [OF operand_extent_pos])

definition wf_instruction :: "instruction \<Rightarrow> bool" where
  "wf_instruction i \<longleftrightarrow>
     wf_opcode_layout (ins_opcode i) \<and> ins_size i = op_size (ins_opcode i)"

lemma operand_u8_no_panic:
  "k < ins_size i \<Longrightarrow> \<exists>n < 256. operand_u8 i k = Inr n"
  using unsigned_less [of "ins_bytes i ! k"] by (simp add: operand_u8_def ins_size_def)

lemma operand_u16_no_panic:
  assumes "k + 1 < ins_size i"
  shows "\<exists>n < 65536. operand_u16 i k = Inr n"
proof -
  from assms obtain b0 b1 where "b0 < 256" "b1 < 256"
    "operand_u8 i k = (Inr b0 :: ('a, nat) fallible)"
    "operand_u8 i (k + 1) = (Inr b1 :: ('a, nat) fallible)"
    using operand_u8_no_panic [of k i] operand_u8_no_panic [of "k + 1" i]
    by (metis add_lessD1)
  then show ?thesis by (intro exI [of _ "b0 + 256 * b1"]) (simp add: operand_u16_def)
qed

lemma operand_u32_no_panic:
  assumes "k + 3 < ins_size i"
  shows "\<exists>n < 4294967296. operand_u32 i k = Inr n"
proof -
  have byte: "\<exists>b < 256. operand_u8 i j = (Inr b :: ('a, nat) fallible)" if "j \<le> k + 3" for j
    using operand_u8_no_panic [of j i] that assms by simp
  obtain b0 where 0: "b0 < 256" "operand_u8 i k = (Inr b0 :: ('a, nat) fallible)"
    using byte [of k] by auto
  obtain b1 where 1: "b1 < 256" "operand_u8 i (k + 1) = (Inr b1 :: ('a, nat) fallible)"
    using byte [of "k + 1"] by auto
  obtain b2 where 2: "b2 < 256" "operand_u8 i (k + 2) = (Inr b2 :: ('a, nat) fallible)"
    using byte [of "k + 2"] by auto
  obtain b3 where 3: "b3 < 256" "operand_u8 i (k + 3) = (Inr b3 :: ('a, nat) fallible)"
    using byte [of "k + 3"] by auto
  from 0 1 2 3 show ?thesis
    by (intro exI [of _ "b0 + 256 * b1 + 65536 * b2 + 16777216 * b3"])
      (simp add: operand_u32_def)
qed

lemma wf_instruction_format:
  assumes "wf_instruction i"
  obtains f where "ins_format i = Inr f" "operand_extent f \<le> ins_size i"
  using assms
  by (auto simp: wf_instruction_def wf_opcode_layout_def ins_format_def op_format_def
      split: option.splits)

lemma operand_i8_in_range:
  assumes "k < ins_size i" shows "\<exists>d. operand_i8 i k = Inr d \<and> -128 \<le> d \<and> d < 128"
  using assms sint_range_size [of "ins_bytes i ! k"]
  by (simp add: operand_i8_def ins_size_def word_size)

lemma branch_target_no_panic:
  assumes "wf_instruction i"
  shows "\<exists>t. branch_target i = (Inr t :: ('e, int option) fallible)"
proof -
  obtain f where f: "ins_format i = (Inr f :: ('e, operand_format) fallible)"
    and ext: "operand_extent f \<le> ins_size i"
    using wf_instruction_format [OF assms] by blast
  have i8: "\<exists>d. operand_i8 i 1 = (Inr d :: ('e, int) fallible)" if "2 \<le> ins_size i"
    using operand_i8_in_range [of 1 i] that by fastforce
  have i16: "\<exists>d. operand_i16 i 1 = (Inr d :: ('e, int) fallible)" if "3 \<le> ins_size i"
  proof -
    from that have "1 + 1 < ins_size i" by simp
    from operand_u16_no_panic [OF this, where ?'a = 'e] show ?thesis
      by (auto simp: operand_i16_def)
  qed
  have i32: "\<exists>d. operand_i32 i k = (Inr d :: ('e, int) fallible)" if "k + 4 \<le> ins_size i" for k
  proof -
    from that have "k + 3 < ins_size i" by simp
    from operand_u32_no_panic [OF this, where ?'a = 'e] show ?thesis
      by (auto simp: operand_i32_def)
  qed
  show ?thesis
    using f ext i8 i16 i32 [of 1] i32 [of 5]
    by (cases f) (auto simp: branch_target_def Let_def)
qed

section \<open>The decoder against its specification\<close>

text \<open>
  \<open>decoded tbl p is\<close>: the instructions lie one after the other from byte \<open>p\<close> on, and each
  carries the table's row for its first byte and exactly as many bytes as that row says.
\<close>

fun decoded :: "opcode_table \<Rightarrow> nat \<Rightarrow> instruction list \<Rightarrow> bool" where
  "decoded tbl p [] \<longleftrightarrow> True"
| "decoded tbl p (i # is) \<longleftrightarrow>
     ins_bytes i \<noteq> [] \<and> from_byte tbl (hd (ins_bytes i)) = Some (ins_opcode i) \<and>
     ins_name i \<noteq> ''invalid'' \<and> ins_size i = op_size (ins_opcode i) \<and>
     ins_pc i = as_u32 p \<and> decoded tbl (p + ins_size i) is"

definition positive_sizes :: "opcode_table \<Rightarrow> bool" where
  "positive_sizes tbl \<longleftrightarrow> list_all (\<lambda>op. 0 < op_size op) tbl"

abbreviation bytes_of :: "instruction list \<Rightarrow> 8 word list" where
  "bytes_of is \<equiv> concat (map ins_bytes is)"

lemma from_byte_in_table: "from_byte tbl v = Some op \<Longrightarrow> op \<in> set tbl \<and> op_code op = v"
  using nth_mem by (fastforce simp: from_byte_def split: option.splits if_splits)

lemma positive_sizesD: "positive_sizes tbl \<Longrightarrow> from_byte tbl v = Some op \<Longrightarrow> 0 < op_size op"
  using from_byte_in_table by (fastforce simp: positive_sizes_def list_all_iff)

lemma decoded_append:
  "decoded tbl p (is @ js) \<longleftrightarrow> decoded tbl p is \<and> decoded tbl (p + length (bytes_of is)) js"
  by (induction "is" arbitrary: p) (auto simp: ins_size_def add.assoc)

lemma decoded_size_pos: "decoded tbl p is \<Longrightarrow> i \<in> set is \<Longrightarrow> 0 < ins_size i"
  by (induction "is" arbitrary: p) (auto simp: ins_size_def)

lemma decoded_length: "decoded tbl p is \<Longrightarrow> length is \<le> length (bytes_of is)"
proof (induction "is" arbitrary: p)
  case (Cons i "is")
  then have "Suc 0 \<le> length (ins_bytes i)" "length is \<le> length (bytes_of is)"
    by (auto simp: Suc_le_eq)
  then show ?case by (simp only: list.map concat.simps length_append list.size)
qed simp

lemma decode_step:
  assumes "p < length bytes" "length result < mx" "from_byte tbl (bytes ! p) = Some op"
    "op_name op \<noteq> ''invalid''" "p + op_size op \<le> length bytes" "length bytes \<le> usize_max"
  shows "decode_loop tbl bytes mx result p =
    decode_loop tbl bytes mx
      (result @ [\<lparr>ins_pc = as_u32 p, ins_opcode = op, ins_bytes = take (op_size op) (drop p bytes)\<rparr>])
      (p + op_size op)"
  using assms by (subst decode_loop.simps) (simp add: checked_add_def)

lemma decode_loop_complete:
  assumes "decoded tbl p new" "drop p bytes = bytes_of new" "length result + length new \<le> mx"
    "length bytes \<le> usize_max"
  shows "decode_loop tbl bytes mx result p = Inr (result @ new)"
  using assms
proof (induction new arbitrary: p result)
  case Nil
  then have "\<not> p < length bytes" by simp
  then show ?case by (subst decode_loop.simps) simp
next
  case (Cons i new)
  let ?n = "op_size (ins_opcode i)"
  from Cons.prems have i: "length (ins_bytes i) = ?n" "ins_bytes i \<noteq> []"
      "from_byte tbl (hd (ins_bytes i)) = Some (ins_opcode i)" "ins_name i \<noteq> ''invalid''"
      "ins_pc i = as_u32 p" "decoded tbl (p + ?n) new"
    and drop: "drop p bytes = ins_bytes i @ bytes_of new"
    by (auto simp: ins_size_def)
  from drop i have p: "p < length bytes" by (metis append_is_Nil_conv drop_all not_le)
  have len: "length bytes = p + ?n + length (bytes_of new)"
    using arg_cong [OF drop, of length] i(1) p by (simp add: length_concat)
  have byte: "bytes ! p = hd (ins_bytes i)"
    using drop i(2) p by (metis hd_append2 hd_drop_conv_nth)
  have take: "take ?n (drop p bytes) = ins_bytes i" using drop i(1) by simp
  have rest: "drop (p + ?n) bytes = bytes_of new"
    using drop i(1) by (metis append_eq_conv_conj drop_drop add.commute)
  have eq: "\<lparr>ins_pc = as_u32 p, ins_opcode = ins_opcode i, ins_bytes = take ?n (drop p bytes)\<rparr> = i"
    using i(5) take by simp
  have "decode_loop tbl bytes mx result p = decode_loop tbl bytes mx (result @ [i]) (p + ?n)"
    using decode_step [of p bytes result mx tbl "ins_opcode i"] p Cons.prems(3,4) byte i(3,4) len eq
    by simp
  also have "\<dots> = Inr ((result @ [i]) @ new)"
    using Cons.IH [OF i(6) rest, of "result @ [i]"] Cons.prems(3,4) by simp
  finally show ?case by simp
qed

text \<open>What a call of the loop does: decode a prefix, and stop at its end for a stated reason.\<close>

definition stops_at ::
  "opcode_table \<Rightarrow> 8 word list \<Rightarrow> nat \<Rightarrow> nat \<Rightarrow> nat \<Rightarrow> bounded_decode_error \<Rightarrow> bool" where
  "stops_at tbl bytes mx count q e \<longleftrightarrow> q < length bytes \<and>
     (case e of
        InstructionLimit k \<Rightarrow> k = as_u32 q \<and> mx \<le> count
      | DecodeErr (UnknownOpcode k b) \<Rightarrow>
          k = as_u32 q \<and> b = bytes ! q \<and> from_byte tbl b = None
      | DecodeErr (InvalidOpcode k) \<Rightarrow>
          k = as_u32 q \<and> (\<exists>op. from_byte tbl (bytes ! q) = Some op \<and> op_name op = ''invalid'')
      | DecodeErr (Truncated k n) \<Rightarrow>
          k = as_u32 q \<and> length bytes < q + n \<and>
          (\<exists>op. from_byte tbl (bytes ! q) = Some op \<and> op_size op = n))"

lemma decode_loop_outcome:
  assumes "positive_sizes tbl" "length bytes \<le> usize_max" "p \<le> length bytes"
  shows "\<exists>new rest. decoded tbl p new \<and> drop p bytes = bytes_of new @ rest \<and>
    (new \<noteq> [] \<longrightarrow> length result + length new \<le> mx) \<and>
    (case decode_loop tbl bytes mx result p of
       Inr is \<Rightarrow> rest = [] \<and> is = result @ new
     | Inl e \<Rightarrow> stops_at tbl bytes mx (length result + length new) (p + length (bytes_of new)) e)"
  using assms
proof (induction tbl bytes mx result p rule: decode_loop.induct)
  case (1 tbl bytes mx result p)
  show ?case
  proof (cases "p < length bytes \<and> length result < mx \<and>
      (\<exists>op. from_byte tbl (bytes ! p) = Some op \<and> op_name op \<noteq> ''invalid'' \<and>
            p + op_size op \<le> length bytes)")
    case False
    then have "case decode_loop tbl bytes mx result p of
        Inr is \<Rightarrow> drop p bytes = [] \<and> is = result
      | Inl e \<Rightarrow> stops_at tbl bytes mx (length result) p e"
      using "1.prems"
      by (subst decode_loop.simps)
        (auto simp: stops_at_def checked_add_def split: option.splits)
    then show ?thesis
      by (intro exI [of _ "[]"] exI [of _ "drop p bytes"]) (auto split: sum.splits)
  next
    case True
    then obtain op where op: "from_byte tbl (bytes ! p) = Some op" "op_name op \<noteq> ''invalid''"
      and fits: "p + op_size op \<le> length bytes" and p: "p < length bytes" "length result < mx"
      by blast
    let ?i = "\<lparr>ins_pc = as_u32 p, ins_opcode = op, ins_bytes = take (op_size op) (drop p bytes)\<rparr>"
    let ?q = "p + op_size op"
    have pos: "0 < op_size op" using positive_sizesD "1.prems"(1) op(1) by blast
    have step: "decode_loop tbl bytes mx result p = decode_loop tbl bytes mx (result @ [?i]) ?q"
      using decode_step op fits p "1.prems"(2) by simp
    have sum: "checked_add usize_max p (op_size op) = Some ?q" using fits "1.prems"(2) by simp
    have guards: "\<not> mx \<le> length result" "\<not> length bytes < ?q" using p(2) fits by simp_all
    have "\<exists>new rest. decoded tbl ?q new \<and> drop ?q bytes = bytes_of new @ rest \<and>
      (new \<noteq> [] \<longrightarrow> length (result @ [?i]) + length new \<le> mx) \<and>
      (case decode_loop tbl bytes mx (result @ [?i]) ?q of
         Inr is \<Rightarrow> rest = [] \<and> is = (result @ [?i]) @ new
       | Inl e \<Rightarrow> stops_at tbl bytes mx (length (result @ [?i]) + length new)
           (?q + length (bytes_of new)) e)"
      using "1.IH" [OF p(1) guards(1) op sum guards(2) "1.prems"(1,2) fits] .
    then obtain new rest where IH: "decoded tbl ?q new" "drop ?q bytes = bytes_of new @ rest"
      "new \<noteq> [] \<longrightarrow> Suc (length result) + length new \<le> mx"
      "case decode_loop tbl bytes mx (result @ [?i]) ?q of
         Inr is \<Rightarrow> rest = [] \<and> is = (result @ [?i]) @ new
       | Inl e \<Rightarrow> stops_at tbl bytes mx (Suc (length result) + length new)
           (?q + length (bytes_of new)) e"
      by (metis length_append_singleton)
    have "hd (ins_bytes ?i) = bytes ! p" using p(1) pos by (simp add: hd_drop_conv_nth)
    moreover have size: "ins_size ?i = op_size op" using fits by (simp add: ins_size_def)
    ultimately have dec: "decoded tbl p (?i # new)"
      using IH(1) op pos p(1) by (simp add: size)
    have "drop p bytes = take (op_size op) (drop p bytes) @ drop ?q bytes"
      by (metis append_take_drop_id drop_drop add.commute)
    then have split: "drop p bytes = bytes_of (?i # new) @ rest"
      using IH(2) by simp
    have stop: "p + length (bytes_of (?i # new)) = ?q + length (bytes_of new)"
      using size by (simp add: ins_size_def)
    have count: "length result + length (?i # new) = Suc (length result) + length new" by simp
    have "case decode_loop tbl bytes mx result p of
        Inr is \<Rightarrow> rest = [] \<and> is = result @ ?i # new
      | Inl e \<Rightarrow> stops_at tbl bytes mx (length result + length (?i # new))
          (p + length (bytes_of (?i # new))) e"
      using IH(4) unfolding step stop count by (simp split: sum.splits)
    moreover have "length result + length (?i # new) \<le> mx" using IH(3) p(2) by (cases new) simp_all
    ultimately show ?thesis using dec split by blast
  qed
qed

lemma decode_bounded_iff:
  assumes "positive_sizes tbl" "length bytes \<le> usize_max"
  shows "decode_bounded tbl bytes mx = Inr is \<longleftrightarrow>
    decoded tbl 0 is \<and> bytes_of is = bytes \<and> length is \<le> mx"
proof
  assume "decode_bounded tbl bytes mx = Inr is"
  then show "decoded tbl 0 is \<and> bytes_of is = bytes \<and> length is \<le> mx"
    using decode_loop_outcome [OF assms, of 0 "[]" mx] by (cases "is") (auto simp: decode_bounded_def)
next
  assume "decoded tbl 0 is \<and> bytes_of is = bytes \<and> length is \<le> mx"
  then show "decode_bounded tbl bytes mx = Inr is"
    using decode_loop_complete [of tbl 0 "is" bytes "[]" mx] assms(2)
    by (simp add: decode_bounded_def)
qed

lemma decode_bounded_Inl:
  assumes "positive_sizes tbl" "length bytes \<le> usize_max" "decode_bounded tbl bytes mx = Inl e"
  obtains new rest where "decoded tbl 0 new" "bytes = bytes_of new @ rest"
    "stops_at tbl bytes mx (length new) (length (bytes_of new)) e"
  using decode_loop_outcome [OF assms(1,2), of 0 "[]" mx] assms(3)
  by (auto simp: decode_bounded_def)

section \<open>A sample table\<close>

text \<open>
  A small table of the shape the build generates, used to evaluate the definitions: the row of
  opcode \<open>n\<close> is at index \<open>n\<close>, row 0 is \<^verbatim>\<open>invalid\<close>. \<open>sample_loop\<close> is the bytecode of a function
  with one local and a loop, \<open>sample_try\<close> that of one with a try region, a finally block and
  a handler.
\<close>

definition sample_row :: "8 word \<Rightarrow> string \<Rightarrow> nat \<Rightarrow> nat \<Rightarrow> nat \<Rightarrow> string \<Rightarrow> opcode" where
  "sample_row b nm sz pops pushes fmt =
     \<lparr>op_code = b, op_size = sz, op_n_pop = pops, op_n_push = pushes, op_format_name = fmt,
      op_name = nm\<rparr>"

definition sample_table :: opcode_table where
  "sample_table =
     [sample_row 0 ''invalid'' 1 0 0 ''none'',
      sample_row 1 ''push_i32'' 5 0 1 ''i32'',
      sample_row 2 ''push_0'' 1 0 1 ''none_int'',
      sample_row 3 ''drop'' 1 1 0 ''none'',
      sample_row 4 ''return_undef'' 1 0 0 ''none'',
      sample_row 5 ''goto8'' 2 0 0 ''label8'',
      sample_row 6 ''if_false8'' 2 1 0 ''label8'',
      sample_row 7 ''get_loc0'' 1 0 1 ''none_loc'',
      sample_row 8 ''put_loc0'' 1 1 0 ''none_loc'',
      sample_row 9 ''catch'' 5 0 1 ''label'',
      sample_row 10 ''gosub'' 5 0 0 ''label'',
      sample_row 11 ''ret'' 1 1 0 ''none'',
      sample_row 12 ''push_const8'' 2 0 1 ''const8'']"

definition sample_loop :: "8 word list" where
  "sample_loop = [2, 8, 7, 6, 3, 5, 252, 4]"

definition sample_try :: "8 word list" where
  "sample_try = [9, 11, 0, 0, 0, 3, 10, 12, 0, 0, 0, 4, 3, 10, 5, 0, 0, 0, 4, 11]"

section \<open>Properties\<close>

text \<open>
  C10. The decoder is exact. On a table whose rows have positive sizes, \<open>decode_bounded\<close> returns a
  list of instructions if and only if that list is a decoding of the bytes (one instruction after
  the other, each with the row of its first byte and that row's number of bytes), its bytes
  concatenate to the input, and it is no longer than the limit. In particular a decoding is unique
  and re-encoding it gives back the input.
\<close>

theorem decode_bounded_exact:
  assumes "positive_sizes tbl" "length bytes \<le> usize_max"
  shows "decode_bounded tbl bytes mx = Inr is \<longleftrightarrow>
    decoded tbl 0 is \<and> bytes_of is = bytes \<and> length is \<le> mx"
  using decode_bounded_iff [OF assms] .

theorem decode_bounded_exact_witness:
  "\<exists>is. decode_bounded sample_table sample_loop 100 = Inr is \<and> length is = 6 \<and>
     decoded sample_table 0 is \<and> bytes_of is = sample_loop \<and> length is \<le> 100"
proof -
  have pos: "positive_sizes sample_table" and len: "length sample_loop \<le> usize_max"
    by code_simp+
  obtain "is" where "is": "decode_bounded sample_table sample_loop 100 = Inr is" "length is = 6"
  proof -
    have "case decode_bounded sample_table sample_loop 100 of Inl _ \<Rightarrow> False | Inr is \<Rightarrow> length is = 6"
      by code_simp
    then show ?thesis using that by (auto split: sum.splits)
  qed
  with decode_bounded_exact [OF pos len, of 100 "is"] show ?thesis by blast
qed

text \<open>
  C11. Decoding errors are truthful. When \<open>decode_bounded\<close> fails, a prefix of the bytes decodes, and
  at the first byte after that prefix the reported reason holds: the reported pc is that position,
  an unknown opcode has no row, an invalid one has the row \<^verbatim>\<open>invalid\<close>, a truncated one needs
  more bytes than are left, and the instruction limit is reported only when that many instructions
  have been decoded.
\<close>

theorem decode_error_truthful:
  assumes "positive_sizes tbl" "length bytes \<le> usize_max" "decode_bounded tbl bytes mx = Inl e"
  shows "\<exists>new rest. decoded tbl 0 new \<and> bytes = bytes_of new @ rest \<and>
    stops_at tbl bytes mx (length new) (length (bytes_of new)) e"
  using decode_bounded_Inl [OF assms] by metis

theorem decode_error_truthful_witness:
  "\<exists>new rest. decoded sample_table 0 new \<and> [2, 5] = bytes_of new @ rest \<and>
     stops_at sample_table [2, 5] 100 (length new) (length (bytes_of new)) (DecodeErr (Truncated 1 2))"
proof (rule decode_error_truthful)
  show "positive_sizes sample_table" by code_simp
  show "length [2, 5 :: 8 word] \<le> usize_max" by code_simp
  show "decode_bounded sample_table [2, 5] 100 = Inl (DecodeErr (Truncated 1 2))" by code_simp
qed

text \<open>
  \<open>decode_raw\<close> never panics: its \<^verbatim>\<open>unreachable!\<close> for an instruction limit of \<^verbatim>\<open>usize::MAX\<close> is
  indeed unreachable for bytes that fit in memory.
\<close>

theorem decode_raw_no_panic:
  assumes pos: "positive_sizes tbl" and len: "length bytes \<le> usize_max"
  shows "no_panic (decode_raw tbl bytes)"
proof (cases "decode_bounded tbl bytes usize_max")
  case (Inl e)
  obtain new rest where new: "decoded tbl 0 new" "bytes = bytes_of new @ rest"
    and stop: "stops_at tbl bytes usize_max (length new) (length (bytes_of new)) e"
    using decode_bounded_Inl [OF pos len Inl] by blast
  have "length (bytes_of new) < length bytes" using stop by (simp add: stops_at_def)
  with decoded_length [OF new(1)] len have "length new < usize_max" by linarith
  with stop have "\<exists>d. e = DecodeErr d"
    by (cases e) (auto simp: stops_at_def)
  with Inl show ?thesis by (auto simp: decode_raw_def)
qed (simp add: decode_raw_def)

theorem decode_raw_no_panic_witness: "no_panic (decode_raw sample_table sample_try)"
  by (rule decode_raw_no_panic) (code_simp, code_simp)

end
