(* ===== verification/Snapshot.thy ===== *)
theory Snapshot
  imports Decode
begin

text \<open>
  Owned bytecode snapshots, \<^verbatim>\<open>jit/src/bytecode/mod.rs\<close>: the data the verifier reads, the
  constructors for untrusted bytecode, the copy of a C-side snapshot, and the status codes of the
  QuickJS adapter.

  \<open>build_env\<close> collects what the build and the target provide and the sources do not fix: the
  generated opcode table and its fingerprint, and the sizes \<^verbatim>\<open>size_of::<T>()\<close> of the
  descriptor types. The pointers of the C structure are optional lists, \<open>None\<close> for null.
\<close>

unbundle bit_operations_syntax

datatype slot_kind = Tagged | Int32 | Float64 | CatchOffset | Uninitialized

record constant_descriptor =
  cd_index :: nat
  cd_tag :: int
  cd_kind :: nat
  cd_payload :: nat

definition JS_TAG_INT :: int where "JS_TAG_INT = 0"
definition JS_TAG_FLOAT64 :: int where "JS_TAG_FLOAT64 = 8"
definition SOURCE_REVISION :: nat where "SOURCE_REVISION = 0x0fdea21ff1090084"

section \<open>Function flags\<close>

type_synonym function_flags = "32 word"

definition flags_STRICT :: function_flags where "flags_STRICT = 1"

definition flags_SUPPORTED :: function_flags where "flags_SUPPORTED = flags_STRICT"

definition flags_from_raw :: "32 word \<Rightarrow> function_flags option" where
  "flags_from_raw bits = (if bits AND NOT flags_SUPPORTED = 0 then Some bits else None)"

definition non_strict :: function_flags where "non_strict = 0"

definition strict :: function_flags where "strict = flags_STRICT"

definition is_strict :: "function_flags \<Rightarrow> bool" where
  "is_strict f \<longleftrightarrow> f AND flags_STRICT \<noteq> 0"

section \<open>Verifier metadata\<close>

record osr_point =
  osr_pc :: nat
  osr_live_slots :: "slot_kind list"

record deopt_point =
  deopt_pc :: nat
  deopt_before :: "slot_kind list"
  deopt_after :: "slot_kind list"

record verifier_metadata =
  osr_points :: "osr_point list"
  deopt_points :: "deopt_point list"

definition empty_metadata :: verifier_metadata where
  "empty_metadata = \<lparr>osr_points = [], deopt_points = []\<rparr>"

text \<open>
  \<open>byte_len\<close>: the two sums are plain \<open>usize\<close> sums over lists that fit in memory, their total
  saturates.
\<close>

definition metadata_byte_len :: "verifier_metadata \<Rightarrow> nat" where
  "metadata_byte_len m =
     (let osr = sum_list (map (\<lambda>p. 4 + length (osr_live_slots p)) (osr_points m));
          deopt = sum_list (map (\<lambda>p. 4 + length (deopt_before p) + length (deopt_after p))
                    (deopt_points m))
      in sat_add usize_max osr deopt)"

section \<open>Snapshots\<close>

record compile_snapshot =
  function_id :: nat
  generation :: nat
  source_revision :: nat
  opcode_fingerprint :: nat
  flags :: function_flags
  bytecode :: "8 word list"
  arg_count :: nat
  local_count :: nat
  closure_count :: nat
  stack_size :: nat
  constants :: "constant_descriptor list"
  constant_count :: nat
  exception_map :: "8 word list"
  source_map :: "8 word list"
  metadata :: verifier_metadata

record build_env =
  env_table :: opcode_table
  env_opcode_fingerprint :: nat
  env_descriptor_size :: nat
  env_raw_descriptor_size :: nat
  env_raw_struct_size :: nat

definition owned_bytes :: "build_env \<Rightarrow> compile_snapshot \<Rightarrow> nat" where
  "owned_bytes env s =
     sat_add usize_max
       (sat_add usize_max
         (sat_add usize_max (length (bytecode s)) (length (exception_map s)))
         (length (source_map s)))
       (sat_mul usize_max (length (constants s)) (env_descriptor_size env))"

definition snapshot_decode ::
  "build_env \<Rightarrow> compile_snapshot \<Rightarrow> (decode_error, instruction list) fallible" where
  "snapshot_decode env s = decode_raw (env_table env) (bytecode s)"

definition with_metadata :: "compile_snapshot \<Rightarrow> verifier_metadata \<Rightarrow> compile_snapshot" where
  "with_metadata s m = s\<lparr>metadata := m\<rparr>"

definition with_exception_map :: "compile_snapshot \<Rightarrow> 8 word list \<Rightarrow> compile_snapshot" where
  "with_exception_map s m = s\<lparr>exception_map := m\<rparr>"

definition from_untrusted_bytecode_with_flags ::
  "build_env \<Rightarrow> 8 word list \<Rightarrow> nat \<Rightarrow> nat \<Rightarrow> nat \<Rightarrow> nat \<Rightarrow> function_flags \<Rightarrow> compile_snapshot" where
  "from_untrusted_bytecode_with_flags env bs args locals closures consts fl =
     \<lparr>function_id = 0, generation = 0, source_revision = SOURCE_REVISION,
      opcode_fingerprint = env_opcode_fingerprint env, flags = fl, bytecode = bs,
      arg_count = args, local_count = locals, closure_count = closures,
      stack_size = u16_max, constants = [], constant_count = consts,
      exception_map = [], source_map = [], metadata = empty_metadata\<rparr>"

definition from_untrusted_bytecode ::
  "build_env \<Rightarrow> 8 word list \<Rightarrow> nat \<Rightarrow> nat \<Rightarrow> nat \<Rightarrow> nat \<Rightarrow> compile_snapshot" where
  "from_untrusted_bytecode env bs args locals closures consts =
     from_untrusted_bytecode_with_flags env bs args locals closures consts non_strict"

section \<open>Status codes of the snapshot adapter\<close>

datatype snapshot_status =
    StatusOk | InvalidArgument | NotBytecode | StatusGenerator | StatusAsync | StatusEval
  | StatusWith | OutOfMemory | TooLarge | InvalidBytecode | IncompatibleAbi

definition status_from_raw :: "int \<Rightarrow> snapshot_status" where
  "status_from_raw st =
     (if st = 0 then StatusOk
      else if st = -1 then InvalidArgument
      else if st = -2 then NotBytecode
      else if st = -3 then StatusGenerator
      else if st = -4 then StatusAsync
      else if st = -5 then StatusEval
      else if st = -6 then StatusWith
      else if st = -7 then OutOfMemory
      else if st = -8 then TooLarge
      else InvalidBytecode)"

section \<open>Copying a C-side snapshot\<close>

record raw_snapshot =
  raw_struct_size :: nat
  raw_source_revision :: nat
  raw_opcode_fingerprint :: nat
  raw_function_id :: nat
  raw_generation :: nat
  raw_flags :: "32 word"
  raw_arg_count :: nat
  raw_local_count :: nat
  raw_closure_count :: nat
  raw_stack_size :: nat
  raw_bytecode :: "8 word list option"
  raw_bytecode_len :: nat
  raw_constants :: "constant_descriptor list option"
  raw_constant_count :: nat
  raw_exception_map :: "8 word list option"
  raw_exception_map_len :: nat
  raw_source_map :: "8 word list option"
  raw_source_map_len :: nat

definition MAX_RAW_SNAPSHOT :: nat where "MAX_RAW_SNAPSHOT = 64 * 1024 * 1024"

text \<open>\<^verbatim>\<open>slice::from_raw_parts(pointer, len).to_vec()\<close>, guarded.\<close>

definition copied :: "'a list option \<Rightarrow> nat \<Rightarrow> snapshot_status + 'a list" where
  "copied pointer len =
     (if len = 0 then Inr []
      else case pointer of None \<Rightarrow> Inl InvalidBytecode | Some xs \<Rightarrow> Inr (take len xs))"

definition copy_raw :: "build_env \<Rightarrow> raw_snapshot \<Rightarrow> snapshot_status + compile_snapshot" where
  "copy_raw env raw =
     (if raw_struct_size raw \<noteq> env_raw_struct_size env
         \<or> raw_source_revision raw \<noteq> SOURCE_REVISION
         \<or> raw_opcode_fingerprint raw \<noteq> env_opcode_fingerprint env
      then Inl IncompatibleAbi
      else case flags_from_raw (raw_flags raw) of
        None \<Rightarrow> Inl IncompatibleAbi
      | Some fl \<Rightarrow>
          (let total = sat_add usize_max
                 (sat_add usize_max
                   (sat_add usize_max (raw_bytecode_len raw) (raw_exception_map_len raw))
                   (raw_source_map_len raw))
                 (sat_mul usize_max (raw_constant_count raw) (env_raw_descriptor_size env))
           in if MAX_RAW_SNAPSHOT < total then Inl TooLarge
              else rbind (copied (raw_constants raw) (raw_constant_count raw)) (\<lambda>cs.
                   rbind (copied (raw_bytecode raw) (raw_bytecode_len raw)) (\<lambda>bs.
                   rbind (copied (raw_exception_map raw) (raw_exception_map_len raw)) (\<lambda>em.
                   rbind (copied (raw_source_map raw) (raw_source_map_len raw)) (\<lambda>sm.
                     Inr \<lparr>function_id = raw_function_id raw, generation = raw_generation raw,
                          source_revision = raw_source_revision raw,
                          opcode_fingerprint = raw_opcode_fingerprint raw, flags = fl,
                          bytecode = bs, arg_count = raw_arg_count raw,
                          local_count = raw_local_count raw,
                          closure_count = raw_closure_count raw,
                          stack_size = raw_stack_size raw, constants = cs,
                          constant_count = raw_constant_count raw, exception_map = em,
                          source_map = sm, metadata = empty_metadata\<rparr>))))))"

section \<open>Facts about snapshots\<close>

lemma flags_from_raw_Some_iff:
  "flags_from_raw bits = Some f \<longleftrightarrow> f = bits \<and> (bits = non_strict \<or> bits = strict)"
proof -
  have "bits AND NOT 1 = 0 \<longleftrightarrow> bits = 0 \<or> bits = 1"
  proof
    assume h: "bits AND NOT 1 = 0"
    have "bits = (bits AND NOT 1) OR (bits AND 1)"
      by (simp flip: bit.conj_disj_distrib)
    with h have "bits = bits AND 1" by simp
    then show "bits = 0 \<or> bits = 1" by (metis and_one_eq mod2_eq_if)
  qed auto
  then show ?thesis
    by (auto simp: flags_from_raw_def flags_SUPPORTED_def flags_STRICT_def non_strict_def
        strict_def)
qed

lemma copied_Inr:
  "copied p n = Inr xs \<Longrightarrow> (\<forall>ys. p = Some ys \<longrightarrow> n \<le> length ys) \<Longrightarrow>
     length xs = n \<and> (n = 0 \<or> (\<exists>ys. p = Some ys \<and> xs = take n ys))"
  by (auto simp: copied_def split: if_splits option.splits)

text \<open>The C adapter's promise: a non-null buffer holds as many elements as announced.\<close>

definition raw_contract :: "raw_snapshot \<Rightarrow> bool" where
  "raw_contract raw \<longleftrightarrow>
     (\<forall>xs. raw_bytecode raw = Some xs \<longrightarrow> raw_bytecode_len raw \<le> length xs) \<and>
     (\<forall>xs. raw_constants raw = Some xs \<longrightarrow> raw_constant_count raw \<le> length xs) \<and>
     (\<forall>xs. raw_exception_map raw = Some xs \<longrightarrow> raw_exception_map_len raw \<le> length xs) \<and>
     (\<forall>xs. raw_source_map raw = Some xs \<longrightarrow> raw_source_map_len raw \<le> length xs)"

lemma copy_raw_stages:
  assumes "copy_raw env raw = Inr s"
  shows
    "raw_source_revision raw = SOURCE_REVISION"
    "raw_opcode_fingerprint raw = env_opcode_fingerprint env"
    "flags_from_raw (raw_flags raw) = Some (flags s)"
    "sat_add usize_max
       (sat_add usize_max
         (sat_add usize_max (raw_bytecode_len raw) (raw_exception_map_len raw))
         (raw_source_map_len raw))
       (sat_mul usize_max (raw_constant_count raw) (env_raw_descriptor_size env)) \<le> MAX_RAW_SNAPSHOT"
    "copied (raw_constants raw) (raw_constant_count raw) = Inr (constants s)"
    "copied (raw_bytecode raw) (raw_bytecode_len raw) = Inr (bytecode s)"
    "copied (raw_exception_map raw) (raw_exception_map_len raw) = Inr (exception_map s)"
    "copied (raw_source_map raw) (raw_source_map_len raw) = Inr (source_map s)"
    "source_revision s = raw_source_revision raw"
    "opcode_fingerprint s = raw_opcode_fingerprint raw"
    "constant_count s = raw_constant_count raw" "metadata s = empty_metadata"
    "function_id s = raw_function_id raw" "generation s = raw_generation raw"
    "arg_count s = raw_arg_count raw" "local_count s = raw_local_count raw"
    "closure_count s = raw_closure_count raw" "stack_size s = raw_stack_size raw"
  using assms
  by (auto simp: copy_raw_def Let_def rbind_Inr_iff not_less split: if_splits option.splits)

lemma copied_length:
  "copied p n = Inr xs \<Longrightarrow> (\<forall>ys. p = Some ys \<longrightarrow> n \<le> length ys) \<Longrightarrow> length xs = n"
  using copied_Inr by blast

definition sample_raw :: "build_env \<Rightarrow> 8 word list \<Rightarrow> nat \<Rightarrow> raw_snapshot" where
  "sample_raw env bs locs =
     \<lparr>raw_struct_size = env_raw_struct_size env, raw_source_revision = SOURCE_REVISION,
      raw_opcode_fingerprint = env_opcode_fingerprint env, raw_function_id = 3,
      raw_generation = 1, raw_flags = 1, raw_arg_count = 0, raw_local_count = locs,
      raw_closure_count = 0, raw_stack_size = 4, raw_bytecode = Some bs,
      raw_bytecode_len = length bs, raw_constants = None, raw_constant_count = 0,
      raw_exception_map = None, raw_exception_map_len = 0, raw_source_map = None,
      raw_source_map_len = 0\<rparr>"

definition sample_env :: build_env where
  "sample_env =
     \<lparr>env_table = sample_table, env_opcode_fingerprint = 7, env_descriptor_size = 24,
      env_raw_descriptor_size = 24, env_raw_struct_size = 128\<rparr>"

section \<open>Properties\<close>

text \<open>The contents of a buffer of the C side that is announced with a length.\<close>

definition announced :: "'a list option \<Rightarrow> nat \<Rightarrow> 'a list" where
  "announced pointer len = (case pointer of None \<Rightarrow> [] | Some xs \<Rightarrow> take len xs)"

lemma copied_announced: "copied p n = Inr xs \<Longrightarrow> xs = announced p n \<and> (n \<noteq> 0 \<longrightarrow> p \<noteq> None)"
  by (auto simp: copied_def announced_def split: if_splits option.splits)

lemma raw_total_exact:
  assumes "sat_add usize_max (sat_add usize_max (sat_add usize_max a b) c) (sat_mul usize_max n d) \<le> MAX_RAW_SNAPSHOT"
  shows "a + b + c + n * d \<le> 64 * 1024 * 1024"
proof -
  have "(64 * 1024 * 1024 :: nat) < usize_max" by (simp add: usize_max_def u64_max_def)
  then show ?thesis using assms unfolding sat_add_def sat_mul_def MAX_RAW_SNAPSHOT_def by linarith
qed

text \<open>
  C12. A snapshot copied from the C side is complete and bounded. When \<open>copy_raw\<close> succeeds on
  buffers that are as long as announced, the bytecode, the constants, the exception map and the source
  map are the announced contents of their own buffers, in full length, and every scalar field is the
  one of the raw structure; the flags are the raw flags, which are the supported ones. The revision and
  the fingerprint are those of this build. The metadata is empty. The buffers together take at most
  64 MiB.
\<close>

theorem copy_raw_complete:
  assumes c: "raw_contract raw" and r: "copy_raw env raw = Inr s"
    and sz: "env_descriptor_size env \<le> env_raw_descriptor_size env"
  shows "s = \<lparr>function_id = raw_function_id raw, generation = raw_generation raw,
      source_revision = SOURCE_REVISION, opcode_fingerprint = env_opcode_fingerprint env,
      flags = raw_flags raw, bytecode = announced (raw_bytecode raw) (raw_bytecode_len raw),
      arg_count = raw_arg_count raw, local_count = raw_local_count raw,
      closure_count = raw_closure_count raw, stack_size = raw_stack_size raw,
      constants = announced (raw_constants raw) (raw_constant_count raw),
      constant_count = raw_constant_count raw,
      exception_map = announced (raw_exception_map raw) (raw_exception_map_len raw),
      source_map = announced (raw_source_map raw) (raw_source_map_len raw),
      metadata = \<lparr>osr_points = [], deopt_points = []\<rparr>\<rparr> \<and>
    length (bytecode s) = raw_bytecode_len raw \<and> length (constants s) = raw_constant_count raw \<and>
    length (exception_map s) = raw_exception_map_len raw \<and> length (source_map s) = raw_source_map_len raw \<and>
    (raw_flags raw = 0 \<or> raw_flags raw = 1) \<and>
    length (bytecode s) + length (exception_map s) + length (source_map s) +
      length (constants s) * env_descriptor_size env \<le> 64 * 1024 * 1024"
proof -
  note st = copy_raw_stages [OF r]
  have len: "length (bytecode s) = raw_bytecode_len raw"
    "length (constants s) = raw_constant_count raw"
    "length (exception_map s) = raw_exception_map_len raw"
    "length (source_map s) = raw_source_map_len raw"
    using copied_length [OF st(6)] copied_length [OF st(5)] copied_length [OF st(7)]
      copied_length [OF st(8)] c
    by (simp_all add: raw_contract_def)
  have fl: "flags s = raw_flags raw" "raw_flags raw = 0 \<or> raw_flags raw = 1"
    using st(3) flags_from_raw_Some_iff [of "raw_flags raw" "flags s"]
    by (auto simp: non_strict_def strict_def flags_STRICT_def)
  have "raw_constant_count raw * env_descriptor_size env \<le> raw_constant_count raw * env_raw_descriptor_size env"
    using sz by simp
  then have "length (bytecode s) + length (exception_map s) + length (source_map s) +
      length (constants s) * env_descriptor_size env \<le> 64 * 1024 * 1024"
    using raw_total_exact [OF st(4)] unfolding len by linarith
  moreover note buffers = st(5-8) [THEN copied_announced, THEN conjunct1]
  have "s = \<lparr>function_id = raw_function_id raw, generation = raw_generation raw,
      source_revision = SOURCE_REVISION, opcode_fingerprint = env_opcode_fingerprint env,
      flags = raw_flags raw, bytecode = announced (raw_bytecode raw) (raw_bytecode_len raw),
      arg_count = raw_arg_count raw, local_count = raw_local_count raw,
      closure_count = raw_closure_count raw, stack_size = raw_stack_size raw,
      constants = announced (raw_constants raw) (raw_constant_count raw),
      constant_count = raw_constant_count raw,
      exception_map = announced (raw_exception_map raw) (raw_exception_map_len raw),
      source_map = announced (raw_source_map raw) (raw_source_map_len raw),
      metadata = \<lparr>osr_points = [], deopt_points = []\<rparr>\<rparr>"
    using st(1,2,9-) fl(1) buffers unfolding empty_metadata_def by (cases s) simp
  ultimately show ?thesis using len fl(2) by blast
qed

theorem copy_raw_complete_witness:
  "\<exists>s. copy_raw sample_env ((sample_raw sample_env sample_loop 1)\<lparr>raw_source_map := Some [7, 9, 5],
       raw_source_map_len := 2\<rparr>) = Inr s \<and>
     bytecode s = sample_loop \<and> source_map s = [7, 9] \<and> exception_map s = [] \<and> local_count s = 1"
proof -
  let ?raw = "(sample_raw sample_env sample_loop 1)\<lparr>raw_source_map := Some [7, 9, 5], raw_source_map_len := 2\<rparr>"
  have ok: "case copy_raw sample_env ?raw of Inl _ \<Rightarrow> False | Inr s \<Rightarrow> True" by code_simp
  then obtain s where s: "copy_raw sample_env ?raw = Inr s" by (auto split: sum.splits)
  have c: "raw_contract ?raw" by (simp add: raw_contract_def sample_raw_def)
  have sz: "env_descriptor_size sample_env \<le> env_raw_descriptor_size sample_env" by code_simp
  have "announced (raw_bytecode ?raw) (raw_bytecode_len ?raw) = sample_loop"
    "announced (raw_source_map ?raw) (raw_source_map_len ?raw) = [7, 9]"
    "announced (raw_exception_map ?raw) (raw_exception_map_len ?raw) = []" "raw_local_count ?raw = 1"
    by (simp_all add: sample_raw_def announced_def)
  with copy_raw_complete [OF c s sz] s show ?thesis by (metis compile_snapshot.select_convs(6,8,13,14))
qed

end
