(* ===== verification/Verify_Error.thy ===== *)
theory Verify_Error
  imports Snapshot
begin

text \<open>
  Resource limits and errors of the verifier, \<^verbatim>\<open>jit/src/bytecode/verify.rs\<close>, shared by the control
  flow graph, the stack prover and the verifier itself.
\<close>

datatype resource = SnapshotBytes | DecodedInstructions | BasicBlocks | MetadataBytes | WorkUnits

record verify_limits =
  max_snapshot_bytes :: nat
  max_instructions :: nat
  max_basic_blocks :: nat
  max_metadata_bytes :: nat
  max_work_units :: nat

definition default_limits :: verify_limits where
  "default_limits =
     \<lparr>max_snapshot_bytes = 16 * 1024 * 1024, max_instructions = 1000000,
      max_basic_blocks = 65536, max_metadata_bytes = 8 * 1024 * 1024,
      max_work_units = 10000000\<rparr>"

datatype verify_error_kind =
    DecodeKind decode_error
  | IncompatibleSnapshot
  | EmptyBytecode
  | MissingTerminator
  | UnreachableInstruction
  | BranchTargetOutOfRange int
  | BranchTargetInsideInstruction nat
  | StackUnderflow nat nat
  | StackSizeExceeded nat nat
  | InconsistentMergeHeight nat nat
  | IncompatibleMergeKind nat slot_kind slot_kind
  | LocalIndexOutOfRange nat nat
  | ArgumentIndexOutOfRange nat nat
  | ClosureIndexOutOfRange nat nat
  | ConstantIndexOutOfRange nat nat
  | UnsupportedExceptionRegion
  | UnsupportedFunctionKind snapshot_status
  | OsrPointNotInstructionBoundary
  | OsrPointNotLoopHeader
  | IncompleteOsrState
  | DeoptPointNotInstructionBoundary
  | IncompleteDeoptState
  | ResourceLimit resource

datatype verify_error = VerifyError (err_pc: nat) (err_kind: verify_error_kind)

type_synonym 'a verifying = "(verify_error, 'a) fallible"

definition fail :: "nat \<Rightarrow> verify_error_kind \<Rightarrow> 'a verifying" where
  "fail pc k = reject (VerifyError pc k)"

lemma fail_simps [simp]:
  "fail pc k \<noteq> Inr x" "Inr x \<noteq> fail pc k" "rbind (fail pc k) f = fail pc k" "no_panic (fail pc k)"
  by (simp_all add: fail_def)

end
