(* ===== verification/Cfg.thy ===== *)
theory Cfg
  imports Verify_Error
begin

text \<open>
  The control flow graph, \<^verbatim>\<open>jit/src/bytecode/cfg.rs\<close>: the scan for block boundaries and loop
  headers, the basic blocks with their successors, and the resolution of every \<^verbatim>\<open>ret\<close> to the
  return points of the finally block that owns it.

  The two vectors the code uses as stacks are lists whose head is the top. The walk of
  \<open>link_subroutine_returns\<close> returns the visited set beside the owners: the code drops it, the
  proofs use it.
\<close>

record basic_block =
  start_pc :: nat
  end_pc :: nat
  range_first :: nat
  range_last :: nat
  successors :: "nat list"

record control_flow_graph =
  blocks :: "basic_block list"
  by_pc :: "(nat \<times> nat) list"
  loop_headers :: "nat list"

definition cfg_block :: "control_flow_graph \<Rightarrow> nat \<Rightarrow> ('e, basic_block option) fallible" where
  "cfg_block g pc =
     (case map_of (by_pc g) pc of
        None \<Rightarrow> Inr None
      | Some k \<Rightarrow> rbind (index (blocks g) k) (\<lambda>b. Inr (Some b)))"

definition is_loop_header :: "control_flow_graph \<Rightarrow> nat \<Rightarrow> bool" where
  "is_loop_header g pc \<longleftrightarrow> pc \<in> set (loop_headers g)"

definition is_unconditional :: "instruction \<Rightarrow> bool" where
  "is_unconditional i \<longleftrightarrow> ins_name i \<in> {''goto'', ''goto8'', ''goto16'', ''gosub''}"

definition is_subroutine_return :: "instruction \<Rightarrow> bool" where
  "is_subroutine_return i \<longleftrightarrow> ins_name i = ''ret''"

definition is_terminal :: "instruction \<Rightarrow> bool" where
  "is_terminal i \<longleftrightarrow>
     ins_name i \<in> {''return'', ''return_undef'', ''return_async'', ''throw'', ''throw_error'',
                   ''tail_call'', ''tail_call_method''}"

definition has_valid_exit :: "instruction \<Rightarrow> ('e, bool) fallible" where
  "has_valid_exit i =
     (if is_terminal i \<or> is_subroutine_return i then Inr True
      else rbind (branch_target i) (\<lambda>t. Inr (t \<noteq> None \<and> is_unconditional i)))"

section \<open>Boundaries\<close>

abbreviation after_ins :: "instruction \<Rightarrow> nat" where
  "after_ins i \<equiv> ins_pc i + ins_size i"

text \<open>One round of the scan; the state is \<open>(boundaries, loop_headers)\<close>.\<close>

definition scan_instruction ::
  "nat list \<Rightarrow> nat \<Rightarrow> instruction \<Rightarrow> nat list \<times> nat list \<Rightarrow> (nat list \<times> nat list) verifying" where
  "scan_instruction instruction_pcs byte_len i st =
     (let (boundaries, headers) = st; next_pc = after_ins i in
      rbind (branch_target i) (\<lambda>t.
        case t of
          Some target \<Rightarrow>
            if target < 0 \<or> byte_len \<le> nat target
            then fail (ins_pc i) (BranchTargetOutOfRange target)
            else
              let target = as_u32 (nat target) in
              if target \<notin> set instruction_pcs
              then fail (ins_pc i) (BranchTargetInsideInstruction target)
              else
                let boundaries = bs_insert target boundaries;
                    headers = (if target \<le> ins_pc i then bs_insert target headers else headers);
                    boundaries = (if next_pc < byte_len then bs_insert (as_u32 next_pc) boundaries
                                  else boundaries)
                in Inr (boundaries, headers)
        | None \<Rightarrow>
            if (is_terminal i \<or> is_subroutine_return i) \<and> next_pc < byte_len
            then Inr (bs_insert (as_u32 next_pc) boundaries, headers)
            else Inr (boundaries, headers)))"

section \<open>Blocks\<close>

definition tail_successors :: "nat \<Rightarrow> instruction \<Rightarrow> nat list verifying" where
  "tail_successors byte_len tail =
     (let next = (if after_ins tail < byte_len then [as_u32 (after_ins tail)] else []) in
      rbind (branch_target tail) (\<lambda>t.
        let succs = (case t of
            Some target \<Rightarrow>
              as_u32 (nat target) # (if \<not> is_unconditional tail then next else [])
          | None \<Rightarrow> if \<not> is_terminal tail \<and> \<not> is_subroutine_return tail then next else [])
        in Inr (remdups_adj (sort succs))))"

definition build_block ::
  "instruction list \<Rightarrow> nat \<Rightarrow> (nat \<times> nat) list \<Rightarrow> nat list \<Rightarrow> nat \<Rightarrow> basic_block verifying" where
  "build_block instructions byte_len index_by_pc starts pos =
     (let start = starts ! pos;
          stop = (case get_opt starts (pos + 1) of Some e \<Rightarrow> e | None \<Rightarrow> as_u32 byte_len) in
      rbind (expect (map_of index_by_pc start)) (\<lambda>first.
      let last_ix = (case position (\<lambda>i. stop \<le> ins_pc i) (drop first instructions) of
                   None \<Rightarrow> length instructions
                 | Some offset \<Rightarrow> first + offset) in
      rbind (expect (checked_sub last_ix 1)) (\<lambda>tail_ix.
      rbind (index instructions tail_ix) (\<lambda>tail.
      rbind (tail_successors byte_len tail) (\<lambda>succs.
        Inr \<lparr>start_pc = start, end_pc = stop, range_first = first, range_last = last_ix,
             successors = succs\<rparr>)))))"

text \<open>\<open>instructions[block.instruction_range.end - 1]\<close>.\<close>

definition block_tail :: "instruction list \<Rightarrow> basic_block \<Rightarrow> ('e, instruction) fallible" where
  "block_tail instructions b =
     rbind (expect (checked_sub (range_last b) 1)) (index instructions)"

section \<open>Linking of finally blocks\<close>

definition return_point :: "(nat \<times> nat) list \<Rightarrow> instruction \<Rightarrow> nat verifying" where
  "return_point pcs i =
     (case checked_add usize_max (ins_pc i) (ins_size i) of
        None \<Rightarrow> fail (ins_pc i) UnsupportedExceptionRegion
      | Some pc \<Rightarrow>
          if pc \<le> u32_max \<and> map_of pcs pc \<noteq> None then Inr pc
          else fail (ins_pc i) UnsupportedExceptionRegion)"

definition collect_return_point ::
  "instruction list \<Rightarrow> (nat \<times> nat) list \<Rightarrow> basic_block \<Rightarrow> (nat \<times> nat list) list
     \<Rightarrow> (nat \<times> nat list) list verifying" where
  "collect_return_point instructions pcs b return_points =
     rbind (block_tail instructions b) (\<lambda>tail.
       if ins_name tail = ''gosub'' then
         (case successors b of
            [] \<Rightarrow> fail (ins_pc tail) UnsupportedExceptionRegion
          | target # _ \<Rightarrow>
              rbind (return_point pcs tail) (\<lambda>pc.
                let old = (case map_of return_points target of None \<Rightarrow> [] | Some ps \<Rightarrow> ps)
                in Inr (bt_insert target (bs_insert pc old) return_points)))
       else Inr return_points)"

lemma visit_decreases:
  assumes "pc \<notin> set visited" "map_of pcs pc = Some k"
  shows "card (fst ` set pcs - insert pc (set visited)) < card (fst ` set pcs - set visited)"
proof (rule psubset_card_mono)
  have "pc \<in> fst ` set pcs" using assms(2) by (force dest: map_of_SomeD)
  with assms(1) show "fst ` set pcs - insert pc (set visited) \<subset> fst ` set pcs - set visited"
    by blast
qed simp

text \<open>The walk from one finally entry. Every round pops a pc and, if it is new, visits it.\<close>

function owner_walk ::
  "instruction list \<Rightarrow> basic_block list \<Rightarrow> (nat \<times> nat) list \<Rightarrow> nat \<Rightarrow> nat list \<Rightarrow> nat list
     \<Rightarrow> (nat \<times> nat) list \<Rightarrow> (nat list \<times> (nat \<times> nat) list) verifying"
where
  "owner_walk instructions bs pcs entry visited [] owners = Inr (visited, owners)"
| "owner_walk instructions bs pcs entry visited (pc # pending) owners =
     (if pc \<in> set visited then owner_walk instructions bs pcs entry visited pending owners
      else case map_of pcs pc of
        None \<Rightarrow> fail pc UnsupportedExceptionRegion
      | Some k \<Rightarrow>
          rbind (index bs k) (\<lambda>b.
          rbind (block_tail instructions b) (\<lambda>tail.
            if ins_name tail = ''ret'' then
              if (case map_of owners k of None \<Rightarrow> False | Some owner \<Rightarrow> owner \<noteq> entry)
              then fail (ins_pc tail) UnsupportedExceptionRegion
              else owner_walk instructions bs pcs entry (bs_insert pc visited) pending
                     (bt_insert k entry owners)
            else if ins_name tail = ''gosub'' then
              rbind (return_point pcs tail) (\<lambda>r.
                owner_walk instructions bs pcs entry (bs_insert pc visited) (r # pending) owners)
            else
              owner_walk instructions bs pcs entry (bs_insert pc visited)
                (rev (successors b) @ pending) owners)))"
  by pat_completeness auto
termination
  by (relation "measures [\<lambda>(is, bs, pcs, e, v, p, ow). card (fst ` set pcs - set v),
      \<lambda>(is, bs, pcs, e, v, p, ow). length p]")
    (auto intro: visit_decreases)

declare owner_walk.simps(2) [simp del]

definition install_returns ::
  "(nat \<times> nat list) list \<Rightarrow> nat \<times> nat \<Rightarrow> basic_block list \<Rightarrow> basic_block list verifying" where
  "install_returns return_points e bs =
     rbind (index bs (fst e)) (\<lambda>b.
     rbind (expect (map_of return_points (snd e))) (\<lambda>ps.
       Inr (bs[fst e := b\<lparr>successors := ps\<rparr>])))"

definition link_subroutine_returns ::
  "instruction list \<Rightarrow> basic_block list \<Rightarrow> (nat \<times> nat) list \<Rightarrow> basic_block list verifying" where
  "link_subroutine_returns instructions bs pcs =
     rbind (fold_res (collect_return_point instructions pcs) bs []) (\<lambda>return_points.
     rbind (fold_res (\<lambda>entry owners.
              rbind (owner_walk instructions bs pcs entry [] [entry] owners) (\<lambda>r. Inr (snd r)))
            (map fst return_points) []) (\<lambda>owners.
       fold_res (install_returns return_points) owners bs))"

definition build ::
  "instruction list \<Rightarrow> nat \<Rightarrow> nat \<Rightarrow> control_flow_graph verifying" where
  "build instructions byte_len max_blocks =
     (if instructions = [] then fail 0 EmptyBytecode
      else
        let instruction_pcs = bs_of_list (map ins_pc instructions) in
        rbind (fold_res (scan_instruction instruction_pcs byte_len) instructions ([0], []))
          (\<lambda>(starts, headers).
        if max_blocks < length starts then fail 0 (ResourceLimit BasicBlocks)
        else
          let index_by_pc =
                bt_of_list (zip (map ins_pc instructions) [0..<length instructions]) in
          rbind (map_res (build_block instructions byte_len index_by_pc starts)
                  [0..<length starts]) (\<lambda>bs.
          let pcs = bt_of_list (zip (map start_pc bs) [0..<length bs]) in
          rbind (link_subroutine_returns instructions bs pcs) (\<lambda>bs'.
            Inr \<lparr>blocks = bs', by_pc = pcs, loop_headers = headers\<rparr>))))"

section \<open>Instruction streams\<close>

text \<open>
  What the graph needs of the decoder: instructions of positive size that lie one after the
  other from byte \<open>p\<close> to byte \<open>n\<close>.
\<close>

fun contiguous :: "nat \<Rightarrow> instruction list \<Rightarrow> nat \<Rightarrow> bool" where
  "contiguous p [] n \<longleftrightarrow> p = n"
| "contiguous p (i # is) n \<longleftrightarrow>
     ins_pc i = p \<and> 0 < ins_size i \<and> contiguous (p + ins_size i) is n"

definition stream :: "instruction list \<Rightarrow> nat \<Rightarrow> bool" where
  "stream is n \<longleftrightarrow> contiguous 0 is n \<and> n \<le> u32_max \<and> list_all wf_instruction is"

definition wf_table :: "opcode_table \<Rightarrow> bool" where
  "wf_table tbl \<longleftrightarrow> list_all wf_opcode_layout tbl"

lemma wf_table_positive: "wf_table tbl \<Longrightarrow> positive_sizes tbl"
  by (auto simp: wf_table_def positive_sizes_def list_all_iff wf_opcode_layout_size)

lemma decoded_contiguous:
  "decoded tbl p is \<Longrightarrow> p + length (bytes_of is) \<le> u32_max \<Longrightarrow>
   contiguous p is (p + length (bytes_of is))"
proof (induction "is" arbitrary: p)
  case (Cons i "is")
  have "0 < ins_size i" using decoded_size_pos [OF Cons.prems(1)] by simp
  with Cons.prems show ?case
    using Cons.IH [of "p + ins_size i"] by (auto simp: ins_size_def add.assoc)
qed simp

lemma decoded_wf: "wf_table tbl \<Longrightarrow> decoded tbl p is \<Longrightarrow> list_all wf_instruction is"
  by (induction "is" arbitrary: p)
    (auto simp: wf_instruction_def wf_table_def list_all_iff dest: from_byte_in_table)

lemma decoded_stream:
  "wf_table tbl \<Longrightarrow> decoded tbl 0 is \<Longrightarrow> length (bytes_of is) \<le> u32_max \<Longrightarrow>
   stream is (length (bytes_of is))"
  using decoded_contiguous [of tbl 0 "is"] decoded_wf by (simp add: stream_def)

lemma contiguous_bounds:
  "contiguous p is n \<Longrightarrow> p \<le> n \<and> (\<forall>i \<in> set is. p \<le> ins_pc i \<and> after_ins i \<le> n)"
  by (induction "is" arbitrary: p) fastforce+

lemma contiguous_sorted: "contiguous p is n \<Longrightarrow> sorted_wrt (<) (map ins_pc is)"
proof (induction "is" arbitrary: p)
  case (Cons i "is")
  then have "\<forall>j \<in> set is. p + ins_size i \<le> ins_pc j"
    using contiguous_bounds [of "p + ins_size i" "is" n] by simp
  with Cons show ?case by fastforce
qed simp

lemma contiguous_after:
  "contiguous p is n \<Longrightarrow> k < length is \<Longrightarrow>
   after_ins (is ! k) = (if Suc k < length is then ins_pc (is ! Suc k) else n)"
proof (induction "is" arbitrary: p k)
  case (Cons i "is")
  then show ?case
  proof (cases k)
    case 0
    with Cons.prems show ?thesis by (cases "is") auto
  next
    case (Suc j)
    with Cons show ?thesis by auto
  qed
qed simp

lemma stream_sorted: "stream is n \<Longrightarrow> sorted_wrt (<) (map ins_pc is)"
  using contiguous_sorted by (auto simp: stream_def)

lemma stream_after:
  "stream is n \<Longrightarrow> k < length is \<Longrightarrow>
   after_ins (is ! k) = (if Suc k < length is then ins_pc (is ! Suc k) else n)"
  using contiguous_after by (auto simp: stream_def)

lemma stream_bounds:
  "stream is n \<Longrightarrow> i \<in> set is \<Longrightarrow> ins_pc i < n \<and> after_ins i \<le> n \<and> n \<le> u32_max"
  using contiguous_bounds [of 0 "is" n]
  by (fastforce simp: stream_def list_all_iff wf_instruction_def dest: wf_opcode_layout_size)

lemma stream_after_mem:
  assumes "stream is n" "i \<in> set is" "after_ins i < n"
  shows "after_ins i \<in> ins_pc ` set is"
proof -
  obtain k where "k < length is" "i = is ! k" using assms(2) by (auto simp: in_set_conv_nth)
  with assms stream_after [OF assms(1), of k] show ?thesis by (auto split: if_splits)
qed

lemma stream_hd: "stream is n \<Longrightarrow> is \<noteq> [] \<Longrightarrow> ins_pc (is ! 0) = 0"
  by (cases "is") (auto simp: stream_def)

lemma stream_pc_inj:
  "stream is n \<Longrightarrow> j < length is \<Longrightarrow> k < length is \<Longrightarrow> ins_pc (is ! j) = ins_pc (is ! k) \<Longrightarrow> j = k"
  using strict_sorted_nth_inj [OF stream_sorted, of "is" n j k] by simp

lemma stream_pc_less_iff:
  "stream is n \<Longrightarrow> j < length is \<Longrightarrow> k < length is \<Longrightarrow>
   ins_pc (is ! j) < ins_pc (is ! k) \<longleftrightarrow> j < k"
  using nth_strict_sorted_less [OF stream_sorted, of "is" n] stream_pc_inj [of "is" n j k]
  by (metis (no_types, lifting) length_map linorder_neqE_nat nth_map order_less_asym)

lemma stream_wf: "stream is n \<Longrightarrow> i \<in> set is \<Longrightarrow> wf_instruction i"
  by (simp add: stream_def list_all_iff)

section \<open>The scan\<close>

text \<open>What one instruction requires of the boundaries and loop headers.\<close>

definition scanned :: "nat \<Rightarrow> instruction \<Rightarrow> nat set \<Rightarrow> nat set \<Rightarrow> bool" where
  "scanned n i boundaries headers \<longleftrightarrow>
     (\<exists>t. branch_target i = (Inr t :: int option verifying) \<and>
        (case t of
           Some target \<Rightarrow>
             0 \<le> target \<and> nat target < n \<and> nat target \<in> boundaries \<and>
             (nat target \<le> ins_pc i \<longrightarrow> nat target \<in> headers) \<and>
             (after_ins i < n \<longrightarrow> after_ins i \<in> boundaries)
         | None \<Rightarrow>
             (is_terminal i \<or> is_subroutine_return i) \<and> after_ins i < n \<longrightarrow>
             after_ins i \<in> boundaries))"

definition scan_invariant :: "instruction list \<Rightarrow> nat list \<times> nat list \<Rightarrow> bool" where
  "scan_invariant is st \<longleftrightarrow>
     sorted_wrt (<) (fst st) \<and> sorted_wrt (<) (snd st) \<and> 0 \<in> set (fst st) \<and>
     set (fst st) \<subseteq> ins_pc ` set is \<and> set (snd st) \<subseteq> set (fst st) \<and>
     (\<forall>h \<in> set (snd st). \<exists>i \<in> set is. h \<le> ins_pc i \<and>
        branch_target i = (Inr (Some (int h)) :: int option verifying))"

lemma scanned_mono: "scanned n i B H \<Longrightarrow> B \<subseteq> B' \<Longrightarrow> H \<subseteq> H' \<Longrightarrow> scanned n i B' H'"
  unfolding scanned_def by (elim exE conjE, rule exI) (auto split: option.splits)

lemma scan_instruction_step:
  assumes "stream is n" "i \<in> set is" "scan_invariant is st"
    and step: "scan_instruction (bs_of_list (map ins_pc is)) n i st = Inr st'"
  shows "scan_invariant is st' \<and> scanned n i (set (fst st')) (set (snd st')) \<and>
    set (fst st) \<subseteq> set (fst st') \<and> set (snd st) \<subseteq> set (snd st')"
proof -
  obtain bnd hd where st: "st = (bnd, hd)" by (cases st)
  have bounds: "ins_pc i < n" "after_ins i \<le> n" "n \<le> u32_max"
    using stream_bounds [OF assms(1,2)] by auto
  have after: "as_u32 (after_ins i) = after_ins i" using bounds by simp
  have mem: "after_ins i < n \<Longrightarrow> after_ins i \<in> ins_pc ` set is"
    using stream_after_mem [OF assms(1,2)] .
  obtain t where t: "branch_target i = (Inr t :: int option verifying)"
    using step by (auto simp: scan_instruction_def st Let_def rbind_Inr_iff)
  show ?thesis
  proof (cases t)
    case None
    with assms(3) step t mem show ?thesis
      by (auto simp: scan_instruction_def st after scanned_def scan_invariant_def Let_def
          split: if_splits)
  next
    case (Some target)
    with step t have ok: "0 \<le> target" "nat target < n" and
      tgt: "as_u32 (nat target) \<in> ins_pc ` set is"
      by (auto simp: scan_instruction_def st Let_def split: if_splits)
    have trunc: "as_u32 (nat target) = nat target" using ok(2) bounds(3) by simp
    from step t Some ok have
      st': "st' = (let b = bs_insert (nat target) bnd in
          if after_ins i < n then bs_insert (after_ins i) b else b,
        if nat target \<le> ins_pc i then bs_insert (nat target) hd else hd)"
      by (auto simp: scan_instruction_def st Let_def after trunc split: if_splits)
    have sets: "set (fst st') =
        insert (nat target) (set bnd \<union> (if after_ins i < n then {after_ins i} else {}))"
      "set (snd st') = set hd \<union> (if nat target \<le> ins_pc i then {nat target} else {})"
      by (auto simp: st' Let_def)
    have bt: "branch_target i = (Inr (Some (int (nat target))) :: int option verifying)"
      using t Some ok(1) by simp
    have "sorted_wrt (<) (fst st')" "sorted_wrt (<) (snd st')"
      using assms(3) by (simp_all add: scan_invariant_def st st' Let_def)
    moreover have "\<forall>h \<in> set (snd st'). \<exists>i \<in> set is. h \<le> ins_pc i \<and>
        branch_target i = (Inr (Some (int h)) :: int option verifying)"
      using assms(2,3) bt unfolding sets(2) by (auto simp: scan_invariant_def st)
    ultimately have "scan_invariant is st'"
      using assms(3) tgt mem by (auto simp: scan_invariant_def st sets trunc)
    moreover have "scanned n i (set (fst st')) (set (snd st'))"
      using t Some ok by (simp add: scanned_def sets)
    ultimately show ?thesis using sets st by auto
  qed
qed

lemma scan_all:
  assumes "stream is n" "set js \<subseteq> set is" "scan_invariant is st"
    and "fold_res (scan_instruction (bs_of_list (map ins_pc is)) n) js st = Inr st'"
  shows "scan_invariant is st' \<and> set (fst st) \<subseteq> set (fst st') \<and> set (snd st) \<subseteq> set (snd st') \<and>
    (\<forall>i \<in> set js. scanned n i (set (fst st')) (set (snd st')))"
  using assms(2-)
proof (induction js arbitrary: st)
  case (Cons i js)
  then obtain s where s: "scan_instruction (bs_of_list (map ins_pc is)) n i st = Inr s"
    "fold_res (scan_instruction (bs_of_list (map ins_pc is)) n) js s = Inr st'"
    by (auto simp: rbind_Inr_iff)
  note one = scan_instruction_step [OF assms(1) _ Cons.prems(2) s(1)]
  have rest: "scan_invariant is st' \<and> set (fst s) \<subseteq> set (fst st') \<and> set (snd s) \<subseteq> set (snd st') \<and>
      (\<forall>i \<in> set js. scanned n i (set (fst st')) (set (snd st')))"
    using Cons.IH [of s] one Cons.prems(1) s(2) by auto
  have "i \<in> set is" using Cons.prems(1) by simp
  note one = one [OF this]
  have "scanned n i (set (fst st')) (set (snd st'))"
    using scanned_mono [of n i "set (fst s)" "set (snd s)"] one rest by simp
  with rest have "\<forall>i \<in> set (i # js). scanned n i (set (fst st')) (set (snd st'))" by simp
  with one rest show ?case by blast
qed simp

lemma scan_result:
  assumes "stream is n" "is \<noteq> []"
    and "fold_res (scan_instruction (bs_of_list (map ins_pc is)) n) is ([0], []) = Inr (starts, hs)"
  shows "scan_invariant is (starts, hs) \<and> (\<forall>i \<in> set is. scanned n i (set starts) (set hs))"
proof -
  have "0 \<in> ins_pc ` set is"
    using stream_hd [OF assms(1,2)] assms(2) by (auto simp: image_iff intro!: bexI [of _ "is ! 0"])
  then have "scan_invariant is ([0], [])" by (simp add: scan_invariant_def)
  from scan_all [OF assms(1) order_refl this assms(3)] show ?thesis by simp
qed

lemma scan_instruction_no_panic:
  assumes "wf_instruction i" shows "no_panic (scan_instruction pcs n i st)"
proof -
  obtain t where "branch_target i = (Inr t :: int option verifying)"
    using branch_target_no_panic [OF assms] by blast
  then show ?thesis by (cases t) (auto simp: scan_instruction_def Let_def split: prod.splits)
qed

section \<open>The blocks\<close>

text \<open>
  \<open>block_shape\<close>: the block at position \<open>k\<close> runs from the instruction at its start to the
  instruction at the next start, or to the end, and its successors are those of its tail.
\<close>

definition block_shape :: "instruction list \<Rightarrow> nat \<Rightarrow> nat list \<Rightarrow> nat \<Rightarrow> basic_block \<Rightarrow> bool" where
  "block_shape is n starts k b \<longleftrightarrow>
     start_pc b = starts ! k \<and> range_first b < range_last b \<and> range_last b \<le> length is \<and>
     ins_pc (is ! range_first b) = starts ! k \<and>
     (if Suc k < length starts
      then range_last b < length is \<and> ins_pc (is ! range_last b) = starts ! Suc k \<and>
           end_pc b = starts ! Suc k
      else range_last b = length is \<and> end_pc b = n) \<and>
     tail_successors n (is ! (range_last b - 1)) = Inr (successors b)"

lemma tail_successors_total:
  "wf_instruction i \<Longrightarrow> \<exists>ss. tail_successors n i = Inr ss"
  using branch_target_no_panic [of i, where ?'e = verify_error]
  by (auto simp: tail_successors_def Let_def)

lemma index_by_pc_iff:
  assumes "stream is n"
  shows "map_of (bt_of_list (zip (map ins_pc is) [0..<length is])) pc = Some j \<longleftrightarrow>
    j < length is \<and> ins_pc (is ! j) = pc"
proof -
  have d: "distinct (map ins_pc is)" using stream_sorted [OF assms] strict_sorted_iff by blast
  then show ?thesis using map_of_zip_index [of "map ins_pc is" pc j] by auto
qed

lemma build_block_shape:
  assumes str: "stream is n" and st: "sorted_wrt (<) starts" "set starts \<subseteq> ins_pc ` set is"
    and k: "k < length starts"
  shows "\<exists>b. build_block is n (bt_of_list (zip (map ins_pc is) [0..<length is])) starts k = Inr b \<and>
    block_shape is n starts k b"
proof -
  let ?ix = "bt_of_list (zip (map ins_pc is) [0..<length is])"
  have find: "\<exists>j < length is. ins_pc (is ! j) = starts ! k'" if "k' < length starts" for k'
    using st(2) that nth_mem [OF that] by (force simp: in_set_conv_nth)
  obtain f where f: "f < length is" "ins_pc (is ! f) = starts ! k" using find k by blast
  define m where "m = (if Suc k < length starts
    then SOME j. j < length is \<and> ins_pc (is ! j) = starts ! Suc k else length is)"
  define stop where "stop = (if Suc k < length starts then starts ! Suc k else n)"
  have m: "m < length is \<and> ins_pc (is ! m) = starts ! Suc k" if "Suc k < length starts"
    using someI_ex [of "\<lambda>j. j < length is \<and> ins_pc (is ! j) = starts ! Suc k"] find [OF that] that
    by (auto simp: m_def)
  have fm: "f < m"
  proof (cases "Suc k < length starts")
    case True
    then have "starts ! k < starts ! Suc k" using nth_strict_sorted_less [OF st(1)] by simp
    with m [OF True] f show ?thesis using stream_pc_less_iff [OF str] by metis
  qed (use f in \<open>simp add: m_def\<close>)
  have mlen: "m \<le> length is" using m by (cases "Suc k < length starts") (auto simp: m_def)
  have below: "\<not> stop \<le> ins_pc (is ! j)" if "j < m" for j
  proof (cases "Suc k < length starts")
    case True
    with m [OF True] that show ?thesis
      using stream_pc_less_iff [OF str, of j m] by (simp add: stop_def)
  next
    case False
    with that mlen show ?thesis using stream_bounds [OF str, of "is ! j"] by (simp add: stop_def)
  qed
  have at: "stop \<le> ins_pc (is ! m)" if "m < length is"
    using that m by (cases "Suc k < length starts") (auto simp: m_def stop_def)
  have "f + length (takeWhile (\<lambda>i. \<not> stop \<le> ins_pc i) (drop f is)) = m"
    by (rule length_takeWhile_index) (use fm mlen below at in auto)
  then have last_ix: "(case position (\<lambda>i. stop \<le> ins_pc i) (drop f is) of
      None \<Rightarrow> length is | Some offset \<Rightarrow> f + offset) = m"
    using position_takeWhile [where P = "\<lambda>i. stop \<le> ins_pc i" and xs = "drop f is"] f
    by (auto split: option.splits)
  have "n \<le> u32_max" using str by (simp add: stream_def)
  then have stop_eq: "(case get_opt starts (k + 1) of Some e \<Rightarrow> e | None \<Rightarrow> as_u32 n) = stop"
    by (auto simp: stop_def get_opt_def)
  obtain ss where ss: "tail_successors n (is ! (m - 1)) = Inr ss"
    using tail_successors_total stream_wf [OF str, of "is ! (m - 1)"] fm mlen by auto
  have "map_of ?ix (starts ! k) = Some f" using f index_by_pc_iff [OF str] by simp
  then have "build_block is n ?ix starts k = Inr \<lparr>start_pc = starts ! k, end_pc = stop,
      range_first = f, range_last = m, successors = ss\<rparr>"
    using fm mlen ss unfolding build_block_def Let_def stop_eq
    by (simp add: last_ix checked_sub_def)
  then show ?thesis using f fm mlen m ss by (simp add: block_shape_def stop_def m_def)
qed

section \<open>Finally blocks\<close>

text \<open>The block at a pc, and whether it ends in \<^verbatim>\<open>ret\<close>.\<close>

definition tail_at ::
  "instruction list \<Rightarrow> basic_block list \<Rightarrow> (nat \<times> nat) list \<Rightarrow> nat \<Rightarrow> nat \<Rightarrow> instruction \<Rightarrow> bool" where
  "tail_at is bs pcs pc k tail \<longleftrightarrow>
     map_of pcs pc = Some k \<and> k < length bs \<and>
     block_tail is (bs ! k) = (Inr tail :: instruction verifying)"

text \<open>
  One step inside a finally block at the same nesting level: a nested \<^verbatim>\<open>gosub\<close> steps to its own
  return point, every other block to its successors, and \<^verbatim>\<open>ret\<close> ends the block.
\<close>

definition level_step ::
  "instruction list \<Rightarrow> basic_block list \<Rightarrow> (nat \<times> nat) list \<Rightarrow> nat \<Rightarrow> nat \<Rightarrow> bool" where
  "level_step is bs pcs pc pc' \<longleftrightarrow>
     (\<exists>k tail. tail_at is bs pcs pc k tail \<and> ins_name tail \<noteq> ''ret'' \<and>
        (if ins_name tail = ''gosub'' then return_point pcs tail = Inr pc'
         else pc' \<in> set (successors (bs ! k))))"

inductive same_level ::
  "instruction list \<Rightarrow> basic_block list \<Rightarrow> (nat \<times> nat) list \<Rightarrow> nat \<Rightarrow> nat \<Rightarrow> bool"
  for "is" bs pcs e where
  same_level_refl: "same_level is bs pcs e e"
| same_level_step: "same_level is bs pcs e pc \<Longrightarrow> level_step is bs pcs pc pc' \<Longrightarrow>
    same_level is bs pcs e pc'"

definition ret_at ::
  "instruction list \<Rightarrow> basic_block list \<Rightarrow> (nat \<times> nat) list \<Rightarrow> nat \<Rightarrow> nat \<Rightarrow> bool" where
  "ret_at is bs pcs pc k \<longleftrightarrow> (\<exists>tail. tail_at is bs pcs pc k tail \<and> ins_name tail = ''ret'')"

lemma same_level_trans:
  "same_level is bs pcs b c \<Longrightarrow> same_level is bs pcs a b \<Longrightarrow> same_level is bs pcs a c"
  by (induction rule: same_level.induct) (auto intro: same_level.intros)

text \<open>What a walk adds: the new pcs are closed under steps, and their \<^verbatim>\<open>ret\<close> blocks are owned.\<close>

definition walk_result ::
  "instruction list \<Rightarrow> basic_block list \<Rightarrow> (nat \<times> nat) list \<Rightarrow> nat \<Rightarrow> nat list \<Rightarrow> nat list
    \<Rightarrow> (nat \<times> nat) list \<Rightarrow> nat list \<Rightarrow> (nat \<times> nat) list \<Rightarrow> bool" where
  "walk_result is bs pcs e v p ow v' ow' \<longleftrightarrow>
     strict_sorted_keys ow' \<and> set v \<union> set p \<subseteq> set v' \<and>
     (\<forall>x \<in> set v' - set v. map_of pcs x \<noteq> None \<and> (\<exists>y \<in> set p. same_level is bs pcs y x) \<and>
        (\<forall>y. level_step is bs pcs x y \<longrightarrow> y \<in> set v') \<and>
        (\<forall>k. ret_at is bs pcs x k \<longrightarrow> map_of ow k = None \<or> map_of ow k = Some e)) \<and>
     (\<forall>k. map_of ow' k =
        (if \<exists>x \<in> set v' - set v. ret_at is bs pcs x k then Some e else map_of ow k))"

lemma walk_result_ret:
  assumes "pc \<notin> set v" "tail_at is bs pcs pc k tail" "ins_name tail = ''ret''"
    "map_of ow k = None \<or> map_of ow k = Some e" "strict_sorted_keys ow"
    "walk_result is bs pcs e (bs_insert pc v) p (bt_insert k e ow) v' ow'"
  shows "walk_result is bs pcs e v (pc # p) ow v' ow'"
proof -
  have ret: "ret_at is bs pcs pc j \<longleftrightarrow> j = k" for j
    using assms(2,3) by (auto simp: ret_at_def tail_at_def)
  have stuck: "\<not> level_step is bs pcs pc y" for y
    using assms(2,3) by (auto simp: level_step_def tail_at_def)
  let ?D = "set v' - set (bs_insert pc v)"
  note w = assms(6) [unfolded walk_result_def]
  have D: "set v' - set v = insert pc ?D" using w assms(1) by auto
  have own: "map_of (bt_insert k e ow) = (map_of ow)(k \<mapsto> e)" using assms(5) by simp
  have old: "map_of ow j = None \<or> map_of ow j = Some e" if "x \<in> ?D" "ret_at is bs pcs x j" for x j
    using w that assms(4) unfolding own by (metis fun_upd_apply)
  have new: "map_of ow' j =
      (if \<exists>x \<in> insert pc ?D. ret_at is bs pcs x j then Some e else map_of ow j)" for j
    using w ret [of j] unfolding own by simp
  have here: "map_of pcs pc \<noteq> None" using assms(2) by (simp add: tail_at_def)
  have inner: "map_of pcs x \<noteq> None \<and> (\<exists>y \<in> set (pc # p). same_level is bs pcs y x) \<and>
      (\<forall>y. level_step is bs pcs x y \<longrightarrow> y \<in> set v') \<and>
      (\<forall>k. ret_at is bs pcs x k \<longrightarrow> map_of ow k = None \<or> map_of ow k = Some e)" if "x \<in> ?D" for x
    using w that old [OF that] by (metis list.set_intros(2))
  have "\<forall>j. ret_at is bs pcs pc j \<longrightarrow> map_of ow j = None \<or> map_of ow j = Some e"
    using ret assms(4) by simp
  with here stuck inner have "\<forall>x \<in> insert pc ?D. map_of pcs x \<noteq> None \<and>
      (\<exists>y \<in> set (pc # p). same_level is bs pcs y x) \<and>
      (\<forall>y. level_step is bs pcs x y \<longrightarrow> y \<in> set v') \<and>
      (\<forall>k. ret_at is bs pcs x k \<longrightarrow> map_of ow k = None \<or> map_of ow k = Some e)"
    by (metis insert_iff list.set_intros(1) same_level_refl)
  moreover have "set v \<union> set (pc # p) \<subseteq> set v'" using w by auto
  ultimately show ?thesis using w new unfolding walk_result_def D by blast
qed

lemma walk_result_step:
  assumes "pc \<notin> set v" "tail_at is bs pcs pc k tail" "ins_name tail \<noteq> ''ret''"
    and nxt: "\<And>y. y \<in> set q \<longleftrightarrow> level_step is bs pcs pc y"
    and w: "walk_result is bs pcs e (bs_insert pc v) (q @ p) ow v' ow'"
  shows "walk_result is bs pcs e v (pc # p) ow v' ow'"
proof -
  have ret: "\<not> ret_at is bs pcs pc j" for j
    using assms(2,3) by (auto simp: ret_at_def tail_at_def)
  have reach: "\<exists>y \<in> set (pc # p). same_level is bs pcs y x"
    if "x \<in> set v' - set (bs_insert pc v)" for x
  proof -
    have "\<exists>y \<in> set (q @ p). same_level is bs pcs y x" using w that by (auto simp: walk_result_def)
    then obtain y where "y \<in> set q \<or> y \<in> set p" "same_level is bs pcs y x" by auto
    then show ?thesis
      using nxt same_level_trans same_level_step [OF same_level_refl] by (metis list.set_intros)
  qed
  have eq: "set v' - set v = insert pc (set v' - set (bs_insert pc v))"
    using w assms(1) by (auto simp: walk_result_def)
  have pc: "map_of pcs pc \<noteq> None" using assms(2) by (simp add: tail_at_def)
  have closed: "\<forall>y. level_step is bs pcs pc y \<longrightarrow> y \<in> set v'"
    using w nxt by (auto simp: walk_result_def)
  show ?thesis
    using w ret reach pc closed unfolding walk_result_def eq
    by (auto simp: same_level_refl)
qed

lemma owner_walk_result:
  assumes "owner_walk is bs pcs e v p ow = Inr (v', ow')" "strict_sorted_keys ow"
  shows "walk_result is bs pcs e v p ow v' ow'"
  using assms
proof (induction "is" bs pcs e v p ow rule: owner_walk.induct)
  case (1 "is" bs pcs e v ow)
  then show ?case by (simp add: walk_result_def)
next
  case (2 "is" bs pcs e v pc p ow)
  show ?case
  proof (cases "pc \<in> set v")
    case True
    with "2.prems" have "owner_walk is bs pcs e v p ow = Inr (v', ow')"
      by (simp add: owner_walk.simps(2))
    from "2.IH"(1) [OF True this "2.prems"(2)] True show ?thesis by (auto simp: walk_result_def)
  next
    case False
    with "2.prems"(1) obtain k b tail where
      k: "map_of pcs pc = Some k" and b: "index bs k = (Inr b :: basic_block verifying)"
      and tail: "block_tail is b = (Inr tail :: instruction verifying)"
      by (auto simp: owner_walk.simps(2) rbind_Inr_iff split: option.splits)
    then have at: "tail_at is bs pcs pc k tail" by (simp add: tail_at_def index_Inr_iff)
    have b': "b = bs ! k" using b by (simp add: index_Inr_iff)
    consider (ret) "ins_name tail = ''ret''" | (gosub) "ins_name tail = ''gosub''"
      | (other) "ins_name tail \<noteq> ''ret''" "ins_name tail \<noteq> ''gosub''" by blast
    then show ?thesis
    proof cases
      case ret
      with "2.prems"(1) False k b tail have
        ok: "\<not> (case map_of ow k of None \<Rightarrow> False | Some owner \<Rightarrow> owner \<noteq> e)"
        and rec: "owner_walk is bs pcs e (bs_insert pc v) p (bt_insert k e ow) = Inr (v', ow')"
        by (auto simp: owner_walk.simps(2) split: if_splits)
      have "walk_result is bs pcs e (bs_insert pc v) p (bt_insert k e ow) v' ow'"
        using "2.IH"(2) [OF False k b tail ret ok rec] "2.prems"(2) by simp
      with walk_result_ret [OF False at ret _ "2.prems"(2)] ok show ?thesis
        by (auto split: option.splits)
    next
      case gosub
      with "2.prems"(1) False k b tail obtain r where r: "return_point pcs tail = Inr r"
        and rec: "owner_walk is bs pcs e (bs_insert pc v) (r # p) ow = Inr (v', ow')"
        by (auto simp: owner_walk.simps(2) rbind_Inr_iff)
      have "walk_result is bs pcs e (bs_insert pc v) ([r] @ p) ow v' ow'"
        using "2.IH"(3) [OF False k b tail _ gosub r rec] "2.prems"(2) gosub by simp
      moreover have "y \<in> set [r] \<longleftrightarrow> level_step is bs pcs pc y" for y
        using at gosub r by (auto simp: level_step_def tail_at_def)
      ultimately show ?thesis using walk_result_step [OF False at, of "[r]"] gosub by simp
    next
      case other
      with "2.prems"(1) False k b tail have
        rec: "owner_walk is bs pcs e (bs_insert pc v) (rev (successors b) @ p) ow = Inr (v', ow')"
        by (auto simp: owner_walk.simps(2))
      have "walk_result is bs pcs e (bs_insert pc v) (rev (successors b) @ p) ow v' ow'"
        using "2.IH"(4) [OF False k b tail other rec] "2.prems"(2) by simp
      moreover have "y \<in> set (rev (successors b)) \<longleftrightarrow> level_step is bs pcs pc y" for y
        using at other b' by (auto simp: level_step_def tail_at_def)
      ultimately show ?thesis
        using walk_result_step [OF False at other(1), of "rev (successors b)"] by simp
    qed
  qed
qed

text \<open>The walk from a finally entry owns exactly the \<^verbatim>\<open>ret\<close> blocks at its level.\<close>

lemma owner_walk_owns:
  assumes "owner_walk is bs pcs e [] [e] ow = Inr (v', ow')" "strict_sorted_keys ow"
  shows "strict_sorted_keys ow'"
    and "(\<exists>x. same_level is bs pcs e x \<and> ret_at is bs pcs x k) \<Longrightarrow>
      map_of ow' k = Some e \<and> (map_of ow k = None \<or> map_of ow k = Some e)"
    and "\<not> (\<exists>x. same_level is bs pcs e x \<and> ret_at is bs pcs x k) \<Longrightarrow> map_of ow' k = map_of ow k"
proof -
  note w = owner_walk_result [OF assms, unfolded walk_result_def]
  have closed: "x \<in> set v'" if "same_level is bs pcs e x" for x
    using that w by (induction rule: same_level.induct) auto
  have only: "same_level is bs pcs e x" if "x \<in> set v'" for x using w that by auto
  show "strict_sorted_keys ow'" using w by blast
  have val: "map_of ow' k = (if \<exists>x \<in> set v'. ret_at is bs pcs x k then Some e else map_of ow k)"
    using w by simp
  have free: "map_of ow k = None \<or> map_of ow k = Some e" if "x \<in> set v'" "ret_at is bs pcs x k" for x
    using w that by simp
  show "map_of ow' k = Some e \<and> (map_of ow k = None \<or> map_of ow k = Some e)"
    if h: "\<exists>x. same_level is bs pcs e x \<and> ret_at is bs pcs x k"
  proof -
    obtain x where x: "x \<in> set v'" "ret_at is bs pcs x k" using h closed by blast
    then have "map_of ow' k = Some e" using val by auto
    with free [OF x] show ?thesis by blast
  qed
  show "map_of ow' k = map_of ow k"
    if "\<not> (\<exists>x. same_level is bs pcs e x \<and> ret_at is bs pcs x k)"
    using that only val by auto
qed

text \<open>The \<^verbatim>\<open>gosub\<close> blocks with their finally entry and return point.\<close>

definition gosub_at ::
  "instruction list \<Rightarrow> (nat \<times> nat) list \<Rightarrow> basic_block \<Rightarrow> nat \<Rightarrow> nat \<Rightarrow> bool" where
  "gosub_at is pcs b e r \<longleftrightarrow>
     (\<exists>tail. block_tail is b = (Inr tail :: instruction verifying) \<and> ins_name tail = ''gosub'' \<and>
        successors b \<noteq> [] \<and> hd (successors b) = e \<and> return_point pcs tail = Inr r)"

definition points_of :: "(nat \<times> nat list) list \<Rightarrow> nat \<Rightarrow> nat set" where
  "points_of rp e = (case map_of rp e of None \<Rightarrow> {} | Some ps \<Rightarrow> set ps)"

definition points_ok :: "(nat \<times> nat list) list \<Rightarrow> bool" where
  "points_ok rp \<longleftrightarrow> strict_sorted_keys rp \<and>
     (\<forall>e ps. map_of rp e = Some ps \<longrightarrow> sorted_wrt (<) ps \<and> ps \<noteq> [])"

lemma collect_step:
  assumes "collect_return_point is pcs b rp = Inr rp'" "points_ok rp"
  shows "points_ok rp' \<and> points_of rp' e = points_of rp e \<union> {r. gosub_at is pcs b e r}"
proof -
  obtain tail where tail: "block_tail is b = (Inr tail :: instruction verifying)"
    using assms(1) by (auto simp: collect_return_point_def rbind_Inr_iff)
  show ?thesis
  proof (cases "ins_name tail = ''gosub''")
    case False
    with assms tail show ?thesis by (simp add: collect_return_point_def gosub_at_def)
  next
    case True
    with assms(1) tail obtain t ts r where s: "successors b = t # ts"
      and r: "return_point pcs tail = Inr r"
      and rp': "rp' = bt_insert t (bs_insert r
          (case map_of rp t of None \<Rightarrow> [] | Some ps \<Rightarrow> ps)) rp"
      by (auto simp: collect_return_point_def rbind_Inr_iff Let_def split: list.splits)
    let ?old = "case map_of rp t of None \<Rightarrow> [] | Some ps \<Rightarrow> ps"
    have rp'_of: "map_of rp' = (map_of rp)(t \<mapsto> bs_insert r ?old)"
      using assms(2) rp' by (simp add: points_ok_def)
    have ne: "bs_insert r ?old \<noteq> []" by (metis empty_iff insertI1 list.set(1) set_bs_insert)
    have "sorted_wrt (<) ?old" using assms(2) by (auto simp: points_ok_def split: option.splits)
    then have ok: "points_ok rp'"
      using assms(2) ne rp'_of rp' by (auto simp: points_ok_def split: if_splits)
    have g: "gosub_at is pcs b e' r' \<longleftrightarrow> e' = t \<and> r' = r" for e' r'
      using tail True s r by (auto simp: gosub_at_def)
    have "points_of rp' e = points_of rp e \<union> {r. gosub_at is pcs b e r}"
      unfolding points_of_def rp'_of by (auto simp: g split: option.splits)
    with ok show ?thesis by simp
  qed
qed

lemma collect_all:
  assumes "fold_res (collect_return_point is pcs) bs rp = Inr rp'" "points_ok rp"
  shows "points_ok rp' \<and>
    points_of rp' e = points_of rp e \<union> {r. \<exists>b \<in> set bs. gosub_at is pcs b e r}"
  using assms
proof (induction bs arbitrary: rp)
  case (Cons b bs)
  then obtain rp1 where 1: "collect_return_point is pcs b rp = Inr rp1"
    "fold_res (collect_return_point is pcs) bs rp1 = Inr rp'"
    by (auto simp: rbind_Inr_iff)
  note step = collect_step [OF 1(1) Cons.prems(2)]
  with Cons.IH [OF 1(2)] show ?case by auto
qed simp

text \<open>The fold over the finally entries.\<close>

definition owned_by ::
  "instruction list \<Rightarrow> basic_block list \<Rightarrow> (nat \<times> nat) list \<Rightarrow> nat \<Rightarrow> nat \<Rightarrow> bool" where
  "owned_by is bs pcs e k \<longleftrightarrow> (\<exists>x. same_level is bs pcs e x \<and> ret_at is bs pcs x k)"

abbreviation walk_entry ::
  "instruction list \<Rightarrow> basic_block list \<Rightarrow> (nat \<times> nat) list \<Rightarrow> nat \<Rightarrow> (nat \<times> nat) list
    \<Rightarrow> (nat \<times> nat) list verifying" where
  "walk_entry is bs pcs \<equiv> \<lambda>entry owners.
     rbind (owner_walk is bs pcs entry [] [entry] owners) (\<lambda>r. Inr (snd r))"

lemma owners_all:
  assumes "fold_res (walk_entry is bs pcs) es ow = Inr ow'" "strict_sorted_keys ow" "distinct es"
    and "\<forall>e \<in> set es. \<forall>k. map_of ow k \<noteq> Some e"
  shows "strict_sorted_keys ow' \<and>
    (\<forall>k e. map_of ow' k = Some e \<longleftrightarrow> map_of ow k = Some e \<or> e \<in> set es \<and> owned_by is bs pcs e k)"
  using assms
proof (induction es arbitrary: ow)
  case (Cons a es)
  then obtain v ow1 where 1: "owner_walk is bs pcs a [] [a] ow = Inr (v, ow1)"
    "fold_res (walk_entry is bs pcs) es ow1 = Inr ow'"
    by (auto simp: rbind_Inr_iff)
  note own = owner_walk_owns [OF 1(1) Cons.prems(2), folded owned_by_def]
  have step: "map_of ow1 k = Some e \<longleftrightarrow> map_of ow k = Some e \<or> e = a \<and> owned_by is bs pcs a k" for k e
    using own(2,3) [of k] Cons.prems(4) by (cases "owned_by is bs pcs a k") auto
  have "\<forall>e \<in> set es. \<forall>k. map_of ow1 k \<noteq> Some e" using step Cons.prems(3,4) by auto
  with Cons.IH [OF 1(2) own(1)] Cons.prems(3) step show ?case by auto
qed simp

lemma install_all:
  assumes "fold_res (install_returns rp) ow bs = Inr bs'" "distinct (map fst ow)"
  shows "length bs' = length bs \<and>
    (\<forall>k < length bs. bs' ! k = (case map_of ow k of None \<Rightarrow> bs ! k
       | Some e \<Rightarrow> (bs ! k)\<lparr>successors := the (map_of rp e)\<rparr>)) \<and>
    (\<forall>k e. map_of ow k = Some e \<longrightarrow> map_of rp e \<noteq> None)"
  using assms
proof (induction ow arbitrary: bs)
  case (Cons a ow)
  obtain k e where a: "a = (k, e)" by (cases a)
  from Cons.prems(1) obtain bs1 where 1: "install_returns rp a bs = Inr bs1"
    "fold_res (install_returns rp) ow bs1 = Inr bs'"
    by (auto simp: rbind_Inr_iff)
  then obtain ps where ps: "bs1 = bs[k := (bs ! k)\<lparr>successors := ps\<rparr>]"
    "k < length bs" "map_of rp e = Some ps"
    by (auto simp: rbind_Inr_iff install_returns_def index_Inr_iff a)
  note k = ps(2,3) 1(2) [unfolded ps(1)]
  have none: "map_of ow k = None" using Cons.prems(2) a by (simp add: map_of_eq_None_iff)
  from Cons.IH [OF k(3)] Cons.prems(2) a k none show ?case
    by (auto simp: nth_list_update split: option.splits)
qed simp

lemma points_of_key: "points_ok rp \<Longrightarrow> e \<in> fst ` set rp \<longleftrightarrow> points_of rp e \<noteq> {}"
  using map_of_eq_None_iff [of rp e] by (auto simp: points_ok_def points_of_def split: option.splits)

text \<open>Linking: every \<^verbatim>\<open>ret\<close> block gets the return points of the one finally entry that owns it.\<close>

definition returns_to ::
  "instruction list \<Rightarrow> basic_block list \<Rightarrow> (nat \<times> nat) list \<Rightarrow> nat \<Rightarrow> nat set" where
  "returns_to is bs pcs e = {r. \<exists>b \<in> set bs. gosub_at is pcs b e r}"

lemma link_result:
  assumes "link_subroutine_returns is bs pcs = Inr bs'"
  shows "length bs' = length bs"
    and "\<And>k. k < length bs \<Longrightarrow>
      (\<exists>e ps. owned_by is bs pcs e k \<and> ps \<noteq> [] \<and> sorted_wrt (<) ps \<and>
          set ps = returns_to is bs pcs e \<and> bs' ! k = (bs ! k)\<lparr>successors := ps\<rparr>) \<or>
      (\<forall>e. returns_to is bs pcs e \<noteq> {} \<longrightarrow> \<not> owned_by is bs pcs e k) \<and> bs' ! k = bs ! k"
    and "\<And>k e e'. returns_to is bs pcs e \<noteq> {} \<Longrightarrow> returns_to is bs pcs e' \<noteq> {} \<Longrightarrow>
      owned_by is bs pcs e k \<Longrightarrow> owned_by is bs pcs e' k \<Longrightarrow> e = e'"
proof -
  obtain rp ow where rp: "fold_res (collect_return_point is pcs) bs [] = Inr rp"
    and ow: "fold_res (walk_entry is bs pcs) (map fst rp) [] = Inr ow"
    and inst: "fold_res (install_returns rp) ow bs = Inr bs'"
    using assms by (auto simp: link_subroutine_returns_def rbind_Inr_iff)
  have ok: "points_ok rp"
    using collect_all [OF rp] by (simp add: points_ok_def)
  have pts: "points_of rp e = returns_to is bs pcs e" for e
    using collect_all [OF rp, of e] by (simp add: points_ok_def points_of_def returns_to_def)
  have d: "distinct (map fst rp)" using ok strict_sorted_distinct by (auto simp: points_ok_def)
  have own: "map_of ow k = Some e \<longleftrightarrow> returns_to is bs pcs e \<noteq> {} \<and> owned_by is bs pcs e k" for k e
    using owners_all [OF ow _ d] points_of_key [OF ok, of e] pts by simp
  have "distinct (map fst ow)" using owners_all [OF ow _ d] strict_sorted_distinct [of ow] by simp
  note all = install_all [OF inst this]
  show "length bs' = length bs" using all by simp
  show "e = e'" if "returns_to is bs pcs e \<noteq> {}" "returns_to is bs pcs e' \<noteq> {}"
    "owned_by is bs pcs e k" "owned_by is bs pcs e' k" for k e e'
    using own [of k e] own [of k e'] that by simp
  show "(\<exists>e ps. owned_by is bs pcs e k \<and> ps \<noteq> [] \<and> sorted_wrt (<) ps \<and>
          set ps = returns_to is bs pcs e \<and> bs' ! k = (bs ! k)\<lparr>successors := ps\<rparr>) \<or>
      (\<forall>e. returns_to is bs pcs e \<noteq> {} \<longrightarrow> \<not> owned_by is bs pcs e k) \<and> bs' ! k = bs ! k"
    if "k < length bs" for k
  proof (cases "map_of ow k")
    case None
    then have "\<forall>e. returns_to is bs pcs e \<noteq> {} \<longrightarrow> \<not> owned_by is bs pcs e k"
      using own [of k] by (metis option.distinct(1))
    with all that None show ?thesis by simp
  next
    case (Some e)
    then obtain ps where ps: "map_of rp e = Some ps" using all by blast
    with ok have "ps \<noteq> [] \<and> sorted_wrt (<) ps" by (auto simp: points_ok_def)
    moreover have "set ps = returns_to is bs pcs e" using pts [of e] ps by (simp add: points_of_def)
    moreover have "owned_by is bs pcs e k" using own Some by simp
    moreover have "bs' ! k = (bs ! k)\<lparr>successors := ps\<rparr>" using all that Some ps by simp
    ultimately show ?thesis by blast
  qed
qed

text \<open>The relations of the walk read only what linking keeps.\<close>

lemma block_tail_cong: "range_last b = range_last b' \<Longrightarrow> block_tail is b = block_tail is b'"
  by (simp add: block_tail_def)

lemma owned_by_ret: "owned_by is bs pcs e k \<Longrightarrow> \<exists>x. ret_at is bs pcs x k"
  by (auto simp: owned_by_def)

lemma link_frame:
  assumes "link_subroutine_returns is bs pcs = Inr bs'" "k < length bs"
  shows "start_pc (bs' ! k) = start_pc (bs ! k) \<and> end_pc (bs' ! k) = end_pc (bs ! k) \<and>
    range_first (bs' ! k) = range_first (bs ! k) \<and> range_last (bs' ! k) = range_last (bs ! k) \<and>
    ((\<forall>x. \<not> ret_at is bs pcs x k) \<longrightarrow> bs' ! k = bs ! k)"
  using link_result(2) [OF assms] owned_by_ret by fastforce

section \<open>Well-formed graphs\<close>

definition falls_through :: "instruction \<Rightarrow> bool" where
  "falls_through i \<longleftrightarrow> branch_target i = (Inr None :: int option verifying) \<and>
     \<not> is_terminal i \<and> \<not> is_subroutine_return i"

definition wf_block :: "instruction list \<Rightarrow> nat \<Rightarrow> basic_block list \<Rightarrow> nat \<Rightarrow> bool" where
  "wf_block is n bs k \<longleftrightarrow>
     (let b = bs ! k; tail = is ! (range_last b - 1) in
        range_first b < range_last b \<and> range_last b \<le> length is \<and>
        ins_pc (is ! range_first b) = start_pc b \<and>
        (if Suc k < length bs
         then range_last b = range_first (bs ! Suc k) \<and> end_pc b = start_pc (bs ! Suc k)
         else range_last b = length is \<and> end_pc b = n) \<and>
        (\<forall>j. range_first b \<le> j \<and> Suc j < range_last b \<longrightarrow> falls_through (is ! j)) \<and>
        set (successors b) \<subseteq> start_pc ` set bs \<and>
        (\<not> is_subroutine_return tail \<longrightarrow> tail_successors n tail = Inr (successors b)))"

definition wf_cfg :: "instruction list \<Rightarrow> nat \<Rightarrow> control_flow_graph \<Rightarrow> bool" where
  "wf_cfg is n g \<longleftrightarrow>
     blocks g \<noteq> [] \<and> range_first (blocks g ! 0) = 0 \<and>
     sorted_wrt (<) (map start_pc (blocks g)) \<and>
     by_pc g = zip (map start_pc (blocks g)) [0..<length (blocks g)] \<and>
     (\<forall>k < length (blocks g). wf_block is n (blocks g) k) \<and>
     (\<forall>h. is_loop_header g h \<longleftrightarrow> (\<exists>i \<in> set is. h \<le> ins_pc i \<and>
        branch_target i = (Inr (Some (int h)) :: int option verifying))) \<and>
     set (loop_headers g) \<subseteq> start_pc ` set (blocks g)"

lemma set_tail_successors:
  assumes "tail_successors n i = Inr ss" "x \<in> set ss"
  shows "(\<exists>t. branch_target i = (Inr (Some t) :: int option verifying) \<and> x = as_u32 (nat t)) \<or>
    after_ins i < n \<and> x = as_u32 (after_ins i)"
proof -
  obtain t where t: "branch_target i = (Inr t :: int option verifying)"
    using assms(1) unfolding tail_successors_def Let_def rbind_Inr_iff by blast
  with assms(1) have "remdups_adj (sort (case t of
          Some target \<Rightarrow> as_u32 (nat target) #
            (if \<not> is_unconditional i then
               if after_ins i < n then [as_u32 (after_ins i)] else [] else [])
        | None \<Rightarrow> if \<not> is_terminal i \<and> \<not> is_subroutine_return i then
            if after_ins i < n then [as_u32 (after_ins i)] else [] else [])) = ss" (is "?f = _")
    by (simp only: tail_successors_def Let_def rbind_simps sum.inject)
  with assms(2) have "x \<in> set ?f" by simp
  with t show ?thesis unfolding remdups_adj_set set_sort by (cases t) (auto split: if_splits)
qed

lemma scanned_target:
  assumes "scanned n i B H" "branch_target i = (Inr (Some t) :: int option verifying)"
  shows "0 \<le> t \<and> nat t < n \<and> nat t \<in> B \<and> (nat t \<le> ins_pc i \<longrightarrow> nat t \<in> H)"
  using assms by (auto simp: scanned_def)

lemma scanned_boundary:
  assumes "scanned n i B H" "\<not> falls_through i" "after_ins i < n"
  shows "after_ins i \<in> B"
proof -
  obtain t where "branch_target i = (Inr t :: int option verifying)"
    using assms(1) unfolding scanned_def by blast
  with assms show ?thesis by (cases t) (auto simp: scanned_def falls_through_def)
qed

lemma interior_falls_through:
  assumes str: "stream is n" and st: "sorted_wrt (<) starts" "k < length starts"
    and sc: "\<forall>i \<in> set is. scanned n i (set starts) H"
    and shape: "block_shape is n starts k b"
    and j: "range_first b \<le> j" "Suc j < range_last b"
  shows "falls_through (is ! j)"
proof (rule ccontr)
  assume no: "\<not> falls_through (is ! j)"
  have b: "range_last b \<le> length is" "ins_pc (is ! range_first b) = starts ! k"
    using shape by (auto simp: block_shape_def)
  have len: "Suc j < length is" using j(2) b(1) by simp
  then have mem: "is ! j \<in> set is" "is ! Suc j \<in> set is" by auto
  have after: "after_ins (is ! j) = ins_pc (is ! Suc j)"
    using stream_after [OF str, of j] len by simp
  then have "after_ins (is ! j) < n" using stream_bounds [OF str mem(2)] by simp
  with no sc mem(1) have "after_ins (is ! j) \<in> set starts"
    using scanned_boundary by blast
  moreover have "starts ! k < after_ins (is ! j)"
    using stream_pc_less_iff [OF str, of "range_first b" "Suc j"] b(2) j(1) len after by simp
  ultimately have next_start: "Suc k < length starts" "starts ! Suc k \<le> ins_pc (is ! Suc j)"
    using strict_sorted_gap [OF st(1)] st(2) after by auto
  then have "range_last b < length is" "ins_pc (is ! range_last b) = starts ! Suc k"
    using shape by (auto simp: block_shape_def)
  then show False
    using stream_pc_less_iff [OF str, of "Suc j" "range_last b"] next_start(2) j(2) len by simp
qed

lemma shape_next:
  assumes str: "stream is n" and "k < length starts" "block_shape is n starts k b"
    and after: "after_ins (is ! (range_last b - 1)) < n"
  shows "after_ins (is ! (range_last b - 1)) \<in> set starts"
proof -
  have l: "0 < range_last b" "range_last b \<le> length is"
    using assms(3) by (auto simp: block_shape_def)
  have "Suc k < length starts"
  proof (rule ccontr)
    assume "\<not> Suc k < length starts"
    then have "range_last b = length is" using assms(3) by (simp add: block_shape_def)
    then show False using stream_after [OF str, of "range_last b - 1"] l after by simp
  qed
  then show ?thesis
    using stream_after [OF str, of "range_last b - 1"] l assms(3)
    by (auto simp: block_shape_def)
qed

lemma shape_successors:
  assumes str: "stream is n" and "k < length starts" "block_shape is n starts k b"
    and sc: "\<forall>i \<in> set is. scanned n i (set starts) H"
  shows "set (successors b) \<subseteq> set starts"
proof
  fix x assume x: "x \<in> set (successors b)"
  let ?t = "is ! (range_last b - 1)"
  have "range_last b - 1 < length is" using assms(3) by (auto simp: block_shape_def)
  then have mem: "?t \<in> set is" by simp
  have n: "n \<le> u32_max" using str by (simp add: stream_def)
  have "tail_successors n ?t = Inr (successors b)" using assms(3) by (simp add: block_shape_def)
  from set_tail_successors [OF this x] show "x \<in> set starts"
  proof
    assume "\<exists>t. branch_target ?t = (Inr (Some t) :: int option verifying) \<and> x = as_u32 (nat t)"
    then obtain t where "branch_target ?t = (Inr (Some t) :: int option verifying)"
      "x = as_u32 (nat t)" by blast
    with scanned_target [of n ?t _ _ t] sc mem n show ?thesis by fastforce
  next
    assume "after_ins ?t < n \<and> x = as_u32 (after_ins ?t)"
    with shape_next [OF str assms(2,3)] n show ?thesis by simp
  qed
qed

lemma block_tail_in_range:
  "0 < range_last b \<Longrightarrow> range_last b \<le> length is \<Longrightarrow>
   block_tail is b = Inr (is ! (range_last b - 1))"
  by (simp add: block_tail_def checked_sub_def)

lemma returns_to_starts:
  "r \<in> returns_to is bs pcs e \<Longrightarrow> map_of pcs r \<noteq> None"
  by (auto simp: returns_to_def gosub_at_def return_point_def split: option.splits if_splits)

lemma link_wf:
  assumes str: "stream is n"
    and st: "scan_invariant is (starts, hs)" "\<forall>i \<in> set is. scanned n i (set starts) (set hs)"
    and bs: "length bs = length starts" "\<forall>k < length starts. block_shape is n starts k (bs ! k)"
    and pcs: "pcs = zip starts [0..<length starts]"
    and link: "link_subroutine_returns is bs pcs = Inr bs'"
  shows "map start_pc bs' = starts \<and> (\<forall>k < length bs'. wf_block is n bs' k)"
proof -
  have sorted: "sorted_wrt (<) starts" using st(1) by (simp add: scan_invariant_def)
  then have dist: "distinct starts" using strict_sorted_iff by blast
  have len: "length bs' = length starts" using link_result(1) [OF link] bs(1) by simp
  have frame: "start_pc (bs' ! k) = start_pc (bs ! k) \<and> end_pc (bs' ! k) = end_pc (bs ! k) \<and>
    range_first (bs' ! k) = range_first (bs ! k) \<and> range_last (bs' ! k) = range_last (bs ! k) \<and>
    ((\<forall>x. \<not> ret_at is bs pcs x k) \<longrightarrow> bs' ! k = bs ! k)" if "k < length starts" for k
    using link_frame [OF link] that bs(1) by simp
  have shape: "block_shape is n starts k (bs ! k)" if "k < length starts" for k
    using bs(2) that by simp
  have starts: "map start_pc bs' = starts"
    by (rule nth_equalityI) (use len frame shape in \<open>auto simp: block_shape_def\<close>)
  then have img: "start_pc ` set bs' = set starts" by (metis set_map)
  have "wf_block is n bs' k" if k: "k < length starts" for k
  proof -
    let ?b = "bs ! k" and ?t = "is ! (range_last (bs ! k) - 1)"
    note fk = frame [OF k] and sk = shape [OF k, unfolded block_shape_def]
    have follow: "if Suc k < length starts
      then range_last ?b = range_first (bs ! Suc k) \<and> end_pc ?b = start_pc (bs ! Suc k)
      else range_last ?b = length is \<and> end_pc ?b = n"
    proof (cases "Suc k < length starts")
      case True
      note s1 = shape [OF True, unfolded block_shape_def]
      have "range_first (bs ! Suc k) < length is" using s1 by linarith
      then show ?thesis
        using stream_pc_inj [OF str, of "range_last ?b" "range_first (bs ! Suc k)"] True sk s1
        by simp
    qed (use sk in simp)
    have succ: "set (successors (bs' ! k)) \<subseteq> set starts"
    proof (cases "bs' ! k = bs ! k")
      case True
      then show ?thesis using shape_successors [OF str k shape [OF k] st(2)] by simp
    next
      case False
      then obtain e ps where e: "set ps = returns_to is bs pcs e"
        "bs' ! k = (bs ! k)\<lparr>successors := ps\<rparr>"
        using link_result(2) [OF link, of k] bs(1) k by auto
      have "r \<in> set starts" if "r \<in> set ps" for r
        using returns_to_starts [of r "is" bs pcs e] that e(1) pcs
        by (auto simp: map_of_eq_None_iff in_set_zip)
      then show ?thesis using e(2) by auto
    qed
    have keep: "tail_successors n ?t = Inr (successors (bs' ! k))"
      if "\<not> is_subroutine_return ?t"
    proof -
      have tail: "block_tail is ?b = (Inr ?t :: instruction verifying)"
        using sk by (intro block_tail_in_range) auto
      have "\<not> ret_at is bs pcs x k" for x
        using that tail by (auto simp: ret_at_def tail_at_def is_subroutine_return_def)
      then show ?thesis using fk sk by simp
    qed
    have inner: "falls_through (is ! j)"
      if "range_first ?b \<le> j" "Suc j < range_last ?b" for j
      using interior_falls_through [OF str sorted k st(2) shape [OF k] that] .
    show ?thesis
      unfolding wf_block_def Let_def len img
      using fk sk follow succ keep inner frame [of "Suc k"] by auto
  qed
  then show ?thesis using starts len by simp
qed

text \<open>The stages of a build, with what each produces.\<close>

lemma build_blocks_total:
  assumes "stream is n" "sorted_wrt (<) starts" "set starts \<subseteq> ins_pc ` set is"
  obtains bs where
    "map_res (build_block is n (bt_of_list (zip (map ins_pc is) [0..<length is])) starts)
       [0..<length starts] = Inr bs"
    "length bs = length starts" "\<forall>k < length starts. block_shape is n starts k (bs ! k)"
    "bt_of_list (zip (map start_pc bs) [0..<length bs]) = zip starts [0..<length starts]"
proof -
  let ?f = "build_block is n (bt_of_list (zip (map ins_pc is) [0..<length is])) starts"
  define g where "g k = (SOME b. ?f k = Inr b \<and> block_shape is n starts k b)" for k
  have g: "?f k = Inr (g k) \<and> block_shape is n starts k (g k)" if "k < length starts" for k
    unfolding g_def using someI_ex [OF build_block_shape [OF assms that]] .
  let ?bs = "map g [0..<length starts]"
  have "map_res ?f [0..<length starts] = Inr ?bs" using g by (intro map_res_total) simp
  moreover have "map start_pc ?bs = starts"
    by (rule nth_equalityI) (use g in \<open>auto simp: block_shape_def\<close>)
  moreover have "strict_sorted_keys (zip starts [0..<length starts])" using assms(2) by simp
  ultimately show ?thesis using that [of ?bs] g bt_of_list_sorted [of "zip starts [0..<length starts]"] by simp
qed

lemma build_stages:
  assumes str: "stream is n" and b: "build is n mx = Inr g"
  obtains starts bs where "scan_invariant is (starts, loop_headers g)"
    "\<forall>i \<in> set is. scanned n i (set starts) (set (loop_headers g))"
    "length starts \<le> mx" "length bs = length starts"
    "\<forall>k < length starts. block_shape is n starts k (bs ! k)"
    "by_pc g = zip starts [0..<length starts]"
    "link_subroutine_returns is bs (by_pc g) = Inr (blocks g)"
proof -
  from b have ne: "is \<noteq> []" by (auto simp: build_def)
  from b ne obtain starts hs bs bs' where
    scan: "fold_res (scan_instruction (bs_of_list (map ins_pc is)) n) is ([0], []) = Inr (starts, hs)"
    and mx: "length starts \<le> mx"
    and bs: "map_res (build_block is n (bt_of_list (zip (map ins_pc is) [0..<length is])) starts)
       [0..<length starts] = Inr bs"
    and link: "link_subroutine_returns is bs
       (bt_of_list (zip (map start_pc bs) [0..<length bs])) = Inr bs'"
    and g: "g = \<lparr>blocks = bs', by_pc = bt_of_list (zip (map start_pc bs) [0..<length bs]),
       loop_headers = hs\<rparr>"
    by (auto simp: build_def Let_def rbind_Inr_iff split: if_splits)
  note sc = scan_result [OF str ne scan]
  then have "sorted_wrt (<) starts" "set starts \<subseteq> ins_pc ` set is"
    by (auto simp: scan_invariant_def)
  from build_blocks_total [OF str this] bs obtain
    "length bs = length starts" "\<forall>k < length starts. block_shape is n starts k (bs ! k)"
    "bt_of_list (zip (map start_pc bs) [0..<length bs]) = zip starts [0..<length starts]"
    by (metis Inr_inject)
  then show ?thesis using that [of starts bs] sc mx link g by simp
qed

lemma build_wf_cfg:
  assumes str: "stream is n" and b: "build is n mx = Inr g"
  shows "wf_cfg is n g \<and> length (blocks g) \<le> mx"
proof -
  obtain starts bs where inv: "scan_invariant is (starts, loop_headers g)"
    and sc: "\<forall>i \<in> set is. scanned n i (set starts) (set (loop_headers g))"
    and len: "length starts \<le> mx" "length bs = length starts"
    and shape: "\<forall>k < length starts. block_shape is n starts k (bs ! k)"
    and pcs: "by_pc g = zip starts [0..<length starts]"
    and link: "link_subroutine_returns is bs (by_pc g) = Inr (blocks g)"
    using build_stages [OF assms] by blast
  have wf: "map start_pc (blocks g) = starts" "\<forall>k < length (blocks g). wf_block is n (blocks g) k"
    using link_wf [OF str inv sc len(2) shape pcs link] by auto
  then have img: "start_pc ` set (blocks g) = set starts" by (metis set_map)
  have st: "sorted_wrt (<) starts" "0 \<in> set starts" "set (loop_headers g) \<subseteq> set starts"
    using inv by (auto simp: scan_invariant_def)
  from st(2) have ne: "starts \<noteq> []" by auto
  then have ne': "blocks g \<noteq> []" using wf(1) by auto
  have hd0: "starts ! 0 = 0"
  proof -
    obtain j where "j < length starts" "starts ! j = 0" using st(2) by (auto simp: in_set_conv_nth)
    then show ?thesis using nth_strict_sorted_less [OF st(1), of 0 j] by (cases j) auto
  qed
  have "wf_block is n (blocks g) 0" using wf(2) ne' by simp
  then have first: "range_first (blocks g ! 0) < length is"
    "ins_pc (is ! range_first (blocks g ! 0)) = 0"
    using hd0 wf(1) ne' by (auto simp: wf_block_def Let_def)
  then have "range_first (blocks g ! 0) = 0"
    using stream_pc_inj [OF str, of _ 0] stream_hd [OF str] by (metis gr_zeroI list.size(3) not_less_zero)
  moreover have "is_loop_header g h \<longleftrightarrow> (\<exists>i \<in> set is. h \<le> ins_pc i \<and>
      branch_target i = (Inr (Some (int h)) :: int option verifying))" for h
  proof
    assume "is_loop_header g h"
    then show "\<exists>i \<in> set is. h \<le> ins_pc i \<and>
        branch_target i = (Inr (Some (int h)) :: int option verifying)"
      using inv by (simp add: is_loop_header_def scan_invariant_def)
  next
    assume "\<exists>i \<in> set is. h \<le> ins_pc i \<and>
      branch_target i = (Inr (Some (int h)) :: int option verifying)"
    then obtain i where i: "i \<in> set is" "h \<le> ins_pc i"
      "branch_target i = (Inr (Some (int h)) :: int option verifying)" by blast
    from scanned_target [OF _ i(3)] sc i(1,2) show "is_loop_header g h"
      by (fastforce simp: is_loop_header_def)
  qed
  ultimately show ?thesis
    using ne' wf st len img pcs unfolding wf_cfg_def by (metis length_map)
qed

section \<open>No panics\<close>

text \<open>What linking indexes: the blocks the map names, and their tails.\<close>

definition linkable :: "instruction list \<Rightarrow> basic_block list \<Rightarrow> (nat \<times> nat) list \<Rightarrow> bool" where
  "linkable is bs pcs \<longleftrightarrow> (\<forall>pc k. map_of pcs pc = Some k \<longrightarrow> k < length bs) \<and>
     (\<forall>b \<in> set bs. 0 < range_last b \<and> range_last b \<le> length is)"

lemma linkable_tail:
  "linkable is bs pcs \<Longrightarrow> b \<in> set bs \<Longrightarrow>
   block_tail is b = (Inr (is ! (range_last b - 1)) :: instruction verifying)"
  by (auto simp: linkable_def intro!: block_tail_in_range [unfolded One_nat_def])

lemma linkable_at:
  assumes "linkable is bs pcs" "map_of pcs pc = Some k"
  shows "k < length bs"
    "block_tail is (bs ! k) = (Inr (is ! (range_last (bs ! k) - 1)) :: instruction verifying)"
proof -
  show k: "k < length bs" using assms by (auto simp: linkable_def)
  show "block_tail is (bs ! k) = (Inr (is ! (range_last (bs ! k) - 1)) :: instruction verifying)"
    using linkable_tail [OF assms(1)] k by simp
qed

lemma return_point_no_panic: "no_panic (return_point pcs i)"
  by (auto simp: return_point_def split: option.splits)

lemma collect_no_panic:
  "linkable is bs pcs \<Longrightarrow> b \<in> set bs \<Longrightarrow> no_panic (collect_return_point is pcs b rp)"
  by (auto simp: collect_return_point_def linkable_tail Let_def return_point_no_panic
      split: list.splits intro!: no_panic_rbind)

lemma owner_walk_no_panic:
  "linkable is bs pcs \<Longrightarrow> no_panic (owner_walk is bs pcs e v p ow)"
proof (induction "is" bs pcs e v p ow rule: owner_walk.induct)
  case (2 "is" bs pcs e v pc p ow)
  show ?case
  proof (cases "pc \<in> set v \<or> map_of pcs pc = None")
    case True
    then show ?thesis using "2.IH"(1) "2.prems" by (auto simp: owner_walk.simps(2))
  next
    case False
    then obtain k where k: "map_of pcs pc = Some k" by blast
    note at = linkable_at [OF "2.prems" k]
    from False have v: "pc \<notin> set v" by simp
    have ix: "index bs k = (Inr (bs ! k) :: basic_block verifying)" using at(1) by simp
    show ?thesis
      using "2.IH"(2-4) [OF v k ix at(2)] "2.prems" v k ix at(2) return_point_no_panic
      by (subst owner_walk.simps) (auto simp del: not_None_eq intro!: no_panic_rbind)
  qed
qed simp

lemma link_no_panic:
  assumes lk: "linkable is bs pcs"
  shows "no_panic (link_subroutine_returns is bs pcs)"
  unfolding link_subroutine_returns_def
proof (intro no_panic_rbind)
  show "no_panic (fold_res (collect_return_point is pcs) bs [])"
    by (rule no_panic_fold_res [of "\<lambda>_. True"]) (auto intro: collect_no_panic [OF lk])
  fix rp assume rp: "fold_res (collect_return_point is pcs) bs [] = Inr rp"
  show "no_panic (fold_res (walk_entry is bs pcs) (map fst rp) [])"
    by (rule no_panic_fold_res [of "\<lambda>_. True"])
      (auto intro!: no_panic_rbind owner_walk_no_panic [OF lk])
  fix ow assume ow: "fold_res (walk_entry is bs pcs) (map fst rp) [] = Inr ow"
  have d: "distinct (map fst rp)"
    using collect_all [OF rp] strict_sorted_distinct [of rp] by (simp add: points_ok_def)
  note own = owners_all [OF ow _ d]
  have keys: "fst x < length bs \<and> map_of rp (snd x) \<noteq> None" if "x \<in> set ow" for x
  proof -
    have "map_of ow (fst x) = Some (snd x)"
      using that own map_of_strict_sorted_iff [of ow "fst x" "snd x"] by simp
    then have "snd x \<in> fst ` set rp" "owned_by is bs pcs (snd x) (fst x)" using own by auto
    then show ?thesis
      by (auto simp: owned_by_def ret_at_def tail_at_def map_of_eq_None_iff simp del: not_None_eq)
  qed
  show "no_panic (fold_res (install_returns rp) ow bs)"
  proof (rule no_panic_fold_res [of "\<lambda>bs'. length bs' = length bs"])
    fix x bs' bs'' assume "x \<in> set ow" "length bs' = length bs" "install_returns rp x bs' = Inr bs''"
    then show "length bs'' = length bs" by (auto simp: install_returns_def rbind_Inr_iff)
  next
    fix x and bs' :: "basic_block list" assume "x \<in> set ow" "length bs' = length bs"
    with keys [of x] show "no_panic (install_returns rp x bs')"
      by (auto simp: install_returns_def)
  qed simp
qed

lemma build_no_panic:
  assumes str: "stream is n" shows "no_panic (build is n mx)"
proof (cases "is = []")
  case False
  let ?scan = "fold_res (scan_instruction (bs_of_list (map ins_pc is)) n) is ([0], [])"
  have scan: "no_panic ?scan"
    by (rule no_panic_fold_res [of "\<lambda>_. True"])
      (auto intro: scan_instruction_no_panic stream_wf [OF str])
  have rest: "no_panic (rbind (map_res (build_block is n
      (bt_of_list (zip (map ins_pc is) [0..<length is])) starts) [0..<length starts]) (\<lambda>bs.
      rbind (link_subroutine_returns is bs (bt_of_list (zip (map start_pc bs) [0..<length bs])))
        (\<lambda>bs'. Inr \<lparr>blocks = bs', by_pc = bt_of_list (zip (map start_pc bs) [0..<length bs]),
             loop_headers = hs\<rparr>)))" if sc: "?scan = Inr (starts, hs)" for starts hs
  proof -
    have "sorted_wrt (<) starts" "set starts \<subseteq> ins_pc ` set is"
      using scan_result [OF str False sc] by (auto simp: scan_invariant_def)
    from build_blocks_total [OF str this] obtain bs where
      bs: "map_res (build_block is n (bt_of_list (zip (map ins_pc is) [0..<length is])) starts)
         [0..<length starts] = Inr bs" "length bs = length starts"
         "\<forall>k < length starts. block_shape is n starts k (bs ! k)"
         "bt_of_list (zip (map start_pc bs) [0..<length bs]) = zip starts [0..<length starts]" .
    have "\<forall>b \<in> set bs. 0 < range_last b \<and> range_last b \<le> length is"
      using bs(2,3) by (fastforce simp: in_set_conv_nth block_shape_def)
    then have "linkable is bs (zip starts [0..<length starts])"
      using bs(2) by (auto simp: linkable_def in_set_zip dest!: map_of_SomeD)
    from link_no_panic [OF this] show ?thesis using bs(1,4) by auto
  qed
  show ?thesis unfolding build_def Let_def using False scan rest by (auto intro!: no_panic_rbind)
qed (simp add: build_def)

section \<open>Execution through finally blocks\<close>

text \<open>
  Execution at the level of blocks with the return addresses made explicit: a \<^verbatim>\<open>gosub\<close> pushes
  its finally entry and return point, a \<^verbatim>\<open>ret\<close> pops them and continues at the return point, and
  every other block continues at a successor.
\<close>

inductive sub_step ::
  "instruction list \<Rightarrow> control_flow_graph \<Rightarrow> nat \<times> (nat \<times> nat) list \<Rightarrow> nat \<times> (nat \<times> nat) list \<Rightarrow> bool"
  for "is" g where
  sub_plain: "tail_at is (blocks g) (by_pc g) pc k tail \<Longrightarrow> ins_name tail \<noteq> ''ret'' \<Longrightarrow>
    ins_name tail \<noteq> ''gosub'' \<Longrightarrow> pc' \<in> set (successors (blocks g ! k)) \<Longrightarrow>
    sub_step is g (pc, fs) (pc', fs)"
| sub_call: "tail_at is (blocks g) (by_pc g) pc k tail \<Longrightarrow> ins_name tail = ''gosub'' \<Longrightarrow>
    gosub_at is (by_pc g) (blocks g ! k) e r \<Longrightarrow>
    sub_step is g (pc, fs) (e, (e, r) # fs)"
| sub_ret: "tail_at is (blocks g) (by_pc g) pc k tail \<Longrightarrow> ins_name tail = ''ret'' \<Longrightarrow>
    sub_step is g (pc, (e, r) # fs) (r, fs)"

fun frames_ok ::
  "instruction list \<Rightarrow> control_flow_graph \<Rightarrow> nat \<Rightarrow> (nat \<times> nat) list \<Rightarrow> bool" where
  "frames_ok is g pc [] \<longleftrightarrow> True"
| "frames_ok is g pc ((e, r) # fs) \<longleftrightarrow> same_level is (blocks g) (by_pc g) e pc \<and>
     r \<in> returns_to is (blocks g) (by_pc g) e \<and> frames_ok is g r fs"

lemma frames_ok_step:
  "frames_ok is g pc fs \<Longrightarrow> level_step is (blocks g) (by_pc g) pc pc' \<Longrightarrow> frames_ok is g pc' fs"
  by (induction "is" g pc fs rule: frames_ok.induct) (auto intro: same_level_step)

lemma sub_step_frames:
  assumes "sub_step is g (pc, fs) (pc', fs')" "frames_ok is g pc fs"
  shows "frames_ok is g pc' fs'"
  using assms(1)
proof (cases rule: sub_step.cases)
  case (sub_plain k tail)
  then have "level_step is (blocks g) (by_pc g) pc pc'" by (auto simp: level_step_def)
  with frames_ok_step assms(2) sub_plain show ?thesis by simp
next
  case (sub_call k tail r)
  then have "return_point (by_pc g) tail = Inr r"
    by (auto simp: gosub_at_def tail_at_def)
  with sub_call have "level_step is (blocks g) (by_pc g) pc r" by (auto simp: level_step_def)
  with frames_ok_step [OF assms(2)] have "frames_ok is g r fs" by blast
  moreover have "blocks g ! k \<in> set (blocks g)" using sub_call by (simp add: tail_at_def)
  ultimately show ?thesis using sub_call by (auto simp: returns_to_def same_level_refl)
next
  case (sub_ret k tail e)
  with assms(2) show ?thesis by simp
qed

lemma same_level_mono:
  "same_level is bs pcs e x \<Longrightarrow>
   (\<And>a b. level_step is bs pcs a b \<Longrightarrow> level_step is bs' pcs a b) \<Longrightarrow> same_level is bs' pcs e x"
  by (induction rule: same_level.induct) (auto intro: same_level.intros)

text \<open>On the linked graph the walk relations are those of the graph before linking.\<close>

lemma link_relations:
  assumes link: "link_subroutine_returns is bs pcs = Inr bs'" and lk: "linkable is bs pcs"
  shows "tail_at is bs' pcs = tail_at is bs pcs"
    and "same_level is bs' pcs = same_level is bs pcs"
    and "ret_at is bs' pcs = ret_at is bs pcs"
    and "(\<forall>k < length bs. \<exists>pc. map_of pcs pc = Some k) \<Longrightarrow>
      returns_to is bs' pcs = returns_to is bs pcs"
proof -
  have len: "length bs' = length bs" using link_result(1) [OF link] .
  have tl: "block_tail is (bs' ! k) = (block_tail is (bs ! k) :: instruction verifying)"
    if "k < length bs" for k
    using link_frame [OF link that] block_tail_cong by blast
  show tail: "tail_at is bs' pcs = tail_at is bs pcs"
    by (auto simp: fun_eq_iff tail_at_def len tl)
  show "ret_at is bs' pcs = ret_at is bs pcs"
    by (simp add: fun_eq_iff ret_at_def tail)
  have same: "bs' ! k = bs ! k" if "tail_at is bs pcs pc k tail" "ins_name tail \<noteq> ''ret''" for pc k tail
    using link_frame [OF link, of k] that by (auto simp: tail_at_def ret_at_def)
  have step: "level_step is bs' pcs = level_step is bs pcs"
  proof (intro ext iffI)
    fix a b assume "level_step is bs' pcs a b"
    then obtain k tail where "tail_at is bs pcs a k tail" "ins_name tail \<noteq> ''ret''"
      "if ins_name tail = ''gosub'' then return_point pcs tail = Inr b
       else b \<in> set (successors (bs' ! k))"
      unfolding level_step_def tail by blast
    with same show "level_step is bs pcs a b" unfolding level_step_def by metis
  next
    fix a b assume "level_step is bs pcs a b"
    then obtain k tail where "tail_at is bs pcs a k tail" "ins_name tail \<noteq> ''ret''"
      "if ins_name tail = ''gosub'' then return_point pcs tail = Inr b
       else b \<in> set (successors (bs ! k))"
      unfolding level_step_def by blast
    with same show "level_step is bs' pcs a b" unfolding level_step_def tail by metis
  qed
  show "same_level is bs' pcs = same_level is bs pcs"
    by (intro ext iffI) (auto elim!: same_level_mono simp: step)
  show "returns_to is bs' pcs = returns_to is bs pcs"
    if all: "\<forall>k < length bs. \<exists>pc. map_of pcs pc = Some k"
  proof -
    have eq: "gosub_at is pcs (bs' ! k) e r \<longleftrightarrow> gosub_at is pcs (bs ! k) e r" if k: "k < length bs" for k e r
    proof -
      obtain pc where pc: "map_of pcs pc = Some k" using all k by blast
      note at = linkable_at [OF lk pc]
      let ?t = "is ! (range_last (bs ! k) - 1)"
      show ?thesis
      proof (cases "ins_name ?t = ''gosub''")
        case True
        then have "bs' ! k = bs ! k" using same [of pc k ?t] pc at by (simp add: tail_at_def)
        then show ?thesis by simp
      next
        case False
        then show ?thesis using at(2) tl [OF k] by (simp add: gosub_at_def)
      qed
    qed
    have "(\<exists>b \<in> set bs'. gosub_at is pcs b e r) \<longleftrightarrow> (\<exists>b \<in> set bs. gosub_at is pcs b e r)" for e r
      using eq len by (metis in_set_conv_nth)
    then show ?thesis by (simp add: fun_eq_iff returns_to_def)
  qed
qed

lemma build_ret_successors:
  assumes str: "stream is n" and b: "build is n mx = Inr g"
    and e: "same_level is (blocks g) (by_pc g) e pc" "ret_at is (blocks g) (by_pc g) pc k"
    and ne: "returns_to is (blocks g) (by_pc g) e \<noteq> {}"
  shows "set (successors (blocks g ! k)) = returns_to is (blocks g) (by_pc g) e"
proof -
  obtain starts bs where inv: "scan_invariant is (starts, loop_headers g)"
    and "\<forall>i \<in> set is. scanned n i (set starts) (set (loop_headers g))" "length starts \<le> mx"
    and len: "length bs = length starts"
    and shape: "\<forall>k < length starts. block_shape is n starts k (bs ! k)"
    and pcs: "by_pc g = zip starts [0..<length starts]"
    and link: "link_subroutine_returns is bs (by_pc g) = Inr (blocks g)"
    by (rule build_stages [OF str b])
  have dist: "distinct starts" using inv strict_sorted_iff by (auto simp: scan_invariant_def)
  have "\<forall>b \<in> set bs. 0 < range_last b \<and> range_last b \<le> length is"
    using len shape by (fastforce simp: in_set_conv_nth block_shape_def)
  then have lk: "linkable is bs (by_pc g)"
    using len by (auto simp: linkable_def pcs in_set_zip dest!: map_of_SomeD)
  have all: "\<forall>k < length bs. \<exists>pc. map_of (by_pc g) pc = Some k"
    using map_of_zip_index [OF dist] len pcs by auto
  note rel = link_relations(2,3) [OF link lk] link_relations(4) [OF link lk all]
  have owned: "owned_by is bs (by_pc g) e k" using e rel by (auto simp: owned_by_def)
  have k: "k < length bs"
    using e(2) rel(2) by (auto simp: ret_at_def tail_at_def)
  from link_result(2) [OF link k] consider
    (own) e' ps where "owned_by is bs (by_pc g) e' k" "set ps = returns_to is bs (by_pc g) e'"
      "ps \<noteq> []" "blocks g ! k = (bs ! k)\<lparr>successors := ps\<rparr>"
    | (none) "\<forall>e. returns_to is bs (by_pc g) e \<noteq> {} \<longrightarrow> \<not> owned_by is bs (by_pc g) e k"
    by blast
  then show ?thesis
  proof cases
    case own
    have "returns_to is bs (by_pc g) e' \<noteq> {}" using own(2,3) by (metis set_empty)
    then have "e' = e" using link_result(3) [OF link _ _ own(1) owned] ne rel(3) by simp
    with own rel(3) show ?thesis by simp
  next
    case none
    with owned ne rel(3) show ?thesis by simp
  qed
qed

lemma sub_step_edge:
  assumes str: "stream is n" and b: "build is n mx = Inr g"
    and step: "sub_step is g (pc, fs) (pc', fs')" and ok: "frames_ok is g pc fs"
  shows "\<exists>k < length (blocks g). map_of (by_pc g) pc = Some k \<and> pc' \<in> set (successors (blocks g ! k))"
  using step
proof (cases rule: sub_step.cases)
  case (sub_plain k tail)
  then show ?thesis by (auto simp: tail_at_def)
next
  case (sub_call k tail r)
  then have "pc' \<in> set (successors (blocks g ! k))" by (auto simp: gosub_at_def)
  with sub_call show ?thesis by (auto simp: tail_at_def)
next
  case (sub_ret k tail e)
  then have ret: "ret_at is (blocks g) (by_pc g) pc k" by (auto simp: ret_at_def)
  have fr: "same_level is (blocks g) (by_pc g) e pc" "pc' \<in> returns_to is (blocks g) (by_pc g) e"
    using ok sub_ret by auto
  then have "pc' \<in> set (successors (blocks g ! k))"
    using build_ret_successors [OF str b fr(1) ret] by auto
  with sub_ret show ?thesis by (auto simp: tail_at_def)
qed

section \<open>Control flow between instructions\<close>

text \<open>
  The specification of the graph, on instructions: a branch goes to its label, a branch that is
  not \<^verbatim>\<open>goto\<close> or \<^verbatim>\<open>gosub\<close> may also fall through, and an instruction without a label falls through
  unless it leaves the function or is \<^verbatim>\<open>ret\<close>. No instruction falls off the end.
\<close>

inductive flow :: "nat \<Rightarrow> instruction \<Rightarrow> nat \<Rightarrow> bool" for n i where
  flow_taken: "branch_target i = (Inr (Some (int t)) :: int option verifying) \<Longrightarrow> flow n i t"
| flow_skipped: "branch_target i = (Inr (Some t) :: int option verifying) \<Longrightarrow>
    ins_name i \<notin> {''goto'', ''goto8'', ''goto16'', ''gosub''} \<Longrightarrow> after_ins i < n \<Longrightarrow>
    flow n i (after_ins i)"
| flow_straight: "branch_target i = (Inr None :: int option verifying) \<Longrightarrow>
    ins_name i \<notin> {''return'', ''return_undef'', ''return_async'', ''throw'', ''throw_error'',
      ''tail_call'', ''tail_call_method'', ''ret''} \<Longrightarrow> after_ins i < n \<Longrightarrow>
    flow n i (after_ins i)"

inductive_simps flow_iff: "flow n i t"

text \<open>
  Inside a finally block: a nested \<^verbatim>\<open>gosub\<close> comes back behind itself, \<^verbatim>\<open>ret\<close> ends the block. A
  \<open>finally_call\<close> is a \<^verbatim>\<open>gosub\<close> to the entry \<open>e\<close> that resumes at \<open>r\<close>.
\<close>

definition finally_step :: "instruction list \<Rightarrow> nat \<Rightarrow> nat \<Rightarrow> nat \<Rightarrow> bool" where
  "finally_step is n p q \<longleftrightarrow>
     (\<exists>i \<in> set is. ins_pc i = p \<and> ins_name i \<noteq> ''ret'' \<and>
        (if ins_name i = ''gosub'' then q = after_ins i else flow n i q))"

definition finally_call :: "instruction list \<Rightarrow> nat \<Rightarrow> nat \<Rightarrow> bool" where
  "finally_call is e r \<longleftrightarrow>
     (\<exists>i \<in> set is. ins_name i = ''gosub'' \<and> r = after_ins i \<and>
        branch_target i = (Inr (Some (int e)) :: int option verifying))"

text \<open>In the generated table \<^verbatim>\<open>gosub\<close> has a label and \<^verbatim>\<open>ret\<close> has none.\<close>

definition finally_formats :: "instruction list \<Rightarrow> bool" where
  "finally_formats is \<longleftrightarrow> list_all (\<lambda>i.
     (ins_name i = ''gosub'' \<longrightarrow> branch_target i \<noteq> (Inr None :: int option verifying)) \<and>
     (ins_name i = ''ret'' \<longrightarrow> branch_target i = (Inr None :: int option verifying))) is"

definition block_body :: "instruction list \<Rightarrow> basic_block \<Rightarrow> instruction list" where
  "block_body is b = take (range_last b - range_first b) (drop (range_first b) is)"

lemma falls_through_flow:
  assumes "falls_through i" "after_ins i < n"
  shows "flow n i t \<longleftrightarrow> t = after_ins i"
  using assms by (auto simp: falls_through_def flow_iff is_terminal_def is_subroutine_return_def)

lemma tail_successors_flow:
  assumes i: "scanned n i B H" "n \<le> u32_max" and ss: "tail_successors n i = Inr ss"
  shows "sorted_wrt (<) ss \<and> set ss = {t. flow n i t}"
proof -
  obtain t where t: "branch_target i = (Inr t :: int option verifying)"
    using i(1) unfolding scanned_def by blast
  show ?thesis
  proof (cases t)
    case None
    with t ss i(2) show ?thesis
      by (auto simp: tail_successors_def flow_iff is_terminal_def is_subroutine_return_def
          split: if_splits)
  next
    case (Some target)
    with scanned_target [OF i(1)] t have "0 \<le> target" "nat target < n" by auto
    moreover from this(1) obtain x where "target = int x" by (rule nonneg_int_cases)
    ultimately have x: "target = int x" "x < n" by simp_all
    with t Some ss i(2) show ?thesis
      by (auto simp: tail_successors_def flow_iff is_unconditional_def Let_def insort_key.simps
          split: if_splits)
  qed
qed

lemma block_at_position:
  assumes g: "wf_cfg is n g" and j: "j < length is"
  shows "\<exists>k < length (blocks g). range_first (blocks g ! k) \<le> j \<and> j < range_last (blocks g ! k)"
proof -
  have wf: "wf_block is n (blocks g) k" if "k < length (blocks g)" for k
    using g that by (simp add: wf_cfg_def)
  have ne: "0 < length (blocks g)" and z: "range_first (blocks g ! 0) = 0" using g by (auto simp: wf_cfg_def)
  have "\<exists>k' \<le> k. range_first (blocks g ! k') \<le> j \<and> j < range_last (blocks g ! k')"
    if "k < length (blocks g)" "j < range_last (blocks g ! k)" for k
    using that
  proof (induction k)
    case 0
    then show ?case using z by auto
  next
    case (Suc k)
    then have eq: "range_last (blocks g ! k) = range_first (blocks g ! Suc k)"
      using wf [of k] by (simp add: wf_block_def Let_def)
    show ?case
    proof (cases "range_first (blocks g ! Suc k) \<le> j")
      case False
      with Suc eq obtain k' where "k' \<le> k" "range_first (blocks g ! k') \<le> j" "j < range_last (blocks g ! k')"
        by auto
      then show ?thesis using le_SucI by blast
    qed (use Suc.prems in blast)
  qed
  moreover have "range_last (blocks g ! (length (blocks g) - 1)) = length is"
    using wf [of "length (blocks g) - 1"] ne by (simp add: wf_block_def Let_def)
  ultimately obtain k' where "k' \<le> length (blocks g) - 1" "range_first (blocks g ! k') \<le> j"
    "j < range_last (blocks g ! k')" using ne j by (metis diff_less less_numeral_extra(1))
  moreover from this(1) have "k' < length (blocks g)" using ne by linarith
  ultimately show ?thesis by blast
qed

lemma take_blocks:
  assumes g: "wf_cfg is n g"
  shows "Suc k \<le> length (blocks g) \<Longrightarrow>
    concat (map (block_body is) (take (Suc k) (blocks g))) = take (range_last (blocks g ! k)) is"
proof (induction k)
  have wf: "wf_block is n (blocks g) k" if "k < length (blocks g)" for k
    using g that by (simp add: wf_cfg_def)
  {
    case 0
    then show ?case using g by (auto simp: wf_cfg_def block_body_def take_Suc_conv_app_nth)
  next
    case (Suc k)
    have eq: "range_last (blocks g ! k) = range_first (blocks g ! Suc k)"
      and le: "range_first (blocks g ! Suc k) \<le> range_last (blocks g ! Suc k)"
      using wf [of k] wf [of "Suc k"] Suc.prems by (auto simp: wf_block_def Let_def)
    from Suc have "concat (map (block_body is) (take (Suc (Suc k)) (blocks g))) =
        take (range_first (blocks g ! Suc k)) is @ block_body is (blocks g ! Suc k)"
      by (simp add: take_Suc_conv_app_nth [of "Suc k"] eq)
    also have "\<dots> = take (range_last (blocks g ! Suc k)) is"
      using le by (simp add: block_body_def flip: take_add)
    finally show ?case .
  }
qed

lemma blocks_partition:
  assumes g: "wf_cfg is n g"
  shows "concat (map (block_body is) (blocks g)) = is"
proof -
  let ?m = "length (blocks g) - 1"
  have ne: "0 < length (blocks g)" using g by (auto simp: wf_cfg_def)
  then have "range_last (blocks g ! ?m) = length is"
    using g by (auto simp: wf_cfg_def wf_block_def Let_def)
  then show ?thesis using take_blocks [OF g, of ?m] ne by simp
qed


lemma strict_sorted_singleton: "sorted_wrt (<) xs \<Longrightarrow> set xs = {x :: nat} \<Longrightarrow> xs = [x]"
  by (cases xs) (auto simp: subset_singleton_iff)

lemma block_last_mono:
  assumes g: "wf_cfg is n g"
  shows "k < k' \<Longrightarrow> k' < length (blocks g) \<Longrightarrow> range_last (blocks g ! k) < range_last (blocks g ! k')"
proof (induction k')
  case (Suc m)
  have "wf_block is n (blocks g) m" "wf_block is n (blocks g) (Suc m)"
    using g Suc.prems by (auto simp: wf_cfg_def)
  then have "range_last (blocks g ! m) < range_last (blocks g ! Suc m)"
    using Suc.prems by (simp add: wf_block_def Let_def)
  with Suc show ?case by (cases "k = m") auto
qed simp

lemma block_last_inj:
  assumes g: "wf_cfg is n g" and k: "k < length (blocks g)" "k' < length (blocks g)"
    and "range_last (blocks g ! k) = range_last (blocks g ! k')"
  shows "k = k'"
  using block_last_mono [OF g] k assms(4) by (metis linorder_neqE_nat nat_neq_iff)

lemma block_index:
  assumes g: "wf_cfg is n g"
  shows "map_of (by_pc g) pc = Some k \<longleftrightarrow> k < length (blocks g) \<and> start_pc (blocks g ! k) = pc"
proof -
  have "distinct (map start_pc (blocks g))" using g strict_sorted_iff by (auto simp: wf_cfg_def)
  from map_of_zip_index [OF this, of pc k] show ?thesis using g by (auto simp: wf_cfg_def)
qed

abbreviation tail_of :: "instruction list \<Rightarrow> control_flow_graph \<Rightarrow> nat \<Rightarrow> instruction" where
  "tail_of is g k \<equiv> is ! (range_last (blocks g ! k) - 1)"

lemma block_tail_at:
  assumes g: "wf_cfg is n g"
  shows "tail_at is (blocks g) (by_pc g) pc k tail \<longleftrightarrow>
    k < length (blocks g) \<and> start_pc (blocks g ! k) = pc \<and> tail = tail_of is g k"
proof -
  have "block_tail is (blocks g ! k) = (Inr (tail_of is g k) :: instruction verifying)" if "k < length (blocks g)"
    using g that by (intro block_tail_in_range) (auto simp: wf_cfg_def wf_block_def Let_def)
  then show ?thesis unfolding tail_at_def block_index [OF g] by auto
qed

text \<open>An instruction that does not fall through is the tail of its block.\<close>

lemma block_tail_unique:
  assumes g: "wf_cfg is n g" and k: "k < length (blocks g)"
    and j: "range_first (blocks g ! k) \<le> j" "j < range_last (blocks g ! k)" "\<not> falls_through (is ! j)"
  shows "j = range_last (blocks g ! k) - 1"
proof (rule ccontr)
  assume "j \<noteq> range_last (blocks g ! k) - 1"
  then have "Suc j < range_last (blocks g ! k)" using j(2) by linarith
  with g k j(1,3) show False by (simp add: wf_cfg_def wf_block_def Let_def)
qed

lemma tail_block:
  assumes str: "stream is n" and g: "wf_cfg is n g" and i: "i \<in> set is" "\<not> falls_through i"
  shows "\<exists>k < length (blocks g). i = tail_of is g k"
proof -
  obtain j where j: "j < length is" "is ! j = i" using i(1) by (auto simp: in_set_conv_nth)
  obtain k where "k < length (blocks g)" "range_first (blocks g ! k) \<le> j" "j < range_last (blocks g ! k)"
    using block_at_position [OF g j(1)] by blast
  with block_tail_unique [OF g] i(2) j(2) show ?thesis by blast
qed

lemma build_scanned:
  assumes str: "stream is n" and b: "build is n mx = Inr g" and i: "i \<in> set is"
  shows "scanned n i (start_pc ` set (blocks g)) (set (loop_headers g))"
proof -
  obtain starts bs where inv: "scan_invariant is (starts, loop_headers g)"
    and sc: "\<forall>i \<in> set is. scanned n i (set starts) (set (loop_headers g))"
    and len: "length starts \<le> mx" "length bs = length starts"
    and shape: "\<forall>k < length starts. block_shape is n starts k (bs ! k)"
    and pcs: "by_pc g = zip starts [0..<length starts]"
    and link: "link_subroutine_returns is bs (by_pc g) = Inr (blocks g)"
    using build_stages [OF str b] by blast
  have "map start_pc (blocks g) = starts" using link_wf [OF str inv sc len(2) shape pcs link] by simp
  then show ?thesis using sc i by (metis set_map)
qed

lemma build_successors:
  assumes str: "stream is n" and b: "build is n mx = Inr g" and k: "k < length (blocks g)"
    and ret: "ins_name (tail_of is g k) \<noteq> ''ret''"
  shows "sorted_wrt (<) (successors (blocks g ! k)) \<and>
    set (successors (blocks g ! k)) = {t. flow n (tail_of is g k) t}"
proof -
  have "wf_block is n (blocks g) k" using build_wf_cfg [OF str b] k by (simp add: wf_cfg_def)
  then have "range_last (blocks g ! k) - 1 < length is"
    and ss: "tail_successors n (tail_of is g k) = Inr (successors (blocks g ! k))"
    using ret by (auto simp: wf_block_def Let_def is_subroutine_return_def)
  then have "scanned n (tail_of is g k) (start_pc ` set (blocks g)) (set (loop_headers g))"
    using build_scanned [OF str b] by simp
  from tail_successors_flow [OF this _ ss] show ?thesis using str by (simp add: stream_def)
qed

lemma collect_return_points:
  "fold_res (collect_return_point is pcs) bs rp = Inr rp' \<Longrightarrow> b \<in> set bs \<Longrightarrow>
   block_tail is b = (Inr tail :: instruction verifying) \<Longrightarrow> ins_name tail = ''gosub'' \<Longrightarrow>
   \<exists>r. return_point pcs tail = Inr r"
proof (induction bs arbitrary: rp)
  case (Cons a bs)
  then obtain rp1 where step: "collect_return_point is pcs a rp = Inr rp1"
    and rest: "fold_res (collect_return_point is pcs) bs rp1 = Inr rp'" by (auto simp: rbind_Inr_iff)
  show ?case
  proof (cases "b = a")
    case True
    with step Cons.prems(3,4) show ?thesis
      by (auto simp: collect_return_point_def rbind_Inr_iff split: list.splits)
  next
    case False
    with Cons.IH [OF rest] Cons.prems show ?thesis by simp
  qed
qed simp

lemma return_point_after: "return_point pcs i = Inr r \<Longrightarrow> r = after_ins i"
  by (auto simp: return_point_def checked_add_def split: option.splits if_splits)

lemma build_gosub_returns:
  assumes str: "stream is n" and b: "build is n mx = Inr g" and k: "k < length (blocks g)"
    and sub: "ins_name (tail_of is g k) = ''gosub''"
  shows "return_point (by_pc g) (tail_of is g k) = Inr (after_ins (tail_of is g k))"
proof -
  obtain starts bs where inv: "scan_invariant is (starts, loop_headers g)"
    and sc: "\<forall>i \<in> set is. scanned n i (set starts) (set (loop_headers g))" "length starts \<le> mx"
    and len: "length bs = length starts"
    and shape: "\<forall>k < length starts. block_shape is n starts k (bs ! k)"
    and pcs: "by_pc g = zip starts [0..<length starts]"
    and link: "link_subroutine_returns is bs (by_pc g) = Inr (blocks g)"
    by (rule build_stages [OF str b])
  have k': "k < length bs" using link_result(1) [OF link] k by simp
  have fr: "range_last (blocks g ! k) = range_last (bs ! k)" using link_frame [OF link k'] by simp
  have "block_tail is (bs ! k) = (Inr (tail_of is g k) :: instruction verifying)"
    using shape k' len fr by (subst block_tail_in_range) (auto simp: block_shape_def)
  moreover obtain rp where "fold_res (collect_return_point is (by_pc g)) bs [] = Inr rp"
    using link by (auto simp: link_subroutine_returns_def rbind_Inr_iff)
  moreover have "bs ! k \<in> set bs" using k' by simp
  ultimately obtain r where "return_point (by_pc g) (tail_of is g k) = Inr r"
    using collect_return_points sub by blast
  then show ?thesis using return_point_after by blast
qed

text \<open>A \<^verbatim>\<open>ret\<close> that no finally entry owns keeps the successors it was built with.\<close>

lemma build_ret_cases:
  assumes str: "stream is n" and b: "build is n mx = Inr g" and k: "k < length (blocks g)"
  shows "(\<exists>e. returns_to is (blocks g) (by_pc g) e \<noteq> {} \<and> owned_by is (blocks g) (by_pc g) e k \<and>
      sorted_wrt (<) (successors (blocks g ! k))) \<or>
    (\<forall>e. returns_to is (blocks g) (by_pc g) e \<noteq> {} \<longrightarrow> \<not> owned_by is (blocks g) (by_pc g) e k) \<and>
      tail_successors n (tail_of is g k) = Inr (successors (blocks g ! k))"
proof -
  obtain starts bs where inv: "scan_invariant is (starts, loop_headers g)"
    and sc: "\<forall>i \<in> set is. scanned n i (set starts) (set (loop_headers g))" "length starts \<le> mx"
    and len: "length bs = length starts"
    and shape: "\<forall>k < length starts. block_shape is n starts k (bs ! k)"
    and pcs: "by_pc g = zip starts [0..<length starts]"
    and link: "link_subroutine_returns is bs (by_pc g) = Inr (blocks g)"
    by (rule build_stages [OF str b])
  have dist: "distinct starts" using inv strict_sorted_iff by (auto simp: scan_invariant_def)
  have "\<forall>b \<in> set bs. 0 < range_last b \<and> range_last b \<le> length is"
    using len shape by (fastforce simp: in_set_conv_nth block_shape_def)
  then have lk: "linkable is bs (by_pc g)"
    using len by (auto simp: linkable_def pcs in_set_zip dest!: map_of_SomeD)
  have all: "\<forall>k < length bs. \<exists>pc. map_of (by_pc g) pc = Some k"
    using map_of_zip_index [OF dist] len pcs by auto
  note rel = link_relations(2,3) [OF link lk] link_relations(4) [OF link lk all]
  have k': "k < length bs" using link_result(1) [OF link] k by simp
  have fr: "range_last (blocks g ! k) = range_last (bs ! k)" using link_frame [OF link k'] by simp
  have own: "owned_by is (blocks g) (by_pc g) e k \<longleftrightarrow> owned_by is bs (by_pc g) e k" for e
    by (simp add: owned_by_def rel)
  from link_result(2) [OF link k'] show ?thesis
  proof (elim disjE exE conjE)
    fix e ps assume "owned_by is bs (by_pc g) e k" "ps \<noteq> []" "sorted_wrt (<) ps"
      "set ps = returns_to is bs (by_pc g) e" "blocks g ! k = (bs ! k)\<lparr>successors := ps\<rparr>"
    then have "returns_to is bs (by_pc g) e \<noteq> {} \<and> owned_by is bs (by_pc g) e k \<and>
        sorted_wrt (<) (successors (blocks g ! k))" by (auto simp flip: set_empty)
    then show ?thesis unfolding own rel by blast
  next
    assume "\<forall>e. returns_to is bs (by_pc g) e \<noteq> {} \<longrightarrow> \<not> owned_by is bs (by_pc g) e k"
      "blocks g ! k = bs ! k"
    then show ?thesis unfolding own rel using shape k' len by (simp add: block_shape_def)
  qed
qed

text \<open>The walk over blocks is the walk over instructions.\<close>

lemma formats_at:
  assumes "finally_formats is" "i \<in> set is"
  shows "ins_name i = ''gosub'' \<Longrightarrow> \<not> falls_through i"
    "ins_name i = ''ret'' \<Longrightarrow> branch_target i = (Inr None :: int option verifying)"
  using assms by (auto simp: finally_formats_def list_all_iff falls_through_def)

lemma block_bounds:
  assumes "wf_cfg is n g" "k < length (blocks g)"
  shows "range_first (blocks g ! k) < range_last (blocks g ! k)" "range_last (blocks g ! k) \<le> length is"
    "ins_pc (is ! range_first (blocks g ! k)) = start_pc (blocks g ! k)"
    "\<And>j. range_first (blocks g ! k) \<le> j \<Longrightarrow> Suc j < range_last (blocks g ! k) \<Longrightarrow> falls_through (is ! j)"
    "set (successors (blocks g ! k)) \<subseteq> start_pc ` set (blocks g)"
  using assms by (auto simp: wf_cfg_def wf_block_def Let_def)

lemma interior_step:
  assumes str: "stream is n" and fmt: "finally_formats is"
    and j: "Suc j < length is" "falls_through (is ! j)"
  shows "finally_step is n (ins_pc (is ! j)) (ins_pc (is ! Suc j))"
proof -
  have after: "after_ins (is ! j) = ins_pc (is ! Suc j)" using stream_after [OF str, of j] j(1) by simp
  have mem: "is ! j \<in> set is" "is ! Suc j \<in> set is" using j(1) by simp_all
  have "after_ins (is ! j) < n" using stream_bounds [OF str mem(2)] after by simp
  then have "flow n (is ! j) (ins_pc (is ! Suc j))" using falls_through_flow [OF j(2)] after by simp
  moreover have "ins_name (is ! j) \<noteq> ''gosub''" "ins_name (is ! j) \<noteq> ''ret''"
    using formats_at(1) [OF fmt mem(1)] j(2) by (auto simp: falls_through_def is_subroutine_return_def)
  ultimately show ?thesis using mem(1) by (auto simp: finally_step_def)
qed

lemma interior_walk:
  assumes str: "stream is n" and fmt: "finally_formats is" and g: "wf_cfg is n g" and k: "k < length (blocks g)"
    and j: "range_first (blocks g ! k) \<le> j" "j < range_last (blocks g ! k)"
  shows "(finally_step is n)\<^sup>*\<^sup>* (start_pc (blocks g ! k)) (ins_pc (is ! j))"
  using j
proof (induction rule: dec_induct)
  case base
  then show ?case using block_bounds(3) [OF g k] by simp
next
  case (step j)
  then have "finally_step is n (ins_pc (is ! j)) (ins_pc (is ! Suc j))"
    using block_bounds(2,4) [OF g k] by (intro interior_step [OF str fmt]) auto
  with step show ?case by (simp add: rtranclp.rtrancl_into_rtrancl)
qed

lemma tail_steps:
  assumes str: "stream is n" and fmt: "finally_formats is" and b: "build is n mx = Inr g"
    and k: "k < length (blocks g)" and ret: "ins_name (tail_of is g k) \<noteq> ''ret''"
  shows "level_step is (blocks g) (by_pc g) (start_pc (blocks g ! k)) q \<longleftrightarrow>
    finally_step is n (ins_pc (tail_of is g k)) q"
proof -
  let ?t = "tail_of is g k"
  have g: "wf_cfg is n g" using build_wf_cfg [OF str b] by simp
  have l: "range_last (blocks g ! k) - 1 < length is" using block_bounds(1,2) [OF g k] by linarith
  have inj: "k' = k" if "k' < length (blocks g)" "start_pc (blocks g ! k') = start_pc (blocks g ! k)" for k'
    using block_index [OF g, of "start_pc (blocks g ! k)"] that k by (metis option.inject)
  have only: "i = ?t" if "i \<in> set is" "ins_pc i = ins_pc ?t" for i
    using that stream_pc_inj [OF str _ l] by (metis in_set_conv_nth)
  have "finally_step is n (ins_pc ?t) q \<longleftrightarrow> (if ins_name ?t = ''gosub'' then q = after_ins ?t else flow n ?t q)"
    using only ret nth_mem [OF l] unfolding finally_step_def by metis
  also have "\<dots> \<longleftrightarrow> (if ins_name ?t = ''gosub'' then return_point (by_pc g) ?t = Inr q
      else q \<in> set (successors (blocks g ! k)))"
    using build_gosub_returns [OF str b k] build_successors [OF str b k ret] by auto
  also have "\<dots> \<longleftrightarrow> level_step is (blocks g) (by_pc g) (start_pc (blocks g ! k)) q"
    unfolding level_step_def block_tail_at [OF g] using k ret inj by blast
  finally show ?thesis by simp
qed

lemma same_level_instructions:
  assumes str: "stream is n" and fmt: "finally_formats is" and b: "build is n mx = Inr g"
    and walk: "same_level is (blocks g) (by_pc g) e x"
  shows "(finally_step is n)\<^sup>*\<^sup>* e x"
  using walk
proof (induction rule: same_level.induct)
  case (same_level_step x y)
  have g: "wf_cfg is n g" using build_wf_cfg [OF str b] by simp
  obtain k where k: "k < length (blocks g)" "x = start_pc (blocks g ! k)" "ins_name (tail_of is g k) \<noteq> ''ret''"
    using same_level_step(2) by (auto simp: level_step_def block_tail_at [OF g])
  have "(finally_step is n)\<^sup>*\<^sup>* x (ins_pc (tail_of is g k))"
    unfolding k(2) using block_bounds(1) [OF g k(1)] by (intro interior_walk [OF str fmt g k(1)]) auto
  moreover have "finally_step is n (ins_pc (tail_of is g k)) y"
    using tail_steps [OF str fmt b k(1,3)] same_level_step(2) k(2) by simp
  ultimately show ?case using same_level_step(3) by (meson rtranclp.rtrancl_into_rtrancl rtranclp_trans)
qed simp

lemma level_step_start:
  assumes g: "wf_cfg is n g" and s: "level_step is (blocks g) (by_pc g) x y"
  shows "\<exists>k < length (blocks g). start_pc (blocks g ! k) = y"
proof -
  obtain k tail where k: "k < length (blocks g)"
    and y: "if ins_name tail = ''gosub'' then return_point (by_pc g) tail = Inr y
      else y \<in> set (successors (blocks g ! k))"
    using s by (auto simp: level_step_def tail_at_def)
  show ?thesis
  proof (cases "ins_name tail = ''gosub''")
    case True
    with y have "map_of (by_pc g) y \<noteq> None"
      by (auto simp: return_point_def split: option.splits if_splits)
    then show ?thesis using block_index [OF g] by blast
  next
    case False
    with y block_bounds(5) [OF g k] have "y \<in> start_pc ` set (blocks g)" by auto
    then show ?thesis by (metis imageE in_set_conv_nth)
  qed
qed

lemma instructions_same_level:
  assumes str: "stream is n" and fmt: "finally_formats is" and b: "build is n mx = Inr g"
    and walk: "(finally_step is n)\<^sup>*\<^sup>* e p" and e: "\<exists>k < length (blocks g). start_pc (blocks g ! k) = e"
  shows "\<exists>k < length (blocks g). \<exists>j. range_first (blocks g ! k) \<le> j \<and> j < range_last (blocks g ! k) \<and>
    ins_pc (is ! j) = p \<and> same_level is (blocks g) (by_pc g) e (start_pc (blocks g ! k))"
  using walk
proof (induction rule: rtranclp_induct)
  have g: "wf_cfg is n g" using build_wf_cfg [OF str b] by simp
  {
    case base
    from e block_bounds(1,3) [OF g] show ?case by (blast intro: same_level_refl)
  next
    case (step p q)
    then obtain k j where k: "k < length (blocks g)" and j: "range_first (blocks g ! k) \<le> j"
      "j < range_last (blocks g ! k)" "ins_pc (is ! j) = p"
      and sl: "same_level is (blocks g) (by_pc g) e (start_pc (blocks g ! k))" by blast
    have lj: "j < length is" using j(2) block_bounds(2) [OF g k] by simp
    obtain i where i: "i \<in> set is" "ins_pc i = p" "ins_name i \<noteq> ''ret''"
      "if ins_name i = ''gosub'' then q = after_ins i else flow n i q"
      using step.hyps(2) by (auto simp: finally_step_def)
    have ij: "i = is ! j" using i(1,2) j(3) stream_pc_inj [OF str _ lj] by (metis in_set_conv_nth)
    show ?case
    proof (cases "Suc j < range_last (blocks g ! k)")
      case True
      with block_bounds(4) [OF g k j(1)] have ft: "falls_through i" by (simp add: ij)
      then have "flow n i q" using i(4) formats_at(1) [OF fmt i(1)] by (auto split: if_splits)
      then have "q = after_ins i" using ft by (auto simp: flow_iff falls_through_def)
      also have "\<dots> = ins_pc (is ! Suc j)"
        using stream_after [OF str lj] True block_bounds(2) [OF g k] by (simp add: ij)
      finally show ?thesis using k j True sl by (intro exI [of _ k] conjI exI [of _ "Suc j"]) auto
    next
      case False
      then have tail: "i = tail_of is g k" using j(2) ij by (metis Suc_lessI diff_Suc_1)
      have "level_step is (blocks g) (by_pc g) (start_pc (blocks g ! k)) q"
        using tail_steps [OF str fmt b k, of q] step.hyps(2) i(2,3) tail by simp
      moreover from level_step_start [OF g this] obtain k' where
        "k' < length (blocks g)" "start_pc (blocks g ! k') = q" by blast
      ultimately show ?thesis using sl block_bounds(1,3) [OF g] by (metis order_refl same_level_step)
    qed
  }
qed

lemma gosub_flow:
  assumes "ins_name i = ''gosub''" "branch_target i = (Inr (Some t) :: int option verifying)"
  shows "flow n i x \<longleftrightarrow> t = int x"
  using assms by (auto simp: flow_iff)

lemma returns_to_calls:
  assumes str: "stream is n" and fmt: "finally_formats is" and b: "build is n mx = Inr g"
  shows "returns_to is (blocks g) (by_pc g) e = {r. finally_call is e r}"
proof -
  have g: "wf_cfg is n g" using build_wf_cfg [OF str b] by simp
  have tl: "tail_of is g k \<in> set is" if "k < length (blocks g)" for k
    using block_bounds(1,2) [OF g that] by simp
  have at: "gosub_at is (by_pc g) (blocks g ! k) e r \<longleftrightarrow> ins_name (tail_of is g k) = ''gosub'' \<and>
      r = after_ins (tail_of is g k) \<and>
      branch_target (tail_of is g k) = (Inr (Some (int e)) :: int option verifying)"
    if k: "k < length (blocks g)" for k r
  proof (cases "ins_name (tail_of is g k) = ''gosub''")
    case True
    let ?t = "tail_of is g k"
    have bt: "block_tail is (blocks g ! k) = (Inr ?t :: instruction verifying)"
      using block_bounds(1,2) [OF g k] by (intro block_tail_in_range) auto
    have "scanned n ?t (start_pc ` set (blocks g)) (set (loop_headers g))"
      by (rule build_scanned [OF str b tl [OF k]])
    then obtain l where l: "branch_target ?t = (Inr l :: int option verifying)"
      unfolding scanned_def by blast
    moreover have "l \<noteq> None" using fmt tl [OF k] True l by (auto simp: finally_formats_def list_all_iff)
    ultimately obtain t where t: "branch_target ?t = (Inr (Some t) :: int option verifying)" by blast
    then have "0 \<le> t" using build_scanned [OF str b tl [OF k]] scanned_target by blast
    then obtain x where x: "t = int x" by (rule nonneg_int_cases)
    have "successors (blocks g ! k) = [x]"
      using build_successors [OF str b k] True gosub_flow [OF True t, of n] x
      by (intro strict_sorted_singleton) simp_all
    then show ?thesis
      using True bt t x build_gosub_returns [OF str b k True] by (auto simp: gosub_at_def)
  next
    case False
    have "block_tail is (blocks g ! k) = (Inr (tail_of is g k) :: instruction verifying)"
      using block_bounds(1,2) [OF g k] by (intro block_tail_in_range) auto
    with False show ?thesis by (simp add: gosub_at_def)
  qed
  show ?thesis
  proof (intro set_eqI iffI)
    fix r assume "r \<in> returns_to is (blocks g) (by_pc g) e"
    then obtain k where "k < length (blocks g)" "gosub_at is (by_pc g) (blocks g ! k) e r"
      by (auto simp: returns_to_def in_set_conv_nth)
    then show "r \<in> {r. finally_call is e r}" using at tl by (auto simp: finally_call_def)
  next
    fix r assume "r \<in> {r. finally_call is e r}"
    then obtain i where i: "i \<in> set is" "ins_name i = ''gosub''" "r = after_ins i"
      "branch_target i = (Inr (Some (int e)) :: int option verifying)" by (auto simp: finally_call_def)
    then obtain k where "k < length (blocks g)" "i = tail_of is g k"
      using tail_block [OF str g i(1)] by (auto simp: falls_through_def)
    then show "r \<in> returns_to is (blocks g) (by_pc g) e"
      using at i by (auto simp: returns_to_def intro!: bexI [of _ "blocks g ! k"])
  qed
qed

lemma owned_by_walk:
  assumes str: "stream is n" and fmt: "finally_formats is" and b: "build is n mx = Inr g"
    and k: "k < length (blocks g)" "ins_name (tail_of is g k) = ''ret''" and e: "finally_call is e r"
  shows "owned_by is (blocks g) (by_pc g) e k \<longleftrightarrow> (finally_step is n)\<^sup>*\<^sup>* e (ins_pc (tail_of is g k))"
proof -
  have g: "wf_cfg is n g" using build_wf_cfg [OF str b] by simp
  have own: "owned_by is (blocks g) (by_pc g) e k \<longleftrightarrow>
      same_level is (blocks g) (by_pc g) e (start_pc (blocks g ! k))"
    using k by (auto simp: owned_by_def ret_at_def block_tail_at [OF g])
  have tl: "tail_of is g k \<in> set is" using block_bounds(1,2) [OF g k(1)] by simp
  show ?thesis
  proof
    assume "owned_by is (blocks g) (by_pc g) e k"
    then have "(finally_step is n)\<^sup>*\<^sup>* e (start_pc (blocks g ! k))"
      using own same_level_instructions [OF str fmt b] by blast
    moreover have "(finally_step is n)\<^sup>*\<^sup>* (start_pc (blocks g ! k)) (ins_pc (tail_of is g k))"
      using block_bounds(1) [OF g k(1)] by (intro interior_walk [OF str fmt g k(1)]) auto
    ultimately show "(finally_step is n)\<^sup>*\<^sup>* e (ins_pc (tail_of is g k))" by simp
  next
    assume walk: "(finally_step is n)\<^sup>*\<^sup>* e (ins_pc (tail_of is g k))"
    obtain i where "i \<in> set is" "branch_target i = (Inr (Some (int e)) :: int option verifying)"
      using e by (auto simp: finally_call_def)
    then have "e \<in> start_pc ` set (blocks g)"
      using build_scanned [OF str b, THEN scanned_target] by fastforce
    then have "\<exists>k < length (blocks g). start_pc (blocks g ! k) = e" by (metis imageE in_set_conv_nth)
    from instructions_same_level [OF str fmt b walk this] obtain k' j where k': "k' < length (blocks g)"
      and j: "range_first (blocks g ! k') \<le> j" "j < range_last (blocks g ! k')"
        "ins_pc (is ! j) = ins_pc (tail_of is g k)"
      and sl: "same_level is (blocks g) (by_pc g) e (start_pc (blocks g ! k'))" by blast
    have "j < length is" "range_last (blocks g ! k) - 1 < length is"
      using j(2) block_bounds(1,2) [OF g k'] block_bounds(1,2) [OF g k(1)] by auto
    then have jk: "j = range_last (blocks g ! k) - 1" using stream_pc_inj [OF str] j(3) by blast
    then have "\<not> falls_through (is ! j)" using k(2) by (simp add: falls_through_def is_subroutine_return_def)
    from block_tail_unique [OF g k' j(1,2) this] jk
    have "range_last (blocks g ! k') = range_last (blocks g ! k)"
      using block_bounds(1) [OF g k'] block_bounds(1) [OF g k(1)] by linarith
    then have "k' = k" by (rule block_last_inj [OF g k' k(1)])
    then show "owned_by is (blocks g) (by_pc g) e k" using own sl by simp
  qed
qed

lemma block_body_facts:
  assumes str: "stream is n" and g: "wf_cfg is n g" and k: "k < length (blocks g)"
  shows "block_body is (blocks g ! k) \<noteq> []" "start_pc (blocks g ! k) = ins_pc (hd (block_body is (blocks g ! k)))"
    "last (block_body is (blocks g ! k)) = tail_of is g k" "end_pc (blocks g ! k) = after_ins (tail_of is g k)"
    "\<forall>j t. Suc j < length (block_body is (blocks g ! k)) \<longrightarrow>
       (flow n (block_body is (blocks g ! k) ! j) t \<longleftrightarrow> t = ins_pc (block_body is (blocks g ! k) ! Suc j))"
proof -
  let ?b = "blocks g ! k"
  note bd = block_bounds [OF g k]
  have len: "length (block_body is ?b) = range_last ?b - range_first ?b"
    using bd(1,2) by (simp add: block_body_def)
  have nth: "block_body is ?b ! j = is ! (range_first ?b + j)" if "j < range_last ?b - range_first ?b" for j
    using that bd(1,2) by (simp add: block_body_def)
  show ne: "block_body is ?b \<noteq> []" using len bd(1) by auto
  show "start_pc ?b = ins_pc (hd (block_body is ?b))"
    using ne nth [of 0] bd(1,3) by (simp add: hd_conv_nth)
  show "last (block_body is ?b) = tail_of is g k"
    using ne nth [of "range_last ?b - range_first ?b - 1"] bd(1) len by (simp add: last_conv_nth)
  have l: "range_last ?b - 1 < length is" "Suc (range_last ?b - 1) = range_last ?b" using bd(1,2) by auto
  have wf: "wf_block is n (blocks g) k" using g k by (simp add: wf_cfg_def)
  show "end_pc ?b = after_ins (tail_of is g k)"
  proof (cases "Suc k < length (blocks g)")
    case True
    then have "range_last ?b = range_first (blocks g ! Suc k)" "end_pc ?b = start_pc (blocks g ! Suc k)"
      using wf by (auto simp: wf_block_def Let_def)
    then show ?thesis
      using stream_after [OF str l(1)] l(2) block_bounds(1-3) [OF g True] by (simp split: if_splits)
  next
    case False
    then show ?thesis using stream_after [OF str l(1)] l(2) wf by (simp add: wf_block_def Let_def)
  qed
  show "\<forall>j t. Suc j < length (block_body is ?b) \<longrightarrow>
      (flow n (block_body is ?b ! j) t \<longleftrightarrow> t = ins_pc (block_body is ?b ! Suc j))"
  proof (intro allI impI)
    fix j t assume "Suc j < length (block_body is ?b)"
    then have j: "Suc (range_first ?b + j) < range_last ?b" using len by simp
    then have ls: "Suc (range_first ?b + j) < length is" using bd(2) by simp
    have after: "after_ins (is ! (range_first ?b + j)) = ins_pc (is ! Suc (range_first ?b + j))"
      using stream_after [OF str, of "range_first ?b + j"] ls by simp
    have "ins_pc (is ! Suc (range_first ?b + j)) < n" using stream_bounds [OF str nth_mem [OF ls]] by simp
    with falls_through_flow [OF bd(4) [OF _ j], of n t] after
    show "flow n (block_body is ?b ! j) t \<longleftrightarrow> t = ins_pc (block_body is ?b ! Suc j)"
      using nth [of j] nth [of "Suc j"] j by simp
  qed
qed

lemma block_successors_exact:
  assumes str: "stream is n" and fmt: "finally_formats is" and b: "build is n mx = Inr g"
    and k: "k < length (blocks g)"
  shows "sorted_wrt (<) (successors (blocks g ! k)) \<and> set (successors (blocks g ! k)) =
    (if ins_name (tail_of is g k) = ''ret''
     then {r. \<exists>e. finally_call is e r \<and> (finally_step is n)\<^sup>*\<^sup>* e (ins_pc (tail_of is g k))}
     else {t. flow n (tail_of is g k) t})"
proof (cases "ins_name (tail_of is g k) = ''ret''")
  case False
  with build_successors [OF str b k] show ?thesis by simp
next
  case True
  let ?t = "tail_of is g k" and ?w = "(finally_step is n)\<^sup>*\<^sup>*"
  have g: "wf_cfg is n g" using build_wf_cfg [OF str b] by simp
  have tl: "?t \<in> set is" using block_bounds(1,2) [OF g k] by simp
  note ret = returns_to_calls [OF str fmt b]
  note own = owned_by_walk [OF str fmt b k True]
  from build_ret_cases [OF str b k] show ?thesis
  proof (elim disjE exE conjE)
    fix e assume ne: "returns_to is (blocks g) (by_pc g) e \<noteq> {}"
      and e: "owned_by is (blocks g) (by_pc g) e k" and s: "sorted_wrt (<) (successors (blocks g ! k))"
    have all: "set (successors (blocks g ! k)) = {r. finally_call is e' r}"
      if "owned_by is (blocks g) (by_pc g) e' k" "finally_call is e' r'" for e' r'
      using build_ret_successors [OF str b, of e'] that ret [of e'] by (auto simp: owned_by_def)
    obtain r0 where "finally_call is e r0" using ne ret by auto
    then have "set (successors (blocks g ! k)) = {r. finally_call is e r}" "?w e (ins_pc ?t)"
      using all e own by blast+
    moreover have "finally_call is e r" if "finally_call is e' r" "?w e' (ins_pc ?t)" for e' r
      using all [of e' r] that own calculation(1) by blast
    ultimately show ?thesis using s True by auto
  next
    assume none: "\<forall>e. returns_to is (blocks g) (by_pc g) e \<noteq> {} \<longrightarrow> \<not> owned_by is (blocks g) (by_pc g) e k"
      and ss: "tail_successors n ?t = Inr (successors (blocks g ! k))"
    have "branch_target ?t = (Inr None :: int option verifying)" using formats_at(2) [OF fmt tl True] .
    then have "successors (blocks g ! k) = []"
      using ss True by (simp add: tail_successors_def Let_def is_subroutine_return_def)
    moreover have "\<not> (\<exists>e. finally_call is e r \<and> ?w e (ins_pc ?t))" for r
      using none ret own by blast
    ultimately show ?thesis using True by auto
  qed
qed

section \<open>The sample functions\<close>

definition sample_code :: "8 word list \<Rightarrow> instruction list" where
  "sample_code bs = (case decode_bounded sample_table bs 100 of Inr is \<Rightarrow> is | Inl _ \<Rightarrow> [])"

definition sample_cfg :: "8 word list \<Rightarrow> control_flow_graph" where
  "sample_cfg bs =
     (case build (sample_code bs) (length bs) 100 of
        Inr g \<Rightarrow> g | Inl _ \<Rightarrow> \<lparr>blocks = [], by_pc = [], loop_headers = []\<rparr>)"

lemma sample_stream: "stream (sample_code sample_loop) 8" "stream (sample_code sample_try) 20"
  by code_simp+

lemma sample_build:
  "build (sample_code sample_loop) 8 100 = Inr (sample_cfg sample_loop)"
  "build (sample_code sample_try) 20 100 = Inr (sample_cfg sample_try)"
  by code_simp+

lemma sample_formats: "finally_formats (sample_code sample_try)"
  by code_simp

section \<open>Properties\<close>

text \<open>
  C8. The control flow graph is correct, against the control flow between instructions. For a
  contiguous instruction stream, the blocks of an accepted graph are consecutive non-empty pieces
  of the stream that make it up; inside a block the only successor of an instruction is the next
  one; the successors of a block are starts of blocks, in ascending order and without duplicates,
  and are exactly the instructions its tail can continue at: for a tail that is not \<^verbatim>\<open>ret\<close> the
  branch target and the fall-through point, whichever apply, and for \<^verbatim>\<open>ret\<close> the return points of
  exactly the \<^verbatim>\<open>gosub\<close>s whose finally block reaches it. The pc index finds every block, the loop
  headers are exactly the targets of backward branches, and the block limit is respected.
\<close>

theorem build_correct:
  assumes str: "stream is n" and fmt: "finally_formats is" and b: "build is n mx = Inr g"
  shows "length (blocks g) \<le> mx \<and> concat (map (block_body is) (blocks g)) = is \<and>
    sorted_wrt (<) (map start_pc (blocks g)) \<and>
    (\<forall>pc k. map_of (by_pc g) pc = Some k \<longleftrightarrow> k < length (blocks g) \<and> start_pc (blocks g ! k) = pc) \<and>
    (\<forall>h. is_loop_header g h \<longleftrightarrow> (\<exists>i \<in> set is. h \<le> ins_pc i \<and>
       branch_target i = (Inr (Some (int h)) :: int option verifying))) \<and>
    (\<forall>b \<in> set (blocks g). let body = block_body is b; tail = last body in
       body \<noteq> [] \<and> start_pc b = ins_pc (hd body) \<and> end_pc b = after_ins tail \<and>
       (\<forall>j t. Suc j < length body \<longrightarrow> (flow n (body ! j) t \<longleftrightarrow> t = ins_pc (body ! Suc j))) \<and>
       sorted_wrt (<) (successors b) \<and> set (successors b) \<subseteq> start_pc ` set (blocks g) \<and>
       set (successors b) =
         (if ins_name tail = ''ret''
          then {r. \<exists>e. finally_call is e r \<and> (finally_step is n)\<^sup>*\<^sup>* e (ins_pc tail)}
          else {t. flow n tail t}))"
proof -
  have g: "wf_cfg is n g" and mx: "length (blocks g) \<le> mx" using build_wf_cfg [OF str b] by simp_all
  then have hs: "sorted_wrt (<) (map start_pc (blocks g))"
    "is_loop_header g h \<longleftrightarrow> (\<exists>i \<in> set is. h \<le> ins_pc i \<and>
       branch_target i = (Inr (Some (int h)) :: int option verifying))" for h
    by (simp_all add: wf_cfg_def)
  note body = block_body_facts [OF str g] and succ = block_successors_exact [OF str fmt b]
  show ?thesis
    unfolding all_set_conv_all_nth [of "blocks g"] Let_def
    using body succ block_bounds(5) [OF g] by (simp add: mx hs blocks_partition [OF g] block_index [OF g])
qed

theorem build_correct_witness:
  "{r. \<exists>e. finally_call (sample_code sample_try) e r \<and>
      (finally_step (sample_code sample_try) 20)\<^sup>*\<^sup>* e 19} = {11, 18} \<and>
   {t. flow 20 (sample_code sample_try ! 0) t} = {5, 12}"
proof -
  let ?is = "sample_code sample_try" and ?bs = "blocks (sample_cfg sample_try)"
  note th = build_correct [OF sample_stream(2) sample_formats sample_build(2), unfolded Let_def]
  have mem: "?bs ! 5 \<in> set ?bs" "?bs ! 0 \<in> set ?bs" by code_simp+
  have ret: "ins_name (last (block_body ?is (?bs ! 5))) = ''ret''"
    "ins_pc (last (block_body ?is (?bs ! 5))) = 19" "set (successors (?bs ! 5)) = {11, 18}" by code_simp+
  have catch: "ins_name (?is ! 0) \<noteq> ''ret''" "last (block_body ?is (?bs ! 0)) = ?is ! 0"
    "set (successors (?bs ! 0)) = {5, 12}" by code_simp+
  have all: "\<forall>b \<in> set ?bs. set (successors b) =
      (if ins_name (last (block_body ?is b)) = ''ret''
       then {r. \<exists>e. finally_call ?is e r \<and> (finally_step ?is 20)\<^sup>*\<^sup>* e (ins_pc (last (block_body ?is b)))}
       else {t. flow 20 (last (block_body ?is b)) t})"
    using th by blast
  show ?thesis using bspec [OF all mem(1)] bspec [OF all mem(2)] ret catch by simp
qed

text \<open>
  Building the graph never panics: on a contiguous instruction stream every \<^verbatim>\<open>expect\<close>, slice
  and index of \<open>build\<close> and \<open>link_subroutine_returns\<close> is in range, for every block limit.
\<close>

theorem build_total: "stream is n \<Longrightarrow> no_panic (build is n mx)"
  by (rule build_no_panic)

theorem build_total_witness: "no_panic (build (sample_code sample_try) 20 3)"
  by (rule build_total [OF sample_stream(2)])

lemma sub_steps_frames:
  "(sub_step is g)\<^sup>*\<^sup>* (pc, fs) c \<Longrightarrow> frames_ok is g pc fs \<Longrightarrow> frames_ok is g (fst c) (snd c)"
proof (induction rule: rtranclp_induct)
  case (step c d)
  then show ?case using sub_step_frames [of "is" g "fst c" "snd c" "fst d" "snd d"] by simp
qed simp

text \<open>
  C9. Finally blocks are linked soundly. In an execution from the entry that pushes a return
  address at every \<^verbatim>\<open>gosub\<close> and pops it at \<^verbatim>\<open>ret\<close>, every step, including the step of a \<^verbatim>\<open>ret\<close> to
  whatever return address is on top, follows an edge of the graph: the successors installed by
  \<open>link_subroutine_returns\<close> over-approximate all returns, for nested and shared finally blocks.
\<close>

theorem subroutine_edges_sound:
  assumes str: "stream is n" and b: "build is n mx = Inr g"
    and run: "(sub_step is g)\<^sup>*\<^sup>* (0, []) (pc, fs)" and step: "sub_step is g (pc, fs) (pc', fs')"
  shows "\<exists>k < length (blocks g). map_of (by_pc g) pc = Some k \<and> pc' \<in> set (successors (blocks g ! k))"
proof -
  have "frames_ok is g pc fs" using sub_steps_frames [OF run] by simp
  from sub_step_edge [OF str b step this] show ?thesis .
qed

lemma sample_tail_at:
  "tail_at (sample_code sample_try) (blocks (sample_cfg sample_try)) (by_pc (sample_cfg sample_try)) 0 0
     (sample_code sample_try ! 0)"
  "tail_at (sample_code sample_try) (blocks (sample_cfg sample_try)) (by_pc (sample_cfg sample_try)) 5 1
     (sample_code sample_try ! 2)"
  "tail_at (sample_code sample_try) (blocks (sample_cfg sample_try)) (by_pc (sample_cfg sample_try)) 19 5
     (sample_code sample_try ! 7)"
  by code_simp+

lemma sample_sub_steps:
  "(sub_step (sample_code sample_try) (sample_cfg sample_try))\<^sup>*\<^sup>* (0, []) (19, [(19, 11)])"
  "sub_step (sample_code sample_try) (sample_cfg sample_try) (19, [(19, 11)]) (11, [])"
proof -
  let ?g = "sample_cfg sample_try"
  let ?step = "sub_step (sample_code sample_try) ?g"
  have "?step (0, []) (5, [])"
    by (rule sub_plain [OF sample_tail_at(1)]) code_simp+
  moreover have "?step (5, []) (19, [(19, 11)])"
  proof (rule sub_call [OF sample_tail_at(2)])
    show "ins_name (sample_code sample_try ! 2) = ''gosub''" by code_simp
    have "block_tail (sample_code sample_try) (blocks ?g ! 1) =
        (Inr (sample_code sample_try ! 2) :: instruction verifying)"
      "ins_name (sample_code sample_try ! 2) = ''gosub''" "successors (blocks ?g ! 1) \<noteq> []"
      "hd (successors (blocks ?g ! 1)) = 19" "return_point (by_pc ?g) (sample_code sample_try ! 2) = Inr 11"
      by code_simp+
    then show "gosub_at (sample_code sample_try) (by_pc ?g) (blocks ?g ! 1) 19 11"
      by (auto simp: gosub_at_def)
  qed
  ultimately show "?step\<^sup>*\<^sup>* (0, []) (19, [(19, 11)])" by simp
  show "?step (19, [(19, 11)]) (11, [])"
    by (rule sub_ret [OF sample_tail_at(3)]) code_simp
qed

theorem subroutine_edges_sound_witness:
  "\<exists>k < length (blocks (sample_cfg sample_try)). map_of (by_pc (sample_cfg sample_try)) 19 = Some k \<and>
     11 \<in> set (successors (blocks (sample_cfg sample_try) ! k))"
  by (rule subroutine_edges_sound [OF sample_stream(2) sample_build(2) sample_sub_steps])

end
