(* ===== verification/Stack.thy ===== *)
theory Stack
  imports Cfg
begin

text \<open>
  The abstract interpreter of the verifier, \<^verbatim>\<open>jit/src/bytecode/stack.rs\<close>: abstract frame states
  with their live catch offsets, the work budget, the transfer function of one instruction, the
  merge at a control flow join, and the worklist of \<open>prove\<close>.

  \<open>prove\<close> is a \<open>partial_function\<close>: whether its loop ends is a theorem, not a premise of the
  definition.
\<close>

record abstract_state =
  locals :: "slot_kind list"
  stack :: "slot_kind list"
  catches :: "(nat \<times> nat option) list"

record exception_handler =
  catch_index :: nat
  handler_pc :: "nat option"
  resumes_in_frame :: bool

section \<open>Catch offsets and slots\<close>

text \<open>\<open>find_map\<close> over the reversed list: the innermost entry that has a handler.\<close>

fun find_handler :: "(nat \<times> nat option) list \<Rightarrow> (nat \<times> nat) option" where
  "find_handler [] = None"
| "find_handler ((ix, h) # cs) = (case h of None \<Rightarrow> find_handler cs | Some pc \<Rightarrow> Some (ix, pc))"

definition innermost_handler :: "abstract_state \<Rightarrow> (nat \<times> nat) option" where
  "innermost_handler st = find_handler (rev (catches st))"

definition innermost_catch :: "abstract_state \<Rightarrow> exception_handler option" where
  "innermost_catch st =
     (case last_opt (catches st) of
        None \<Rightarrow> None
      | Some (ix, h) \<Rightarrow>
          if ix \<le> u16_max
          then Some \<lparr>catch_index = ix, handler_pc = h,
                     resumes_in_frame = innermost_handler st \<noteq> None\<rparr>
          else None)"

definition cell_count :: "abstract_state \<Rightarrow> nat" where
  "cell_count st = sat_add usize_max (length (locals st)) (length (stack st))"

definition live_slots :: "compile_snapshot \<Rightarrow> abstract_state \<Rightarrow> slot_kind list" where
  "live_slots s st =
     replicate (arg_count s) Tagged @ locals st @ replicate (closure_count s) Tagged @ stack st"

definition charge :: "nat \<Rightarrow> nat \<Rightarrow> nat \<Rightarrow> nat \<Rightarrow> nat verifying" where
  "charge limit used pc units =
     (let used = sat_add usize_max used units in
      if limit < used then fail pc (ResourceLimit WorkUnits) else Inr used)"

section \<open>Operands\<close>

text \<open>The trailing digit of an opcode name, as in \<^verbatim>\<open>get_loc0\<close>.\<close>

definition name_digit :: "string \<Rightarrow> nat option" where
  "name_digit nm =
     (case last_opt nm of
        None \<Rightarrow> None
      | Some c \<Rightarrow>
          let v = of_char c :: nat in if 48 \<le> v \<and> v \<le> 57 then Some (v - 48) else None)"

definition effective_pop :: "instruction \<Rightarrow> nat verifying" where
  "effective_pop i =
     (let base = op_n_pop (ins_opcode i) in
      rbind (ins_format i) (\<lambda>f.
        case f of
          NPop \<Rightarrow> rbind (operand_u16 i 1) (\<lambda>n. Inr (sat_add usize_max base n))
        | NPopU16 \<Rightarrow> rbind (operand_u16 i 1) (\<lambda>n. Inr (sat_add usize_max base n))
        | NPopFixed \<Rightarrow>
            Inr (case name_digit (ins_name i) of
                   None \<Rightarrow> base
                 | Some arguments \<Rightarrow> sat_add usize_max base arguments)
        | _ \<Rightarrow> Inr base))"

definition local_index :: "instruction \<Rightarrow> nat option verifying" where
  "local_index i =
     rbind (ins_format i) (\<lambda>f.
       case f of
         Local \<Rightarrow> rbind (operand_u16 i 1) (\<lambda>n. Inr (Some n))
       | Local8 \<Rightarrow> rbind (operand_u8 i 1) (\<lambda>n. Inr (Some n))
       | NoneLocal \<Rightarrow> Inr (name_digit (ins_name i))
       | _ \<Rightarrow> Inr None)"

definition pushed_kind :: "compile_snapshot \<Rightarrow> instruction \<Rightarrow> slot_kind verifying" where
  "pushed_kind s i =
     (let nm = ins_name i in
      if nm \<in> {''push_i32'', ''push_i8'', ''push_i16'', ''push_minus1'', ''push_0'', ''push_1'',
               ''push_2'', ''push_3'', ''push_4'', ''push_5'', ''push_6'', ''push_7''}
      then Inr Int32
      else if nm \<in> {''push_const'', ''push_const8''} then
        rbind (if nm = ''push_const'' then operand_u32 i 1 else operand_u8 i 1) (\<lambda>k.
          Inr (case get_opt (constants s) k of
                 None \<Rightarrow> Tagged
               | Some c \<Rightarrow>
                   if cd_tag c = JS_TAG_INT then Int32
                   else if cd_tag c = JS_TAG_FLOAT64 then Float64
                   else Tagged))
      else if nm = ''catch'' then Inr CatchOffset
      else Inr Tagged)"

text \<open>The stack shuffles; a name with the wrong number of values is not a shuffle.\<close>

definition copied_stack_values :: "string \<Rightarrow> 'a list \<Rightarrow> 'a list option" where
  "copied_stack_values nm popped =
     (if nm = ''nip'' then (case popped of [_, b] \<Rightarrow> Some [b] | _ \<Rightarrow> None)
      else if nm = ''nip1'' then (case popped of [_, b, c] \<Rightarrow> Some [b, c] | _ \<Rightarrow> None)
      else if nm = ''dup'' then (case popped of [a] \<Rightarrow> Some [a, a] | _ \<Rightarrow> None)
      else if nm = ''dup1'' then (case popped of [a, b] \<Rightarrow> Some [a, a, b] | _ \<Rightarrow> None)
      else if nm = ''dup2'' then (case popped of [a, b] \<Rightarrow> Some [a, b, a, b] | _ \<Rightarrow> None)
      else if nm = ''dup3'' then
        (case popped of [a, b, c] \<Rightarrow> Some [a, b, c, a, b, c] | _ \<Rightarrow> None)
      else if nm = ''insert2'' then
        (case popped of [obj, a] \<Rightarrow> Some [a, obj, a] | _ \<Rightarrow> None)
      else if nm = ''insert3'' then
        (case popped of [obj, prop, a] \<Rightarrow> Some [a, obj, prop, a] | _ \<Rightarrow> None)
      else if nm = ''insert4'' then
        (case popped of [this, obj, prop, a] \<Rightarrow> Some [a, this, obj, prop, a] | _ \<Rightarrow> None)
      else if nm = ''perm3'' then
        (case popped of [obj, a, b] \<Rightarrow> Some [a, obj, b] | _ \<Rightarrow> None)
      else if nm = ''perm4'' then
        (case popped of [obj, prop, a, b] \<Rightarrow> Some [a, obj, prop, b] | _ \<Rightarrow> None)
      else if nm = ''perm5'' then
        (case popped of [this, obj, prop, a, b] \<Rightarrow> Some [a, this, obj, prop, b] | _ \<Rightarrow> None)
      else if nm = ''swap'' then (case popped of [a, b] \<Rightarrow> Some [b, a] | _ \<Rightarrow> None)
      else if nm = ''swap2'' then
        (case popped of [a, b, c, d] \<Rightarrow> Some [c, d, a, b] | _ \<Rightarrow> None)
      else if nm = ''rot3l'' then (case popped of [a, b, c] \<Rightarrow> Some [b, c, a] | _ \<Rightarrow> None)
      else if nm = ''rot3r'' then (case popped of [a, b, c] \<Rightarrow> Some [c, a, b] | _ \<Rightarrow> None)
      else if nm = ''rot4l'' then
        (case popped of [a, b, c, d] \<Rightarrow> Some [b, c, d, a] | _ \<Rightarrow> None)
      else if nm = ''rot5l'' then
        (case popped of [a, b, c, d, e] \<Rightarrow> Some [b, c, d, e, a] | _ \<Rightarrow> None)
      else None)"

section \<open>The transfer function\<close>

definition check_stack_size ::
  "compile_snapshot \<Rightarrow> instruction \<Rightarrow> abstract_state \<Rightarrow> abstract_state verifying" where
  "check_stack_size s i st =
     (if stack_size s < length (stack st)
      then fail (ins_pc i) (StackSizeExceeded (stack_size s) (length (stack st)))
      else Inr st)"

definition transfer_nip_catch ::
  "compile_snapshot \<Rightarrow> instruction \<Rightarrow> abstract_state \<Rightarrow> abstract_state verifying" where
  "transfer_nip_catch s i st =
     (case last_opt (stack st) of
        None \<Rightarrow> fail (ins_pc i) (StackUnderflow 1 0)
      | Some v \<Rightarrow>
          let rest = butlast (stack st) in
          case last_opt (catches st) of
            None \<Rightarrow> fail (ins_pc i) UnsupportedExceptionRegion
          | Some (ix, _) \<Rightarrow>
              if get_opt rest ix \<noteq> Some CatchOffset
              then fail (ins_pc i) UnsupportedExceptionRegion
              else check_stack_size s i
                     (st\<lparr>stack := take ix rest @ [v], catches := butlast (catches st)\<rparr>))"

text \<open>The loop that drops every catch offset at or above the new stack height.\<close>

definition trim_catches :: "nat \<Rightarrow> (nat \<times> nat option) list \<Rightarrow> (nat \<times> nat option) list" where
  "trim_catches height cs = rev (dropWhile (\<lambda>c. height \<le> fst c) (rev cs))"

definition store_local :: "nat \<Rightarrow> slot_kind \<Rightarrow> abstract_state \<Rightarrow> abstract_state verifying" where
  "store_local k v st =
     (if k < length (locals st) then Inr (st\<lparr>locals := (locals st)[k := v]\<rparr>) else panic)"

text \<open>\<open>local_index(instruction).expect(...)\<close>.\<close>

definition expect_local :: "instruction \<Rightarrow> nat verifying" where
  "expect_local i = rbind (local_index i) expect"

abbreviation push :: "slot_kind list \<Rightarrow> abstract_state \<Rightarrow> abstract_state" where
  "push vs st \<equiv> st\<lparr>stack := stack st @ vs\<rparr>"

definition transfer_local_writes ::
  "instruction \<Rightarrow> slot_kind \<Rightarrow> abstract_state \<Rightarrow> abstract_state verifying" where
  "transfer_local_writes i popped_top st =
     (let nm = ins_name i in
      rbind
        (if nm = ''set_loc_uninitialized''
         then rbind (expect_local i) (\<lambda>k. store_local k Uninitialized st)
         else if prefix ''put_loc'' nm \<or> prefix ''set_loc'' nm
         then rbind (expect_local i) (\<lambda>k. store_local k popped_top st)
         else Inr st) (\<lambda>st.
        if nm \<in> {''inc_loc'', ''dec_loc'', ''add_loc''}
        then rbind (expect_local i) (\<lambda>k. store_local k Tagged st)
        else Inr st))"

definition transfer_pushes ::
  "compile_snapshot \<Rightarrow> instruction \<Rightarrow> slot_kind list \<Rightarrow> slot_kind \<Rightarrow> abstract_state
     \<Rightarrow> abstract_state verifying" where
  "transfer_pushes s i popped popped_top st =
     (let nm = ins_name i in
      if nm \<in> {''for_of_start'', ''for_await_of_start''} then
        (let st = push [Tagged, Tagged, CatchOffset] st in
         check_stack_size s i
           (st\<lparr>catches := catches st @ [(length (stack st) - 1, None)]\<rparr>))
      else if nm = ''catch'' then
        rbind (branch_target i) (\<lambda>t.
          case Option.bind t u32_try_from of
            None \<Rightarrow> fail (ins_pc i) UnsupportedExceptionRegion
          | Some target \<Rightarrow>
              let st = push [CatchOffset] st in
              check_stack_size s i
                (st\<lparr>catches := catches st @ [(length (stack st) - 1, Some target)]\<rparr>))
      else if nm = ''gosub'' then check_stack_size s i (push [Int32] st)
      else if nm = ''using_dispose_init'' then check_stack_size s i (push [Uninitialized] st)
      else case copied_stack_values nm popped of
        Some vs \<Rightarrow> check_stack_size s i (push vs st)
      | None \<Rightarrow>
          if nm = ''to_propkey'' then
            check_stack_size s i (push [if popped_top = Int32 then Int32 else Tagged] st)
          else if op_n_push (ins_opcode i) = 1 \<and>
            (prefix ''set_loc'' nm \<or> prefix ''set_arg'' nm \<or> prefix ''set_var_ref'' nm)
          then check_stack_size s i (push [popped_top] st)
          else rbind (pushed_kind s i) (\<lambda>kd.
            check_stack_size s i (push (replicate (op_n_push (ins_opcode i)) kd) st)))"

definition transfer_popping ::
  "compile_snapshot \<Rightarrow> instruction \<Rightarrow> nat \<Rightarrow> abstract_state \<Rightarrow> abstract_state verifying" where
  "transfer_popping s i pop st =
     (let nm = ins_name i; height = length (stack st) in
       if height < pop then fail (ins_pc i) (StackUnderflow pop height)
       else if nm = ''nip_catch'' then transfer_nip_catch s i st
       else
         let popped = drop (height - pop) (stack st);
             popped_top = (case last_opt popped of None \<Rightarrow> Tagged | Some v \<Rightarrow> v) in
         if nm \<in> {''for_of_next'', ''for_in_next''}
         then check_stack_size s i (push [Tagged, Tagged] st)
         else
           let st = st\<lparr>stack := take (height - pop) (stack st),
                       catches := trim_catches (height - pop) (catches st)\<rparr> in
           if nm = ''get_loc0_loc1'' then
             rbind (index (locals st) 0) (\<lambda>a. rbind (index (locals st) 1) (\<lambda>b.
               check_stack_size s i (push [a, b] st)))
           else if prefix ''get_loc'' nm then
             rbind (expect_local i) (\<lambda>k. rbind (index (locals st) k) (\<lambda>v.
               check_stack_size s i (push [v] st)))
           else
             rbind (transfer_local_writes i popped_top st)
               (transfer_pushes s i popped popped_top))"

definition transfer ::
  "compile_snapshot \<Rightarrow> instruction \<Rightarrow> abstract_state \<Rightarrow> abstract_state verifying" where
  "transfer s i st = rbind (effective_pop i) (\<lambda>pop. transfer_popping s i pop st)"

section \<open>Joins\<close>

text \<open>The match of \<open>merge_state\<close> on two different kinds of a local.\<close>

fun joined_kind :: "slot_kind \<Rightarrow> slot_kind \<Rightarrow> slot_kind option" where
  "joined_kind Tagged Int32 = Some Tagged"
| "joined_kind Tagged Float64 = Some Tagged"
| "joined_kind Int32 Tagged = Some Tagged"
| "joined_kind Float64 Tagged = Some Tagged"
| "joined_kind Int32 Float64 = Some Tagged"
| "joined_kind Float64 Int32 = Some Tagged"
| "joined_kind Tagged Uninitialized = Some Tagged"
| "joined_kind Int32 Uninitialized = Some Tagged"
| "joined_kind Float64 Uninitialized = Some Tagged"
| "joined_kind Uninitialized Tagged = Some Tagged"
| "joined_kind Uninitialized Int32 = Some Tagged"
| "joined_kind Uninitialized Float64 = Some Tagged"
| "joined_kind _ _ = None"

text \<open>The loop over the operand stacks, from slot \<open>k\<close> on.\<close>

fun merge_stacks :: "nat \<Rightarrow> nat \<Rightarrow> slot_kind list \<Rightarrow> slot_kind list \<Rightarrow> unit verifying" where
  "merge_stacks pc k (e # es) (a # as) =
     (if e \<noteq> a then fail pc (IncompatibleMergeKind k e a) else merge_stacks pc (Suc k) es as)"
| "merge_stacks pc k _ _ = Inr ()"

text \<open>The loop over the locals: whether one changed, and the joined locals.\<close>

fun merge_locals ::
  "nat \<Rightarrow> nat \<Rightarrow> slot_kind list \<Rightarrow> slot_kind list \<Rightarrow> (bool \<times> slot_kind list) verifying" where
  "merge_locals pc slot (e # es) (a # as) =
     (if e = a then
        rbind (merge_locals pc (Suc slot) es as) (\<lambda>(ch, ls). Inr (ch, e # ls))
      else case joined_kind e a of
        None \<Rightarrow> fail pc (IncompatibleMergeKind slot e a)
      | Some j \<Rightarrow>
          rbind (merge_locals pc (Suc slot) es as) (\<lambda>(ch, ls). Inr (ch \<or> j \<noteq> e, j # ls)))"
| "merge_locals pc slot es _ = Inr (False, es)"

definition merge_state ::
  "nat \<Rightarrow> abstract_state \<Rightarrow> abstract_state \<Rightarrow> (bool \<times> abstract_state) verifying" where
  "merge_state pc expected actual =
     (if length (stack expected) \<noteq> length (stack actual)
      then fail pc (InconsistentMergeHeight (length (stack expected)) (length (stack actual)))
      else if catches expected \<noteq> catches actual then fail pc UnsupportedExceptionRegion
      else
        rbind (merge_stacks pc 0 (stack expected) (stack actual)) (\<lambda>_.
        rbind (merge_locals pc (length (stack expected)) (locals expected) (locals actual))
          (\<lambda>(changed, ls). Inr (changed, expected\<lparr>locals := ls\<rparr>))))"

fun join_handler_loop ::
  "nat \<Rightarrow> slot_kind list \<Rightarrow> slot_kind list \<Rightarrow> (bool \<times> slot_kind list) verifying" where
  "join_handler_loop pc (e # es) (a # as) =
     (if e = a then rbind (join_handler_loop pc es as) (\<lambda>(ch, ls). Inr (ch, e # ls))
      else if e = CatchOffset \<or> a = CatchOffset then fail pc UnsupportedExceptionRegion
      else rbind (join_handler_loop pc es as) (\<lambda>(ch, ls). Inr (ch \<or> e \<noteq> Tagged, Tagged # ls)))"
| "join_handler_loop pc es _ = Inr (False, es)"

definition join_handler_locals ::
  "nat \<Rightarrow> abstract_state \<Rightarrow> slot_kind list \<Rightarrow> (bool \<times> abstract_state) verifying" where
  "join_handler_locals pc expected actual =
     (if length (locals expected) \<noteq> length actual then fail pc UnsupportedExceptionRegion
      else rbind (join_handler_loop pc (locals expected) actual)
             (\<lambda>(changed, ls). Inr (changed, expected\<lparr>locals := ls\<rparr>)))"

section \<open>The worklist\<close>

record prover =
  used :: nat
  block_entries :: "(nat \<times> abstract_state) list"
  queue :: "nat list"
  before :: "(nat \<times> abstract_state) list"
  after :: "(nat \<times> abstract_state) list"
  visited :: "nat list"
  handlers :: "(nat \<times> exception_handler) list"

text \<open>What a call of \<open>prove\<close> fixes.\<close>

record proof_task =
  task_snapshot :: compile_snapshot
  task_instructions :: "instruction list"
  task_cfg :: control_flow_graph
  task_limit :: nat

definition before_points :: "proof_task \<Rightarrow> nat list" where
  "before_points t =
     bs_of_list (map osr_pc (osr_points (metadata (task_snapshot t))) @
       map deopt_pc (deopt_points (metadata (task_snapshot t))) @
       filter (is_loop_header (task_cfg t)) (map start_pc (blocks (task_cfg t))))"

definition after_points :: "proof_task \<Rightarrow> nat list" where
  "after_points t = bs_of_list (map deopt_pc (deopt_points (metadata (task_snapshot t))))"

definition charge_to :: "proof_task \<Rightarrow> nat \<Rightarrow> nat \<Rightarrow> prover \<Rightarrow> prover verifying" where
  "charge_to t pc units p =
     rbind (charge (task_limit t) (used p) pc units) (\<lambda>u. Inr (p\<lparr>used := u\<rparr>))"

abbreviation enqueue :: "nat \<Rightarrow> prover \<Rightarrow> prover" where
  "enqueue pc p \<equiv> p\<lparr>queue := queue p @ [pc]\<rparr>"

text \<open>An entry that was found is replaced by its join, and queued if that changed it.\<close>

definition update_entry :: "nat \<Rightarrow> bool \<times> abstract_state \<Rightarrow> prover \<Rightarrow> prover" where
  "update_entry pc r p =
     (let p = p\<lparr>block_entries := bt_insert pc (snd r) (block_entries p)\<rparr>
      in if fst r then enqueue pc p else p)"

definition record_before :: "proof_task \<Rightarrow> nat \<Rightarrow> abstract_state \<Rightarrow> prover \<Rightarrow> prover verifying" where
  "record_before t pc st p =
     (if pc \<in> set (before_points t)
      then rbind (charge_to t pc (cell_count st) p) (\<lambda>p.
             Inr (p\<lparr>before := bt_insert pc st (before p)\<rparr>))
      else Inr p)"

definition record_after :: "proof_task \<Rightarrow> nat \<Rightarrow> abstract_state \<Rightarrow> prover \<Rightarrow> prover verifying" where
  "record_after t pc st p =
     (if pc \<in> set (after_points t)
      then rbind (charge_to t pc (cell_count st) p) (\<lambda>p.
             Inr (p\<lparr>after := bt_insert pc st (after p)\<rparr>))
      else Inr p)"

definition record_visit :: "nat \<Rightarrow> abstract_state \<Rightarrow> prover \<Rightarrow> prover" where
  "record_visit pc st p =
     p\<lparr>visited := bs_insert pc (visited p),
       handlers := (case innermost_catch st of
          None \<Rightarrow> handlers p | Some h \<Rightarrow> bt_insert pc h (handlers p))\<rparr>"

text \<open>The exceptional edge of one instruction.\<close>

definition propagate_exception ::
  "proof_task \<Rightarrow> nat \<Rightarrow> abstract_state \<Rightarrow> prover \<Rightarrow> prover verifying" where
  "propagate_exception t pc st p =
     (case innermost_handler st of
        None \<Rightarrow> Inr p
      | Some (_, hpc) \<Rightarrow>
          rbind (charge_to t pc (length (locals st)) p) (\<lambda>p.
            case map_of (block_entries p) hpc of
              None \<Rightarrow> fail pc UnsupportedExceptionRegion
            | Some expected \<Rightarrow>
                rbind (join_handler_locals hpc expected (locals st)) (\<lambda>r.
                  Inr (update_entry hpc r p))))"

definition prove_instruction ::
  "proof_task \<Rightarrow> instruction \<Rightarrow> abstract_state \<times> prover \<Rightarrow> (abstract_state \<times> prover) verifying" where
  "prove_instruction t i stp =
     (let (st, p) = stp; pc = ins_pc i in
      rbind (charge_to t pc (sat_add usize_max 1 (cell_count st)) p) (\<lambda>p.
      rbind (record_before t pc st p) (\<lambda>p.
      rbind (propagate_exception t pc st (record_visit pc st p)) (\<lambda>p.
      rbind (transfer (task_snapshot t) i st) (\<lambda>st'.
      rbind (record_after t pc st' p) (\<lambda>p.
        Inr (st', p)))))))"

text \<open>\<open>&instructions[range]\<close>: a panic on an invalid range.\<close>

definition range_slice :: "'a list \<Rightarrow> nat \<Rightarrow> nat \<Rightarrow> ('e, 'a list) fallible" where
  "range_slice xs a b = (if a \<le> b \<and> b \<le> length xs then Inr (take (b - a) (drop a xs)) else panic)"

definition catch_target :: "instruction \<Rightarrow> nat option verifying" where
  "catch_target tail =
     (if ins_name tail = ''catch''
      then rbind (branch_target tail) (\<lambda>t. Inr (Option.bind t u32_try_from))
      else Inr None)"

text \<open>The state a handler resumes with after its \<^verbatim>\<open>catch\<close>, if the catch offset is on top.\<close>

definition caught_state :: "nat \<Rightarrow> abstract_state \<Rightarrow> abstract_state option" where
  "caught_state succ st =
     (case last_opt (stack st) of
        Some CatchOffset \<Rightarrow>
          (case last_opt (catches st) of
             Some (_, h) \<Rightarrow>
               if h = Some succ
               then Some (st\<lparr>stack := butlast (stack st) @ [Tagged], catches := butlast (catches st)\<rparr>)
               else None
           | None \<Rightarrow> None)
      | _ \<Rightarrow> None)"

definition widen_locals :: "abstract_state \<Rightarrow> abstract_state" where
  "widen_locals st =
     st\<lparr>locals := map (\<lambda>k. if k \<in> {Int32, Float64} then Tagged else k) (locals st)\<rparr>"

definition insert_entry :: "nat \<Rightarrow> abstract_state \<Rightarrow> prover \<Rightarrow> prover" where
  "insert_entry pc st p = enqueue pc (p\<lparr>block_entries := bt_insert pc st (block_entries p)\<rparr>)"

definition flow_to_handler ::
  "proof_task \<Rightarrow> instruction \<Rightarrow> abstract_state \<Rightarrow> nat \<Rightarrow> prover \<Rightarrow> prover verifying" where
  "flow_to_handler t tail st succ p =
     (case caught_state succ st of
        None \<Rightarrow> fail (ins_pc tail) UnsupportedExceptionRegion
      | Some incoming \<Rightarrow>
          rbind (charge_to t succ (cell_count incoming) p) (\<lambda>p.
            case map_of (block_entries p) succ of
              Some expected \<Rightarrow>
                if stack expected \<noteq> stack incoming \<or> catches expected \<noteq> catches incoming
                then fail succ UnsupportedExceptionRegion
                else rbind (join_handler_locals succ expected (locals incoming)) (\<lambda>r.
                       Inr (update_entry succ r p))
            | None \<Rightarrow> Inr (insert_entry succ incoming p)))"

definition flow_to_block ::
  "proof_task \<Rightarrow> abstract_state \<Rightarrow> nat \<Rightarrow> prover \<Rightarrow> prover verifying" where
  "flow_to_block t st succ p =
     (let incoming = (if is_loop_header (task_cfg t) succ then widen_locals st else st) in
      rbind (charge_to t succ (cell_count incoming) p) (\<lambda>p.
        case map_of (block_entries p) succ of
          Some expected \<Rightarrow>
            rbind (merge_state succ expected incoming) (\<lambda>r. Inr (update_entry succ r p))
        | None \<Rightarrow> Inr (insert_entry succ incoming p)))"

definition prove_successor ::
  "proof_task \<Rightarrow> instruction \<Rightarrow> nat option \<Rightarrow> abstract_state \<Rightarrow> nat \<Rightarrow> prover \<Rightarrow> prover verifying" where
  "prove_successor t tail ct st succ p =
     (if ct = Some succ then flow_to_handler t tail st succ p else flow_to_block t st succ p)"

text \<open>One round: the block at the front of the queue.\<close>

definition prove_round :: "proof_task \<Rightarrow> nat \<Rightarrow> prover \<Rightarrow> prover verifying" where
  "prove_round t block_pc p =
     rbind (cfg_block (task_cfg t) block_pc) (\<lambda>ob.
     rbind (expect ob) (\<lambda>block.
     rbind (expect (map_of (block_entries p) block_pc)) (\<lambda>entry.
     rbind (charge_to t block_pc (cell_count entry) p) (\<lambda>p.
     rbind (range_slice (task_instructions t) (range_first block) (range_last block)) (\<lambda>body.
     rbind (fold_res (prove_instruction t) body (entry, p)) (\<lambda>(st, p).
     rbind (expect (last_opt body)) (\<lambda>tail.
     rbind (catch_target tail) (\<lambda>ct.
       if ct \<noteq> None \<and> ct = checked_add usize_max (ins_pc tail) (ins_size tail)
       then fail (ins_pc tail) UnsupportedExceptionRegion
       else fold_res (prove_successor t tail ct st) (successors block) p))))))))"

partial_function (option) prove_loop :: "proof_task \<Rightarrow> prover \<Rightarrow> (prover verifying) option" where
  "prove_loop t p =
     (case queue p of
        [] \<Rightarrow> Some (Inr p)
      | block_pc # rest \<Rightarrow>
          (case prove_round t block_pc (p\<lparr>queue := rest\<rparr>) of
             Inl e \<Rightarrow> Some (Inl e)
           | Inr p' \<Rightarrow> prove_loop t p'))"

declare prove_loop.simps [code]

definition initial_state :: "compile_snapshot \<Rightarrow> abstract_state" where
  "initial_state s = \<lparr>locals = replicate (local_count s) Tagged, stack = [], catches = []\<rparr>"

definition initial_prover :: "proof_task \<Rightarrow> nat \<Rightarrow> prover" where
  "initial_prover t u =
     \<lparr>used = u, block_entries = [(0, initial_state (task_snapshot t))], queue = [0],
      before = [], after = [], visited = [], handlers = []\<rparr>"

definition empty_prover :: prover where
  "empty_prover = \<lparr>used = 0, block_entries = [], queue = [], before = [], after = [],
     visited = [], handlers = []\<rparr>"

text \<open>
  \<open>prove\<close> returns the final prover; \<open>StateProof\<close> is its fields \<open>before\<close>, \<open>after\<close>, \<open>visited\<close> and
  \<open>handlers\<close>. The result is \<open>None\<close> if the loop runs forever.
\<close>

definition prove :: "proof_task \<Rightarrow> (prover verifying) option" where
  "prove t =
     (if task_instructions t = [] then Some (Inr empty_prover)
      else case charge (task_limit t) 0 0 (local_count (task_snapshot t)) of
        Inl e \<Rightarrow> Some (Inl e)
      | Inr u \<Rightarrow> prove_loop t (initial_prover t u))"

section \<open>The order on states\<close>

text \<open>
  \<open>Tagged\<close> proves nothing about a value: it is above every kind of value. A catch offset is not
  a value and is comparable only to itself.
\<close>

definition kind_le :: "slot_kind \<Rightarrow> slot_kind \<Rightarrow> bool" where
  "kind_le a b \<longleftrightarrow> a = b \<or> b = Tagged \<and> a \<noteq> CatchOffset"

abbreviation kinds_le :: "slot_kind list \<Rightarrow> slot_kind list \<Rightarrow> bool" where
  "kinds_le \<equiv> list_all2 kind_le"

definition state_le :: "abstract_state \<Rightarrow> abstract_state \<Rightarrow> bool" where
  "state_le a b \<longleftrightarrow>
     kinds_le (locals a) (locals b) \<and> kinds_le (stack a) (stack b) \<and> catches a = catches b"

lemma kind_le_refl [simp]: "kind_le a a"
  by (simp add: kind_le_def)

lemma kind_le_trans: "kind_le a b \<Longrightarrow> kind_le b c \<Longrightarrow> kind_le a c"
  by (auto simp: kind_le_def)

lemma kind_le_CatchOffset [simp]:
  "kind_le a CatchOffset \<longleftrightarrow> a = CatchOffset" "kind_le CatchOffset a \<longleftrightarrow> a = CatchOffset"
  by (auto simp: kind_le_def)

lemma kinds_le_refl [simp]: "kinds_le xs xs"
  by (simp add: list.rel_refl)

lemma kinds_le_trans: "kinds_le xs ys \<Longrightarrow> kinds_le ys zs \<Longrightarrow> kinds_le xs zs"
  by (rule list_all2_trans [of kind_le kind_le kind_le]) (auto intro: kind_le_trans)

lemma state_le_refl [simp]: "state_le a a"
  by (simp add: state_le_def)

lemma state_le_trans: "state_le a b \<Longrightarrow> state_le b c \<Longrightarrow> state_le a c"
  by (auto simp: state_le_def intro: kinds_le_trans)

lemma state_le_heights: "state_le a b \<Longrightarrow> length (stack a) = length (stack b)"
  "state_le a b \<Longrightarrow> length (locals a) = length (locals b)"
  by (auto simp: state_le_def dest: list_all2_lengthD)

section \<open>Monotonicity of the transfer function\<close>

text \<open>
  \<open>res_le R x y\<close>: if \<open>y\<close> succeeds then \<open>x\<close> succeeds with a related result. Sequencing keeps it.
\<close>

definition res_le :: "('a \<Rightarrow> 'b \<Rightarrow> bool) \<Rightarrow> 'f + 'a \<Rightarrow> 'f + 'b \<Rightarrow> bool" where
  "res_le R x y \<longleftrightarrow> (\<forall>b. y = Inr b \<longrightarrow> (\<exists>a. x = Inr a \<and> R a b))"

lemma res_le_rbind:
  "res_le R x y \<Longrightarrow> (\<And>a b. R a b \<Longrightarrow> res_le S (f a) (g b)) \<Longrightarrow> res_le S (rbind x f) (rbind y g)"
  by (cases y) (auto simp: res_le_def rbind_Inr_iff)

lemma res_le_same: "(\<And>a. x = Inr a \<Longrightarrow> res_le S (f a) (g a)) \<Longrightarrow> res_le S (rbind x f) (rbind x g)"
  by (cases x) (auto simp: res_le_def)

lemma res_le_fail [simp]: "res_le R x (fail pc k)" "res_le R x panic"
  by (simp_all add: res_le_def)

lemma res_le_Inr [simp]: "res_le R (Inr a) (Inr b) \<longleftrightarrow> R a b"
  by (simp add: res_le_def)

lemma res_leD: "res_le R x y \<Longrightarrow> y = Inr b \<Longrightarrow> \<exists>a. x = Inr a \<and> R a b"
  by (simp add: res_le_def)

lemma check_stack_size_mono:
  "state_le a b \<Longrightarrow> res_le state_le (check_stack_size s i a) (check_stack_size s i b)"
  by (auto simp: check_stack_size_def res_le_def dest: state_le_heights)

lemma push_mono: "state_le a b \<Longrightarrow> kinds_le vs ws \<Longrightarrow> state_le (push vs a) (push ws b)"
  by (auto simp: state_le_def list_all2_appendI)

lemma push_check_mono:
  "state_le a b \<Longrightarrow> kinds_le vs ws \<Longrightarrow>
   res_le state_le (check_stack_size s i (push vs a)) (check_stack_size s i (push ws b))"
  using check_stack_size_mono push_mono by blast

lemma push_catch_mono:
  assumes "state_le a b" "kinds_le vs ws"
  shows "res_le state_le
    (check_stack_size s i (push vs a\<lparr>catches := catches (push vs a) @ [(length (stack (push vs a)) - 1, h)]\<rparr>))
    (check_stack_size s i (push ws b\<lparr>catches := catches (push ws b) @ [(length (stack (push ws b)) - 1, h)]\<rparr>))"
  using push_mono [OF assms] state_le_heights(1) [OF push_mono [OF assms]]
  by (intro check_stack_size_mono) (auto simp: state_le_def)

lemma store_local_mono:
  "state_le a b \<Longrightarrow> kind_le v w \<Longrightarrow> res_le state_le (store_local k v a) (store_local k w b)"
  by (auto simp: store_local_def res_le_def state_le_def list_all2_update_cong
      dest: list_all2_lengthD)

lemma index_locals_mono:
  "state_le a b \<Longrightarrow> res_le kind_le (index (locals a) k) (index (locals b) k :: slot_kind verifying)"
  by (auto simp: res_le_def state_le_def index_Inr_iff list_all2_conv_all_nth)

lemma copied_stack_values_mono:
  "kinds_le xs ys \<Longrightarrow>
   rel_option kinds_le (copied_stack_values nm xs) (copied_stack_values nm ys)"
proof -
  have "rel_fun (list_all2 R) (rel_option (list_all2 R)) (copied_stack_values nm) (copied_stack_values nm)"
    for R :: "slot_kind \<Rightarrow> slot_kind \<Rightarrow> bool"
    unfolding copied_stack_values_def by transfer_prover
  then show "kinds_le xs ys \<Longrightarrow> ?thesis" by (auto dest: rel_funD)
qed

lemma last_opt_mono:
  assumes "kinds_le xs ys"
  shows "rel_option kind_le (last_opt xs) (last_opt ys)"
  using assms by (cases xs rule: rev_cases; cases ys rule: rev_cases)
    (auto simp: list_all2_append2 list_all2_Cons2 dest: list_all2_lengthD)

lemma res_le_if:
  "(c \<Longrightarrow> res_le R x y) \<Longrightarrow> (\<not> c \<Longrightarrow> res_le R x' y') \<Longrightarrow>
   res_le R (if c then x else x') (if c then y else y')"
  by simp

lemma res_le_option:
  "(\<And>v. x = Some v \<Longrightarrow> res_le R (f v) (g v)) \<Longrightarrow> (x = None \<Longrightarrow> res_le R a b) \<Longrightarrow>
   res_le R (case x of None \<Rightarrow> a | Some v \<Rightarrow> f v) (case x of None \<Rightarrow> b | Some v \<Rightarrow> g v)"
  by (simp split: option.split)

lemma local_writes_mono:
  assumes "state_le a b" "kind_le v w"
  shows "res_le state_le (transfer_local_writes i v a) (transfer_local_writes i w b)"
  unfolding transfer_local_writes_def Let_def
proof (rule res_le_rbind)
  show "res_le state_le
     (if ins_name i = ''set_loc_uninitialized''
      then rbind (expect_local i) (\<lambda>k. store_local k Uninitialized a)
      else if prefix ''put_loc'' (ins_name i) \<or> prefix ''set_loc'' (ins_name i)
      then rbind (expect_local i) (\<lambda>k. store_local k v a) else Inr a)
     (if ins_name i = ''set_loc_uninitialized''
      then rbind (expect_local i) (\<lambda>k. store_local k Uninitialized b)
      else if prefix ''put_loc'' (ins_name i) \<or> prefix ''set_loc'' (ins_name i)
      then rbind (expect_local i) (\<lambda>k. store_local k w b) else Inr b)"
    using assms by (auto intro!: res_le_same store_local_mono)
qed (auto intro!: res_le_same store_local_mono)

lemma transfer_pushes_mono:
  assumes le: "state_le a b" and vs: "kinds_le xs ys" and top: "kind_le v w"
  shows "res_le state_le (transfer_pushes s i xs v a) (transfer_pushes s i ys w b)"
proof -
  let ?nm = "ins_name i"
  have key: "kinds_le [if v = Int32 then Int32 else Tagged] [if w = Int32 then Int32 else Tagged]"
    using top by (auto simp: kind_le_def)
  have copied: "res_le state_le
      (case copied_stack_values ?nm xs of
         Some vs \<Rightarrow> check_stack_size s i (push vs a) | None \<Rightarrow> x)
      (case copied_stack_values ?nm ys of
         Some vs \<Rightarrow> check_stack_size s i (push vs b) | None \<Rightarrow> y)"
    if "res_le state_le x y" for x y
    using copied_stack_values_mono [OF vs, of ?nm] push_check_mono [OF le] that
    by (cases rule: option.rel_cases) simp_all
  show ?thesis
    unfolding transfer_pushes_def Let_def
    by (intro res_le_if copied res_le_same res_le_option res_le_fail push_catch_mono [OF le]
        push_check_mono [OF le] key) (use top in simp_all)
qed

lemma trimmed_mono:
  "state_le a b \<Longrightarrow> state_le (a\<lparr>stack := take n (stack a), catches := trim_catches n (catches a)\<rparr>)
     (b\<lparr>stack := take n (stack b), catches := trim_catches n (catches b)\<rparr>)"
  by (auto simp: state_le_def list_all2_takeI)

lemma nip_catch_mono:
  assumes le: "state_le a b"
  shows "res_le state_le (transfer_nip_catch s i a) (transfer_nip_catch s i b)"
proof (cases "stack b = [] \<or> catches b = []")
  case True
  then show ?thesis by (auto simp: transfer_nip_catch_def split: option.split prod.split)
next
  case False
  obtain ix h where c: "last (catches b) = (ix, h)" by (cases "last (catches b)")
  have cat: "catches a = catches b" and st: "kinds_le (stack a) (stack b)"
    using le by (auto simp: state_le_def)
  have ne: "stack a \<noteq> []" using False st by auto
  have top: "kind_le (last (stack a)) (last (stack b))"
    using last_opt_mono [OF st] False ne by (simp add: last_opt_def)
  have rest: "kinds_le (butlast (stack a)) (butlast (stack b))"
    using list_all2_takeI [OF st] list_all2_lengthD [OF st] by (simp add: butlast_conv_take)
  have off: "get_opt (butlast (stack b)) ix = Some CatchOffset \<Longrightarrow>
      get_opt (butlast (stack a)) ix = Some CatchOffset"
    using rest list_all2_nthD [OF rest, of ix] list_all2_lengthD [OF rest] by auto
  have "state_le (a\<lparr>stack := take ix (butlast (stack a)) @ [last (stack a)], catches := butlast (catches a)\<rparr>)
      (b\<lparr>stack := take ix (butlast (stack b)) @ [last (stack b)], catches := butlast (catches b)\<rparr>)"
    using le rest top cat by (simp add: state_le_def list_all2_appendI list_all2_takeI)
  then have "res_le state_le
     (check_stack_size s i
       (a\<lparr>stack := take ix (butlast (stack a)) @ [last (stack a)], catches := butlast (catches a)\<rparr>))
     (check_stack_size s i
       (b\<lparr>stack := take ix (butlast (stack b)) @ [last (stack b)], catches := butlast (catches b)\<rparr>))"
    by (rule check_stack_size_mono)
  moreover have "transfer_nip_catch s i st =
      (if get_opt (butlast (stack st)) ix \<noteq> Some CatchOffset
       then fail (ins_pc i) UnsupportedExceptionRegion
       else check_stack_size s i (st\<lparr>stack := take ix (butlast (stack st)) @ [last (stack st)],
              catches := butlast (catches st)\<rparr>))"
    if "stack st \<noteq> []" "catches st = catches b" for st
    using that False c by (simp add: transfer_nip_catch_def last_opt_def Let_def)
  ultimately show ?thesis using False ne cat off by (simp del: get_opt_Some_iff)
qed

lemma transfer_popping_mono:
  assumes le: "state_le a b"
  shows "res_le state_le (transfer_popping s i pop a) (transfer_popping s i pop b)"
proof -
  have h: "length (stack a) = length (stack b)" using state_le_heights(1) [OF le] .
  have st: "kinds_le (stack a) (stack b)" using le by (simp add: state_le_def)
  have popped: "kinds_le (drop n (stack a)) (drop n (stack b))" for n
    using list_all2_dropI [OF st] .
  have top: "kind_le (case last_opt (drop n (stack a)) of None \<Rightarrow> Tagged | Some v \<Rightarrow> v)
      (case last_opt (drop n (stack b)) of None \<Rightarrow> Tagged | Some v \<Rightarrow> v)" for n
    using last_opt_mono [OF popped [of n]] by (cases rule: option.rel_cases) simp_all
  let ?n = "length (stack b) - pop"
  let ?a = "a\<lparr>stack := take ?n (stack a), catches := trim_catches ?n (catches a)\<rparr>"
  let ?b = "b\<lparr>stack := take ?n (stack b), catches := trim_catches ?n (catches b)\<rparr>"
  have trimmed: "state_le ?a ?b" using trimmed_mono [OF le] .
  note local = res_le_rbind [OF index_locals_mono [OF trimmed]]
  have "res_le state_le
      (rbind (index (locals ?a) 0) (\<lambda>x. rbind (index (locals ?a) 1) (\<lambda>y.
         check_stack_size s i (push [x, y] ?a))))
      (rbind (index (locals ?b) 0) (\<lambda>x. rbind (index (locals ?b) 1) (\<lambda>y.
         check_stack_size s i (push [x, y] ?b))))"
    by (intro local push_check_mono [OF trimmed]) simp
  moreover have "res_le state_le
      (rbind (expect_local i) (\<lambda>k. rbind (index (locals ?a) k) (\<lambda>v.
         check_stack_size s i (push [v] ?a))))
      (rbind (expect_local i) (\<lambda>k. rbind (index (locals ?b) k) (\<lambda>v.
         check_stack_size s i (push [v] ?b))))"
    by (intro res_le_same local push_check_mono [OF trimmed]) simp
  moreover have "res_le state_le
      (rbind (transfer_local_writes i
          (case last_opt (drop ?n (stack a)) of None \<Rightarrow> Tagged | Some v \<Rightarrow> v) ?a)
        (transfer_pushes s i (drop ?n (stack a))
          (case last_opt (drop ?n (stack a)) of None \<Rightarrow> Tagged | Some v \<Rightarrow> v)))
      (rbind (transfer_local_writes i
          (case last_opt (drop ?n (stack b)) of None \<Rightarrow> Tagged | Some v \<Rightarrow> v) ?b)
        (transfer_pushes s i (drop ?n (stack b))
          (case last_opt (drop ?n (stack b)) of None \<Rightarrow> Tagged | Some v \<Rightarrow> v)))"
    by (rule res_le_rbind [OF local_writes_mono [OF trimmed top]])
      (rule transfer_pushes_mono [OF _ popped top])
  moreover have "res_le state_le
      (check_stack_size s i (push [Tagged, Tagged] a)) (check_stack_size s i (push [Tagged, Tagged] b))"
    using push_check_mono [OF le] by simp
  ultimately show ?thesis
    using nip_catch_mono [OF le, of s i] unfolding transfer_popping_def Let_def h
    by (intro res_le_if res_le_fail)
qed

lemma transfer_mono: "state_le a b \<Longrightarrow> res_le state_le (transfer s i a) (transfer s i b)"
  unfolding transfer_def by (intro res_le_same transfer_popping_mono)

section \<open>The effect of one instruction on the frame\<close>

lemma check_stack_size_Inr:
  "check_stack_size s i st = Inr st' \<longleftrightarrow> st' = st \<and> length (stack st) \<le> stack_size s"
  by (auto simp: check_stack_size_def)

text \<open>The catch offset a push may add: the slot on top, and its handler if the code is \<^verbatim>\<open>catch\<close>.\<close>

definition added_catch ::
  "instruction \<Rightarrow> slot_kind list \<Rightarrow> (nat \<times> nat option) list \<Rightarrow> bool" where
  "added_catch i stk new \<longleftrightarrow> new = [] \<and> ins_name i \<noteq> ''catch'' \<or>
     (\<exists>h. new = [(length stk - 1, h)] \<and> stk \<noteq> [] \<and> last stk = CatchOffset \<and>
        (if ins_name i = ''catch''
         then \<exists>t. h = Some t \<and> catch_target i = Inr (Some t)
         else h = None))"

lemma store_local_Inr:
  "store_local k v st = Inr st' \<Longrightarrow>
   stack st' = stack st \<and> catches st' = catches st \<and> length (locals st') = length (locals st)"
  by (auto simp: store_local_def split: if_splits)

lemma local_writes_Inr:
  assumes "transfer_local_writes i v st = Inr st'"
  shows "stack st' = stack st \<and> catches st' = catches st \<and> length (locals st') = length (locals st)"
  using assms unfolding transfer_local_writes_def Let_def rbind_Inr_iff
  by (auto simp: rbind_Inr_iff dest!: store_local_Inr split: if_splits)

lemma push_Inr:
  assumes "check_stack_size s i (push vs st) = Inr st'" "ins_name i \<noteq> ''catch''"
  shows "locals st' = locals st \<and> length (stack st') \<le> stack_size s \<and>
    (\<exists>vs new. stack st' = stack st @ vs \<and> catches st' = catches st @ new \<and>
       added_catch i (stack st') new \<and> (new \<noteq> [] \<longrightarrow> vs \<noteq> []))"
  using assms by (auto simp: check_stack_size_Inr added_catch_def)

lemma transfer_pushes_Inr:
  assumes "transfer_pushes s i popped v st = Inr st'"
  shows "locals st' = locals st \<and> length (stack st') \<le> stack_size s \<and>
    (\<exists>vs new. stack st' = stack st @ vs \<and> catches st' = catches st @ new \<and>
       added_catch i (stack st') new \<and> (new \<noteq> [] \<longrightarrow> vs \<noteq> []))"
proof -
  let ?nm = "ins_name i"
  consider (start) "?nm \<in> {''for_of_start'', ''for_await_of_start''}" | (catch) "?nm = ''catch''"
    | (other) "?nm \<notin> {''for_of_start'', ''for_await_of_start''}" "?nm \<noteq> ''catch''" by blast
  then show ?thesis
  proof cases
    case start
    then have "check_stack_size s i (push [Tagged, Tagged, CatchOffset] st
        \<lparr>catches := catches st @ [(length (stack st) + 2, None)]\<rparr>) = Inr st'"
      using assms by (simp add: transfer_pushes_def Let_def)
    then show ?thesis using start by (auto simp: check_stack_size_Inr added_catch_def)
  next
    case catch
    then obtain t where t: "branch_target i = (Inr t :: int option verifying)"
      using assms unfolding transfer_pushes_def Let_def by (auto simp: rbind_Inr_iff)
    with catch assms obtain target where target: "Option.bind t u32_try_from = Some target"
      and "check_stack_size s i (push [CatchOffset] st
        \<lparr>catches := catches st @ [(length (stack st), Some target)]\<rparr>) = Inr st'"
      unfolding transfer_pushes_def Let_def by (auto split: option.splits)
    moreover have "catch_target i = Inr (Some target)"
      using catch t target by (simp add: catch_target_def)
    ultimately show ?thesis using catch by (auto simp: check_stack_size_Inr added_catch_def)
  next
    case other
    have "\<exists>vs. check_stack_size s i (push vs st) = Inr st'"
    proof (cases "?nm \<in> {''gosub'', ''using_dispose_init''}")
      case True
      with assms other show ?thesis unfolding transfer_pushes_def Let_def by (auto split: if_splits)
    next
      case False
      show ?thesis
      proof (cases "copied_stack_values ?nm popped")
        case None
        with assms other False show ?thesis
          unfolding transfer_pushes_def Let_def by (auto simp: rbind_Inr_iff split: if_splits)
      next
        case (Some vs)
        with assms other False show ?thesis unfolding transfer_pushes_def Let_def by auto
      qed
    qed
    then show ?thesis using push_Inr other(2) by blast
  qed
qed

text \<open>Three shapes: \<^verbatim>\<open>nip_catch\<close>, the \<^verbatim>\<open>for_*_next\<close> opcodes, and pop-then-push.\<close>

lemma transfer_cases:
  assumes "transfer s i st = Inr st'"
  obtains
    (nip) ix h where "ins_name i = ''nip_catch''" "locals st' = locals st"
      "stack st \<noteq> []" "catches st \<noteq> []" "last (catches st) = (ix, h)"
      "ix < length (butlast (stack st))" "stack st' = take ix (stack st) @ [last (stack st)]"
      "catches st' = butlast (catches st)" "length (stack st') \<le> stack_size s"
  | (peek) "ins_name i \<in> {''for_of_next'', ''for_in_next''}" "locals st' = locals st"
      "stack st' = stack st @ [Tagged, Tagged]" "catches st' = catches st"
      "length (stack st') \<le> stack_size s"
  | (pop) n vs new where "n \<le> length (stack st)" "length (locals st') = length (locals st)"
      "stack st' = take n (stack st) @ vs" "catches st' = trim_catches n (catches st) @ new"
      "added_catch i (stack st') new" "new \<noteq> [] \<longrightarrow> vs \<noteq> []" "length (stack st') \<le> stack_size s"
proof -
  obtain k where t: "transfer_popping s i k st = Inr st'"
    using assms by (auto simp: transfer_def rbind_Inr_iff)
  then have k: "k \<le> length (stack st)"
    by (auto simp: transfer_popping_def Let_def not_less split: if_splits)
  let ?n = "length (stack st) - k"
  let ?st = "st\<lparr>stack := take ?n (stack st), catches := trim_catches ?n (catches st)\<rparr>"
  let ?nm = "ins_name i"
  consider (nip) "?nm = ''nip_catch''" | (peek) "?nm \<in> {''for_of_next'', ''for_in_next''}"
    | (load) "?nm = ''get_loc0_loc1'' \<or> prefix ''get_loc'' ?nm"
    | (other) "?nm \<noteq> ''nip_catch''" "?nm \<notin> {''for_of_next'', ''for_in_next''}"
        "?nm \<noteq> ''get_loc0_loc1''" "\<not> prefix ''get_loc'' ?nm" by blast
  then show ?thesis
  proof cases
    case nip
    then have "transfer_nip_catch s i st = Inr st'" using t k by (simp add: transfer_popping_def)
    then obtain ix h where c: "stack st \<noteq> []" "catches st \<noteq> []" "last (catches st) = (ix, h)"
      "ix < length (butlast (stack st))"
      "check_stack_size s i (st\<lparr>stack := take ix (butlast (stack st)) @ [last (stack st)],
         catches := butlast (catches st)\<rparr>) = Inr st'"
      by (auto simp: transfer_nip_catch_def Let_def last_opt_def get_opt_def split: if_splits prod.splits)
    then have "take ix (butlast (stack st)) = take ix (stack st)" by (simp add: take_butlast)
    with c nip show ?thesis using that(1) by (auto simp: check_stack_size_Inr)
  next
    case peek
    then have "check_stack_size s i (push [Tagged, Tagged] st) = Inr st'"
      using t k by (auto simp: transfer_popping_def)
    with peek show ?thesis using that(2) by (auto simp: check_stack_size_Inr)
  next
    case load
    then have nm: "?nm \<noteq> ''nip_catch''" "?nm \<noteq> ''for_of_next''" "?nm \<noteq> ''for_in_next''" "?nm \<noteq> ''catch''"
      by auto
    then have "\<exists>vs. check_stack_size s i (push vs ?st) = Inr st'"
      using t k load unfolding transfer_popping_def Let_def
      by (auto simp: rbind_Inr_iff split: if_splits)
    then obtain vs where "check_stack_size s i (push vs ?st) = Inr st'" by blast
    from push_Inr [OF this nm(4)] obtain vs' new where
      "stack st' = stack ?st @ vs'" "catches st' = catches ?st @ new"
      "added_catch i (stack st') new" "new \<noteq> [] \<longrightarrow> vs' \<noteq> []" "locals st' = locals ?st"
      "length (stack st') \<le> stack_size s" by blast
    then show ?thesis by (intro that(3) [of ?n vs' new]) simp_all
  next
    case other
    then obtain st1 v where w: "transfer_local_writes i v ?st = Inr st1"
      and p: "transfer_pushes s i (drop ?n (stack st)) v st1 = Inr st'"
      using t k unfolding transfer_popping_def Let_def by (auto simp: rbind_Inr_iff)
    from transfer_pushes_Inr [OF p] obtain vs new where
      "stack st' = stack st1 @ vs" "catches st' = catches st1 @ new"
      "added_catch i (stack st') new" "new \<noteq> [] \<longrightarrow> vs \<noteq> []" "locals st' = locals st1"
      "length (stack st') \<le> stack_size s" by blast
    with local_writes_Inr [OF w] show ?thesis by (intro that(3) [of ?n vs new]) simp_all
  qed
qed

text \<open>The invariant of the catch offsets of a state.\<close>

definition catches_ok :: "abstract_state \<Rightarrow> bool" where
  "catches_ok st \<longleftrightarrow> sorted_wrt (<) (map fst (catches st)) \<and>
     (\<forall>c \<in> set (catches st). fst c < length (stack st) \<and> stack st ! fst c = CatchOffset)"

lemma trim_catches_prefix:
  assumes "sorted_wrt (<) (map fst cs)"
  shows "\<exists>m \<le> length cs. trim_catches n cs = take m cs \<and> (\<forall>c \<in> set (take m cs). fst c < n)"
  using assms
proof (induction cs rule: rev_induct)
  case (snoc c cs)
  then have IH: "\<exists>m \<le> length cs. trim_catches n cs = take m cs \<and> (\<forall>c \<in> set (take m cs). fst c < n)"
    and le: "\<forall>x \<in> set cs. fst x < fst c" by (auto simp: sorted_wrt_append)
  show ?case
  proof (cases "n \<le> fst c")
    case True
    then have "trim_catches n (cs @ [c]) = trim_catches n cs" by (simp add: trim_catches_def)
    moreover obtain m where "m \<le> length cs" "trim_catches n cs = take m cs"
      "\<forall>c \<in> set (take m cs). fst c < n" using IH by blast
    ultimately show ?thesis by (intro exI [of _ m]) simp
  next
    case False
    then have "trim_catches n (cs @ [c]) = cs @ [c]" by (simp add: trim_catches_def)
    with le False show ?thesis by (intro exI [of _ "Suc (length cs)"]) fastforce
  qed
qed (simp add: trim_catches_def)

text \<open>Which catch offsets an instruction keeps, and that the stack below them stays.\<close>

lemma transfer_keeps:
  assumes ok: "catches_ok st" and t: "transfer s i st = Inr st'"
  shows "\<exists>m new. m \<le> length (catches st) \<and> catches st' = take m (catches st) @ new \<and>
    added_catch i (stack st') new \<and>
    (\<forall>c \<in> set (take m (catches st)). fst c < length (stack st') \<and>
       take (Suc (fst c)) (stack st') = take (Suc (fst c)) (stack st) \<and>
       (new \<noteq> [] \<longrightarrow> fst c < length (stack st') - 1))"
  using t
proof (cases rule: transfer_cases)
  case (nip ix h)
  then obtain cs where cs: "catches st = cs @ [(ix, h)]" by (metis append_butlast_last_id)
  have low: "\<forall>c \<in> set cs. fst c < ix" using ok cs by (simp add: catches_ok_def sorted_wrt_append)
  have "added_catch i (stack st') []" using nip(1) by (simp add: added_catch_def)
  moreover have "fst c < length (stack st') \<and>
      take (Suc (fst c)) (stack st') = take (Suc (fst c)) (stack st)" if "c \<in> set cs" for c
  proof -
    have "fst c < ix" "ix < length (stack st)" using low that nip(6) by auto
    then show ?thesis using nip(7) by (simp add: min_def)
  qed
  ultimately show ?thesis
    using cs nip(8) by (intro exI [of _ "length cs"] exI [of _ "[]"]) simp
next
  case peek
  have "\<forall>c \<in> set (catches st). fst c < length (stack st)" using ok by (simp add: catches_ok_def)
  with peek show ?thesis
    by (intro exI [of _ "length (catches st)"] exI [of _ "[]"]) (auto simp: added_catch_def)
next
  case (pop n vs new)
  obtain m where m: "m \<le> length (catches st)" "trim_catches n (catches st) = take m (catches st)"
    "\<forall>c \<in> set (take m (catches st)). fst c < n"
    using trim_catches_prefix [of "catches st" n] ok by (auto simp: catches_ok_def)
  have "fst c < length (stack st') \<and> take (Suc (fst c)) (stack st') = take (Suc (fst c)) (stack st) \<and>
      (new \<noteq> [] \<longrightarrow> fst c < length (stack st') - 1)" if "c \<in> set (take m (catches st))" for c
  proof -
    have c: "fst c < n" using m(3) that by blast
    then have "take (Suc (fst c)) (stack st') = take (Suc (fst c)) (stack st)"
      using pop by (simp add: min_def)
    moreover have "fst c < length (stack st')" using c pop by simp
    moreover have "fst c < length (stack st') - 1" if "new \<noteq> []"
      using c pop that by (cases vs) simp_all
    ultimately show ?thesis by blast
  qed
  with m pop show ?thesis by (intro exI [of _ m] exI [of _ new]) simp
qed

lemma transfer_catches_ok:
  assumes ok: "catches_ok st" and t: "transfer s i st = Inr st'"
  shows "catches_ok st'"
proof -
  obtain m new where c: "catches st' = take m (catches st) @ new" "added_catch i (stack st') new"
    and k: "\<And>c. c \<in> set (take m (catches st)) \<Longrightarrow> fst c < length (stack st') \<and>
       take (Suc (fst c)) (stack st') = take (Suc (fst c)) (stack st) \<and>
       (new \<noteq> [] \<longrightarrow> fst c < length (stack st') - 1)"
    using transfer_keeps [OF assms] by blast
  have s: "sorted_wrt (<) (map fst (take m (catches st)))"
    using ok unfolding catches_ok_def by (metis sorted_wrt_take take_map)
  have old: "stack st' ! fst c = CatchOffset" if c: "c \<in> set (take m (catches st))" for c
  proof -
    have "stack st ! fst c = CatchOffset"
      using ok in_set_takeD [OF c] by (simp add: catches_ok_def)
    then show ?thesis using k [OF c] by (metis lessI nth_take)
  qed
  from c(2) show ?thesis
    unfolding added_catch_def
  proof
    assume "new = [] \<and> ins_name i \<noteq> ''catch''"
    with s old k c(1) show ?thesis by (simp add: catches_ok_def)
  next
    assume "\<exists>h. new = [(length (stack st') - 1, h)] \<and> stack st' \<noteq> [] \<and> last (stack st') = CatchOffset \<and>
      (if ins_name i = ''catch'' then \<exists>t. h = Some t \<and> catch_target i = Inr (Some t) else h = None)"
    then obtain h where h: "new = [(length (stack st') - 1, h)]" "stack st' \<noteq> []"
      "last (stack st') = CatchOffset" by blast
    then have "stack st' ! (length (stack st') - 1) = CatchOffset" by (simp add: last_conv_nth)
    with s old k c(1) h show ?thesis by (auto simp: catches_ok_def sorted_wrt_append)
  qed
qed

end
