(* ===== verification/Stack_Sound.thy ===== *)
theory Stack_Sound
  imports Stack
begin

text \<open>
  Soundness of the abstract interpreter: the invariant of the worklist, and that the states
  \<open>prove\<close> records cover every state that an execution of the abstract machine reaches, on normal
  and exceptional edges.
\<close>

section \<open>Joins\<close>

text \<open>
  The contract the worklist needs of a join of locals: the result is above both sides, and an
  unreported join is no change. \<open>merge_state\<close> and \<open>join_handler_locals\<close> both rest on it.
\<close>

locale kind_join =
  fixes join :: "nat \<Rightarrow> slot_kind list \<Rightarrow> slot_kind list \<Rightarrow> (bool \<times> slot_kind list) verifying"
  assumes join_upper: "length es = length as \<Longrightarrow> join pc es as = Inr (ch, ls) \<Longrightarrow>
      kinds_le es ls \<and> kinds_le as ls"
    and join_unchanged: "length es = length as \<Longrightarrow> join pc es as = Inr (False, ls) \<Longrightarrow> ls = es"
begin

lemma join_entry:
  assumes "length (locals e) = length as"
    and "rbind (join pc (locals e) as) (\<lambda>(ch, ls). Inr (ch, e\<lparr>locals := ls\<rparr>)) = Inr r"
  shows "stack (snd r) = stack e" "catches (snd r) = catches e"
    "kinds_le (locals e) (locals (snd r))" "kinds_le as (locals (snd r))"
    "fst r \<or> snd r = e"
proof -
  obtain ch ls where j: "join pc (locals e) as = Inr (ch, ls)" and r: "r = (ch, e\<lparr>locals := ls\<rparr>)"
    using assms(2) by (auto simp: rbind_Inr_iff)
  note up = join_upper [OF assms(1) j]
  show "stack (snd r) = stack e" "catches (snd r) = catches e" using r by simp_all
  show "kinds_le (locals e) (locals (snd r))" "kinds_le as (locals (snd r))" using r up by simp_all
  show "fst r \<or> snd r = e" using r j join_unchanged [OF assms(1), of pc ls] by (cases ch) auto
qed

end

lemma joined_kind_upper: "joined_kind e a = Some j \<Longrightarrow> kind_le e j \<and> kind_le a j"
  by (cases e; cases a) (auto simp: kind_le_def)

interpretation ml: kind_join "\<lambda>pc. merge_locals pc slot" for slot
proof
  fix es "as" pc ch ls
  assume "length es = length as" "merge_locals pc slot es as = Inr (ch, ls)"
  then show "kinds_le es ls \<and> kinds_le as ls"
    by (induction es "as" arbitrary: slot ch ls rule: list_induct2)
      (auto simp: rbind_Inr_iff joined_kind_upper split: if_splits option.splits)
next
  fix es "as" pc ls
  assume "length es = length as" "merge_locals pc slot es as = Inr (False, ls)"
  then show "ls = es"
    by (induction es "as" arbitrary: slot ls rule: list_induct2)
      (auto simp: rbind_Inr_iff split: if_splits option.splits)
qed

interpretation hl: kind_join join_handler_loop
proof
  fix es "as" pc ch ls
  assume "length es = length as" "join_handler_loop pc es as = Inr (ch, ls)"
  then show "kinds_le es ls \<and> kinds_le as ls"
    by (induction es "as" arbitrary: ch ls rule: list_induct2)
      (auto simp: rbind_Inr_iff kind_le_def split: if_splits)
next
  fix es "as" pc ls
  assume "length es = length as" "join_handler_loop pc es as = Inr (False, ls)"
  then show "ls = es"
    by (induction es "as" arbitrary: ls rule: list_induct2)
      (auto simp: rbind_Inr_iff split: if_splits)
qed

lemma merge_stacks_Inr:
  "length es = length as \<Longrightarrow> merge_stacks pc k es as = Inr u \<Longrightarrow> es = as"
  by (induction es "as" arbitrary: k rule: list_induct2) (auto split: if_splits)

text \<open>\<open>lies_above r a\<close>: an entry \<open>r\<close> covers a state \<open>a\<close> that flows into it; the joins only raise locals.\<close>

definition lies_above :: "abstract_state \<Rightarrow> abstract_state \<Rightarrow> bool" where
  "lies_above r a \<longleftrightarrow> stack r = stack a \<and> catches r = catches a \<and> kinds_le (locals a) (locals r)"

lemma lies_above_refl [simp]: "lies_above a a"
  by (simp add: lies_above_def)

lemma lies_above_trans: "lies_above c b \<Longrightarrow> lies_above b a \<Longrightarrow> lies_above c a"
  by (auto simp: lies_above_def intro: kinds_le_trans)

lemma lies_above_state_le: "lies_above b a \<Longrightarrow> state_le a b"
  by (simp add: lies_above_def state_le_def)

lemma lies_above_length: "lies_above b a \<Longrightarrow> length (locals b) = length (locals a)"
  by (auto simp: lies_above_def dest: list_all2_lengthD)

lemma merge_state_Inr:
  assumes "length (locals e) = length (locals a)" "merge_state pc e a = Inr r"
  shows "lies_above (snd r) e \<and> lies_above (snd r) a \<and> (fst r \<or> snd r = e)"
proof -
  from assms(2) have eq: "stack e = stack a" "catches e = catches a"
    by (auto simp: merge_state_def rbind_Inr_iff split: if_splits dest: merge_stacks_Inr)
  from assms(2) have "rbind (merge_locals pc (length (stack e)) (locals e) (locals a))
      (\<lambda>(ch, ls). Inr (ch, e\<lparr>locals := ls\<rparr>)) = Inr r"
    by (auto simp: merge_state_def rbind_Inr_iff split: if_splits)
  from ml.join_entry [OF assms(1) this] eq show ?thesis by (simp add: lies_above_def)
qed

lemma join_handler_Inr:
  assumes "join_handler_locals pc e ls = Inr r"
  shows "lies_above (snd r) e \<and> kinds_le ls (locals (snd r)) \<and> (fst r \<or> snd r = e)"
proof -
  from assms have "length (locals e) = length ls"
    "rbind (join_handler_loop pc (locals e) ls) (\<lambda>(ch, ls). Inr (ch, e\<lparr>locals := ls\<rparr>)) = Inr r"
    by (auto simp: join_handler_locals_def split: if_splits)
  from hl.join_entry [OF this] show ?thesis by (simp add: lies_above_def)
qed

section \<open>Growth of the entries\<close>

abbreviation ent :: "prover \<Rightarrow> nat \<Rightarrow> abstract_state option" where
  "ent p \<equiv> map_of (block_entries p)"

text \<open>
  The steps of a round only raise entries, and every entry they change or add is queued.
\<close>

definition grows :: "prover \<Rightarrow> prover \<Rightarrow> bool" where
  "grows p p' \<longleftrightarrow>
     (\<exists>more. queue p' = queue p @ more \<and> set more \<subseteq> dom (ent p')) \<and>
     (\<forall>k st. ent p k = Some st \<longrightarrow>
        (\<exists>st'. ent p' k = Some st' \<and> lies_above st' st \<and> (st' = st \<or> k \<in> set (queue p')))) \<and>
     (\<forall>k. ent p k = None \<longrightarrow> ent p' k \<noteq> None \<longrightarrow> k \<in> set (queue p'))"

lemma grows_refl [simp]: "grows p p"
  by (auto simp: grows_def intro: exI [of _ "[]"])

lemma growsD:
  "grows p p' \<Longrightarrow> ent p k = Some st \<Longrightarrow>
   \<exists>st'. ent p' k = Some st' \<and> lies_above st' st \<and> (st' = st \<or> k \<in> set (queue p'))"
  by (simp add: grows_def)

lemma grows_queue: "grows p p' \<Longrightarrow> set (queue p) \<subseteq> set (queue p')"
  by (auto simp: grows_def)

lemma grows_dom: "grows p p' \<Longrightarrow> dom (ent p) \<subseteq> dom (ent p')"
proof
  fix k assume "grows p p'" "k \<in> dom (ent p)"
  then obtain st where "ent p k = Some st" "grows p p'" by auto
  from growsD [OF this(2,1)] show "k \<in> dom (ent p')" by auto
qed

lemma grows_queue_dom:
  "grows p p' \<Longrightarrow> set (queue p) \<subseteq> dom (ent p) \<Longrightarrow> set (queue p') \<subseteq> dom (ent p')"
proof -
  assume g: "grows p p'" and q: "set (queue p) \<subseteq> dom (ent p)"
  then obtain more where "queue p' = queue p @ more" "set more \<subseteq> dom (ent p')"
    by (auto simp: grows_def)
  then show ?thesis using q grows_dom [OF g] by (simp add: subset_trans)
qed

lemma grows_trans:
  assumes "grows p p'" "grows p' p''"
  shows "grows p p''"
proof -
  obtain m m' where "queue p' = queue p @ m" "set m \<subseteq> dom (ent p')"
    "queue p'' = queue p' @ m'" "set m' \<subseteq> dom (ent p'')"
    using assms by (auto simp: grows_def)
  then have "queue p'' = queue p @ m @ m' \<and> set (m @ m') \<subseteq> dom (ent p'')"
    using grows_dom [OF assms(2)] by auto
  moreover have "\<exists>st''. ent p'' k = Some st'' \<and> lies_above st'' st \<and> (st'' = st \<or> k \<in> set (queue p''))"
    if st: "ent p k = Some st" for k st
  proof -
    obtain st' where st': "ent p' k = Some st'" "lies_above st' st" "st' = st \<or> k \<in> set (queue p')"
      using growsD [OF assms(1) st] by blast
    obtain st'' where "ent p'' k = Some st''" "lies_above st'' st'" "st'' = st' \<or> k \<in> set (queue p'')"
      using growsD [OF assms(2) st'(1)] by blast
    with st' show ?thesis using lies_above_trans grows_queue [OF assms(2)] by blast
  qed
  moreover have "k \<in> set (queue p'')" if "ent p k = None" "ent p'' k \<noteq> None" for k
  proof (cases "ent p' k = None")
    case True
    then show ?thesis using assms(2) that(2) by (simp add: grows_def)
  next
    case False
    then have "k \<in> set (queue p')" using assms(1) that(1) by (simp add: grows_def)
    then show ?thesis using grows_queue [OF assms(2)] by blast
  qed
  ultimately show ?thesis unfolding grows_def by blast
qed

text \<open>A state is covered by an entry; coverage is kept by growth.\<close>

definition entry_above :: "prover \<Rightarrow> nat \<Rightarrow> abstract_state \<Rightarrow> bool" where
  "entry_above p k st \<longleftrightarrow> (\<exists>e. ent p k = Some e \<and> lies_above e st)"

definition handler_above :: "prover \<Rightarrow> abstract_state \<Rightarrow> bool" where
  "handler_above p st \<longleftrightarrow>
     (case innermost_handler st of
        None \<Rightarrow> True
      | Some (ix, h) \<Rightarrow> \<exists>e. ent p h = Some e \<and> kinds_le (locals st) (locals e))"

lemma entry_above_mono: "entry_above p k st \<Longrightarrow> grows p p' \<Longrightarrow> entry_above p' k st"
  unfolding entry_above_def using growsD lies_above_trans by blast

lemma handler_above_mono: "handler_above p st \<Longrightarrow> grows p p' \<Longrightarrow> handler_above p' st"
proof (cases "innermost_handler st")
  case (Some c)
  obtain ix h where c: "c = (ix, h)" by (cases c)
  assume "handler_above p st" "grows p p'"
  then obtain e e' where "ent p h = Some e" "kinds_le (locals st) (locals e)"
    "ent p' h = Some e'" "lies_above e' e"
    using Some c growsD [of p p' h] by (auto simp: handler_above_def)
  then show ?thesis using Some c kinds_le_trans by (auto simp: handler_above_def lies_above_def)
qed (simp add: handler_above_def)

section \<open>Well-formed provers\<close>

definition wf_entry :: "compile_snapshot \<Rightarrow> abstract_state \<Rightarrow> bool" where
  "wf_entry s st \<longleftrightarrow> length (locals st) = local_count s \<and> length (stack st) \<le> stack_size s \<and>
     catches_ok st"

definition wf_prover :: "proof_task \<Rightarrow> prover \<Rightarrow> bool" where
  "wf_prover t p \<longleftrightarrow>
     strict_sorted_keys (block_entries p) \<and> strict_sorted_keys (before p) \<and>
     strict_sorted_keys (after p) \<and> strict_sorted_keys (handlers p) \<and>
     (\<forall>k st. ent p k = Some st \<longrightarrow>
        wf_entry (task_snapshot t) st \<and> k \<in> start_pc ` set (blocks (task_cfg t)))"

lemma wf_entry_above: "wf_entry s st \<Longrightarrow> lies_above e st \<Longrightarrow> wf_entry s e"
  using lies_above_length [of e st] by (simp add: wf_entry_def catches_ok_def lies_above_def)

lemma transfer_length_locals:
  "transfer s i st = Inr st' \<Longrightarrow> length (locals st') = length (locals st)"
  by (erule transfer_cases) simp_all

lemma transfer_stack_size: "transfer s i st = Inr st' \<Longrightarrow> length (stack st') \<le> stack_size s"
  by (erule transfer_cases) simp_all

lemma wf_entry_transfer: "wf_entry s st \<Longrightarrow> transfer s i st = Inr st' \<Longrightarrow> wf_entry s st'"
  using transfer_length_locals transfer_stack_size transfer_catches_ok unfolding wf_entry_def
  by metis

text \<open>What the steps of a round leave alone: the records of other pcs.\<close>

definition records_frame :: "nat set \<Rightarrow> prover \<Rightarrow> prover \<Rightarrow> bool" where
  "records_frame pcs p p' \<longleftrightarrow>
     set (visited p) \<subseteq> set (visited p') \<and>
     (\<forall>pc. pc \<notin> pcs \<longrightarrow>
        map_of (before p') pc = map_of (before p) pc \<and> map_of (after p') pc = map_of (after p) pc \<and>
        map_of (handlers p') pc = map_of (handlers p) pc)"

lemma records_frame_refl [simp]: "records_frame pcs p p"
  by (simp add: records_frame_def)

lemma records_frame_trans:
  "records_frame A p p' \<Longrightarrow> records_frame B p' p'' \<Longrightarrow> records_frame (A \<union> B) p p''"
  by (auto simp: records_frame_def)

lemma records_frame_mono: "records_frame A p p' \<Longrightarrow> A \<subseteq> B \<Longrightarrow> records_frame B p p'"
  by (auto simp: records_frame_def)

section \<open>The steps of a round\<close>

definition step_ok :: "proof_task \<Rightarrow> nat set \<Rightarrow> prover \<Rightarrow> prover \<Rightarrow> bool" where
  "step_ok t pcs p p' \<longleftrightarrow> wf_prover t p' \<and> grows p p' \<and> records_frame pcs p p'"

lemma step_ok_refl: "wf_prover t p \<Longrightarrow> step_ok t pcs p p"
  by (simp add: step_ok_def)

lemma step_ok_trans:
  "step_ok t A p p' \<Longrightarrow> step_ok t B p' p'' \<Longrightarrow> step_ok t (A \<union> B) p p''"
  by (auto simp: step_ok_def intro: grows_trans records_frame_trans)

lemma step_ok_wf: "step_ok t A p p' \<Longrightarrow> wf_prover t p'"
  by (simp add: step_ok_def)

lemma step_ok_grows: "step_ok t A p p' \<Longrightarrow> grows p p'"
  by (simp add: step_ok_def)

lemma charge_to_Inr: "charge_to t pc n p = Inr p' \<Longrightarrow> \<exists>u. p' = p\<lparr>used := u\<rparr>"
  by (auto simp: charge_to_def rbind_Inr_iff)

lemma charge_to_ok:
  "charge_to t pc u p = Inr p' \<Longrightarrow> wf_prover t p \<Longrightarrow>
   step_ok t {} p p' \<and> block_entries p' = block_entries p"
  by (auto simp: charge_to_def rbind_Inr_iff step_ok_def wf_prover_def grows_def records_frame_def
      intro!: exI [of _ "[]"])

lemma ent_update_entry:
  "wf_prover t p \<Longrightarrow> ent (update_entry k r p) = (ent p)(k \<mapsto> snd r)"
  by (auto simp: update_entry_def Let_def wf_prover_def)

lemma queue_update_entry:
  "queue (update_entry k r p) = queue p @ (if fst r then [k] else [])"
  by (simp add: update_entry_def Let_def)

lemma update_entry_ok:
  assumes wf: "wf_prover t p" and e: "ent p k = Some e"
    and r: "lies_above (snd r) e" "fst r \<or> snd r = e"
  shows "step_ok t {} p (update_entry k r p)"
proof -
  let ?p = "update_entry k r p"
  have same: "before ?p = before p" "after ?p = after p" "handlers ?p = handlers p"
    "visited ?p = visited p" by (simp_all add: update_entry_def Let_def)
  note ent = ent_update_entry [OF wf, of k r]
  have "wf_entry (task_snapshot t) (snd r)" "k \<in> start_pc ` set (blocks (task_cfg t))"
    using wf e wf_entry_above [OF _ r(1)] by (auto simp: wf_prover_def)
  then have "wf_prover t ?p"
    using wf ent same by (auto simp: wf_prover_def update_entry_def Let_def)
  moreover have "grows p ?p"
    unfolding grows_def
  proof (intro conjI allI impI)
    show "\<exists>more. queue ?p = queue p @ more \<and> set more \<subseteq> dom (ent ?p)"
      using queue_update_entry [of k r p] ent by (cases "fst r") auto
    show "\<exists>st'. ent ?p j = Some st' \<and> lies_above st' st \<and> (st' = st \<or> j \<in> set (queue ?p))"
      if "ent p j = Some st" for j st
      using that e r ent queue_update_entry [of k r p] by (cases "j = k") auto
    show "j \<in> set (queue ?p)" if "ent p j = None" "ent ?p j \<noteq> None" for j
      using that e ent by (cases "j = k") auto
  qed
  ultimately show ?thesis using same by (simp add: step_ok_def records_frame_def)
qed

lemma ent_insert_entry:
  "wf_prover t p \<Longrightarrow> ent (insert_entry k st p) = (ent p)(k \<mapsto> st)"
  by (auto simp: insert_entry_def wf_prover_def)

lemma insert_entry_ok:
  assumes wf: "wf_prover t p" and e: "ent p k = None"
    and st: "wf_entry (task_snapshot t) st" "k \<in> start_pc ` set (blocks (task_cfg t))"
  shows "step_ok t {} p (insert_entry k st p)"
proof -
  let ?p = "insert_entry k st p"
  have same: "before ?p = before p" "after ?p = after p" "handlers ?p = handlers p"
    "visited ?p = visited p" "queue ?p = queue p @ [k]" by (simp_all add: insert_entry_def)
  note ent = ent_insert_entry [OF wf, of k st]
  have "wf_prover t ?p" using wf ent same st by (auto simp: wf_prover_def insert_entry_def)
  moreover have "grows p ?p"
    unfolding grows_def
  proof (intro conjI allI impI)
    show "\<exists>more. queue ?p = queue p @ more \<and> set more \<subseteq> dom (ent ?p)" using same ent by auto
    show "\<exists>st'. ent ?p j = Some st' \<and> lies_above st' x \<and> (st' = x \<or> j \<in> set (queue ?p))"
      if "ent p j = Some x" for j x using that e ent by (cases "j = k") auto
    show "j \<in> set (queue ?p)" if "ent p j = None" "ent ?p j \<noteq> None" for j
      using that ent same by (cases "j = k") auto
  qed
  ultimately show ?thesis using same by (simp add: step_ok_def records_frame_def)
qed

text \<open>A step that changes only the records of one pc.\<close>

lemma records_ok:
  assumes "wf_prover t p" "block_entries p' = block_entries p" "queue p' = queue p"
    "strict_sorted_keys (before p')" "strict_sorted_keys (after p')" "strict_sorted_keys (handlers p')"
    "records_frame pcs p p'"
  shows "step_ok t pcs p p'"
  using assms by (auto simp: step_ok_def wf_prover_def grows_def intro!: exI [of _ "[]"])

lemma record_before_ok:
  assumes "record_before t pc st p = Inr p'" "wf_prover t p"
  shows "step_ok t {pc} p p' \<and> after p' = after p \<and> handlers p' = handlers p \<and>
    visited p' = visited p \<and> (pc \<in> set (before_points t) \<longrightarrow> map_of (before p') pc = Some st)"
proof (cases "pc \<in> set (before_points t)")
  case True
  then obtain u where p': "p' = p\<lparr>used := u, before := bt_insert pc st (before p)\<rparr>"
    using assms(1) by (auto simp: record_before_def rbind_Inr_iff dest!: charge_to_Inr)
  have "step_ok t {pc} p p'"
    by (rule records_ok [OF assms(2)]) (use p' assms(2) in \<open>auto simp: wf_prover_def records_frame_def\<close>)
  then show ?thesis using p' assms(2) by (simp add: wf_prover_def)
next
  case False
  with assms show ?thesis by (simp add: record_before_def step_ok_refl)
qed

lemma record_after_ok:
  assumes "record_after t pc st p = Inr p'" "wf_prover t p"
  shows "step_ok t {pc} p p' \<and> before p' = before p \<and> handlers p' = handlers p \<and>
    visited p' = visited p \<and> block_entries p' = block_entries p \<and>
    (pc \<in> set (after_points t) \<longrightarrow> map_of (after p') pc = Some st)"
proof (cases "pc \<in> set (after_points t)")
  case True
  then obtain u where p': "p' = p\<lparr>used := u, after := bt_insert pc st (after p)\<rparr>"
    using assms(1) by (auto simp: record_after_def rbind_Inr_iff dest!: charge_to_Inr)
  have "step_ok t {pc} p p'"
    by (rule records_ok [OF assms(2)]) (use p' assms(2) in \<open>auto simp: wf_prover_def records_frame_def\<close>)
  then show ?thesis using p' assms(2) by (simp add: wf_prover_def)
next
  case False
  with assms show ?thesis by (simp add: record_after_def step_ok_refl)
qed

lemma record_visit_ok:
  assumes "wf_prover t p"
  shows "step_ok t {pc} p (record_visit pc st p) \<and> pc \<in> set (visited (record_visit pc st p)) \<and>
    before (record_visit pc st p) = before p \<and> after (record_visit pc st p) = after p \<and>
    map_of (handlers (record_visit pc st p)) pc =
      (case innermost_catch st of None \<Rightarrow> map_of (handlers p) pc | Some h \<Rightarrow> Some h)"
proof -
  have "step_ok t {pc} p (record_visit pc st p)"
    by (rule records_ok [OF assms])
      (use assms in \<open>auto simp: wf_prover_def records_frame_def record_visit_def split: option.splits\<close>)
  then show ?thesis
    using assms by (auto simp: record_visit_def wf_prover_def split: option.splits)
qed

lemma propagate_ok:
  assumes "propagate_exception t pc st p = Inr p'" "wf_prover t p"
  shows "step_ok t {} p p' \<and> handler_above p' st \<and> before p' = before p \<and> after p' = after p \<and>
    handlers p' = handlers p \<and> visited p' = visited p"
proof (cases "innermost_handler st")
  case None
  with assms show ?thesis by (simp add: propagate_exception_def handler_above_def step_ok_refl)
next
  case (Some c)
  obtain ix h where c: "c = (ix, h)" by (cases c)
  with assms(1) Some obtain u e r where e: "ent p h = Some e"
    and r: "join_handler_locals h e (locals st) = Inr r" and p': "p' = update_entry h r (p\<lparr>used := u\<rparr>)"
    by (auto simp: propagate_exception_def rbind_Inr_iff dest!: charge_to_Inr split: option.splits)
  have wf: "wf_prover t (p\<lparr>used := u\<rparr>)" using assms(2) by (simp add: wf_prover_def)
  note j = join_handler_Inr [OF r]
  have "step_ok t {} (p\<lparr>used := u\<rparr>) p'"
    unfolding p' using update_entry_ok [OF wf, of h e r] e j by simp
  then have "step_ok t {} p p'"
    by (simp add: step_ok_def grows_def records_frame_def)
  moreover have "handler_above p' st"
    using Some c j ent_update_entry [OF wf, of h r] by (simp add: handler_above_def p')
  ultimately show ?thesis by (simp add: p' update_entry_def Let_def)
qed

text \<open>What a visit of an instruction leaves in the records.\<close>

definition recorded :: "proof_task \<Rightarrow> prover \<Rightarrow> nat \<Rightarrow> abstract_state \<Rightarrow> abstract_state \<Rightarrow> bool" where
  "recorded t p pc st st' \<longleftrightarrow> pc \<in> set (visited p) \<and>
     (pc \<in> set (before_points t) \<longrightarrow> map_of (before p) pc = Some st) \<and>
     (pc \<in> set (after_points t) \<longrightarrow> map_of (after p) pc = Some st') \<and>
     (\<forall>h. innermost_catch st = Some h \<longrightarrow> map_of (handlers p) pc = Some h)"

lemma recorded_frame:
  "recorded t p pc st st' \<Longrightarrow> records_frame A p p' \<Longrightarrow> pc \<notin> A \<Longrightarrow> recorded t p' pc st st'"
  by (auto simp: recorded_def records_frame_def)

lemma prove_instruction_ok:
  assumes "prove_instruction t i (st, p) = Inr (st', p')" "wf_prover t p"
  shows "transfer (task_snapshot t) i st = Inr st'" "step_ok t {ins_pc i} p p'"
    "handler_above p' st" "recorded t p' (ins_pc i) st st'"
    "map_of (handlers p') (ins_pc i) =
      (case innermost_catch st of None \<Rightarrow> map_of (handlers p) (ins_pc i) | Some h \<Rightarrow> Some h)"
proof -
  let ?pc = "ins_pc i"
  obtain p1 p2 p3 where 1: "charge_to t ?pc (sat_add usize_max 1 (cell_count st)) p = Inr p1"
    and 2: "record_before t ?pc st p1 = Inr p2"
    and 3: "propagate_exception t ?pc st (record_visit ?pc st p2) = Inr p3"
    and tr: "transfer (task_snapshot t) i st = Inr st'"
    and 4: "record_after t ?pc st' p3 = Inr p'"
    using assms(1) by (auto simp: prove_instruction_def Let_def rbind_Inr_iff)
  show "transfer (task_snapshot t) i st = Inr st'" by (rule tr)
  let ?pv = "record_visit ?pc st p2"
  have s1: "step_ok t {} p p1" and h1: "handlers p1 = handlers p"
    using charge_to_ok [OF 1 assms(2)] charge_to_Inr [OF 1] by auto
  note s2 = record_before_ok [OF 2 step_ok_wf [OF s1]]
  have w2: "wf_prover t p2" using s2 step_ok_wf by blast
  note sv = record_visit_ok [OF w2, of ?pc st]
  have wv: "wf_prover t ?pv" using sv step_ok_wf by blast
  note s3 = propagate_ok [OF 3 wv]
  have w3: "wf_prover t p3" using s3 step_ok_wf by blast
  note s4 = record_after_ok [OF 4 w3]
  have "step_ok t ({} \<union> ({?pc} \<union> ({?pc} \<union> ({} \<union> {?pc})))) p p'"
    using s1 s2 sv s3 s4 step_ok_trans by meson
  then show "step_ok t {ins_pc i} p p'" by simp
  have hp: "map_of (handlers p') ?pc =
      (case innermost_catch st of None \<Rightarrow> map_of (handlers p) ?pc | Some h \<Rightarrow> Some h)"
  proof -
    have "handlers p2 = handlers p" using s2 h1 by simp
    then show ?thesis using sv s3 s4 by (metis (no_types))
  qed
  then show "map_of (handlers p') ?pc =
      (case innermost_catch st of None \<Rightarrow> map_of (handlers p) ?pc | Some h \<Rightarrow> Some h)" .
  show "handler_above p' st" using s3 handler_above_mono s4 step_ok_grows by blast
  show "recorded t p' (ins_pc i) st st'"
    using s2 sv s3 s4 hp by (simp add: recorded_def)
qed

text \<open>The states before each instruction of a block, and the state at its end.\<close>

fun body_run ::
  "compile_snapshot \<Rightarrow> instruction list \<Rightarrow> abstract_state \<Rightarrow> abstract_state list verifying" where
  "body_run s [] st = Inr [st]"
| "body_run s (i # is) st =
     rbind (transfer s i st) (\<lambda>st'. rbind (body_run s is st') (\<lambda>sts. Inr (st # sts)))"

lemma body_run_length: "body_run s is st = Inr sts \<Longrightarrow> length sts = Suc (length is) \<and> sts ! 0 = st"
  by (induction "is" arbitrary: st sts) (auto simp: rbind_Inr_iff)

lemma body_run_step:
  "body_run s is st = Inr sts \<Longrightarrow> j < length is \<Longrightarrow> transfer s (is ! j) (sts ! j) = Inr (sts ! Suc j)"
proof (induction "is" arbitrary: st sts j)
  case (Cons i "is")
  then obtain st' ss where "transfer s i st = Inr st'" "body_run s is st' = Inr ss" "sts = st # ss"
    by (auto simp: rbind_Inr_iff)
  with Cons body_run_length [of s "is" st' ss] show ?case by (cases j) auto
qed simp

lemma prove_body_ok:
  assumes "fold_res (prove_instruction t) body (st, p) = Inr (st', p')" "wf_prover t p"
    "distinct (map ins_pc body)"
  shows "\<exists>sts. body_run (task_snapshot t) body st = Inr sts \<and> last sts = st' \<and>
    step_ok t (ins_pc ` set body) p p' \<and>
    (\<forall>j < length body. handler_above p' (sts ! j) \<and>
       recorded t p' (ins_pc (body ! j)) (sts ! j) (sts ! Suc j)) \<and>
    (\<forall>pc h. map_of (handlers p') pc = Some h \<longrightarrow> map_of (handlers p) pc = Some h \<or>
       (\<exists>j < length body. ins_pc (body ! j) = pc \<and> innermost_catch (sts ! j) = Some h))"
  using assms
proof (induction body arbitrary: st p)
  case Nil
  then show ?case by (simp add: step_ok_refl)
next
  case (Cons i body)
  then obtain st1 p1 where 1: "prove_instruction t i (st, p) = Inr (st1, p1)"
    and 2: "fold_res (prove_instruction t) body (st1, p1) = Inr (st', p')"
    by (auto simp: rbind_Inr_iff)
  note ok = prove_instruction_ok [OF 1 Cons.prems(2)]
  obtain sts where run: "body_run (task_snapshot t) body st1 = Inr sts" "last sts = st'"
    and step: "step_ok t (ins_pc ` set body) p1 p'"
    and each: "\<And>j. j < length body \<Longrightarrow> handler_above p' (sts ! j) \<and>
       recorded t p' (ins_pc (body ! j)) (sts ! j) (sts ! Suc j)"
    and hs: "\<And>pc h. map_of (handlers p') pc = Some h \<Longrightarrow> map_of (handlers p1) pc = Some h \<or>
       (\<exists>j < length body. ins_pc (body ! j) = pc \<and> innermost_catch (sts ! j) = Some h)"
    using Cons.IH [OF 2 step_ok_wf [OF ok(2)]] Cons.prems(3) by auto
  have len: "length sts = Suc (length body)" "sts ! 0 = st1" using body_run_length [OF run(1)] by auto
  have notin: "ins_pc i \<notin> ins_pc ` set body" using Cons.prems(3) by simp
  have "body_run (task_snapshot t) (i # body) st = Inr (st # sts)" using ok(1) run(1) by simp
  moreover have "last (st # sts) = st'" using run(2) len(1) by auto
  moreover have "step_ok t (ins_pc ` set (i # body)) p p'"
    using step_ok_trans [OF ok(2) step] by simp
  moreover have "handler_above p' ((st # sts) ! j) \<and>
      recorded t p' (ins_pc ((i # body) ! j)) ((st # sts) ! j) ((st # sts) ! Suc j)"
    if "j < length (i # body)" for j
  proof (cases j)
    case 0
    have "handler_above p' st" using handler_above_mono ok(3) step_ok_grows [OF step] by blast
    moreover have "recorded t p' (ins_pc i) st st1"
      using recorded_frame [OF ok(4) _ notin] step by (simp add: step_ok_def)
    ultimately show ?thesis using 0 len by simp
  qed (use each that in simp)
  moreover have "map_of (handlers p) pc = Some h \<or> (\<exists>j < length (i # body).
      ins_pc ((i # body) ! j) = pc \<and> innermost_catch ((st # sts) ! j) = Some h)"
    if h: "map_of (handlers p') pc = Some h" for pc h
    using hs [OF h]
  proof
    assume p1: "map_of (handlers p1) pc = Some h"
    show ?thesis
    proof (cases "pc = ins_pc i")
      case True
      with p1 ok(5) show ?thesis by (auto split: option.splits intro!: exI [of _ 0])
    next
      case False
      with p1 ok(2) show ?thesis by (simp add: step_ok_def records_frame_def)
    qed
  next
    assume "\<exists>j < length body. ins_pc (body ! j) = pc \<and> innermost_catch (sts ! j) = Some h"
    then obtain j where "j < length body" "ins_pc (body ! j) = pc" "innermost_catch (sts ! j) = Some h"
      by blast
    then show ?thesis by (intro disjI2 exI [of _ "Suc j"]) simp
  qed
  ultimately show ?case by (intro exI [of _ "st # sts"]) simp
qed

section \<open>Successors\<close>

text \<open>Where the state at the end of a block flows.\<close>

definition flowed :: "prover \<Rightarrow> nat option \<Rightarrow> abstract_state \<Rightarrow> nat \<Rightarrow> bool" where
  "flowed p ct st succ \<longleftrightarrow>
     (if ct = Some succ then \<exists>inc. caught_state succ st = Some inc \<and> entry_above p succ inc
      else entry_above p succ st)"

lemma flowed_mono: "flowed p ct st succ \<Longrightarrow> grows p p' \<Longrightarrow> flowed p' ct st succ"
  using entry_above_mono by (fastforce simp: flowed_def split: if_splits)

lemma caught_state_Some:
  assumes "caught_state succ st = Some inc"
  shows "inc = st\<lparr>stack := butlast (stack st) @ [Tagged], catches := butlast (catches st)\<rparr>"
    "stack st \<noteq> []" "last (stack st) = CatchOffset" "catches st \<noteq> []"
    "snd (last (catches st)) = Some succ"
  using assms
  by (auto simp: caught_state_def last_opt_def split: if_splits option.splits slot_kind.splits prod.splits)

lemma wf_entry_caught:
  assumes "wf_entry s st" "caught_state succ st = Some inc"
    "fst (last (catches st)) = length (stack st) - 1"
  shows "wf_entry s inc"
proof -
  note c = caught_state_Some [OF assms(2)]
  obtain cs x where cs: "catches st = cs @ [x]" using c(4) by (metis append_butlast_last_id)
  obtain ss k where ss: "stack st = ss @ [k]" using c(2) by (metis append_butlast_last_id)
  have ok: "catches_ok st" using assms(1) by (simp add: wf_entry_def)
  have "fst y < length ss \<and> ss ! fst y = CatchOffset" if "y \<in> set cs" for y
  proof -
    have "fst y < fst x" using ok cs that by (simp add: catches_ok_def sorted_wrt_append)
    then have "fst y < length ss" using assms(3) cs ss by simp
    moreover have "stack st ! fst y = CatchOffset" using ok cs that by (simp add: catches_ok_def)
    ultimately show ?thesis using ss by (simp add: nth_append)
  qed
  moreover have "sorted_wrt (<) (map fst cs)"
    using ok cs by (simp add: catches_ok_def sorted_wrt_append)
  ultimately have "catches_ok inc" using c(1) cs ss by (simp add: catches_ok_def nth_append less_SucI)
  then show ?thesis using assms(1) c(1) ss by (simp add: wf_entry_def)
qed

lemma lies_above_widen: "lies_above e (widen_locals st) \<Longrightarrow> lies_above e st"
proof -
  have "kinds_le (locals st) (locals (widen_locals st))"
    by (auto simp: widen_locals_def list_all2_conv_all_nth kind_le_def)
  then show "lies_above e (widen_locals st) \<Longrightarrow> lies_above e st"
    by (auto simp: lies_above_def widen_locals_def intro: kinds_le_trans)
qed

lemma wf_entry_widen: "wf_entry s st \<Longrightarrow> wf_entry s (widen_locals st)"
  by (simp add: wf_entry_def widen_locals_def catches_ok_def)

lemma entry_above_update:
  "wf_prover t p \<Longrightarrow> lies_above (snd r) st \<Longrightarrow> entry_above (update_entry k r p) k st"
  by (simp add: entry_above_def ent_update_entry)

lemma entry_above_insert: "wf_prover t p \<Longrightarrow> entry_above (insert_entry k st p) k st"
  by (simp add: entry_above_def ent_insert_entry)

lemma flow_to_handler_ok:
  assumes f: "flow_to_handler t tail st succ p = Inr p'" and wf: "wf_prover t p"
    and st: "wf_entry (task_snapshot t) st" "succ \<in> start_pc ` set (blocks (task_cfg t))"
    and top: "catches st \<noteq> [] \<Longrightarrow> snd (last (catches st)) = Some succ \<Longrightarrow>
      fst (last (catches st)) = length (stack st) - 1"
  shows "step_ok t {} p p'" "\<exists>inc. caught_state succ st = Some inc \<and> entry_above p' succ inc"
    "handlers p' = handlers p"
proof -
  obtain inc where inc: "caught_state succ st = Some inc"
    using f by (auto simp: flow_to_handler_def split: option.splits)
  have wfi: "wf_entry (task_snapshot t) inc"
    using wf_entry_caught [OF st(1) inc] top caught_state_Some [OF inc] by simp
  from f inc obtain p1 where 1: "charge_to t succ (cell_count inc) p = Inr p1"
    and p': "(case ent p1 succ of
       Some e \<Rightarrow>
         if stack e \<noteq> stack inc \<or> catches e \<noteq> catches inc
         then fail succ UnsupportedExceptionRegion
         else rbind (join_handler_locals succ e (locals inc)) (\<lambda>r. Inr (update_entry succ r p1))
     | None \<Rightarrow> Inr (insert_entry succ inc p1)) = Inr p'"
    by (auto simp: flow_to_handler_def rbind_Inr_iff)
  have s1: "step_ok t {} p p1" using charge_to_ok [OF 1 wf] by blast
  have w1: "wf_prover t p1" using s1 step_ok_wf by blast
  have h1: "handlers p1 = handlers p" using charge_to_Inr [OF 1] by auto
  have "step_ok t {} p1 p' \<and> entry_above p' succ inc \<and> handlers p' = handlers p1"
  proof (cases "ent p1 succ")
    case None
    with p' have "p' = insert_entry succ inc p1" by simp
    then show ?thesis
      using insert_entry_ok [OF w1 None wfi st(2)] entry_above_insert [OF w1]
      by (simp add: insert_entry_def)
  next
    case (Some e)
    with p' obtain r where r: "join_handler_locals succ e (locals inc) = Inr r"
      "p' = update_entry succ r p1" "stack e = stack inc" "catches e = catches inc"
      by (auto simp: rbind_Inr_iff split: if_splits)
    note j = join_handler_Inr [OF r(1)]
    then have "lies_above (snd r) inc" using r by (auto simp: lies_above_def)
    then show ?thesis
      using update_entry_ok [OF w1 Some] j r(2) entry_above_update [OF w1]
      by (simp add: update_entry_def Let_def)
  qed
  then show "step_ok t {} p p'" "\<exists>inc. caught_state succ st = Some inc \<and> entry_above p' succ inc"
    "handlers p' = handlers p"
    using inc h1 step_ok_trans [OF s1, of "{}" p'] by auto
qed

lemma flow_to_block_ok:
  assumes f: "flow_to_block t st succ p = Inr p'" and wf: "wf_prover t p"
    and st: "wf_entry (task_snapshot t) st" "succ \<in> start_pc ` set (blocks (task_cfg t))"
  shows "step_ok t {} p p'" "entry_above p' succ st" "handlers p' = handlers p"
proof -
  define inc where "inc = (if is_loop_header (task_cfg t) succ then widen_locals st else st)"
  have wfi: "wf_entry (task_snapshot t) inc" using st(1) wf_entry_widen by (simp add: inc_def)
  have up: "lies_above e st" if "lies_above e inc" for e
    using that lies_above_widen by (auto simp: inc_def split: if_splits)
  from f obtain p1 where 1: "charge_to t succ (cell_count inc) p = Inr p1"
    and p': "(case ent p1 succ of
       Some e \<Rightarrow> rbind (merge_state succ e inc) (\<lambda>r. Inr (update_entry succ r p1))
     | None \<Rightarrow> Inr (insert_entry succ inc p1)) = Inr p'"
    unfolding flow_to_block_def Let_def inc_def [symmetric] rbind_Inr_iff by blast
  have s1: "step_ok t {} p p1" using charge_to_ok [OF 1 wf] by blast
  have w1: "wf_prover t p1" using s1 step_ok_wf by blast
  have h1: "handlers p1 = handlers p" using charge_to_Inr [OF 1] by auto
  have "step_ok t {} p1 p' \<and> entry_above p' succ inc \<and> handlers p' = handlers p1"
  proof (cases "ent p1 succ")
    case None
    with p' have "p' = insert_entry succ inc p1" by simp
    then show ?thesis
      using insert_entry_ok [OF w1 None wfi st(2)] entry_above_insert [OF w1]
      by (simp add: insert_entry_def)
  next
    case (Some e)
    with p' obtain r where r: "merge_state succ e inc = Inr r" "p' = update_entry succ r p1"
      by (auto simp: rbind_Inr_iff)
    have "length (locals e) = length (locals inc)"
      using w1 Some wfi by (auto simp: wf_prover_def wf_entry_def)
    note j = merge_state_Inr [OF this r(1)]
    then show ?thesis
      using update_entry_ok [OF w1 Some] r(2) entry_above_update [OF w1]
      by (simp add: update_entry_def Let_def)
  qed
  then show "step_ok t {} p p'" "entry_above p' succ st" "handlers p' = handlers p"
    using h1 step_ok_trans [OF s1, of "{}" p'] up by (auto simp: entry_above_def)
qed

lemma prove_successor_ok:
  assumes f: "prove_successor t tail ct st succ p = Inr p'" and wf: "wf_prover t p"
    and st: "wf_entry (task_snapshot t) st" "succ \<in> start_pc ` set (blocks (task_cfg t))"
    and top: "ct = Some succ \<Longrightarrow> catches st \<noteq> [] \<Longrightarrow>
      fst (last (catches st)) = length (stack st) - 1"
  shows "step_ok t {} p p' \<and> flowed p' ct st succ \<and> handlers p' = handlers p"
proof (cases "ct = Some succ")
  case True
  with f have "flow_to_handler t tail st succ p = Inr p'" by (simp add: prove_successor_def)
  from flow_to_handler_ok [OF this wf st] top True show ?thesis by (simp add: flowed_def)
next
  case False
  with f have "flow_to_block t st succ p = Inr p'" by (simp add: prove_successor_def)
  from flow_to_block_ok [OF this wf st] False show ?thesis by (simp add: flowed_def)
qed

lemma prove_successors_ok:
  assumes "fold_res (prove_successor t tail ct st) succs p = Inr p'" "wf_prover t p"
    and st: "wf_entry (task_snapshot t) st" "set succs \<subseteq> start_pc ` set (blocks (task_cfg t))"
    and top: "\<And>h. ct = Some h \<Longrightarrow> catches st \<noteq> [] \<Longrightarrow>
      fst (last (catches st)) = length (stack st) - 1"
  shows "step_ok t {} p p' \<and> (\<forall>x \<in> set succs. flowed p' ct st x) \<and> handlers p' = handlers p"
  using assms(1,2,4)
proof (induction succs arbitrary: p)
  case Nil
  then show ?case by (simp add: step_ok_refl)
next
  case (Cons x succs)
  then obtain p1 where 1: "prove_successor t tail ct st x p = Inr p1"
    "fold_res (prove_successor t tail ct st) succs p1 = Inr p'" by (auto simp: rbind_Inr_iff)
  have "x \<in> start_pc ` set (blocks (task_cfg t))" using Cons.prems(3) by simp
  note one = prove_successor_ok [OF 1(1) Cons.prems(2) st(1) this top]
  have w1: "wf_prover t p1" using one step_ok_wf by blast
  note rest = Cons.IH [OF 1(2) w1]
  have rest: "step_ok t {} p1 p' \<and> (\<forall>x \<in> set succs. flowed p' ct st x) \<and> handlers p' = handlers p1"
    using rest Cons.prems(3) by simp
  have "flowed p' ct st x" using one rest flowed_mono step_ok_grows by blast
  with one rest step_ok_trans [of t "{}" p p1 "{}" p'] show ?case by simp
qed

section \<open>Handlers of live catch offsets\<close>

text \<open>
  Every live catch offset with a handler has an entry at that handler: the stack below the
  offset, then the caught value, with the outer catch offsets live.
\<close>

definition covers :: "(nat \<Rightarrow> abstract_state option) \<Rightarrow> abstract_state \<Rightarrow> bool" where
  "covers E st \<longleftrightarrow> (\<forall>j ix h. j < length (catches st) \<longrightarrow> catches st ! j = (ix, Some h) \<longrightarrow>
     (\<exists>e. E h = Some e \<and> stack e = take ix (stack st) @ [Tagged] \<and>
          catches e = take j (catches st)))"

lemma coversD:
  "covers E st \<Longrightarrow> j < length (catches st) \<Longrightarrow> catches st ! j = (ix, Some h) \<Longrightarrow>
   \<exists>e. E h = Some e \<and> stack e = take ix (stack st) @ [Tagged] \<and> catches e = take j (catches st)"
  by (simp add: covers_def)

lemma covers_cong:
  "covers E st \<Longrightarrow> stack st' = stack st \<Longrightarrow> catches st' = catches st \<Longrightarrow> covers E st'"
  by (simp add: covers_def)

lemma covers_grows:
  assumes "covers (ent p) st" "grows p p'"
  shows "covers (ent p') st"
  unfolding covers_def
proof (intro allI impI)
  fix j ix h assume j: "j < length (catches st)" "catches st ! j = (ix, Some h)"
  then obtain e where e: "ent p h = Some e" "stack e = take ix (stack st) @ [Tagged]"
    "catches e = take j (catches st)" using coversD [OF assms(1)] by blast
  from growsD [OF assms(2) e(1)] e show "\<exists>e. ent p' h = Some e \<and>
      stack e = take ix (stack st) @ [Tagged] \<and> catches e = take j (catches st)"
    by (auto simp: lies_above_def)
qed

text \<open>The catch offsets an instruction keeps stay covered.\<close>

lemma covers_kept:
  assumes "covers E st" "catches st' = take m (catches st) @ new"
    "\<And>c. c \<in> set (take m (catches st)) \<Longrightarrow>
      take (Suc (fst c)) (stack st') = take (Suc (fst c)) (stack st)"
    "j < length (take m (catches st))" "catches st' ! j = (ix, Some h)"
  shows "\<exists>e. E h = Some e \<and> stack e = take ix (stack st') @ [Tagged] \<and> catches e = take j (catches st')"
proof -
  have at: "catches st ! j = (ix, Some h)" "j < length (catches st)"
    using assms(2,4,5) by (auto simp: nth_append)
  then obtain e where e: "E h = Some e" "stack e = take ix (stack st) @ [Tagged]"
    "catches e = take j (catches st)" using coversD [OF assms(1)] by blast
  have "(ix, Some h) \<in> set (take m (catches st))"
    using at assms(4) by (metis nth_mem nth_take length_take min_less_iff_conj)
  from assms(3) [OF this] have "take ix (stack st') = take ix (stack st)"
    using take_eq_take_mono [of "Suc ix" _ _ ix] by simp
  moreover have "take j (catches st') = take j (catches st)" using assms(2,4) by (simp add: min.absorb1)
  ultimately show ?thesis using e by auto
qed

lemma covers_transfer:
  assumes ok: "catches_ok st" and cov: "covers E st" and t: "transfer s i st = Inr st'"
    and nm: "ins_name i \<noteq> ''catch''"
  shows "covers E st'"
proof -
  obtain m new where c: "catches st' = take m (catches st) @ new" "added_catch i (stack st') new"
    and k: "\<And>c. c \<in> set (take m (catches st)) \<Longrightarrow>
       take (Suc (fst c)) (stack st') = take (Suc (fst c)) (stack st)"
    using transfer_keeps [OF ok t] by blast
  show ?thesis
    unfolding covers_def
  proof (intro allI impI)
    fix j ix h assume j: "j < length (catches st')" "catches st' ! j = (ix, Some h)"
    have "j < length (take m (catches st))"
    proof (rule ccontr)
      assume n: "\<not> j < length (take m (catches st))"
      then have "catches st' ! j = new ! (j - length (take m (catches st)))"
        using c(1) by (simp add: nth_append del: length_take)
      moreover have "j - length (take m (catches st)) < length new"
        using j(1) n c(1) by (simp del: length_take)
      ultimately have "catches st' ! j \<in> set new" by simp
      then show False using c(2) nm j by (auto simp: added_catch_def)
    qed
    from covers_kept [OF cov c(1) k this j(2)] show "\<exists>e. E h = Some e \<and>
      stack e = take ix (stack st') @ [Tagged] \<and> catches e = take j (catches st')" .
  qed
qed

lemma catch_pushes:
  assumes "catches_ok st" "transfer s i st = Inr st'" "ins_name i = ''catch''"
  obtains h cs where "catch_target i = Inr (Some h)" "catches st' = cs @ [(length (stack st') - 1, Some h)]"
    "stack st' \<noteq> []" "last (stack st') = CatchOffset"
proof -
  obtain m new where c: "catches st' = take m (catches st) @ new" "added_catch i (stack st') new"
    using transfer_keeps [OF assms(1,2)] by blast
  then show ?thesis using that assms(3) by (auto simp: added_catch_def)
qed

lemma covers_catch:
  assumes ok: "catches_ok st" and cov: "covers E st" and t: "transfer s i st = Inr st'"
    and nm: "ins_name i = ''catch''" and ct: "catch_target i = Inr (Some x)"
    and x: "caught_state x st' = Some inc" "E x = Some e" "lies_above e inc"
  shows "covers E st'"
proof -
  obtain m new where c: "catches st' = take m (catches st) @ new" "added_catch i (stack st') new"
    and k: "\<And>c. c \<in> set (take m (catches st)) \<Longrightarrow>
       take (Suc (fst c)) (stack st') = take (Suc (fst c)) (stack st)"
    using transfer_keeps [OF ok t] by blast
  from c(2) nm ct have new: "new = [(length (stack st') - 1, Some x)]" "stack st' \<noteq> []"
    by (auto simp: added_catch_def)
  note cs = caught_state_Some [OF x(1)]
  show ?thesis
    unfolding covers_def
  proof (intro allI impI)
    fix j ix h assume j: "j < length (catches st')" "catches st' ! j = (ix, Some h)"
    show "\<exists>e. E h = Some e \<and> stack e = take ix (stack st') @ [Tagged] \<and> catches e = take j (catches st')"
    proof (cases "j < length (take m (catches st))")
      case True
      from covers_kept [OF cov c(1) k this j(2)] show ?thesis .
    next
      case False
      then have jl: "j = length (catches st') - 1" and ih: "ix = length (stack st') - 1" "h = x"
        using j c(1) new by (auto simp: nth_append)
      have "take ix (stack st') = butlast (stack st')" "take j (catches st') = butlast (catches st')"
        using jl ih by (simp_all add: butlast_conv_take)
      then show ?thesis using x(2,3) cs(1) ih by (auto simp: lies_above_def)
    qed
  qed
qed

lemma covers_caught:
  assumes ok: "catches_ok st" and cov: "covers E st" and x: "caught_state x st = Some inc"
    and top: "fst (last (catches st)) = length (stack st) - 1"
  shows "covers E inc"
  unfolding covers_def
proof (intro allI impI)
  note cs = caught_state_Some [OF x]
  obtain cl c where cl: "catches st = cl @ [c]" using cs(4) by (metis append_butlast_last_id)
  fix j ix h assume j: "j < length (catches inc)" "catches inc ! j = (ix, Some h)"
  then have j': "j < length cl" "cl ! j = (ix, Some h)" using cs(1) cl by simp_all
  then obtain e where e: "E h = Some e" "stack e = take ix (stack st) @ [Tagged]"
    "catches e = take j (catches st)"
    using coversD [OF cov, of j ix h] cl by (auto simp: nth_append)
  have "(ix, Some h) \<in> set cl" using j' nth_mem by fastforce
  then have "ix < fst c" using ok cl by (fastforce simp: catches_ok_def sorted_wrt_append)
  then have "take ix (stack inc) = take ix (stack st)"
    using cs(1) top cl by (simp add: take_butlast)
  moreover have "take j (catches inc) = take j (catches st)" using cs(1) cl j'(1) by simp
  ultimately show "\<exists>e. E h = Some e \<and> stack e = take ix (stack inc) @ [Tagged] \<and>
      catches e = take j (catches inc)" using e by auto
qed

section \<open>Blocks of a task\<close>

definition wf_task :: "proof_task \<Rightarrow> nat \<Rightarrow> bool" where
  "wf_task t n \<longleftrightarrow> stream (task_instructions t) n \<and> wf_cfg (task_instructions t) n (task_cfg t)"

abbreviation blk :: "proof_task \<Rightarrow> nat \<Rightarrow> basic_block" where
  "blk t k \<equiv> blocks (task_cfg t) ! k"

abbreviation block_count :: "proof_task \<Rightarrow> nat" where
  "block_count t \<equiv> length (blocks (task_cfg t))"

definition body_of :: "proof_task \<Rightarrow> nat \<Rightarrow> instruction list" where
  "body_of t k = take (range_last (blk t k) - range_first (blk t k))
     (drop (range_first (blk t k)) (task_instructions t))"

lemma wf_task_block: "wf_task t n \<Longrightarrow> k < block_count t \<Longrightarrow>
    wf_block (task_instructions t) n (blocks (task_cfg t)) k"
  by (simp add: wf_task_def wf_cfg_def)

lemma body_of_length:
  assumes "wf_task t n" "k < block_count t"
  shows "length (body_of t k) = range_last (blk t k) - range_first (blk t k)"
    "0 < length (body_of t k)" "range_last (blk t k) \<le> length (task_instructions t)"
    "range_first (blk t k) < range_last (blk t k)"
  using wf_task_block [OF assms] by (auto simp: body_of_def wf_block_def Let_def)

lemma body_of_nth:
  assumes "wf_task t n" "k < block_count t" "j < length (body_of t k)"
  shows "body_of t k ! j = task_instructions t ! (range_first (blk t k) + j)"
    "range_first (blk t k) + j < range_last (blk t k)"
  using body_of_length [OF assms(1,2)] assms(3) by (auto simp: body_of_def)

lemma body_of_slice:
  assumes "wf_task t n" "k < block_count t"
  shows "range_slice (task_instructions t) (range_first (blk t k)) (range_last (blk t k)) =
    (Inr (body_of t k) :: instruction list verifying)"
  using body_of_length [OF assms] by (simp add: range_slice_def body_of_def)

lemma body_of_last:
  assumes "wf_task t n" "k < block_count t"
  shows "last_opt (body_of t k) = Some (task_instructions t ! (range_last (blk t k) - 1))"
proof -
  note l = body_of_length [OF assms]
  then have "last (body_of t k) = body_of t k ! (length (body_of t k) - 1)"
    by (intro last_conv_nth) auto
  also have "\<dots> = task_instructions t ! (range_last (blk t k) - 1)"
    using body_of_nth [OF assms, of "length (body_of t k) - 1"] l by simp
  finally show ?thesis using l(2) by (simp add: last_opt_Some_iff)
qed

lemma body_of_distinct:
  assumes "wf_task t n" "k < block_count t"
  shows "distinct (map ins_pc (body_of t k))"
proof -
  have "distinct (map ins_pc (task_instructions t))"
    using assms(1) stream_sorted strict_sorted_iff unfolding wf_task_def by blast
  then show ?thesis by (simp add: body_of_def flip: take_map drop_map)
qed

lemma ranges_ordered:
  assumes "wf_task t n" "j < block_count t" "i < j"
  shows "range_last (blk t i) \<le> range_first (blk t j)"
  using assms(2,3)
proof (induction j)
  case (Suc j)
  have step: "range_last (blk t j) = range_first (blk t (Suc j))"
    using wf_task_block [OF assms(1), of j] Suc.prems(1) by (simp add: wf_block_def Let_def)
  show ?case
  proof (cases "i = j")
    case False
    with Suc have "range_last (blk t i) \<le> range_first (blk t j)" by simp
    also have "\<dots> \<le> range_last (blk t j)" using body_of_length(4) [OF assms(1), of j] Suc.prems(1) by simp
    finally show ?thesis using step by simp
  qed (use step in simp)
qed simp

lemma bodies_disjoint:
  assumes "wf_task t n" "k < block_count t" "k' < block_count t" "k \<noteq> k'"
  shows "ins_pc ` set (body_of t k) \<inter> ins_pc ` set (body_of t k') = {}"
proof (rule ccontr)
  assume "\<not> ?thesis"
  then obtain a b where ab: "a < length (body_of t k)" "b < length (body_of t k')"
    "ins_pc (body_of t k ! a) = ins_pc (body_of t k' ! b)"
    by (auto simp: in_set_conv_nth) metis
  note na = body_of_nth [OF assms(1,2) ab(1)] and nb = body_of_nth [OF assms(1,3) ab(2)]
  have "range_first (blk t k) + a = range_first (blk t k') + b"
  proof (rule stream_pc_inj)
    show "stream (task_instructions t) n" using assms(1) by (simp add: wf_task_def)
  qed (use na nb ab(3) body_of_length(3) [OF assms(1)] assms(2,3) in \<open>auto intro: less_le_trans\<close>)
  then show False
    using ranges_ordered [OF assms(1), of k' k] ranges_ordered [OF assms(1), of k k'] na(2) nb(2)
      assms(2-4) by (cases "k < k'") auto
qed

lemma cfg_block_start:
  assumes "wf_task t n"
  shows "k < block_count t \<Longrightarrow> cfg_block (task_cfg t) (start_pc (blk t k)) = Inr (Some (blk t k))"
    and "cfg_block (task_cfg t) pc = Inr (Some b) \<Longrightarrow> \<exists>k < block_count t. b = blk t k \<and> start_pc b = pc"
proof -
  have pcs: "by_pc (task_cfg t) =
      zip (map start_pc (blocks (task_cfg t))) [0..<length (map start_pc (blocks (task_cfg t)))]"
    and d: "distinct (map start_pc (blocks (task_cfg t)))"
    using assms strict_sorted_iff by (auto simp: wf_task_def wf_cfg_def)
  note ix = map_of_zip_index [OF d]
  show "cfg_block (task_cfg t) (start_pc (blk t k)) = Inr (Some (blk t k))" if "k < block_count t"
    using ix [of "start_pc (blk t k)" k] that unfolding cfg_block_def pcs by simp
  show "\<exists>k < block_count t. b = blk t k \<and> start_pc b = pc" if b: "cfg_block (task_cfg t) pc = Inr (Some b)"
  proof -
    obtain k where k: "map_of (by_pc (task_cfg t)) pc = Some k" "k < block_count t" "b = blk t k"
      using b by (auto simp: cfg_block_def rbind_Inr_iff index_Inr_iff split: option.splits)
    then show ?thesis using ix [of pc k] unfolding pcs by auto
  qed
qed

lemma start_pc_inj:
  "wf_task t n \<Longrightarrow> k < block_count t \<Longrightarrow> k' < block_count t \<Longrightarrow>
   start_pc (blk t k) = start_pc (blk t k') \<Longrightarrow> k = k'"
  using strict_sorted_nth_inj [of "map start_pc (blocks (task_cfg t))" k k']
  by (simp add: wf_task_def wf_cfg_def)

section \<open>No new entries inside a block\<close>

lemma prove_instruction_dom:
  assumes "prove_instruction t i (st, p) = Inr (st', p')" "wf_prover t p"
  shows "dom (ent p') = dom (ent p)"
proof -
  let ?pc = "ins_pc i"
  obtain p1 p2 p3 where 1: "charge_to t ?pc (sat_add usize_max 1 (cell_count st)) p = Inr p1"
    and 2: "record_before t ?pc st p1 = Inr p2"
    and 3: "propagate_exception t ?pc st (record_visit ?pc st p2) = Inr p3"
    and 4: "record_after t ?pc st' p3 = Inr p'"
    using assms(1) by (auto simp: prove_instruction_def Let_def rbind_Inr_iff)
  have "block_entries p2 = block_entries p" "block_entries p' = block_entries p3"
    using 1 2 4
    by (auto simp: record_before_def record_after_def rbind_Inr_iff dest!: charge_to_Inr split: if_splits)
  then have e2: "block_entries (record_visit ?pc st p2) = block_entries p"
    and e4: "block_entries p' = block_entries p3" by (auto simp: record_visit_def)
  have "strict_sorted_keys (block_entries p)" using assms(2) by (simp add: wf_prover_def)
  with 3 e2 have "dom (ent p3) = dom (ent p)"
    by (auto simp: propagate_exception_def rbind_Inr_iff update_entry_def Let_def
        dest!: charge_to_Inr split: option.splits if_splits)
  then show ?thesis using e4 by simp
qed

lemma prove_body_dom:
  assumes "fold_res (prove_instruction t) body (st, p) = Inr (st', p')" "wf_prover t p"
  shows "dom (ent p') = dom (ent p)"
  using assms
proof (induction body arbitrary: st p)
  case (Cons i body)
  then obtain st1 p1 where 1: "prove_instruction t i (st, p) = Inr (st1, p1)"
    "fold_res (prove_instruction t) body (st1, p1) = Inr (st', p')" by (auto simp: rbind_Inr_iff)
  from Cons.IH [OF 1(2)] prove_instruction_ok(2) [OF 1(1) Cons.prems(2)] step_ok_wf
    prove_instruction_dom [OF 1(1) Cons.prems(2)] show ?case by blast
qed simp

lemma flow_dom:
  assumes "prove_successor t tail ct st x p = Inr p'" "strict_sorted_keys (block_entries p)"
  shows "dom (ent p') \<subseteq> insert x (dom (ent p)) \<and> strict_sorted_keys (block_entries p')"
  using assms
  by (auto simp: prove_successor_def flow_to_handler_def flow_to_block_def rbind_Inr_iff Let_def
      update_entry_def insert_entry_def dest!: charge_to_Inr split: option.splits if_splits)

lemma prove_successors_dom:
  assumes "fold_res (prove_successor t tail ct st) succs p = Inr p'"
    "strict_sorted_keys (block_entries p)"
  shows "dom (ent p') \<subseteq> set succs \<union> dom (ent p)"
  using assms
proof (induction succs arbitrary: p)
  case (Cons x succs)
  then obtain p1 where 1: "prove_successor t tail ct st x p = Inr p1"
    "fold_res (prove_successor t tail ct st) succs p1 = Inr p'" by (auto simp: rbind_Inr_iff)
  from Cons.IH [OF 1(2)] flow_dom [OF 1(1) Cons.prems(2)] show ?case by auto
qed simp

section \<open>The invariant of the worklist\<close>

text \<open>
  A block is done when its entry runs through, each of its states has been recorded and joined
  into its handler, and the state at its end has flowed to every successor.
\<close>

definition block_done :: "proof_task \<Rightarrow> prover \<Rightarrow> nat \<Rightarrow> bool" where
  "block_done t p k \<longleftrightarrow>
     (\<exists>e sts ct. ent p (start_pc (blk t k)) = Some e \<and>
        body_run (task_snapshot t) (body_of t k) e = Inr sts \<and>
        (\<forall>j < length (body_of t k). handler_above p (sts ! j) \<and>
           recorded t p (ins_pc (body_of t k ! j)) (sts ! j) (sts ! Suc j)) \<and>
        catch_target (last (body_of t k)) = Inr ct \<and>
        (\<forall>x \<in> set (successors (blk t k)). flowed p ct (last sts) x))"

definition handlers_sound :: "proof_task \<Rightarrow> prover \<Rightarrow> bool" where
  "handlers_sound t p \<longleftrightarrow>
     (\<forall>pc h. map_of (handlers p) pc = Some h \<longrightarrow>
        (\<exists>k j st sts. k < block_count t \<and> j < length (body_of t k) \<and>
           ins_pc (body_of t k ! j) = pc \<and> entry_above p (start_pc (blk t k)) st \<and>
           body_run (task_snapshot t) (body_of t k) st = Inr sts \<and>
           innermost_catch (sts ! j) = Some h))"

definition prover_inv :: "proof_task \<Rightarrow> prover \<Rightarrow> bool" where
  "prover_inv t p \<longleftrightarrow> wf_prover t p \<and> set (queue p) \<subseteq> dom (ent p) \<and>
     entry_above p 0 (initial_state (task_snapshot t)) \<and>
     (\<forall>k < block_count t. ent p (start_pc (blk t k)) \<noteq> None \<longrightarrow>
        start_pc (blk t k) \<in> set (queue p) \<or> block_done t p k) \<and>
     (\<forall>x st. ent p x = Some st \<longrightarrow> covers (ent p) st) \<and>
     handlers_sound t p"

text \<open>A done block stays done while its entry and its records stay.\<close>

lemma block_done_mono:
  assumes "block_done t p k" "grows p p'" "records_frame pcs p p'"
    "ins_pc ` set (body_of t k) \<inter> pcs = {}"
    "ent p' (start_pc (blk t k)) = ent p (start_pc (blk t k))"
  shows "block_done t p' k"
proof -
  obtain e sts ct where d: "ent p (start_pc (blk t k)) = Some e"
    "body_run (task_snapshot t) (body_of t k) e = Inr sts"
    "\<forall>j < length (body_of t k). handler_above p (sts ! j) \<and>
       recorded t p (ins_pc (body_of t k ! j)) (sts ! j) (sts ! Suc j)"
    "catch_target (last (body_of t k)) = Inr ct"
    "\<forall>x \<in> set (successors (blk t k)). flowed p ct (last sts) x"
    using assms(1) unfolding block_done_def by blast
  have "ins_pc (body_of t k ! j) \<notin> pcs" if "j < length (body_of t k)" for j
    using assms(4) that nth_mem by fastforce
  then have "\<forall>j < length (body_of t k). handler_above p' (sts ! j) \<and>
      recorded t p' (ins_pc (body_of t k ! j)) (sts ! j) (sts ! Suc j)"
    using d(3) handler_above_mono [OF _ assms(2)] recorded_frame [OF _ assms(3)] by blast
  moreover have "\<forall>x \<in> set (successors (blk t k)). flowed p' ct (last sts) x"
    using d(5) flowed_mono [OF _ assms(2)] by blast
  ultimately show ?thesis using d assms(5) unfolding block_done_def by metis
qed

text \<open>Coverage along a block: only its tail can push a catch offset with a handler.\<close>

lemma catch_not_interior:
  assumes "wf_task t n" "k < block_count t" "Suc j < length (body_of t k)"
    and t: "transfer (task_snapshot t) (body_of t k ! j) st = Inr st'" and ok: "catches_ok st"
  shows "ins_name (body_of t k ! j) \<noteq> ''catch''"
proof
  let ?i = "body_of t k ! j"
  assume nm: "ins_name ?i = ''catch''"
  obtain h where "catch_target ?i = Inr (Some h)" using catch_pushes [OF ok t nm] by metis
  then have "branch_target ?i \<noteq> (Inr None :: int option verifying)"
    using nm by (auto simp: catch_target_def)
  moreover have "falls_through ?i"
    using wf_task_block [OF assms(1,2)] body_of_nth [OF assms(1,2), of j]
      body_of_nth(2) [OF assms(1-3)] assms(3)
    by (simp add: wf_block_def Let_def)
  ultimately show False by (simp add: falls_through_def)
qed

lemma body_wf:
  assumes run: "body_run s body e = Inr sts" and e: "wf_entry s e" and j: "j \<le> length body"
  shows "wf_entry s (sts ! j)"
  using j
proof (induction j)
  case (Suc j)
  then show ?case using wf_entry_transfer [OF _ body_run_step [OF run]] by simp
qed (use body_run_length [OF run] e in simp)

lemma body_covers:
  assumes wt: "wf_task t n" "k < block_count t"
    and run: "body_run (task_snapshot t) (body_of t k) e = Inr sts"
    and e: "wf_entry (task_snapshot t) e" "covers E e" and j: "j < length (body_of t k)"
  shows "covers E (sts ! j)"
  using j
proof (induction j)
  case (Suc j)
  then have j: "j < length (body_of t k)" "covers E (sts ! j)" by simp_all
  note step = body_run_step [OF run j(1)]
  have ok: "catches_ok (sts ! j)" using body_wf [OF run e(1), of j] j(1) by (simp add: wf_entry_def)
  from catch_not_interior [OF wt Suc.prems step ok]
  show ?case using covers_transfer [OF ok j(2) step] by simp
qed (use body_run_length [OF run] e in simp)

lemma tail_successors_target:
  assumes "branch_target i = (Inr (Some z) :: int option verifying)" "tail_successors n i = Inr ss"
  shows "as_u32 (nat z) \<in> set ss"
proof -
  have "Inr ss = (Inr (remdups_adj (sort (as_u32 (nat z) #
      (if \<not> is_unconditional i then if after_ins i < n then [as_u32 (after_ins i)] else []
       else [])))) :: nat list verifying)"
    using assms by (simp only: tail_successors_def Let_def rbind_simps option.case)
  then have "set ss = set (as_u32 (nat z) #
      (if \<not> is_unconditional i then if after_ins i < n then [as_u32 (after_ins i)] else []
       else []))"
    by (simp only: sum.inject remdups_adj_set set_sort)
  then show ?thesis by simp
qed

text \<open>The handler of a \<^verbatim>\<open>catch\<close> is a successor of its block.\<close>

lemma catch_target_successor:
  assumes "wf_task t n" "k < block_count t" "catch_target (last (body_of t k)) = Inr (Some h)"
  shows "h \<in> set (successors (blk t k))"
proof -
  let ?tail = "task_instructions t ! (range_last (blk t k) - 1)"
  have tail: "last (body_of t k) = ?tail"
    using body_of_last [OF assms(1,2)] by (simp add: last_opt_Some_iff)
  from assms(3) obtain z where nm: "ins_name ?tail = ''catch''"
    and bt: "branch_target ?tail = (Inr (Some z) :: int option verifying)"
    and z: "z = int h" "h \<le> u32_max"
    unfolding tail by (auto simp: catch_target_def rbind_Inr_iff bind_eq_Some_conv split: if_splits)
  have "tail_successors n ?tail = Inr (successors (blk t k))"
    using wf_task_block [OF assms(1,2)] nm by (simp add: wf_block_def Let_def is_subroutine_return_def)
  from tail_successors_target [OF bt this] show ?thesis using z by simp
qed

text \<open>A round in stages.\<close>

lemma prove_round_stages:
  assumes wt: "wf_task t n" and r: "prove_round t pc p = Inr p'"
  obtains k e p1 st p2 ct where "k < block_count t" "start_pc (blk t k) = pc" "ent p pc = Some e"
    "charge_to t pc (cell_count e) p = Inr p1"
    "fold_res (prove_instruction t) (body_of t k) (e, p1) = Inr (st, p2)"
    "catch_target (last (body_of t k)) = Inr ct"
    "fold_res (prove_successor t (last (body_of t k)) ct st) (successors (blk t k)) p2 = Inr p'"
proof -
  from r obtain b e where b: "cfg_block (task_cfg t) pc = (Inr (Some b) :: basic_block option verifying)"
    and e: "ent p pc = Some e"
    by (auto simp: prove_round_def rbind_Inr_iff)
  obtain k where k: "k < block_count t" "b = blk t k" "start_pc b = pc"
    using cfg_block_start(2) [OF wt] b by blast
  have tail: "last_opt (body_of t k) = Some (last (body_of t k))"
    using body_of_length(2) [OF wt k(1)] by (simp add: last_opt_def)
  show ?thesis
    using r b e k tail body_of_slice [OF wt k(1)] that
    by (auto simp: prove_round_def rbind_Inr_iff split: if_splits)
qed

text \<open>The state at the end of a block that ends in \<^verbatim>\<open>catch\<close> has its catch offset on top.\<close>

lemma body_catch_top:
  assumes wt: "wf_task t n" "k < block_count t"
    and run: "body_run (task_snapshot t) (body_of t k) e = Inr sts"
    and e: "wf_entry (task_snapshot t) e"
    and ct: "catch_target (last (body_of t k)) = Inr (Some h)"
  shows "fst (last (catches (last sts))) = length (stack (last sts)) - 1"
    "ins_name (last (body_of t k)) = ''catch''" "catches_ok (sts ! (length (body_of t k) - 1))"
    "transfer (task_snapshot t) (last (body_of t k)) (sts ! (length (body_of t k) - 1)) = Inr (last sts)"
proof -
  let ?m = "length (body_of t k) - 1"
  have m: "?m < length (body_of t k)" using body_of_length(2) [OF wt] by simp
  have len: "length sts = Suc (length (body_of t k))" using body_run_length [OF run] by simp
  have tail: "last (body_of t k) = body_of t k ! ?m" using m by (intro last_conv_nth) auto
  have "Suc ?m = length (body_of t k)" using m by simp
  then have "last sts = sts ! Suc ?m" using len by (subst last_conv_nth) auto
  then show tr: "transfer (task_snapshot t) (last (body_of t k)) (sts ! ?m) = Inr (last sts)"
    using body_run_step [OF run m] tail by simp
  show ok: "catches_ok (sts ! ?m)" using body_wf [OF run e, of ?m] by (simp add: wf_entry_def)
  show nm: "ins_name (last (body_of t k)) = ''catch''"
    using ct by (auto simp: catch_target_def split: if_splits)
  obtain cs h' where "catches (last sts) = cs @ [(length (stack (last sts)) - 1, Some h')]"
    using catch_pushes [OF ok tr nm] by metis
  then show "fst (last (catches (last sts))) = length (stack (last sts)) - 1" by simp
qed

text \<open>What a whole round does, as one step.\<close>

lemma prove_round_step:
  assumes wt: "wf_task t n" and r: "prove_round t pc p = Inr p'" and wf: "wf_prover t p"
    and cov: "\<And>x st. ent p x = Some st \<Longrightarrow> covers (ent p) st"
  obtains k e sts ct where "k < block_count t" "start_pc (blk t k) = pc" "ent p pc = Some e"
    "body_run (task_snapshot t) (body_of t k) e = Inr sts"
    "step_ok t (ins_pc ` set (body_of t k)) p p'"
    "\<forall>j < length (body_of t k). handler_above p' (sts ! j) \<and>
       recorded t p' (ins_pc (body_of t k ! j)) (sts ! j) (sts ! Suc j)"
    "catch_target (last (body_of t k)) = Inr ct"
    "\<forall>x \<in> set (successors (blk t k)). flowed p' ct (last sts) x"
    "dom (ent p') \<subseteq> set (successors (blk t k)) \<union> dom (ent p)"
    "\<forall>pc h. map_of (handlers p') pc = Some h \<longrightarrow> map_of (handlers p) pc = Some h \<or>
       (\<exists>j < length (body_of t k). ins_pc (body_of t k ! j) = pc \<and> innermost_catch (sts ! j) = Some h)"
    "wf_entry (task_snapshot t) e" "covers (ent p') (last sts)"
proof -
  obtain k e p1 st p2 ct where k: "k < block_count t" "start_pc (blk t k) = pc"
    and e: "ent p pc = Some e" and 1: "charge_to t pc (cell_count e) p = Inr p1"
    and 2: "fold_res (prove_instruction t) (body_of t k) (e, p1) = Inr (st, p2)"
    and ct: "catch_target (last (body_of t k)) = Inr ct"
    and 3: "fold_res (prove_successor t (last (body_of t k)) ct st) (successors (blk t k)) p2 = Inr p'"
    by (rule prove_round_stages [OF wt r])
  have s1: "step_ok t {} p p1" "block_entries p1 = block_entries p"
    using charge_to_ok [OF 1 wf] by auto
  have h1: "handlers p1 = handlers p" using charge_to_Inr [OF 1] by auto
  obtain sts where run: "body_run (task_snapshot t) (body_of t k) e = Inr sts" and st: "last sts = st"
    and s2: "step_ok t (ins_pc ` set (body_of t k)) p1 p2"
    and each: "\<And>j. j < length (body_of t k) \<Longrightarrow> handler_above p2 (sts ! j) \<and>
       recorded t p2 (ins_pc (body_of t k ! j)) (sts ! j) (sts ! Suc j)"
    and hs: "\<And>pc h. map_of (handlers p2) pc = Some h \<Longrightarrow> map_of (handlers p1) pc = Some h \<or>
       (\<exists>j < length (body_of t k). ins_pc (body_of t k ! j) = pc \<and> innermost_catch (sts ! j) = Some h)"
    using prove_body_ok [OF 2 step_ok_wf [OF s1(1)] body_of_distinct [OF wt k(1)]] by blast
  have wfe: "wf_entry (task_snapshot t) e" using wf e by (simp add: wf_prover_def)
  have len: "length sts = Suc (length (body_of t k))" using body_run_length [OF run] by simp
  then have last: "sts ! length (body_of t k) = last sts" by (subst last_conv_nth) auto
  have wfst: "wf_entry (task_snapshot t) st" using body_wf [OF run wfe order_refl] last st by simp
  have succ: "set (successors (blk t k)) \<subseteq> start_pc ` set (blocks (task_cfg t))"
    using wf_task_block [OF wt k(1)] by (simp add: wf_block_def Let_def)
  have s3: "step_ok t {} p2 p'" and fl: "\<forall>x \<in> set (successors (blk t k)). flowed p' ct st x"
    and h3: "handlers p' = handlers p2"
    using prove_successors_ok [OF 3 step_ok_wf [OF s2] wfst succ] body_catch_top(1) [OF wt k(1) run wfe]
      ct st by auto
  have step: "step_ok t (ins_pc ` set (body_of t k)) p p'"
    using step_ok_trans [OF s1(1) step_ok_trans [OF s2 s3]] by simp
  have frame: "records_frame {} p2 p'" using s3 by (simp add: step_ok_def)
  have dom: "dom (ent p') \<subseteq> set (successors (blk t k)) \<union> dom (ent p)"
    using prove_successors_dom [OF 3] step_ok_wf [OF s2] prove_body_dom [OF 2 step_ok_wf [OF s1(1)]] s1(2)
    by (simp add: wf_prover_def)
  have each': "handler_above p' (sts ! j) \<and> recorded t p' (ins_pc (body_of t k ! j)) (sts ! j) (sts ! Suc j)"
    if "j < length (body_of t k)" for j
    using each [OF that] handler_above_mono step_ok_grows [OF s3] recorded_frame [OF _ frame] by blast
  have cove: "covers (ent p') e" using cov [OF e] covers_grows step_ok_grows [OF step] by blast
  have "covers (ent p') (last sts)"
  proof -
    let ?m = "length (body_of t k) - 1"
    have m: "?m < length (body_of t k)" "Suc ?m = length (body_of t k)"
      using body_of_length(2) [OF wt k(1)] by simp_all
    have covm: "covers (ent p') (sts ! ?m)" using body_covers [OF wt k(1) run wfe cove m(1)] .
    have tail: "last (body_of t k) = body_of t k ! ?m" using m by (intro last_conv_nth) auto
    have tr: "transfer (task_snapshot t) (last (body_of t k)) (sts ! ?m) = Inr (last sts)"
      using body_run_step [OF run m(1)] tail m(2) last by simp
    have ok: "catches_ok (sts ! ?m)" using body_wf [OF run wfe, of ?m] by (simp add: wf_entry_def)
    show ?thesis
    proof (cases "ins_name (last (body_of t k)) = ''catch''")
      case False
      then show ?thesis using covers_transfer [OF ok covm tr] by simp
    next
      case True
      obtain h where h: "catch_target (last (body_of t k)) = Inr (Some h)"
        using catch_pushes [OF ok tr True] by metis
      then have "flowed p' (Some h) (last sts) h"
        using fl catch_target_successor [OF wt k(1) h] ct st by auto
      then show ?thesis
        using covers_catch [OF ok covm tr True h] by (auto simp: flowed_def entry_above_def)
    qed
  qed
  then show ?thesis
    using that [OF k e run step _ ct _ dom _ wfe] each' fl st hs h1 h3 by auto
qed

lemma queue_update_simps [simp]:
  "entry_above (p\<lparr>queue := q\<rparr>) x st = entry_above p x st"
  "handler_above (p\<lparr>queue := q\<rparr>) st = handler_above p st"
  "recorded t (p\<lparr>queue := q\<rparr>) x st st' = recorded t p x st st'"
  "flowed (p\<lparr>queue := q\<rparr>) ct st x = flowed p ct st x"
  by (simp_all add: entry_above_def handler_above_def recorded_def flowed_def split: option.splits)

lemma prove_round_inv:
  assumes wt: "wf_task t n" and inv: "prover_inv t p" and q: "queue p = pc # rest"
    and r: "prove_round t pc (p\<lparr>queue := rest\<rparr>) = Inr p'"
  shows "prover_inv t p'"
proof -
  let ?p0 = "p\<lparr>queue := rest\<rparr>"
  have wf: "wf_prover t ?p0" using inv by (simp add: prover_inv_def wf_prover_def)
  have cov: "covers (ent ?p0) st" if "ent ?p0 x = Some st" for x st
    using inv that by (simp add: prover_inv_def)
  obtain k e sts ct where k: "k < block_count t" "start_pc (blk t k) = pc" and e: "ent ?p0 pc = Some e"
    and run: "body_run (task_snapshot t) (body_of t k) e = Inr sts"
    and step: "step_ok t (ins_pc ` set (body_of t k)) ?p0 p'"
    and each: "\<forall>j < length (body_of t k). handler_above p' (sts ! j) \<and>
       recorded t p' (ins_pc (body_of t k ! j)) (sts ! j) (sts ! Suc j)"
    and ct: "catch_target (last (body_of t k)) = Inr ct"
    and fl: "\<forall>x \<in> set (successors (blk t k)). flowed p' ct (last sts) x"
    and dom: "dom (ent p') \<subseteq> set (successors (blk t k)) \<union> dom (ent ?p0)"
    and hs: "\<forall>pc h. map_of (handlers p') pc = Some h \<longrightarrow> map_of (handlers ?p0) pc = Some h \<or>
       (\<exists>j < length (body_of t k). ins_pc (body_of t k ! j) = pc \<and> innermost_catch (sts ! j) = Some h)"
    and wfe: "wf_entry (task_snapshot t) e" and covl: "covers (ent p') (last sts)"
    by (rule prove_round_step [OF wt r wf cov])
  note g = step_ok_grows [OF step]
  have frame: "records_frame (ins_pc ` set (body_of t k)) ?p0 p'" using step by (simp add: step_ok_def)
  have rest: "set rest \<subseteq> set (queue p')" using grows_queue [OF g] by simp
  have wf': "wf_prover t p'" by (rule step_ok_wf [OF step])
  have qd: "set (queue p') \<subseteq> dom (ent p')"
    using grows_queue_dom [OF g] inv q by (auto simp: prover_inv_def)
  have init: "entry_above p' 0 (initial_state (task_snapshot t))"
    using entry_above_mono [OF _ g] inv by (simp add: prover_inv_def entry_above_def)
  have "start_pc (blk t k') \<in> set (queue p') \<or> block_done t p' k'"
    if k': "k' < block_count t" and some: "ent p' (start_pc (blk t k')) \<noteq> None" for k'
  proof (cases "start_pc (blk t k') \<in> set (queue p')")
    case False
    then have "ent ?p0 (start_pc (blk t k')) \<noteq> None" using g some by (auto simp: grows_def)
    then have same: "ent p' (start_pc (blk t k')) = ent ?p0 (start_pc (blk t k'))"
      using growsD [OF g] False by fastforce
    show ?thesis
    proof (cases "k' = k")
      case True
      have "block_done t p' k"
        unfolding block_done_def using same True e k(2) run each ct fl by auto
      with True show ?thesis by simp
    next
      case neq: False
      then have "start_pc (blk t k') \<noteq> pc" using start_pc_inj [OF wt k' k(1)] k(2) by auto
      then have "start_pc (blk t k') \<notin> set (queue p)" using q rest False by auto
      moreover have "ent p (start_pc (blk t k')) \<noteq> None" using some same by simp
      ultimately have "block_done t p k'" using inv k' unfolding prover_inv_def by blast
      then have "block_done t ?p0 k'"
        by (simp add: block_done_def)
      then show ?thesis
        using block_done_mono [OF _ g frame bodies_disjoint [OF wt k' k(1) neq] same] by blast
    qed
  qed simp
  moreover have "covers (ent p') st" if st: "ent p' x = Some st" for x st
  proof (cases "ent ?p0 x")
    case (Some st0)
    with growsD [OF g Some] st have "lies_above st st0" by auto
    then show ?thesis
      using covers_cong [OF covers_grows [OF cov [OF Some] g]] by (simp add: lies_above_def)
  next
    case None
    then have "x \<in> set (successors (blk t k))" using dom st by auto
    with fl have flx: "flowed p' ct (last sts) x" by blast
    show ?thesis
    proof (cases "ct = Some x")
      case True
      then obtain inc where inc: "caught_state x (last sts) = Some inc" "lies_above st inc"
        using flx st by (auto simp: flowed_def entry_above_def)
      have "length sts = Suc (length (body_of t k))" using body_run_length [OF run] by simp
      then have "sts ! length (body_of t k) = last sts" by (subst last_conv_nth) auto
      then have "catches_ok (last sts)" using body_wf [OF run wfe order_refl] by (simp add: wf_entry_def)
      then have "covers (ent p') inc"
        using covers_caught [OF _ covl inc(1)] body_catch_top(1) [OF wt k(1) run wfe] ct True by simp
      then show ?thesis using covers_cong inc(2) by (simp add: lies_above_def)
    next
      case False
      then have "lies_above st (last sts)"
        using flx st by (simp add: flowed_def entry_above_def)
      then show ?thesis using covers_cong [OF covl] by (simp add: lies_above_def)
    qed
  qed
  moreover have "handlers_sound t p'"
    unfolding handlers_sound_def
  proof (intro allI impI)
    fix x h assume "map_of (handlers p') x = Some h"
    with hs have "map_of (handlers ?p0) x = Some h \<or>
       (\<exists>j < length (body_of t k). ins_pc (body_of t k ! j) = x \<and> innermost_catch (sts ! j) = Some h)"
      by blast
    then show "\<exists>k j st sts. k < block_count t \<and> j < length (body_of t k) \<and>
       ins_pc (body_of t k ! j) = x \<and> entry_above p' (start_pc (blk t k)) st \<and>
       body_run (task_snapshot t) (body_of t k) st = Inr sts \<and> innermost_catch (sts ! j) = Some h"
    proof
      assume h0: "map_of (handlers ?p0) x = Some h"
      have "handlers_sound t p" using inv by (simp add: prover_inv_def)
      with h0 obtain k' j st0 sts0 where o: "k' < block_count t" "j < length (body_of t k')"
        "ins_pc (body_of t k' ! j) = x" "entry_above p (start_pc (blk t k')) st0"
        "body_run (task_snapshot t) (body_of t k') st0 = Inr sts0" "innermost_catch (sts0 ! j) = Some h"
        unfolding handlers_sound_def by simp blast
      have "entry_above p' (start_pc (blk t k')) st0" using entry_above_mono [OF _ g] o(4) by simp
      with o show ?thesis by blast
    next
      assume "\<exists>j < length (body_of t k). ins_pc (body_of t k ! j) = x \<and> innermost_catch (sts ! j) = Some h"
      moreover have "entry_above p' (start_pc (blk t k)) e"
        using growsD [OF g e] k(2) by (auto simp: entry_above_def)
      ultimately show ?thesis using k(1) run by blast
    qed
  qed
  ultimately show ?thesis unfolding prover_inv_def using wf' qd init by blast
qed

section \<open>The loop\<close>

lemma prove_loop_invariant:
  assumes l: "prove_loop t p = Some r" and wt: "wf_task t n" and inv: "prover_inv t p"
  shows "case r of Inl e \<Rightarrow> True | Inr p' \<Rightarrow> prover_inv t p' \<and> queue p' = []"
proof -
  define P where "P t p r \<longleftrightarrow> (wf_task t n \<longrightarrow> prover_inv t p \<longrightarrow>
    (case r of Inl e \<Rightarrow> True | Inr p' \<Rightarrow> prover_inv t p' \<and> queue p' = []))"
    for t p and r :: "prover verifying"
  have "P t p r"
  proof (rule prove_loop.raw_induct [OF _ l])
    fix loop :: "proof_task \<Rightarrow> prover \<Rightarrow> (prover verifying) option" and t p r
    assume IH: "\<And>t p r. loop t p = Some r \<Longrightarrow> P t p r"
      and eq: "(case queue p of [] \<Rightarrow> Some (Inr p)
        | pc # rest \<Rightarrow> (case prove_round t pc (p\<lparr>queue := rest\<rparr>) of
            Inl e \<Rightarrow> Some (Inl e) | Inr p' \<Rightarrow> loop t p')) = Some r"
    show "P t p r"
      unfolding P_def
    proof (intro impI)
      assume wt: "wf_task t n" and inv: "prover_inv t p"
      show "case r of Inl e \<Rightarrow> True | Inr p' \<Rightarrow> prover_inv t p' \<and> queue p' = []"
      proof (cases "queue p")
        case Nil
        with eq inv show ?thesis by auto
      next
        case (Cons pc rest)
        show ?thesis
        proof (cases "prove_round t pc (p\<lparr>queue := rest\<rparr>)")
          case (Inl e)
          with eq Cons show ?thesis by auto
        next
          case (Inr q)
          with eq Cons have "loop t q = Some r" by simp
          from IH [OF this] wt prove_round_inv [OF wt inv Cons Inr] show ?thesis
            unfolding P_def by blast
        qed
      qed
    qed
  qed
  with wt inv show ?thesis unfolding P_def by blast
qed

lemma block_zero:
  assumes wt: "wf_task t n"
  shows "start_pc (blk t 0) = 0"
proof -
  have ne: "0 < block_count t" and str: "stream (task_instructions t) n"
    and f: "range_first (blk t 0) = 0" using wt by (auto simp: wf_task_def wf_cfg_def)
  have "task_instructions t \<noteq> []" using body_of_length(3,4) [OF wt ne] by auto
  from stream_hd [OF str this] show ?thesis
    using wf_task_block [OF wt ne] f by (simp add: wf_block_def Let_def)
qed

lemma initial_prover_inv:
  assumes wt: "wf_task t n"
  shows "prover_inv t (initial_prover t u)"
proof -
  let ?s = "task_snapshot t" and ?p = "initial_prover t u"
  have ent: "ent ?p = [0 \<mapsto> initial_state ?s]" by (simp add: initial_prover_def)
  have "0 < block_count t" using wt by (simp add: wf_task_def wf_cfg_def)
  moreover have "start_pc (blk t 0) = 0" by (rule block_zero [OF wt])
  ultimately have start: "0 \<in> start_pc ` set (blocks (task_cfg t))" by (metis imageI nth_mem)
  have "wf_entry ?s (initial_state ?s)"
    by (simp add: wf_entry_def initial_state_def catches_ok_def)
  with start have "wf_prover t ?p"
    by (auto simp: wf_prover_def initial_prover_def split: if_splits)
  moreover have "covers (ent ?p) (initial_state ?s)" by (simp add: covers_def initial_state_def)
  moreover have "handlers_sound t ?p" by (simp add: handlers_sound_def initial_prover_def)
  moreover have "set (queue ?p) \<subseteq> dom (ent ?p)" by (simp add: initial_prover_def)
  moreover have "entry_above ?p 0 (initial_state ?s)" using ent by (simp add: entry_above_def)
  moreover have "start_pc (blk t k) \<in> set (queue ?p)" if "ent ?p (start_pc (blk t k)) \<noteq> None" for k
    using that ent by (auto simp: initial_prover_def split: if_splits)
  ultimately show ?thesis unfolding prover_inv_def using ent by (metis fun_upd_apply option.distinct(1) option.inject)
qed

text \<open>The final prover of a successful run.\<close>

definition proved :: "proof_task \<Rightarrow> prover \<Rightarrow> bool" where
  "proved t p \<longleftrightarrow> prover_inv t p \<and> queue p = []"

lemma prove_proved:
  assumes "wf_task t n" "prove t = Some (Inr p)"
  shows "proved t p"
proof -
  have "0 < block_count t" using assms(1) by (simp add: wf_task_def wf_cfg_def)
  then have "task_instructions t \<noteq> []" using body_of_length(3,4) [OF assms(1)] by fastforce
  with assms(2) obtain u where "prove_loop t (initial_prover t u) = Some (Inr p)"
    by (auto simp: prove_def split: sum.splits)
  from prove_loop_invariant [OF this assms(1) initial_prover_inv [OF assms(1)]]
  show ?thesis by (simp add: proved_def)
qed

section \<open>The abstract machine\<close>

text \<open>Unwinding to the innermost catch offset with a handler; the list is innermost first.\<close>

fun unwind :: "(nat \<times> nat option) list \<Rightarrow> (nat \<times> nat \<times> (nat \<times> nat option) list) option" where
  "unwind [] = None"
| "unwind ((ix, h) # cs) = (case h of None \<Rightarrow> unwind cs | Some pc \<Rightarrow> Some (ix, pc, cs))"

definition exception_state :: "abstract_state \<Rightarrow> (nat \<times> abstract_state) option" where
  "exception_state st =
     (case unwind (rev (catches st)) of
        None \<Rightarrow> None
      | Some (ix, h, outer) \<Rightarrow>
          Some (h, st\<lparr>stack := take ix (stack st) @ [Tagged], catches := rev outer\<rparr>))"

text \<open>
  The states reached without any merging: instruction by instruction inside a block, from the
  tail of a block to its successors, and from any instruction inside a try region to its handler.
\<close>

inductive reach :: "proof_task \<Rightarrow> nat \<Rightarrow> nat \<Rightarrow> abstract_state \<Rightarrow> bool" for t where
  reach_entry: "reach t 0 0 (initial_state (task_snapshot t))"
| reach_next: "reach t k j st \<Longrightarrow> Suc j < length (body_of t k) \<Longrightarrow>
    transfer (task_snapshot t) (body_of t k ! j) st = Inr st' \<Longrightarrow> reach t k (Suc j) st'"
| reach_edge: "reach t k j st \<Longrightarrow> Suc j = length (body_of t k) \<Longrightarrow>
    transfer (task_snapshot t) (body_of t k ! j) st = Inr st' \<Longrightarrow>
    k' < block_count t \<Longrightarrow> start_pc (blk t k') \<in> set (successors (blk t k)) \<Longrightarrow>
    catch_target (body_of t k ! j) \<noteq> Inr (Some (start_pc (blk t k'))) \<Longrightarrow> reach t k' 0 st'"
| reach_handler: "reach t k j st \<Longrightarrow> exception_state st = Some (start_pc (blk t k'), st') \<Longrightarrow>
    k' < block_count t \<Longrightarrow> reach t k' 0 st'"

lemma unwind_rev:
  "unwind (rev cs) = Some (ix, h, outer) \<Longrightarrow>
   find_handler (rev cs) = Some (ix, h) \<and>
   (\<exists>j < length cs. cs ! j = (ix, Some h) \<and> rev outer = take j cs)"
proof (induction cs rule: rev_induct)
  case (snoc c cs)
  obtain i oh where c: "c = (i, oh)" by (cases c)
  show ?case
  proof (cases oh)
    case None
    with snoc c show ?thesis by (auto simp: nth_append intro: less_SucI)
  next
    case (Some pc)
    with snoc.prems c have "i = ix" "pc = h" "outer = rev cs" by simp_all
    with Some c show ?thesis by (intro conjI exI [of _ "length cs"]) simp_all
  qed
qed simp

section \<open>Soundness\<close>

text \<open>
  A machine whose steps are monotone: what an execution from a larger state proves holds from
  every smaller one. \<open>transfer\<close> is such a machine, and block bodies inherit it.
\<close>

locale monotone_machine =
  fixes le :: "'s \<Rightarrow> 's \<Rightarrow> bool" and step :: "'i \<Rightarrow> 's \<Rightarrow> 'f + 's"
  assumes le_refl: "le a a" and le_trans: "le a b \<Longrightarrow> le b c \<Longrightarrow> le a c"
    and step_mono: "le a b \<Longrightarrow> res_le le (step i a) (step i b)"
begin

lemma run_mono: "le a b \<Longrightarrow> res_le le (fold_res step is a) (fold_res step is b)"
  by (induction "is" arbitrary: a b) (auto intro!: res_le_rbind step_mono)

lemma run_succeeds:
  "le a b \<Longrightarrow> fold_res step is b = Inr b' \<Longrightarrow> \<exists>a'. fold_res step is a = Inr a' \<and> le a' b'"
  using run_mono res_leD by metis

end

interpretation tm: monotone_machine state_le "transfer s" for s
  by unfold_locales (auto intro: state_le_trans transfer_mono)

lemma body_run_nth:
  "body_run s body e = Inr sts \<Longrightarrow> j \<le> length body \<Longrightarrow>
   fold_res (transfer s) (take j body) e = Inr (sts ! j)"
proof (induction body arbitrary: e sts j)
  case (Cons i body)
  then obtain e' ss where "transfer s i e = Inr e'" "body_run s body e' = Inr ss" "sts = e # ss"
    by (auto simp: rbind_Inr_iff)
  with Cons show ?case by (cases j) auto
qed auto

lemma body_run_mono:
  assumes "state_le a b" "body_run s body a = Inr as" "body_run s body b = Inr bs" "j \<le> length body"
  shows "state_le (as ! j) (bs ! j)"
  using tm.run_succeeds [OF assms(1) body_run_nth [OF assms(3,4)]] body_run_nth [OF assms(2,4)] by simp

lemma proved_block:
  assumes "proved t p" "k < block_count t" "ent p (start_pc (blk t k)) \<noteq> None"
  shows "block_done t p k"
  using assms unfolding proved_def prover_inv_def by auto

text \<open>The states of a block from its final entry cover what the machine reaches.\<close>

definition point_covered :: "proof_task \<Rightarrow> prover \<Rightarrow> nat \<Rightarrow> nat \<Rightarrow> abstract_state \<Rightarrow> bool" where
  "point_covered t p k j st \<longleftrightarrow> k < block_count t \<and> j < length (body_of t k) \<and>
     (\<exists>e sts. ent p (start_pc (blk t k)) = Some e \<and>
        body_run (task_snapshot t) (body_of t k) e = Inr sts \<and> state_le st (sts ! j))"

lemma point_covered_entry:
  assumes wt: "wf_task t n" and pr: "proved t p" and k: "k < block_count t"
    and e: "ent p (start_pc (blk t k)) = Some e" "state_le st e"
  shows "point_covered t p k 0 st"
proof -
  obtain sts where "body_run (task_snapshot t) (body_of t k) e = Inr sts"
    using proved_block [OF pr k] e(1) by (auto simp: block_done_def)
  then show ?thesis
    using e k body_of_length(2) [OF wt k] body_run_length by (fastforce simp: point_covered_def)
qed

lemma exception_covered:
  assumes pr: "proved t p" and wt: "wf_task t n" and cov: "point_covered t p k j st"
    and ex: "exception_state st = Some (h, st')"
  shows "\<exists>e. ent p h = Some e \<and> state_le st' e"
proof -
  obtain e sts where k: "k < block_count t" "j < length (body_of t k)"
    and e: "ent p (start_pc (blk t k)) = Some e"
    and run: "body_run (task_snapshot t) (body_of t k) e = Inr sts" and le: "state_le st (sts ! j)"
    using cov by (auto simp: point_covered_def)
  obtain ix outer where u: "unwind (rev (catches st)) = Some (ix, h, outer)"
    and st': "st' = st\<lparr>stack := take ix (stack st) @ [Tagged], catches := rev outer\<rparr>"
    using ex by (auto simp: exception_state_def split: option.splits prod.splits)
  obtain m where m: "m < length (catches st)" "catches st ! m = (ix, Some h)" "rev outer = take m (catches st)"
    and f: "find_handler (rev (catches st)) = Some (ix, h)" using unwind_rev [OF u] by blast
  have cs: "catches (sts ! j) = catches st" using le by (simp add: state_le_def)
  have inv: "prover_inv t p" using pr by (simp add: proved_def)
  have "wf_entry (task_snapshot t) e" "covers (ent p) e"
    using inv e by (auto simp: prover_inv_def wf_prover_def)
  from body_covers [OF wt k(1) run this k(2)] obtain e' where e': "ent p h = Some e'"
    "stack e' = take ix (stack (sts ! j)) @ [Tagged]" "catches e' = take m (catches st)"
    using coversD [of "ent p" "sts ! j" m ix h] m cs by auto
  have "handler_above p (sts ! j)"
    using proved_block [OF pr k(1)] e run k(2) by (auto simp: block_done_def)
  then have "kinds_le (locals (sts ! j)) (locals e')"
    using f cs e'(1) by (simp add: handler_above_def innermost_handler_def)
  then have "kinds_le (locals st) (locals e')" using le kinds_le_trans by (auto simp: state_le_def)
  moreover have "kinds_le (take ix (stack st)) (take ix (stack (sts ! j)))"
    using le list_all2_takeI by (auto simp: state_le_def)
  ultimately have "state_le st' e'"
    using e' m(3) st' by (simp add: state_le_def list_all2_appendI)
  with e'(1) show ?thesis by blast
qed

lemma reach_covered:
  assumes wt: "wf_task t n" and pr: "proved t p" and r: "reach t k j st"
  shows "point_covered t p k j st"
  using r
proof (induction rule: reach.induct)
  case reach_entry
  have "0 < block_count t" using wt by (simp add: wf_task_def wf_cfg_def)
  moreover have "start_pc (blk t 0) = 0" using block_zero [OF wt] .
  moreover obtain e where "ent p 0 = Some e" "lies_above e (initial_state (task_snapshot t))"
    using pr by (auto simp: proved_def prover_inv_def entry_above_def)
  ultimately show ?case using point_covered_entry [OF wt pr] lies_above_state_le by metis
next
  case (reach_next k j st st')
  then obtain e sts where c: "k < block_count t" "ent p (start_pc (blk t k)) = Some e"
    "body_run (task_snapshot t) (body_of t k) e = Inr sts" "state_le st (sts ! j)"
    by (auto simp: point_covered_def)
  have "transfer (task_snapshot t) (body_of t k ! j) (sts ! j) = Inr (sts ! Suc j)"
    using body_run_step [OF c(3)] reach_next.hyps by simp
  with res_leD [OF transfer_mono [OF c(4)]] reach_next.hyps have "state_le st' (sts ! Suc j)" by fastforce
  with c reach_next.hyps show ?case by (auto simp: point_covered_def)
next
  case (reach_edge k j st st' k')
  then obtain e sts where c: "k < block_count t" "ent p (start_pc (blk t k)) = Some e"
    "body_run (task_snapshot t) (body_of t k) e = Inr sts" "state_le st (sts ! j)"
    by (auto simp: point_covered_def)
  have last: "body_of t k ! j = last (body_of t k)" "sts ! Suc j = last sts"
    using reach_edge.hyps(2) body_run_length [OF c(3)] by (auto intro: nth_last)
  have "transfer (task_snapshot t) (body_of t k ! j) (sts ! j) = Inr (last sts)"
    using body_run_step [OF c(3), of j] reach_edge.hyps(2) last by simp
  with res_leD [OF transfer_mono [OF c(4)]] reach_edge.hyps(3) have le: "state_le st' (last sts)"
    by fastforce
  obtain ct where "catch_target (last (body_of t k)) = Inr ct"
    "flowed p ct (last sts) (start_pc (blk t k'))"
    using proved_block [OF pr c(1)] c reach_edge.hyps by (auto simp: block_done_def)
  then obtain e' where "ent p (start_pc (blk t k')) = Some e'" "lies_above e' (last sts)"
    using reach_edge.hyps last by (auto simp: flowed_def entry_above_def)
  with point_covered_entry [OF wt pr] le reach_edge.hyps(4) show ?case
    using lies_above_state_le state_le_trans by metis
next
  case (reach_handler k j st k' st')
  from exception_covered [OF pr wt reach_handler.IH reach_handler.hyps(2)] show ?case
    using point_covered_entry [OF wt pr reach_handler.hyps(3)] by blast
qed

lemma innermost_catch_cong: "catches a = catches b \<Longrightarrow> innermost_catch a = innermost_catch b"
  unfolding innermost_catch_def innermost_handler_def by (simp only:)

lemma body_index_inj:
  assumes wt: "wf_task t n" and k: "k < block_count t" "j < length (body_of t k)"
    and k': "k' < block_count t" "j' < length (body_of t k')"
    and pc: "ins_pc (body_of t k ! j) = ins_pc (body_of t k' ! j')"
  shows "k' = k \<and> j' = j"
proof -
  have "k' = k"
    using bodies_disjoint [OF wt k(1) k'(1)] k(2) k'(2) pc by (metis IntI empty_iff imageI nth_mem)
  moreover have "j' = j"
    using body_of_distinct [OF wt k(1)] k(2) k'(2) pc \<open>k' = k\<close>
    by (metis length_map nth_eq_iff_index_eq nth_map)
  ultimately show ?thesis by simp
qed

lemma handlers_exact:
  assumes wt: "wf_task t n" and pr: "proved t p" and cov: "point_covered t p k j st"
  shows "map_of (handlers p) (ins_pc (body_of t k ! j)) = innermost_catch st"
proof -
  obtain e sts where k: "k < block_count t" "j < length (body_of t k)"
    and e: "ent p (start_pc (blk t k)) = Some e"
    and run: "body_run (task_snapshot t) (body_of t k) e = Inr sts" and le: "state_le st (sts ! j)"
    using cov by (auto simp: point_covered_def)
  have ic: "innermost_catch st = innermost_catch (sts ! j)"
    using le by (intro innermost_catch_cong) (simp add: state_le_def)
  have rec: "recorded t p (ins_pc (body_of t k ! j)) (sts ! j) (sts ! Suc j)"
    using proved_block [OF pr k(1)] e run k(2) by (auto simp: block_done_def)
  show ?thesis
  proof (cases "map_of (handlers p) (ins_pc (body_of t k ! j))")
    case None
    then show ?thesis using rec ic by (cases "innermost_catch (sts ! j)") (auto simp: recorded_def)
  next
    case (Some h)
    have hs: "handlers_sound t p" using pr by (simp add: proved_def prover_inv_def)
    obtain k' j' st0 sts0 where o: "k' < block_count t" "j' < length (body_of t k')"
      "ins_pc (body_of t k' ! j') = ins_pc (body_of t k ! j)" "entry_above p (start_pc (blk t k')) st0"
      "body_run (task_snapshot t) (body_of t k') st0 = Inr sts0" "innermost_catch (sts0 ! j') = Some h"
      using hs [unfolded handlers_sound_def, rule_format, OF Some] by blast
    have kj: "k' = k" "j' = j" using body_index_inj [OF wt k o(1,2)] o(3) by auto
    then have "state_le st0 e" using o(4) e lies_above_state_le by (auto simp: entry_above_def)
    from body_run_mono [OF this _ run] o(5) k(2) kj have "state_le (sts0 ! j) (sts ! j)" by simp
    then have "innermost_catch (sts0 ! j) = innermost_catch (sts ! j)"
      by (intro innermost_catch_cong) (simp add: state_le_def)
    with o(6) kj Some ic show ?thesis by simp
  qed
qed

text \<open>What the proof says of a reached point.\<close>

definition point_proved :: "proof_task \<Rightarrow> prover \<Rightarrow> instruction \<Rightarrow> abstract_state \<Rightarrow> bool" where
  "point_proved t p i st \<longleftrightarrow>
     length (stack st) \<le> stack_size (task_snapshot t) \<and>
     ins_pc i \<in> set (visited p) \<and>
     map_of (handlers p) (ins_pc i) = innermost_catch st \<and>
     (ins_pc i \<in> set (before_points t) \<longrightarrow>
        (\<exists>b. map_of (before p) (ins_pc i) = Some b \<and> state_le st b)) \<and>
     (\<exists>st'. transfer (task_snapshot t) i st = Inr st' \<and>
        (ins_pc i \<in> set (after_points t) \<longrightarrow>
           (\<exists>a. map_of (after p) (ins_pc i) = Some a \<and> state_le st' a)))"

lemma reach_proved:
  assumes wt: "wf_task t n" and pr: "proved t p" and r: "reach t k j st"
  shows "point_proved t p (body_of t k ! j) st"
proof -
  note cov = reach_covered [OF wt pr r]
  obtain e sts where k: "k < block_count t" "j < length (body_of t k)"
    and e: "ent p (start_pc (blk t k)) = Some e"
    and run: "body_run (task_snapshot t) (body_of t k) e = Inr sts" and le: "state_le st (sts ! j)"
    using cov by (auto simp: point_covered_def)
  have rec: "recorded t p (ins_pc (body_of t k ! j)) (sts ! j) (sts ! Suc j)"
    using proved_block [OF pr k(1)] e run k(2) by (auto simp: block_done_def)
  have "wf_entry (task_snapshot t) e" using pr e by (auto simp: proved_def prover_inv_def wf_prover_def)
  from body_wf [OF run this, of j] k(2) have "length (stack (sts ! j)) \<le> stack_size (task_snapshot t)"
    by (simp add: wf_entry_def)
  moreover obtain st' where "transfer (task_snapshot t) (body_of t k ! j) st = Inr st'"
    "state_le st' (sts ! Suc j)"
    using res_leD [OF transfer_mono [OF le] body_run_step [OF run k(2)]] by blast
  ultimately show ?thesis
    using rec le handlers_exact [OF wt pr cov] state_le_heights(1) [OF le]
    by (auto simp: point_proved_def recorded_def)
qed

end
