(* ===== verification/Stack_Total.thy ===== *)
theory Stack_Total
  imports Stack_Sound
begin

text \<open>
  Totality of the abstract interpreter: its loop ends within the work budget, and it does not
  panic on well-formed tasks whose operands have been validated.
\<close>

section \<open>Termination\<close>

text \<open>
  Every round charges at least one unit, so the budget bounds the rounds. The budget saturates
  at the largest \<open>usize\<close>: it bounds the loop whenever the limit is below that value.
\<close>

lemma charge_to_used:
  assumes "charge_to t pc units p = Inr p'" "task_limit t < usize_max"
  shows "used p' = used p + units \<and> used p' \<le> task_limit t"
proof -
  let ?u = "sat_add usize_max (used p) units"
  have "used p' = ?u" "?u \<le> task_limit t"
    using assms(1) by (auto simp: charge_to_def charge_def Let_def rbind_Inr_iff split: if_splits)
  with assms(2) show ?thesis by (auto simp: sat_add_def min_def split: if_splits)
qed

lemma record_before_used:
  "record_before t pc st p = Inr p' \<Longrightarrow> task_limit t < usize_max \<Longrightarrow> used p \<le> used p'"
  by (auto simp: record_before_def rbind_Inr_iff dest!: charge_to_used split: if_splits)

lemma record_after_used:
  "record_after t pc st p = Inr p' \<Longrightarrow> task_limit t < usize_max \<Longrightarrow> used p \<le> used p'"
  by (auto simp: record_after_def rbind_Inr_iff dest!: charge_to_used split: if_splits)

lemma update_entry_used [simp]: "used (update_entry k r p) = used p"
  by (simp add: update_entry_def Let_def)

lemma insert_entry_used [simp]: "used (insert_entry k st p) = used p"
  by (simp add: insert_entry_def)

lemma propagate_used:
  "propagate_exception t pc st p = Inr p' \<Longrightarrow> task_limit t < usize_max \<Longrightarrow> used p \<le> used p'"
  by (auto simp: propagate_exception_def rbind_Inr_iff dest!: charge_to_used
      split: option.splits)

lemma prove_instruction_used:
  assumes "prove_instruction t i (st, p) = Inr (st', p')" "task_limit t < usize_max"
  shows "used p < used p'"
proof -
  obtain p1 p2 p3 where
    1: "charge_to t (ins_pc i) (sat_add usize_max 1 (cell_count st)) p = Inr p1"
    and 2: "record_before t (ins_pc i) st p1 = Inr p2"
    and 3: "propagate_exception t (ins_pc i) st (record_visit (ins_pc i) st p2) = Inr p3"
    and 4: "record_after t (ins_pc i) st' p3 = Inr p'"
    using assms(1) by (auto simp: prove_instruction_def Let_def rbind_Inr_iff)
  have "used p < used p1"
    using charge_to_used [OF 1 assms(2)] by (simp add: sat_add_def usize_max_def)
  also have "\<dots> \<le> used p2" by (rule record_before_used [OF 2 assms(2)])
  also have "\<dots> = used (record_visit (ins_pc i) st p2)" by (simp add: record_visit_def)
  also have "\<dots> \<le> used p3" by (rule propagate_used [OF 3 assms(2)])
  also have "\<dots> \<le> used p'" by (rule record_after_used [OF 4 assms(2)])
  finally show ?thesis .
qed

lemma prove_body_used:
  assumes "fold_res (prove_instruction t) body (st, p) = Inr (st', p')" "task_limit t < usize_max"
  shows "used p + length body \<le> used p'"
  using assms(1)
proof (induction body arbitrary: st p)
  case (Cons i body)
  then obtain st1 p1 where "prove_instruction t i (st, p) = Inr (st1, p1)"
    "fold_res (prove_instruction t) body (st1, p1) = Inr (st', p')" by (auto simp: rbind_Inr_iff)
  with prove_instruction_used [OF _ assms(2)] Cons.IH show ?case by fastforce
qed simp

lemma prove_successor_used:
  "prove_successor t tail ct st x p = Inr p' \<Longrightarrow> task_limit t < usize_max \<Longrightarrow> used p \<le> used p'"
  by (auto simp: prove_successor_def flow_to_handler_def flow_to_block_def rbind_Inr_iff Let_def
      dest!: charge_to_used split: option.splits if_splits)

lemma prove_successors_used:
  assumes "fold_res (prove_successor t tail ct st) xs p = Inr p'" "task_limit t < usize_max"
  shows "used p \<le> used p'"
  using assms(1)
proof (induction xs arbitrary: p)
  case (Cons x xs)
  then obtain p1 where "prove_successor t tail ct st x p = Inr p1"
    "fold_res (prove_successor t tail ct st) xs p1 = Inr p'" by (auto simp: rbind_Inr_iff)
  with prove_successor_used [OF _ assms(2)] Cons.IH show ?case by fastforce
qed simp

lemma prove_round_used:
  assumes "prove_round t pc p = Inr p'" "task_limit t < usize_max"
  shows "used p < used p' \<and> used p \<le> task_limit t"
proof -
  obtain e p1 body p2 tail ct xs where
    1: "charge_to t pc (cell_count e) p = Inr p1"
    and tail: "last_opt body = Some tail"
    and body: "\<exists>st'. fold_res (prove_instruction t) body (e, p1) = Inr (st', p2)"
    and succ: "\<exists>st'. fold_res (prove_successor t tail ct st') xs p2 = Inr p'"
    using assms(1) unfolding prove_round_def rbind_Inr_iff
    by (auto simp: rbind_Inr_iff split: if_splits) blast+
  have "body \<noteq> []" using tail by (auto simp: last_opt_def)
  then have "0 < length body" by simp
  moreover have "used p \<le> used p1" "used p1 \<le> task_limit t" using charge_to_used [OF 1 assms(2)] by auto
  moreover have "used p1 + length body \<le> used p2" using prove_body_used [OF _ assms(2)] body by blast
  moreover have "used p2 \<le> used p'" using prove_successors_used [OF _ assms(2)] succ by blast
  ultimately show ?thesis by linarith
qed

lemma prove_loop_terminates:
  assumes "task_limit t < usize_max"
  shows "\<exists>r. prove_loop t p = Some r"
proof (induction "Suc (task_limit t) - used p" arbitrary: p rule: less_induct)
  case less
  show ?case
  proof (cases "queue p")
    case Nil
    then show ?thesis by (simp add: prove_loop.simps)
  next
    case (Cons pc rest)
    show ?thesis
    proof (cases "prove_round t pc (p\<lparr>queue := rest\<rparr>)")
      case (Inl e)
      with Cons show ?thesis by (simp add: prove_loop.simps)
    next
      case (Inr p')
      from prove_round_used [OF this assms] have "used p < used p'" "used p \<le> task_limit t" by simp_all
      then have "Suc (task_limit t) - used p' < Suc (task_limit t) - used p" by linarith
      from less [OF this] obtain r where "prove_loop t p' = Some r" by blast
      with Cons Inr show ?thesis by (subst prove_loop.simps) simp
    qed
  qed
qed

lemma prove_terminates: "task_limit t < usize_max \<Longrightarrow> \<exists>r. prove t = Some r"
  using prove_loop_terminates by (auto simp: prove_def split: sum.splits)

section \<open>No panics\<close>

lemma no_panic_if:
  "(c \<Longrightarrow> no_panic x) \<Longrightarrow> (\<not> c \<Longrightarrow> no_panic y) \<Longrightarrow> no_panic (if c then x else y)"
  by simp

lemma no_panic_option:
  "(\<And>v. x = Some v \<Longrightarrow> no_panic (f v)) \<Longrightarrow> (x = None \<Longrightarrow> no_panic a) \<Longrightarrow>
   no_panic (case x of None \<Rightarrow> a | Some v \<Rightarrow> f v)"
  by (simp split: option.split)

text \<open>The opcodes that read or write a local through \<open>local_index\<close>.\<close>

definition uses_local :: "string \<Rightarrow> bool" where
  "uses_local nm \<longleftrightarrow> nm \<noteq> ''get_loc0_loc1'' \<and>
     (prefix ''get_loc'' nm \<or> prefix ''put_loc'' nm \<or> prefix ''set_loc'' nm \<or>
      nm \<in> {''inc_loc'', ''dec_loc'', ''add_loc''})"

text \<open>What \<open>transfer\<close> relies on of an instruction after \<open>validate_indices\<close>.\<close>

definition operands_ok :: "compile_snapshot \<Rightarrow> instruction \<Rightarrow> bool" where
  "operands_ok s i \<longleftrightarrow> wf_instruction i \<and>
     (uses_local (ins_name i) \<longrightarrow> (\<exists>k < local_count s. local_index i = Inr (Some k))) \<and>
     (ins_name i = ''get_loc0_loc1'' \<longrightarrow> 2 \<le> local_count s) \<and>
     (ins_name i = ''push_const'' \<longrightarrow> 5 \<le> ins_size i) \<and>
     (ins_name i = ''push_const8'' \<longrightarrow> 2 \<le> ins_size i)"

lemma effective_pop_no_panic:
  assumes "wf_instruction i" shows "\<exists>n. effective_pop i = Inr n"
proof -
  obtain f where f: "ins_format i = (Inr f :: operand_format verifying)"
    and ext: "operand_extent f \<le> ins_size i"
    using wf_instruction_format [OF assms] by blast
  have u16: "\<exists>n. operand_u16 i 1 = (Inr n :: nat verifying)" if "3 \<le> ins_size i"
    using operand_u16_no_panic [of 1 i, where ?'a = verify_error] that by auto
  show ?thesis using f ext u16 by (cases f) (auto simp: effective_pop_def Let_def)
qed

lemma check_stack_size_no_panic [simp]: "no_panic (check_stack_size s i st)"
  by (simp add: check_stack_size_def)

lemma pushed_kind_no_panic:
  assumes "operands_ok s i" shows "no_panic (pushed_kind s i)"
proof -
  have "\<exists>n. operand_u32 i 1 = (Inr n :: nat verifying)" if "ins_name i = ''push_const''"
    using operand_u32_no_panic [of 1 i, where ?'a = verify_error] assms that
    by (auto simp: operands_ok_def)
  moreover have "\<exists>n. operand_u8 i 1 = (Inr n :: nat verifying)" if "ins_name i = ''push_const8''"
    using operand_u8_no_panic [of 1 i, where ?'a = verify_error] assms that
    by (auto simp: operands_ok_def)
  ultimately show ?thesis by (auto simp: pushed_kind_def Let_def)
qed

lemma expect_local_ok:
  assumes "operands_ok s i" "uses_local (ins_name i)"
  shows "\<exists>k < local_count s. expect_local i = Inr k"
  using assms by (auto simp: operands_ok_def expect_local_def)

lemma local_writes_no_panic:
  assumes ok: "operands_ok s i" and len: "length (locals st) = local_count s"
  shows "no_panic (transfer_local_writes i v st)"
proof -
  have store: "\<exists>st'. rbind (expect_local i) (\<lambda>k. store_local k w st) = Inr st' \<and>
      length (locals st') = local_count s"
    if "uses_local (ins_name i)" "length (locals st) = local_count s" for w st
    using expect_local_ok [OF ok that(1)] that(2) by (auto simp: store_local_def)
  let ?nm = "ins_name i"
  let ?first = "if ?nm = ''set_loc_uninitialized''
         then rbind (expect_local i) (\<lambda>k. store_local k Uninitialized st)
         else if prefix ''put_loc'' ?nm \<or> prefix ''set_loc'' ?nm
         then rbind (expect_local i) (\<lambda>k. store_local k v st)
         else Inr st"
  have "\<exists>st'. ?first = Inr st' \<and> length (locals st') = local_count s"
  proof (cases "prefix ''put_loc'' ?nm \<or> prefix ''set_loc'' ?nm")
    case True
    then have u: "uses_local ?nm" by (auto simp: uses_local_def)
    show ?thesis using store [OF u len] True by (cases "?nm = ''set_loc_uninitialized''") simp_all
  next
    case False
    then have "?nm \<noteq> ''set_loc_uninitialized''" by auto
    with False len show ?thesis by simp
  qed
  then obtain st1 where st1: "?first = Inr st1" "length (locals st1) = local_count s" by blast
  have "no_panic (if ?nm \<in> {''inc_loc'', ''dec_loc'', ''add_loc''}
      then rbind (expect_local i) (\<lambda>k. store_local k Tagged st1) else Inr st1)"
  proof (cases "?nm \<in> {''inc_loc'', ''dec_loc'', ''add_loc''}")
    case True
    then have u: "uses_local ?nm" by (auto simp: uses_local_def)
    from store [OF u st1(2), of Tagged] True show ?thesis by auto
  qed simp
  then show ?thesis unfolding transfer_local_writes_def Let_def using st1(1) by simp
qed

lemma transfer_pushes_no_panic:
  assumes "operands_ok s i" shows "no_panic (transfer_pushes s i xs v st)"
proof -
  obtain t where t: "branch_target i = (Inr t :: int option verifying)"
    using branch_target_no_panic assms by (auto simp: operands_ok_def)
  show ?thesis
    unfolding transfer_pushes_def Let_def t rbind_simps
    by (intro no_panic_if no_panic_option no_panic_rbind check_stack_size_no_panic fail_simps
        pushed_kind_no_panic [OF assms])
qed

lemma nip_catch_no_panic [simp]: "no_panic (transfer_nip_catch s i st)"
  by (simp add: transfer_nip_catch_def Let_def split: option.splits prod.splits)

lemma transfer_no_panic:
  assumes ok: "operands_ok s i" and len: "length (locals st) = local_count s"
  shows "no_panic (transfer s i st)"
proof -
  obtain n where n: "effective_pop i = Inr n"
    using effective_pop_no_panic ok by (auto simp: operands_ok_def)
  let ?h = "length (stack st) - n"
  let ?st = "st\<lparr>stack := take ?h (stack st), catches := trim_catches ?h (catches st)\<rparr>"
  have two: "no_panic (rbind (index (locals ?st) 0) (\<lambda>a. rbind (index (locals ?st) 1) (\<lambda>b.
      check_stack_size s i (push [a, b] ?st))))" if "ins_name i = ''get_loc0_loc1''"
  proof -
    have "0 < length (locals ?st)" "1 < length (locals ?st)"
      using ok len that by (simp_all add: operands_ok_def)
    then show ?thesis by simp
  qed
  have load: "no_panic (rbind (expect_local i) (\<lambda>k. rbind (index (locals ?st) k) (\<lambda>v.
      check_stack_size s i (push [v] ?st))))"
    if "ins_name i \<noteq> ''get_loc0_loc1''" "prefix ''get_loc'' (ins_name i)"
  proof -
    have "uses_local (ins_name i)" using that by (simp add: uses_local_def)
    from expect_local_ok [OF ok this] len show ?thesis by auto
  qed
  have other: "no_panic (rbind (transfer_local_writes i v ?st) (transfer_pushes s i xs v))" for v xs
    using local_writes_no_panic [OF ok, of ?st v] len transfer_pushes_no_panic [OF ok] by auto
  show ?thesis
    unfolding transfer_def n rbind_simps transfer_popping_def Let_def
    by (intro no_panic_if two load other fail_simps nip_catch_no_panic check_stack_size_no_panic)
qed

lemma charge_to_no_panic [simp]: "no_panic (charge_to t pc n p)"
  by (auto simp: charge_to_def charge_def Let_def)

lemma merge_stacks_no_panic [simp]: "no_panic (merge_stacks pc k es as)"
  by (induction pc k es "as" rule: merge_stacks.induct) auto

lemma merge_locals_no_panic [simp]: "no_panic (merge_locals pc k es as)"
  by (induction pc k es "as" rule: merge_locals.induct)
    (auto intro!: no_panic_rbind split: option.splits)

lemma join_handler_loop_no_panic [simp]: "no_panic (join_handler_loop pc es as)"
  by (induction pc es "as" rule: join_handler_loop.induct) (auto intro!: no_panic_rbind)

lemma merge_state_no_panic [simp]: "no_panic (merge_state pc e a)"
  unfolding merge_state_def by (auto intro!: no_panic_rbind)

lemma join_handler_no_panic [simp]: "no_panic (join_handler_locals pc e ls)"
  unfolding join_handler_locals_def by (auto intro!: no_panic_rbind)

lemma records_no_panic [simp]:
  "no_panic (record_before t pc st p)" "no_panic (record_after t pc st p)"
  "no_panic (propagate_exception t pc st p)"
  by (auto simp: record_before_def record_after_def propagate_exception_def
      intro!: no_panic_rbind split: option.splits)

lemma prove_successor_no_panic: "no_panic (prove_successor t tail ct st x p)"
  by (auto simp: prove_successor_def flow_to_handler_def flow_to_block_def Let_def
      intro!: no_panic_rbind split: option.splits)

lemma prove_instruction_no_panic:
  assumes "operands_ok (task_snapshot t) i" "length (locals st) = local_count (task_snapshot t)"
  shows "no_panic (prove_instruction t i (st, p))"
  using transfer_no_panic [OF assms]
  by (auto simp: prove_instruction_def Let_def intro!: no_panic_rbind)

definition task_operands_ok :: "proof_task \<Rightarrow> bool" where
  "task_operands_ok t \<longleftrightarrow> list_all (operands_ok (task_snapshot t)) (task_instructions t)"

lemma body_operands_ok:
  "task_operands_ok t \<Longrightarrow> i \<in> set (body_of t k) \<Longrightarrow> operands_ok (task_snapshot t) i"
  by (auto simp: task_operands_ok_def body_of_def list_all_iff dest!: in_set_takeD in_set_dropD)

lemma prove_body_no_panic:
  assumes ops: "task_operands_ok t" and wf: "wf_prover t p"
    and len: "length (locals e) = local_count (task_snapshot t)"
  shows "no_panic (fold_res (prove_instruction t) (body_of t k) (e, p))"
proof (rule no_panic_fold_res [of "\<lambda>(st, p). wf_prover t p \<and>
    length (locals st) = local_count (task_snapshot t)"])
  fix i :: instruction and sp sp' :: "abstract_state \<times> prover"
  assume i: "i \<in> set (body_of t k)"
    and I: "case sp of (st, p) \<Rightarrow> wf_prover t p \<and> length (locals st) = local_count (task_snapshot t)"
    and step: "prove_instruction t i sp = Inr sp'"
  obtain st p st' p' where sp: "sp = (st, p)" "sp' = (st', p')" by (cases sp, cases sp')
  then show "case sp' of (st, p) \<Rightarrow> wf_prover t p \<and> length (locals st) = local_count (task_snapshot t)"
    using prove_instruction_ok(1,2) [of t i st p st' p'] step I transfer_length_locals step_ok_wf by auto
next
  fix i :: instruction and sp :: "abstract_state \<times> prover"
  assume "i \<in> set (body_of t k)"
    "case sp of (st, p) \<Rightarrow> wf_prover t p \<and> length (locals st) = local_count (task_snapshot t)"
  then show "no_panic (prove_instruction t i sp)"
    using prove_instruction_no_panic body_operands_ok [OF ops] by (cases sp) auto
qed (use wf len in simp)

lemma prove_round_no_panic:
  assumes wt: "wf_task t n" and ops: "task_operands_ok t" and wf: "wf_prover t p"
    and e: "ent p pc = Some e"
  shows "no_panic (prove_round t pc p)"
proof -
  have "pc \<in> start_pc ` set (blocks (task_cfg t))" using wf e by (simp add: wf_prover_def)
  then obtain k where k: "k < block_count t" "start_pc (blk t k) = pc" by (auto simp: in_set_conv_nth)
  have b: "cfg_block (task_cfg t) pc = (Inr (Some (blk t k)) :: basic_block option verifying)"
    using cfg_block_start(1) [OF wt k(1)] k(2) by simp
  have tail: "last_opt (body_of t k) = Some (last (body_of t k))"
    using body_of_length(2) [OF wt k(1)] by (simp add: last_opt_def)
  have "last (body_of t k) \<in> set (body_of t k)" using body_of_length(2) [OF wt k(1)] by auto
  then have "wf_instruction (last (body_of t k))"
    using body_operands_ok [OF ops] by (auto simp: operands_ok_def)
  then have ct: "\<exists>ct. catch_target (last (body_of t k)) = Inr ct"
    using branch_target_no_panic [of "last (body_of t k)", where ?'e = verify_error]
    by (auto simp: catch_target_def)
  have len: "length (locals e) = local_count (task_snapshot t)"
    using wf e by (simp add: wf_prover_def wf_entry_def)
  have body: "no_panic (fold_res (prove_instruction t) (body_of t k) (e, p1))"
    if "charge_to t pc (cell_count e) p = Inr p1" for p1
    using prove_body_no_panic [OF ops _ len] charge_to_ok [OF that wf] step_ok_wf by blast
  have succ: "no_panic (fold_res (prove_successor t x c st) xs q)" for x c st xs q
    by (rule no_panic_fold_res [of "\<lambda>_. True"]) (auto intro: prove_successor_no_panic)
  show ?thesis
    unfolding prove_round_def b e rbind_simps expect_simps body_of_slice [OF wt k(1)] tail
    using body ct succ by (auto intro!: no_panic_rbind)
qed

lemma prove_no_panic:
  assumes wt: "wf_task t n" and ops: "task_operands_ok t" and pr: "prove t = Some r"
  shows "no_panic r"
proof -
  define P where "P t p r \<longleftrightarrow> (wf_task t n \<longrightarrow> task_operands_ok t \<longrightarrow> prover_inv t p \<longrightarrow> no_panic r)"
    for t p and r :: "prover verifying"
  have loop: "P t p r" if "prove_loop t p = Some r" for t p r
  proof (rule prove_loop.raw_induct [OF _ that])
    fix loop :: "proof_task \<Rightarrow> prover \<Rightarrow> (prover verifying) option" and t p r
    assume IH: "\<And>t p r. loop t p = Some r \<Longrightarrow> P t p r"
      and eq: "(case queue p of [] \<Rightarrow> Some (Inr p)
        | pc # rest \<Rightarrow> (case prove_round t pc (p\<lparr>queue := rest\<rparr>) of
            Inl e \<Rightarrow> Some (Inl e) | Inr p' \<Rightarrow> loop t p')) = Some r"
    show "P t p r"
      unfolding P_def
    proof (intro impI)
      assume wt: "wf_task t n" and ops: "task_operands_ok t" and inv: "prover_inv t p"
      show "no_panic r"
      proof (cases "queue p")
        case Nil
        with eq show ?thesis by auto
      next
        case (Cons pc rest)
        let ?q = "p\<lparr>queue := rest\<rparr>"
        have "wf_prover t ?q" "\<exists>e. ent ?q pc = Some e"
          using inv Cons by (auto simp: prover_inv_def wf_prover_def)
        then have np: "no_panic (prove_round t pc ?q)" using prove_round_no_panic [OF wt ops] by blast
        show ?thesis
        proof (cases "prove_round t pc ?q")
          case (Inl e)
          with eq Cons np show ?thesis by (auto simp: no_panic_def)
        next
          case (Inr q)
          with eq Cons have "loop t q = Some r" by simp
          from IH [OF this] wt ops prove_round_inv [OF wt inv Cons Inr] show ?thesis
            unfolding P_def by blast
        qed
      qed
    qed
  qed
  show ?thesis
  proof (cases "task_instructions t = []")
    case False
    show ?thesis
    proof (cases "charge (task_limit t) 0 0 (local_count (task_snapshot t))")
      case (Inl e)
      with pr False show ?thesis by (auto simp: prove_def charge_def Let_def fail_def reject_def split: if_splits)
    next
      case (Inr u)
      with pr False have "prove_loop t (initial_prover t u) = Some r" by (simp add: prove_def)
      from loop [OF this] wt ops initial_prover_inv [OF wt] show ?thesis unfolding P_def by blast
    qed
  qed (use pr in \<open>auto simp: prove_def\<close>)
qed

section \<open>The sample functions\<close>

text \<open>The loop carries an OSR point at its header and a deoptimisation point at its store.\<close>

definition sample_metadata :: "8 word list \<Rightarrow> verifier_metadata" where
  "sample_metadata bs =
     (if bs = sample_loop
      then \<lparr>osr_points = [\<lparr>osr_pc = 2, osr_live_slots = [Tagged]\<rparr>],
            deopt_points = [\<lparr>deopt_pc = 1, deopt_before = [Tagged, Int32], deopt_after = [Int32]\<rparr>]\<rparr>
      else empty_metadata)"

definition sample_snapshot :: "8 word list \<Rightarrow> compile_snapshot" where
  "sample_snapshot bs =
     with_metadata (from_untrusted_bytecode sample_env bs 0 1 0 0) (sample_metadata bs)"

definition sample_task :: "8 word list \<Rightarrow> proof_task" where
  "sample_task bs =
     \<lparr>task_snapshot = sample_snapshot bs, task_instructions = sample_code bs,
      task_cfg = sample_cfg bs, task_limit = max_work_units default_limits\<rparr>"

definition sample_proof :: "8 word list \<Rightarrow> prover" where
  "sample_proof bs = (case prove (sample_task bs) of Some (Inr p) \<Rightarrow> p | _ \<Rightarrow> empty_prover)"

lemma sample_wf_task: "wf_task (sample_task sample_loop) 8" "wf_task (sample_task sample_try) 20"
  using build_wf_cfg [OF sample_stream(1) sample_build(1)]
    build_wf_cfg [OF sample_stream(2) sample_build(2)] sample_stream
  by (simp_all add: wf_task_def sample_task_def)

lemma sample_prove:
  "prove (sample_task sample_loop) = Some (Inr (sample_proof sample_loop))"
  "prove (sample_task sample_try) = Some (Inr (sample_proof sample_try))"
  by code_simp+

text \<open>
  Two reached points: the loop header with an integer local, and the handler with the caught
  value on the stack.
\<close>

abbreviation frame :: "slot_kind list \<Rightarrow> slot_kind list \<Rightarrow> (nat \<times> nat option) list \<Rightarrow> abstract_state" where
  "frame ls st cs \<equiv> \<lparr>locals = ls, stack = st, catches = cs\<rparr>"

lemma sample_reach_store: "reach (sample_task sample_loop) 0 1 (frame [Tagged] [Int32] [])"
proof -
  let ?t = "sample_task sample_loop"
  have "initial_state (task_snapshot ?t) = frame [Tagged] [] []" by code_simp
  then have "reach ?t 0 0 (frame [Tagged] [] [])" using reach_entry [of ?t] by simp
  then show ?thesis unfolding One_nat_def by (rule reach_next) code_simp+
qed

lemma sample_reach_loop: "reach (sample_task sample_loop) 1 0 (frame [Int32] [] [])"
  by (rule reach_edge [OF sample_reach_store]) code_simp+

lemma sample_reach_entry_try: "reach (sample_task sample_try) 1 0 (frame [Tagged] [CatchOffset] [(0, Some 12)])"
proof -
  let ?t = "sample_task sample_try"
  have "initial_state (task_snapshot ?t) = frame [Tagged] [] []" by code_simp
  then have "reach ?t 0 0 (frame [Tagged] [] [])" using reach_entry [of ?t] by simp
  then show ?thesis by (rule reach_edge) code_simp+
qed

lemma sample_reach_handler: "reach (sample_task sample_try) 3 0 (frame [Tagged] [Tagged] [])"
  by (rule reach_handler [OF sample_reach_entry_try]) code_simp+

text \<open>
  A function that stores an integer in its local on one of two paths: its last instruction is reached
  with two different frames.
\<close>

definition sample_join :: "8 word list" where
  "sample_join = [7, 6, 3, 2, 8, 4]"

lemma sample_join_task:
  "wf_task (sample_task sample_join) 6" "prove (sample_task sample_join) = Some (Inr (sample_proof sample_join))"
proof -
  have st: "stream (sample_code sample_join) 6" by code_simp
  have "build (sample_code sample_join) 6 100 = Inr (sample_cfg sample_join)" by code_simp
  from build_wf_cfg [OF st this] st show "wf_task (sample_task sample_join) 6"
    by (simp add: wf_task_def sample_task_def)
  show "prove (sample_task sample_join) = Some (Inr (sample_proof sample_join))" by code_simp
qed

lemma sample_join_reach:
  "reach (sample_task sample_join) 2 0 (frame [Tagged] [] [])"
  "reach (sample_task sample_join) 2 0 (frame [Int32] [] [])"
proof -
  let ?t = "sample_task sample_join"
  have "initial_state (task_snapshot ?t) = frame [Tagged] [] []" by code_simp
  then have "reach ?t 0 0 (frame [Tagged] [] [])" using reach_entry [of ?t] by simp
  then have branch: "reach ?t 0 1 (frame [Tagged] [Tagged] [])" unfolding One_nat_def by (rule reach_next) code_simp+
  then show "reach ?t 2 0 (frame [Tagged] [] [])" by (rule reach_edge) code_simp+
  have "reach ?t 1 0 (frame [Tagged] [] [])" using branch by (rule reach_edge) code_simp+
  then have "reach ?t 1 1 (frame [Tagged] [Int32] [])" unfolding One_nat_def by (rule reach_next) code_simp+
  then show "reach ?t 2 0 (frame [Int32] [] [])" by (rule reach_edge) code_simp+
qed

section \<open>Properties\<close>

text \<open>
  The transfer function is monotone. If an instruction is accepted in an abstract frame, it is
  accepted in every more precise frame (same height, same catch offsets, each slot of the same
  kind or below a tagged slot), and the result is more precise too: what the verifier proves for
  the merged frame of a point holds for every frame merged into it.
\<close>

theorem transfer_monotone:
  assumes "state_le a b" "transfer s i b = Inr b'"
  shows "\<exists>a'. transfer s i a = Inr a' \<and> state_le a' b'"
  using transfer_mono [OF assms(1), of s i] assms(2) by (simp add: res_le_def)

theorem transfer_monotone_witness:
  "\<exists>a'. transfer (sample_snapshot sample_loop) (sample_code sample_loop ! 1)
          (frame [Tagged] [Int32] []) = Inr a' \<and> state_le a' (frame [Tagged] [] [])"
proof (rule transfer_monotone)
  show "state_le (frame [Tagged] [Int32] []) (frame [Tagged] [Tagged] [])" by code_simp
  show "transfer (sample_snapshot sample_loop) (sample_code sample_loop ! 1)
      (frame [Tagged] [Tagged] []) = Inr (frame [Tagged] [] [])" by code_simp
qed

text \<open>
  C3. The stack proof is sound. Let \<open>prove\<close> accept a well-formed task. Then every state the
  abstract machine reaches at an instruction, along normal edges, through finally blocks and
  through exception handlers, without any merging, is proved: its stack fits the declared size,
  its pc is visited, the recorded exception handler is the innermost live catch offset of the
  state, the instruction can be executed in it, and the states recorded before and after the
  instruction for OSR and deoptimisation cover it.
\<close>

theorem prove_sound:
  assumes "wf_task t n" "prove t = Some (Inr p)" "reach t k j st"
  shows "point_proved t p (body_of t k ! j) st"
  using reach_proved [OF assms(1) prove_proved [OF assms(1,2)] assms(3)] .

theorem prove_sound_witness:
  "point_proved (sample_task sample_try) (sample_proof sample_try)
     (body_of (sample_task sample_try) 3 ! 0) (frame [Tagged] [Tagged] [])"
  by (rule prove_sound [OF sample_wf_task(2) sample_prove(2) sample_reach_handler])

text \<open>
  C6. Frames have one shape per instruction. In an accepted function any two states reached at the
  same instruction have the same operand stack height, the same live catch offsets with the same
  handlers, and the same number of locals, and the same slots of them hold a catch offset: only the
  kinds of values can differ.
\<close>

theorem reach_same_shape:
  assumes wt: "wf_task t n" and pr: "prove t = Some (Inr p)"
    and r: "reach t k j st" "reach t k j st'"
  shows "length (stack st) = length (stack st') \<and> catches st = catches st' \<and>
    length (locals st) = length (locals st') \<and>
    map (\<lambda>kind. kind = CatchOffset) (stack st) = map (\<lambda>kind. kind = CatchOffset) (stack st') \<and>
    map (\<lambda>kind. kind = CatchOffset) (locals st) = map (\<lambda>kind. kind = CatchOffset) (locals st')"
proof -
  note cov = reach_covered [OF wt prove_proved [OF wt pr]]
  from cov [OF r(1)] cov [OF r(2)] obtain x where x: "state_le st x" "state_le st' x"
    by (auto simp: point_covered_def)
  have catch_slots: "map (\<lambda>kind. kind = CatchOffset) xs = map (\<lambda>kind. kind = CatchOffset) ys" if "kinds_le xs ys" for xs ys
    using that by (induction rule: list_all2_induct) (auto simp: kind_le_def)
  have "catches st = catches st'" using x by (simp add: state_le_def)
  moreover have "map (\<lambda>kind. kind = CatchOffset) (stack st) = map (\<lambda>kind. kind = CatchOffset) (stack st')"
    "map (\<lambda>kind. kind = CatchOffset) (locals st) = map (\<lambda>kind. kind = CatchOffset) (locals st')"
    using x catch_slots [of "stack st" "stack x"] catch_slots [of "stack st'" "stack x"]
      catch_slots [of "locals st" "locals x"] catch_slots [of "locals st'" "locals x"]
    by (simp_all add: state_le_def)
  moreover note this [THEN map_eq_imp_length_eq]
  ultimately show ?thesis by blast
qed

theorem reach_same_shape_witness:
  "\<exists>st st'. reach (sample_task sample_join) 2 0 st \<and> reach (sample_task sample_join) 2 0 st' \<and> st \<noteq> st' \<and>
     length (stack st) = length (stack st') \<and> catches st = catches st' \<and> length (locals st) = length (locals st')"
proof (intro exI conjI)
  show "frame [Tagged] [] [] \<noteq> frame [Int32] [] []" by simp
  note shape = reach_same_shape [OF sample_join_task sample_join_reach]
  show "length (stack (frame [Tagged] [] [])) = length (stack (frame [Int32] [] []))"
    "catches (frame [Tagged] [] []) = catches (frame [Int32] [] [])"
    "length (locals (frame [Tagged] [] [])) = length (locals (frame [Int32] [] []))"
    using shape by blast+
qed (rule sample_join_reach)+

text \<open>
  The worklist ends. Every round charges at least one unit of work, and the limit is below
  the point where the counter saturates, so \<open>prove\<close> returns for every snapshot, instruction list
  and graph, without any assumption on them.
\<close>

theorem prove_returns: "task_limit t < usize_max \<Longrightarrow> \<exists>r. prove t = Some r"
  by (rule prove_terminates)

theorem prove_returns_witness: "\<exists>r. prove (sample_task sample_loop) = Some r"
proof (rule prove_returns)
  show "task_limit (sample_task sample_loop) < usize_max" by code_simp
qed

text \<open>
  C7. The stack proof never panics. If the graph is well formed and the operand indices of every
  instruction have been checked, no \<^verbatim>\<open>expect\<close>, slice or index of \<open>prove\<close> and \<open>transfer\<close> fails:
  \<open>prove\<close> accepts or returns an error.
\<close>

theorem prove_total:
  assumes "wf_task t n" "task_operands_ok t" "prove t = Some r"
  shows "no_panic r"
  by (rule prove_no_panic [OF assms])

theorem prove_total_witness: "no_panic (Inr (sample_proof sample_loop) :: prover verifying)"
proof (rule prove_total [OF sample_wf_task(1) _ sample_prove(1)])
  have "operands_ok (sample_snapshot sample_loop) i" if "i \<in> set (sample_code sample_loop)" for i
  proof -
    have c: "list_all (\<lambda>i. wf_instruction i \<and>
        (uses_local (ins_name i) \<longrightarrow> local_index i = Inr (Some 0)) \<and>
        ins_name i \<notin> {''get_loc0_loc1'', ''push_const'', ''push_const8''}) (sample_code sample_loop)"
      and "0 < local_count (sample_snapshot sample_loop)"
      by code_simp+
    with that show ?thesis by (auto simp: operands_ok_def list_all_iff)
  qed
  then show "task_operands_ok (sample_task sample_loop)"
    by (simp add: task_operands_ok_def sample_task_def list_all_iff)
qed

end
