(* ===== verification/Verify.thy ===== *)
theory Verify
  imports Stack_Total
begin

text \<open>
  The verifier, \<^verbatim>\<open>jit/src/bytecode/verify.rs\<close>: the index checks, the check of the metadata
  against the proof, and \<open>verify\<close> itself, which composes the decoder, the control flow graph and
  the stack prover into a \<open>verified_function\<close>.
\<close>

section \<open>Index checks\<close>

definition decode_error_pc :: "decode_error \<Rightarrow> nat" where
  "decode_error_pc e =
     (case e of UnknownOpcode pc _ \<Rightarrow> pc | InvalidOpcode pc \<Rightarrow> pc | Truncated pc _ \<Rightarrow> pc)"

definition short_index :: "instruction \<Rightarrow> nat option" where
  "short_index i = name_digit (ins_name i)"

datatype index_space = LocalSpace | ArgumentSpace | ClosureSpace | ConstantSpace

definition index_space_of :: "operand_format \<Rightarrow> index_space option" where
  "index_space_of f =
     (case f of
        Local \<Rightarrow> Some LocalSpace | Local8 \<Rightarrow> Some LocalSpace | NoneLocal \<Rightarrow> Some LocalSpace
      | Argument \<Rightarrow> Some ArgumentSpace | NoneArgument \<Rightarrow> Some ArgumentSpace
      | Closure \<Rightarrow> Some ClosureSpace | NoneClosure \<Rightarrow> Some ClosureSpace
      | Constant \<Rightarrow> Some ConstantSpace | Constant8 \<Rightarrow> Some ConstantSpace
      | _ \<Rightarrow> None)"

definition index_value :: "instruction \<Rightarrow> operand_format \<Rightarrow> nat verifying" where
  "index_value i f =
     (if f \<in> {Local, Argument, Closure} then operand_u16 i 1
      else if f \<in> {Local8, Constant8} then operand_u8 i 1
      else if f = Constant then operand_u32 i 1
      else if f \<in> {NoneLocal, NoneArgument, NoneClosure} then expect (short_index i)
      else panic)"

definition indexed_operand :: "instruction \<Rightarrow> (index_space \<times> nat \<times> nat) option verifying" where
  "indexed_operand i =
     rbind (ins_format i) (\<lambda>f.
       let nm = ins_name i in
       if f = AtomU16 then
         (case (if nm = ''make_loc_ref'' then Some LocalSpace
                else if nm = ''make_arg_ref'' then Some ArgumentSpace
                else if nm = ''make_var_ref_ref'' then Some ClosureSpace
                else None) of
            None \<Rightarrow> Inr None
          | Some space \<Rightarrow> rbind (operand_u16 i 5) (\<lambda>k. Inr (Some (space, k, 1))))
       else
         (case index_space_of f of
            None \<Rightarrow> Inr None
          | Some space \<Rightarrow>
              rbind (index_value i f) (\<lambda>k.
                let width = (if nm \<in> {''using_dispose'', ''using_dispose_async''} then 1 else 0) + 1
                in Inr (Some (space, k, width)))))"

fun space_count :: "compile_snapshot \<Rightarrow> index_space \<Rightarrow> nat" where
  "space_count s LocalSpace = local_count s"
| "space_count s ArgumentSpace = arg_count s"
| "space_count s ClosureSpace = closure_count s"
| "space_count s ConstantSpace = constant_count s"

fun index_error :: "index_space \<Rightarrow> nat \<Rightarrow> nat \<Rightarrow> verify_error_kind" where
  "index_error LocalSpace k n = LocalIndexOutOfRange k n"
| "index_error ArgumentSpace k n = ArgumentIndexOutOfRange k n"
| "index_error ClosureSpace k n = ClosureIndexOutOfRange k n"
| "index_error ConstantSpace k n = ConstantIndexOutOfRange k n"

definition validate_index :: "compile_snapshot \<Rightarrow> instruction \<Rightarrow> unit \<Rightarrow> unit verifying" where
  "validate_index s i u =
     rbind (indexed_operand i) (\<lambda>r.
       case r of
         None \<Rightarrow> Inr ()
       | Some (space, k, width) \<Rightarrow>
           let count = space_count s space; checked_index = sat_add u32_max k (width - 1) in
           if count \<le> checked_index
           then fail (ins_pc i) (index_error space checked_index count)
           else Inr ())"

definition validate_indices :: "compile_snapshot \<Rightarrow> instruction list \<Rightarrow> unit verifying" where
  "validate_indices s is = fold_res (validate_index s) is ()"

section \<open>Metadata\<close>

definition verify_osr_point ::
  "compile_snapshot \<Rightarrow> nat list \<Rightarrow> control_flow_graph \<Rightarrow> prover \<Rightarrow> osr_point \<Rightarrow> unit
     \<Rightarrow> unit verifying" where
  "verify_osr_point s pcs g proof point u =
     (if osr_pc point \<notin> set pcs then fail (osr_pc point) OsrPointNotInstructionBoundary
      else if \<not> is_loop_header g (osr_pc point) then fail (osr_pc point) OsrPointNotLoopHeader
      else case map_of (before proof) (osr_pc point) of
        None \<Rightarrow> fail (osr_pc point) IncompleteOsrState
      | Some st \<Rightarrow>
          if osr_live_slots point \<noteq> live_slots s st
          then fail (osr_pc point) IncompleteOsrState
          else Inr ())"

definition verify_deopt_point ::
  "compile_snapshot \<Rightarrow> nat list \<Rightarrow> prover \<Rightarrow> deopt_point \<Rightarrow> unit \<Rightarrow> unit verifying" where
  "verify_deopt_point s pcs proof point u =
     (if deopt_pc point \<notin> set pcs then fail (deopt_pc point) DeoptPointNotInstructionBoundary
      else case map_of (before proof) (deopt_pc point) of
        None \<Rightarrow> fail (deopt_pc point) IncompleteDeoptState
      | Some b \<Rightarrow>
          (case map_of (after proof) (deopt_pc point) of
             None \<Rightarrow> fail (deopt_pc point) IncompleteDeoptState
           | Some a \<Rightarrow>
               if deopt_before point \<noteq> live_slots s b \<or> deopt_after point \<noteq> live_slots s a
               then fail (deopt_pc point) IncompleteDeoptState
               else Inr ()))"

definition verify_metadata ::
  "compile_snapshot \<Rightarrow> instruction list \<Rightarrow> control_flow_graph \<Rightarrow> prover \<Rightarrow> unit verifying" where
  "verify_metadata s is g proof =
     (let pcs = bs_of_list (map ins_pc is) in
      rbind (fold_res (verify_osr_point s pcs g proof) (osr_points (metadata s)) ()) (\<lambda>_.
        fold_res (verify_deopt_point s pcs proof) (deopt_points (metadata s)) ()))"

section \<open>Verified functions\<close>

record verified_function =
  vf_snapshot :: compile_snapshot
  vf_instructions :: "instruction list"
  vf_cfg :: control_flow_graph
  vf_osr_points :: "osr_point list"
  vf_exception_handlers :: "(nat \<times> exception_handler) list"
  vf_unreachable :: "nat list"
  vf_exception_regions :: bool

definition is_reachable :: "verified_function \<Rightarrow> nat \<Rightarrow> bool" where
  "is_reachable f pc \<longleftrightarrow> pc \<notin> set (vf_unreachable f)"

definition vf_exception_handler :: "verified_function \<Rightarrow> nat \<Rightarrow> exception_handler option" where
  "vf_exception_handler f pc = map_of (vf_exception_handlers f) pc"

definition proven_osr_point :: "compile_snapshot \<Rightarrow> prover \<Rightarrow> nat \<Rightarrow> osr_point verifying" where
  "proven_osr_point s proof pc =
     rbind (ok_or (Rejected (VerifyError pc IncompleteOsrState)) (map_of (before proof) pc))
       (\<lambda>st. Inr \<lparr>osr_pc = pc, osr_live_slots = live_slots s st\<rparr>)"

definition collect_osr_points ::
  "compile_snapshot \<Rightarrow> control_flow_graph \<Rightarrow> prover \<Rightarrow> nat list \<Rightarrow> osr_point list verifying" where
  "collect_osr_points s g proof unreachable =
     map_res (proven_osr_point s proof)
       (filter (\<lambda>pc. is_loop_header g pc \<and> pc \<notin> set unreachable) (map start_pc (blocks g)))"

definition unreachable_pcs :: "instruction list \<Rightarrow> prover \<Rightarrow> nat list" where
  "unreachable_pcs is proof =
     bs_of_list (filter (\<lambda>pc. pc \<notin> set (visited proof)) (map ins_pc is))"

definition has_subroutines :: "instruction list \<Rightarrow> bool" where
  "has_subroutines is \<longleftrightarrow> list_ex (\<lambda>i. ins_name i \<in> {''gosub'', ''ret''}) is"

definition exception_regions :: "instruction list \<Rightarrow> prover \<Rightarrow> bool" where
  "exception_regions is proof \<longleftrightarrow>
     list_ex (\<lambda>e. resumes_in_frame (snd e)) (handlers proof) \<or>
     list_ex (\<lambda>i. ins_name i \<in> {''catch'', ''nip_catch'', ''gosub'', ''ret'', ''throw'',
       ''throw_error''}) is"

text \<open>The second half of \<open>verify\<close>, after the proof.\<close>

definition finish_verification ::
  "compile_snapshot \<Rightarrow> instruction list \<Rightarrow> control_flow_graph \<Rightarrow> prover
     \<Rightarrow> verified_function verifying" where
  "finish_verification s is g proof =
     (let unreachable = unreachable_pcs is proof in
      if unreachable \<noteq> [] \<and> \<not> has_subroutines is
      then fail (hd unreachable) UnreachableInstruction
      else
        rbind (expect (last_opt is)) (\<lambda>tail.
        rbind (has_valid_exit tail) (\<lambda>ok.
        if \<not> ok then fail (ins_pc tail) MissingTerminator
        else
          rbind (verify_metadata s is g proof) (\<lambda>_.
          rbind (collect_osr_points s g proof unreachable) (\<lambda>osr.
            Inr \<lparr>vf_snapshot = s, vf_instructions = is, vf_cfg = g, vf_osr_points = osr,
                 vf_exception_handlers = handlers proof, vf_unreachable = unreachable,
                 vf_exception_regions = exception_regions is proof\<rparr>)))))"

definition snapshot_bytes :: "build_env \<Rightarrow> compile_snapshot \<Rightarrow> nat" where
  "snapshot_bytes env s =
     sat_add usize_max
       (sat_add usize_max
         (sat_add usize_max (length (bytecode s)) (length (exception_map s)))
         (length (source_map s)))
       (sat_mul usize_max (constant_count s) (env_descriptor_size env))"

definition metadata_bytes :: "compile_snapshot \<Rightarrow> nat" where
  "metadata_bytes s =
     sat_add usize_max
       (sat_add usize_max
         (sat_add usize_max 32 (metadata_byte_len (metadata s)))
         (length (exception_map s)))
       (length (source_map s))"

definition decode_verified ::
  "build_env \<Rightarrow> compile_snapshot \<Rightarrow> verify_limits \<Rightarrow> instruction list verifying" where
  "decode_verified env s l =
     (case decode_bounded (env_table env) (bytecode s) (max_instructions l) of
        Inl (DecodeErr e) \<Rightarrow> fail (decode_error_pc e) (DecodeKind e)
      | Inl (InstructionLimit pc) \<Rightarrow> fail pc (ResourceLimit DecodedInstructions)
      | Inr is \<Rightarrow> Inr is)"

definition task_of ::
  "compile_snapshot \<Rightarrow> instruction list \<Rightarrow> control_flow_graph \<Rightarrow> verify_limits \<Rightarrow> proof_task" where
  "task_of s is g l =
     \<lparr>task_snapshot = s, task_instructions = is, task_cfg = g, task_limit = max_work_units l\<rparr>"

text \<open>The checks before the proof: everything the prover is started with.\<close>

definition prepare ::
  "build_env \<Rightarrow> compile_snapshot \<Rightarrow> verify_limits
     \<Rightarrow> (instruction list \<times> control_flow_graph) verifying" where
  "prepare env s l =
     (if source_revision s \<noteq> SOURCE_REVISION \<or> opcode_fingerprint s \<noteq> env_opcode_fingerprint env
      then fail 0 IncompatibleSnapshot
      else if max_snapshot_bytes l < snapshot_bytes env s then fail 0 (ResourceLimit SnapshotBytes)
      else if max_metadata_bytes l < metadata_bytes s then fail 0 (ResourceLimit MetadataBytes)
      else
        rbind (decode_verified env s l) (\<lambda>is.
        rbind (validate_indices s is) (\<lambda>_.
        rbind (build is (length (bytecode s)) (max_basic_blocks l)) (\<lambda>g.
          Inr (is, g)))))"

definition verify ::
  "build_env \<Rightarrow> compile_snapshot \<Rightarrow> verify_limits \<Rightarrow> (verified_function verifying) option" where
  "verify env s l =
     (case prepare env s l of
        Inl e \<Rightarrow> Some (Inl e)
      | Inr (is, g) \<Rightarrow>
          (case prove (task_of s is g l) of
             None \<Rightarrow> None
           | Some (Inl e) \<Rightarrow> Some (Inl e)
           | Some (Inr proof) \<Rightarrow> Some (finish_verification s is g proof)))"

section \<open>What the verifier relies on\<close>

text \<open>
  The names of the generated table: the opcodes the verifier recognises by name have the operand
  format it reads, and the compact index opcodes end in a digit. \<open>wf_snapshot\<close> states the widths
  of the snapshot's integer fields, \<open>wf_limits\<close> that the limits are far from the bounds of
  \<open>u32\<close> and \<open>usize\<close>, as \<^const>\<open>default_limits\<close> is.
\<close>

definition wf_opcode_names :: "opcode \<Rightarrow> bool" where
  "wf_opcode_names op \<longleftrightarrow>
     (case from_name (op_format_name op) of
        None \<Rightarrow> False
      | Some f \<Rightarrow>
          (uses_local (op_name op) \<longrightarrow> f \<in> {Local, Local8, NoneLocal}) \<and>
          (op_name op = ''get_loc0_loc1'' \<longrightarrow> f = NoneLocal \<and> name_digit (op_name op) = Some 1) \<and>
          (f \<in> {NoneLocal, NoneArgument, NoneClosure} \<longrightarrow> name_digit (op_name op) \<noteq> None) \<and>
          (op_name op = ''push_const'' \<longrightarrow> f = Constant) \<and>
          (op_name op = ''push_const8'' \<longrightarrow> f = Constant8))"

definition wf_env :: "build_env \<Rightarrow> bool" where
  "wf_env env \<longleftrightarrow> wf_table (env_table env) \<and> list_all wf_opcode_names (env_table env)"

definition wf_snapshot :: "compile_snapshot \<Rightarrow> bool" where
  "wf_snapshot s \<longleftrightarrow>
     arg_count s \<le> u16_max \<and> local_count s \<le> u16_max \<and> closure_count s \<le> u16_max \<and>
     stack_size s \<le> u16_max \<and> constant_count s \<le> u32_max"

definition wf_limits :: "verify_limits \<Rightarrow> bool" where
  "wf_limits l \<longleftrightarrow> max_snapshot_bytes l \<le> u32_max \<and> max_work_units l < usize_max"

section \<open>Indices\<close>

definition index_ok :: "compile_snapshot \<Rightarrow> instruction \<Rightarrow> bool" where
  "index_ok s i \<longleftrightarrow>
     (\<exists>r. indexed_operand i = Inr r \<and>
        (case r of None \<Rightarrow> True | Some (space, k, width) \<Rightarrow> k + (width - 1) < space_count s space))"

lemma space_count_bound: "wf_snapshot s \<Longrightarrow> space_count s sp \<le> u32_max"
  by (cases sp) (auto simp: wf_snapshot_def u16_max_def u32_max_def)

lemma validate_index_Inr:
  assumes "wf_snapshot s"
  shows "validate_index s i u = Inr () \<longleftrightarrow> index_ok s i"
proof -
  have sat: "space_count s sp \<le> sat_add u32_max k d \<longleftrightarrow> space_count s sp \<le> k + d" for sp k d
    using space_count_bound [OF assms, of sp] by (auto simp: sat_add_def)
  show ?thesis
  proof (cases "indexed_operand i")
    case (Inr r)
    then show ?thesis
      by (cases r) (auto simp: validate_index_def index_ok_def Let_def sat split: if_splits)
  qed (simp add: validate_index_def index_ok_def)
qed

lemma validate_indices_Inr:
  assumes "wf_snapshot s"
  shows "validate_indices s is = Inr u \<longleftrightarrow> list_all (index_ok s) is"
  unfolding validate_indices_def
  by (induction "is") (use validate_index_Inr [OF assms] in \<open>auto simp: rbind_Inr_iff\<close>)

lemma index_value_total:
  assumes i: "wf_instruction i" "wf_opcode_names (ins_opcode i)"
    and f: "ins_format i = (Inr f :: operand_format verifying)" "index_space_of f = Some sp"
  shows "\<exists>k. index_value i f = Inr k"
proof -
  have ext: "operand_extent f \<le> ins_size i" and nf: "from_name (op_format_name (ins_opcode i)) = Some f"
    using i(1) f(1)
    by (auto simp: wf_instruction_def wf_opcode_layout_def ins_format_def op_format_def)
  have u8: "\<exists>k. operand_u8 i 1 = (Inr k :: nat verifying)" if "2 \<le> ins_size i"
    using operand_u8_no_panic [of 1 i, where ?'a = verify_error] that by auto
  have u16: "\<exists>k. operand_u16 i 1 = (Inr k :: nat verifying)" if "3 \<le> ins_size i"
    using operand_u16_no_panic [of 1 i, where ?'a = verify_error] that by auto
  have u32: "\<exists>k. operand_u32 i 1 = (Inr k :: nat verifying)" if "5 \<le> ins_size i"
    using operand_u32_no_panic [of 1 i, where ?'a = verify_error] that by auto
  have short: "\<exists>k. expect (short_index i) = (Inr k :: nat verifying)"
    if "f \<in> {NoneLocal, NoneArgument, NoneClosure}"
    using i(2) nf that by (auto simp: wf_opcode_names_def short_index_def)
  show ?thesis
    using f(2) ext u8 u16 u32 short by (cases f) (auto simp: index_space_of_def index_value_def)
qed

lemma indexed_operand_total:
  assumes i: "wf_instruction i" "wf_opcode_names (ins_opcode i)"
  shows "\<exists>r. indexed_operand i = Inr r"
proof -
  obtain f where f: "ins_format i = (Inr f :: operand_format verifying)"
    and ext: "operand_extent f \<le> ins_size i"
    using wf_instruction_format [OF i(1)] by blast
  have u16: "\<exists>k. operand_u16 i 5 = (Inr k :: nat verifying)" if "f = AtomU16"
    using operand_u16_no_panic [of 5 i, where ?'a = verify_error] ext that by auto
  show ?thesis
    using f u16 index_value_total [OF i f]
    by (auto simp: indexed_operand_def Let_def split: option.splits)
qed

lemma validate_indices_no_panic:
  assumes "list_all wf_instruction is" "list_all (\<lambda>i. wf_opcode_names (ins_opcode i)) is"
  shows "no_panic (validate_indices s is)"
  unfolding validate_indices_def
proof (rule no_panic_fold_res [of "\<lambda>_. True"])
  fix i u
  assume "i \<in> set is"
  then obtain r where "indexed_operand i = Inr r"
    using assms indexed_operand_total [of i] by (auto simp: list_all_iff)
  then show "no_panic (validate_index s i u)"
    by (auto simp: validate_index_def Let_def split: option.split)
qed simp_all

text \<open>The checked indices are what \<open>transfer\<close> needs.\<close>

lemma index_ok_local:
  assumes i: "wf_instruction i" "wf_opcode_names (ins_opcode i)" and ok: "index_ok s i"
    and f: "ins_format i = (Inr f :: operand_format verifying)" "f \<in> {Local, Local8, NoneLocal}"
  shows "\<exists>k < local_count s. local_index i = Inr (Some k)"
proof -
  have sp: "index_space_of f = Some LocalSpace" and na: "f \<noteq> AtomU16"
    using f(2) by (auto simp: index_space_of_def)
  obtain k where k: "index_value i f = Inr k" using index_value_total [OF i f(1) sp] by blast
  have "\<exists>w. indexed_operand i = Inr (Some (LocalSpace, k, w))"
    using f(1) sp na k by (simp add: indexed_operand_def Let_def)
  then have "k < local_count s" using ok by (auto simp: index_ok_def)
  moreover have "local_index i = Inr (Some k)"
    using f k
    by (auto simp: local_index_def index_value_def short_index_def)
  ultimately show ?thesis by blast
qed

lemma index_ok_operands_ok:
  assumes i: "wf_instruction i" "wf_opcode_names (ins_opcode i)" and ok: "index_ok s i"
  shows "operands_ok s i"
proof -
  obtain f where f: "ins_format i = (Inr f :: operand_format verifying)"
    and ext: "operand_extent f \<le> ins_size i"
    using wf_instruction_format [OF i(1)] by blast
  then have nf: "from_name (op_format_name (ins_opcode i)) = Some f"
    by (simp add: ins_format_def op_format_def)
  note names = i(2) [unfolded wf_opcode_names_def nf option.case]
  have "2 \<le> local_count s" if nm: "ins_name i = ''get_loc0_loc1''"
  proof -
    have d: "f = NoneLocal" "name_digit (ins_name i) = Some 1" using names nm by simp_all
    then obtain k where "k < local_count s" "local_index i = Inr (Some k)"
      using index_ok_local [OF i ok f] by auto
    then show ?thesis using d f by (simp add: local_index_def)
  qed
  moreover have "5 \<le> ins_size i" if "ins_name i = ''push_const''" using names ext that by simp
  moreover have "2 \<le> ins_size i" if "ins_name i = ''push_const8''" using names ext that by simp
  moreover have "\<exists>k < local_count s. local_index i = Inr (Some k)" if "uses_local (ins_name i)"
    using names that index_ok_local [OF i ok f] by simp
  ultimately show ?thesis using i(1) by (simp add: operands_ok_def)
qed

section \<open>The checks before the proof\<close>

lemma decoded_opcodes: "decoded tbl p is \<Longrightarrow> i \<in> set is \<Longrightarrow> ins_opcode i \<in> set tbl"
  by (induction "is" arbitrary: p) (auto dest: from_byte_in_table)

lemma decode_verified_Inr [simp]:
  "decode_verified env s l = Inr is \<longleftrightarrow>
   decode_bounded (env_table env) (bytecode s) (max_instructions l) = Inr is"
  by (auto simp: decode_verified_def split: sum.splits bounded_decode_error.splits)

lemma decode_verified_no_panic [simp]: "no_panic (decode_verified env s l)"
  by (auto simp: decode_verified_def split: sum.splits bounded_decode_error.splits)

lemma snapshot_bytes_bytecode:
  "snapshot_bytes env s \<le> m \<Longrightarrow> m < usize_max \<Longrightarrow> length (bytecode s) \<le> m"
  by (auto simp: snapshot_bytes_def sat_add_def min_def split: if_splits)

definition prepared ::
  "build_env \<Rightarrow> compile_snapshot \<Rightarrow> verify_limits \<Rightarrow> instruction list \<Rightarrow> control_flow_graph \<Rightarrow> bool" where
  "prepared env s l is g \<longleftrightarrow>
     snapshot_bytes env s \<le> max_snapshot_bytes l \<and> metadata_bytes s \<le> max_metadata_bytes l \<and>
     decoded (env_table env) 0 is \<and> bytes_of is = bytecode s \<and> length is \<le> max_instructions l \<and>
     stream is (length (bytecode s)) \<and> list_all (index_ok s) is \<and>
     build is (length (bytecode s)) (max_basic_blocks l) = Inr g"

lemma decode_prepared:
  assumes env: "wf_env env" and l: "wf_limits l" "snapshot_bytes env s \<le> max_snapshot_bytes l"
    and d: "decode_bounded (env_table env) (bytecode s) mx = Inr is"
  shows "decoded (env_table env) 0 is \<and> bytes_of is = bytecode s \<and> length is \<le> mx"
    "stream is (length (bytecode s))" "list_all (\<lambda>i. wf_opcode_names (ins_opcode i)) is"
proof -
  have "max_snapshot_bytes l < usize_max"
    using l(1) by (simp add: wf_limits_def u32_max_def usize_max_def)
  then have len: "length (bytecode s) \<le> u32_max"
    using snapshot_bytes_bytecode [OF l(2)] l(1) by (auto simp: wf_limits_def)
  have tbl: "wf_table (env_table env)" using env by (simp add: wf_env_def)
  show dec: "decoded (env_table env) 0 is \<and> bytes_of is = bytecode s \<and> length is \<le> mx"
    using decode_bounded_iff [OF wf_table_positive [OF tbl] order_trans [OF len u32_le_usize]] d
    by blast
  then show "stream is (length (bytecode s))"
    using decoded_stream [OF tbl, of "is"] len by simp
  show "list_all (\<lambda>i. wf_opcode_names (ins_opcode i)) is"
    using dec env decoded_opcodes [of "env_table env" 0 "is"] by (auto simp: wf_env_def list_all_iff)
qed

lemma prepare_Inr:
  assumes env: "wf_env env" and s: "wf_snapshot s" and l: "wf_limits l"
    and p: "prepare env s l = Inr (is, g)"
  shows "prepared env s l is g"
proof -
  have bounds: "snapshot_bytes env s \<le> max_snapshot_bytes l" "metadata_bytes s \<le> max_metadata_bytes l"
    and d: "decode_bounded (env_table env) (bytecode s) (max_instructions l) = Inr is"
    and v: "\<exists>u. validate_indices s is = Inr u"
    and b: "build is (length (bytecode s)) (max_basic_blocks l) = Inr g"
    using p by (auto simp: prepare_def rbind_Inr_iff split: if_splits)
  from v have "list_all (index_ok s) is" using validate_indices_Inr [OF s] by blast
  with bounds b decode_prepared [OF env l bounds(1) d] show ?thesis by (simp add: prepared_def)
qed

lemma prepare_no_panic:
  assumes env: "wf_env env" and l: "wf_limits l"
  shows "no_panic (prepare env s l)"
proof -
  have "no_panic (rbind (validate_indices s is) (\<lambda>_.
      rbind (build is (length (bytecode s)) (max_basic_blocks l)) (\<lambda>g. Inr (is, g))))"
    if d: "decode_verified env s l = Inr is" and b: "snapshot_bytes env s \<le> max_snapshot_bytes l" for "is"
  proof -
    have dec: "decode_bounded (env_table env) (bytecode s) (max_instructions l) = Inr is"
      using d by simp
    note facts = decode_prepared [OF env l b dec]
    have "list_all wf_instruction is" using facts(2) by (simp add: stream_def)
    then show ?thesis
      using validate_indices_no_panic facts(3) build_no_panic [OF facts(2)]
      by (auto intro!: no_panic_rbind)
  qed
  then show ?thesis
    unfolding prepare_def by (intro no_panic_if no_panic_rbind [of "decode_verified env s l"]) simp_all
qed

text \<open>The stages after the size checks report errors of their own only.\<close>

definition check_error :: "verify_error_kind \<Rightarrow> bool" where
  "check_error k \<longleftrightarrow> k \<in> {IncompatibleSnapshot, ResourceLimit SnapshotBytes, ResourceLimit MetadataBytes}"

definition own_errors :: "'a verifying \<Rightarrow> bool" where
  "own_errors r \<longleftrightarrow> (\<forall>pc k. r = fail pc k \<longrightarrow> \<not> check_error k)"

lemma own_errors_simps [simp]:
  "own_errors (Inr x)" "own_errors panic" "own_errors (fail pc k) \<longleftrightarrow> \<not> check_error k"
  "own_errors (Inl Panicked)"
  by (auto simp: own_errors_def fail_def reject_def panic_def)

lemma own_errors_rbind [intro!]:
  "own_errors r \<Longrightarrow> (\<And>x. r = Inr x \<Longrightarrow> own_errors (f x)) \<Longrightarrow> own_errors (rbind r f)"
  by (cases r) (auto simp: own_errors_def fail_def reject_def)

lemma own_errors_fold_res:
  "(\<And>x s. x \<in> set xs \<Longrightarrow> own_errors (f x s)) \<Longrightarrow> own_errors (fold_res f xs s)"
  by (induction xs arbitrary: s) auto

lemma own_errors_map_res:
  "(\<And>x. x \<in> set xs \<Longrightarrow> own_errors (f x)) \<Longrightarrow> own_errors (map_res f xs)"
  by (induction xs) auto

lemma own_errors_option:
  "(x = None \<Longrightarrow> own_errors a) \<Longrightarrow> (\<And>v. x = Some v \<Longrightarrow> own_errors (f v)) \<Longrightarrow>
   own_errors (case x of None \<Rightarrow> a | Some v \<Rightarrow> f v)"
  by (simp split: option.split)

lemma own_errors_if:
  "(c \<Longrightarrow> own_errors a) \<Longrightarrow> (\<not> c \<Longrightarrow> own_errors b) \<Longrightarrow> own_errors (if c then a else b)"
  by simp

lemma own_errors_index [simp]: "own_errors (index xs i)" "own_errors (expect x)"
  by (simp add: index_def) (cases x; simp)

lemma own_errors_operands [simp]:
  "own_errors (operand_u8 i k)" "own_errors (operand_i8 i k)" "own_errors (operand_u16 i k)"
  "own_errors (operand_i16 i k)" "own_errors (operand_u32 i k)" "own_errors (operand_i32 i k)"
  "own_errors (ins_format i)"
  by (auto simp: operand_u8_def operand_i8_def operand_u16_def operand_i16_def operand_u32_def
      operand_i32_def ins_format_def op_format_def)

lemma own_errors_branch_target [simp]: "own_errors (branch_target i)"
  unfolding branch_target_def Let_def
  by (rule own_errors_rbind) (auto split: operand_format.split)

lemma own_errors_indexed_operand [simp]: "own_errors (indexed_operand i)"
  unfolding indexed_operand_def Let_def index_value_def
  by (intro own_errors_rbind own_errors_if own_errors_option own_errors_simps own_errors_operands
      own_errors_index)

lemma index_error_own [simp]: "\<not> check_error (index_error sp k n)"
  by (cases sp) (simp_all add: check_error_def)

lemma own_errors_validate [simp]: "own_errors (validate_indices s is)"
  unfolding validate_indices_def
  by (rule own_errors_fold_res) (auto simp: validate_index_def Let_def split: option.split)

lemma own_errors_block_tail [simp]: "own_errors (block_tail is b)"
  by (auto simp: block_tail_def)

lemma own_errors_return_point [simp]: "own_errors (return_point pcs i)"
  by (auto simp: return_point_def check_error_def split: option.split)

lemma own_errors_owner_walk [simp]: "own_errors (owner_walk is bs pcs e v p ow)"
proof (induction "is" bs pcs e v p ow rule: owner_walk.induct)
  case (2 "is" bs pcs e v pc p ow)
  show ?case
    by (subst owner_walk.simps(2), intro own_errors_if own_errors_option own_errors_rbind
        own_errors_index own_errors_block_tail own_errors_return_point "2.IH")
      (simp_all add: check_error_def)
qed simp

lemma own_errors_link [simp]: "own_errors (link_subroutine_returns is bs pcs)"
  by (auto simp: link_subroutine_returns_def collect_return_point_def install_returns_def check_error_def
      Let_def intro!: own_errors_rbind own_errors_fold_res split: list.split)

lemma own_errors_build [simp]: "own_errors (build is n mx)"
proof -
  have "own_errors (scan_instruction pcs n i st)" for pcs i st
    by (cases st) (auto simp: scan_instruction_def check_error_def Let_def split: option.split)
  moreover have "own_errors (build_block is n ix starts k)" for ix starts k
    by (auto simp: build_block_def tail_successors_def Let_def)
  ultimately show ?thesis
    by (auto simp: build_def Let_def check_error_def split_def
        intro!: own_errors_rbind own_errors_fold_res own_errors_map_res)
qed

lemma own_errors_decode [simp]: "own_errors (decode_verified env s l)"
  by (auto simp: decode_verified_def check_error_def split: sum.splits bounded_decode_error.splits)

lemma own_errors_prepare:
  assumes "source_revision s = SOURCE_REVISION" "opcode_fingerprint s = env_opcode_fingerprint env"
  shows "prepare env s l = fail pc k \<Longrightarrow> check_error k \<Longrightarrow>
    k = ResourceLimit SnapshotBytes \<and> max_snapshot_bytes l < snapshot_bytes env s \<or>
    k = ResourceLimit MetadataBytes \<and> \<not> max_snapshot_bytes l < snapshot_bytes env s"
proof -
  let ?rest = "rbind (decode_verified env s l) (\<lambda>is. rbind (validate_indices s is) (\<lambda>_.
      rbind (build is (length (bytecode s)) (max_basic_blocks l)) (\<lambda>g. Inr (is, g))))"
  have "own_errors ?rest" by auto
  then show "prepare env s l = fail pc k \<Longrightarrow> check_error k \<Longrightarrow>
    k = ResourceLimit SnapshotBytes \<and> max_snapshot_bytes l < snapshot_bytes env s \<or>
    k = ResourceLimit MetadataBytes \<and> \<not> max_snapshot_bytes l < snapshot_bytes env s"
    using assms by (auto simp: prepare_def own_errors_def fail_def reject_def split: if_splits)
qed

section \<open>Accepted functions\<close>

abbreviation vf_task :: "verified_function \<Rightarrow> verify_limits \<Rightarrow> proof_task" where
  "vf_task f l \<equiv> task_of (vf_snapshot f) (vf_instructions f) (vf_cfg f) l"

lemma task_of_simps [simp]:
  "task_snapshot (task_of s is g l) = s" "task_instructions (task_of s is g l) = is"
  "task_cfg (task_of s is g l) = g" "task_limit (task_of s is g l) = max_work_units l"
  by (simp_all add: task_of_def)

text \<open>Everything \<open>finish_verification\<close> has checked and stored when it accepts.\<close>

definition finished ::
  "compile_snapshot \<Rightarrow> instruction list \<Rightarrow> control_flow_graph \<Rightarrow> prover \<Rightarrow> verified_function \<Rightarrow> bool" where
  "finished s is g p f \<longleftrightarrow>
     vf_snapshot f = s \<and> vf_instructions f = is \<and> vf_cfg f = g \<and>
     vf_exception_handlers f = handlers p \<and> vf_unreachable f = unreachable_pcs is p \<and>
     vf_exception_regions f = exception_regions is p \<and>
     (unreachable_pcs is p = [] \<or> has_subroutines is) \<and>
     is \<noteq> [] \<and> has_valid_exit (last is) = (Inr True :: bool verifying) \<and>
     verify_metadata s is g p = Inr () \<and>
     collect_osr_points s g p (unreachable_pcs is p) = Inr (vf_osr_points f)"

lemma finish_verification_Inr:
  assumes "finish_verification s is g p = Inr f"
  shows "finished s is g p f"
proof -
  have c: "unreachable_pcs is p = [] \<or> has_subroutines is"
    using assms by (auto simp: finish_verification_def Let_def split: if_splits)
  obtain tail ok u osr where "last_opt is = Some tail" "has_valid_exit tail = (Inr ok :: bool verifying)" "ok"
    "verify_metadata s is g p = Inr u" "collect_osr_points s g p (unreachable_pcs is p) = Inr osr"
    "f = \<lparr>vf_snapshot = s, vf_instructions = is, vf_cfg = g, vf_osr_points = osr,
          vf_exception_handlers = handlers p, vf_unreachable = unreachable_pcs is p,
          vf_exception_regions = exception_regions is p\<rparr>"
    using assms by (auto simp: finish_verification_def Let_def rbind_Inr_iff split: if_splits)
  with c show ?thesis by (auto simp: finished_def last_opt_Some_iff)
qed

lemma verify_stages:
  assumes wf: "wf_env env" "wf_snapshot s" "wf_limits l" and v: "verify env s l = Some (Inr f)"
  obtains p where "prepared env s l (vf_instructions f) (vf_cfg f)"
    "wf_task (vf_task f l) (length (bytecode s))" "proved (vf_task f l) p"
    "finished s (vf_instructions f) (vf_cfg f) p f" "vf_snapshot f = s"
proof -
  obtain "is" g p where pre: "prepare env s l = Inr (is, g)"
    and pr: "prove (task_of s is g l) = Some (Inr p)" and fin: "finish_verification s is g p = Inr f"
    using v by (auto simp: verify_def split: sum.splits option.splits)
  note fin = finish_verification_Inr [OF fin]
  then have f: "vf_snapshot f = s" "vf_instructions f = is" "vf_cfg f = g" by (simp_all add: finished_def)
  note prep = prepare_Inr [OF wf pre]
  then have str: "stream is (length (bytecode s))"
    and b: "build is (length (bytecode s)) (max_basic_blocks l) = Inr g"
    by (simp_all add: prepared_def)
  have "wf_cfg is (length (bytecode s)) g" using build_wf_cfg [OF str b] by blast
  then have "wf_task (task_of s is g l) (length (bytecode s))" using str by (simp add: wf_task_def)
  moreover from this have "proved (task_of s is g l) p" using prove_proved pr by blast
  ultimately show ?thesis using that [of p] prep fin f by simp
qed

lemma body_of_in_set: "j < length (body_of t k) \<Longrightarrow> body_of t k ! j \<in> set (task_instructions t)"
  unfolding body_of_def by (metis in_set_dropD in_set_takeD nth_mem)

lemma reach_in_body: "wf_task t n \<Longrightarrow> proved t p \<Longrightarrow> reach t k j st \<Longrightarrow> j < length (body_of t k)"
  using reach_covered by (auto simp: point_covered_def)

lemma reach_wf_entry:
  assumes wt: "wf_task t n" and pr: "proved t p" and r: "reach t k j st"
  shows "wf_entry (task_snapshot t) st"
proof -
  obtain e sts where k: "j < length (body_of t k)"
    and e: "ent p (start_pc (blk t k)) = Some e"
    and run: "body_run (task_snapshot t) (body_of t k) e = Inr sts" and le: "state_le st (sts ! j)"
    using reach_covered [OF wt pr r] by (auto simp: point_covered_def)
  have "wf_entry (task_snapshot t) e" using pr e by (auto simp: proved_def prover_inv_def wf_prover_def)
  from body_wf [OF run this, of j] k have w: "wf_entry (task_snapshot t) (sts ! j)" by simp
  have "stack st ! x = CatchOffset" if "stack (sts ! j) ! x = CatchOffset" "x < length (stack (sts ! j))" for x
    using le that list_all2_nthD2 [of kind_le "stack st" "stack (sts ! j)" x]
    by (auto simp: state_le_def)
  with w le state_le_heights [OF le] show ?thesis by (auto simp: wf_entry_def catches_ok_def state_le_def)
qed

lemma live_slots_le: "state_le a b \<Longrightarrow> kinds_le (live_slots s a) (live_slots s b)"
  by (auto simp: live_slots_def state_le_def intro!: list_all2_appendI)

lemma unreachable_pcs_mem:
  "pc \<in> set (unreachable_pcs is p) \<longleftrightarrow> pc \<in> ins_pc ` set is \<and> pc \<notin> set (visited p)"
  by (auto simp: unreachable_pcs_def)

lemma before_points_mem:
  "pc \<in> set (before_points t) \<longleftrightarrow>
     pc \<in> osr_pc ` set (osr_points (metadata (task_snapshot t))) \<or>
     pc \<in> deopt_pc ` set (deopt_points (metadata (task_snapshot t))) \<or>
     pc \<in> start_pc ` set (blocks (task_cfg t)) \<and> is_loop_header (task_cfg t) pc"
  by (auto simp: before_points_def)

lemma after_points_mem:
  "pc \<in> set (after_points t) \<longleftrightarrow> pc \<in> deopt_pc ` set (deopt_points (metadata (task_snapshot t)))"
  by (auto simp: after_points_def)

lemma fold_res_unit_Inr:
  "fold_res f xs () = Inr u \<longleftrightarrow> (\<forall>x \<in> set xs. f x () = Inr ())"
  by (induction xs) (auto simp: rbind_Inr_iff)

lemma verify_osr_point_Inr:
  "verify_osr_point s pcs g p point u = Inr v \<longleftrightarrow>
     osr_pc point \<in> set pcs \<and> is_loop_header g (osr_pc point) \<and>
     (\<exists>st. map_of (before p) (osr_pc point) = Some st \<and> osr_live_slots point = live_slots s st)"
  by (auto simp: verify_osr_point_def split: option.splits)

lemma verify_deopt_point_Inr:
  "verify_deopt_point s pcs p point u = Inr v \<longleftrightarrow>
     deopt_pc point \<in> set pcs \<and>
     (\<exists>b a. map_of (before p) (deopt_pc point) = Some b \<and> map_of (after p) (deopt_pc point) = Some a \<and>
        deopt_before point = live_slots s b \<and> deopt_after point = live_slots s a)"
  by (auto simp: verify_deopt_point_def split: option.splits)

lemma verify_metadata_Inr:
  "verify_metadata s is g p = Inr u \<longleftrightarrow>
     (\<forall>point \<in> set (osr_points (metadata s)).
        verify_osr_point s (bs_of_list (map ins_pc is)) g p point () = Inr ()) \<and>
     (\<forall>point \<in> set (deopt_points (metadata s)).
        verify_deopt_point s (bs_of_list (map ins_pc is)) p point () = Inr ())"
  by (simp add: verify_metadata_def Let_def rbind_Inr_iff fold_res_unit_Inr)

section \<open>No panics in the rest of the verifier\<close>

lemma verify_metadata_no_panic [simp]: "no_panic (verify_metadata s is g p)"
  by (auto simp: verify_metadata_def verify_osr_point_def verify_deopt_point_def Let_def
      intro!: no_panic_rbind no_panic_fold_res [of "\<lambda>_. True"] split: option.split)

lemma collect_osr_points_no_panic [simp]: "no_panic (collect_osr_points s g p u)"
  by (auto simp: collect_osr_points_def proven_osr_point_def intro!: no_panic_map_res no_panic_rbind)

lemma finish_no_panic:
  assumes "list_all wf_instruction is" "is \<noteq> []"
  shows "no_panic (finish_verification s is g p)"
proof -
  have l: "last_opt is = Some (last is)" using assms(2) by (simp add: last_opt_def)
  have "wf_instruction (last is)" using assms by (simp add: list_all_iff)
  then obtain t where "branch_target (last is) = (Inr t :: int option verifying)"
    using branch_target_no_panic [where ?'e = verify_error] by blast
  then have "no_panic (has_valid_exit (last is) :: bool verifying)" by (simp add: has_valid_exit_def)
  then show ?thesis using l by (auto simp: finish_verification_def Let_def intro!: no_panic_rbind)
qed

lemma verify_result:
  assumes wf: "wf_env env" "wf_snapshot s" "wf_limits l"
  shows "\<exists>r. verify env s l = Some r \<and> no_panic r"
proof (cases "prepare env s l")
  case (Inl e)
  then show ?thesis using prepare_no_panic [OF wf(1,3), of s] by (simp add: verify_def no_panic_def)
next
  case (Inr r)
  obtain "is" g where r: "r = (is, g)" by (cases r)
  let ?t = "task_of s is g l"
  have pre: "prepared env s l is g" using prepare_Inr [OF wf] Inr r by simp
  then have str: "stream is (length (bytecode s))"
    and b: "build is (length (bytecode s)) (max_basic_blocks l) = Inr g"
    by (simp_all add: prepared_def)
  have wt: "wf_task ?t (length (bytecode s))"
    using build_wf_cfg [OF str b] str by (simp add: wf_task_def)
  have names: "list_all (\<lambda>i. wf_opcode_names (ins_opcode i)) is"
    using pre wf(1) decoded_opcodes [of "env_table env" 0 "is"]
    by (auto simp: prepared_def wf_env_def list_all_iff)
  have "task_operands_ok ?t"
    using index_ok_operands_ok str names pre
    by (auto simp: task_operands_ok_def list_all_iff stream_def prepared_def)
  then have np: "no_panic r" if "prove ?t = Some r" for r using prove_no_panic [OF wt] that by blast
  have "\<exists>r. prove ?t = Some r" using prove_terminates wf(3) by (simp add: wf_limits_def)
  then obtain q where q: "prove ?t = Some q" by blast
  have "is \<noteq> []" using b by (auto simp: build_def)
  then have "no_panic (finish_verification s is g p)" for p
    using finish_no_panic str by (simp add: stream_def)
  then show ?thesis using Inr r q np [OF q] by (cases q) (auto simp: verify_def no_panic_def)
qed

lemma verify_reach_proved:
  assumes wf: "wf_env env" "wf_snapshot s" "wf_limits l" and v: "verify env s l = Some (Inr f)"
    and r: "reach (vf_task f l) k j st"
  obtains p where "point_proved (vf_task f l) p (body_of (vf_task f l) k ! j) st"
    "finished s (vf_instructions f) (vf_cfg f) p f" "vf_snapshot f = s"
    "body_of (vf_task f l) k ! j \<in> set (vf_instructions f)"
    "wf_task (vf_task f l) (length (bytecode s))" "wf_entry s st"
proof -
  obtain p where w: "wf_task (vf_task f l) (length (bytecode s))" and pr: "proved (vf_task f l) p"
    and fin: "finished s (vf_instructions f) (vf_cfg f) p f" and s: "vf_snapshot f = s"
    using verify_stages [OF wf v] by blast
  have "body_of (vf_task f l) k ! j \<in> set (vf_instructions f)"
    using body_of_in_set [OF reach_in_body [OF w pr r]] by simp
  moreover have "wf_entry s st" using reach_wf_entry [OF w pr r] s by simp
  ultimately show ?thesis using that [OF reach_proved [OF w pr r] fin s] w by blast
qed

text \<open>A live handler shows up in the recorded exception handler.\<close>

lemma innermost_catch_handler:
  assumes "wf_entry s st" "wf_snapshot s" "innermost_handler st \<noteq> None"
  shows "\<exists>h. innermost_catch st = Some h \<and> resumes_in_frame h"
proof -
  have ne: "catches st \<noteq> []" using assms(3) by (auto simp: innermost_handler_def)
  obtain ix h where c: "last (catches st) = (ix, h)" by (cases "last (catches st)")
  have "(ix, h) \<in> set (catches st)" using ne c by (metis last_in_set)
  then have "ix < length (stack st)" using assms(1) by (auto simp: wf_entry_def catches_ok_def)
  then have "ix \<le> u16_max" using assms(1,2) by (simp add: wf_entry_def wf_snapshot_def)
  then show ?thesis using ne c assms(3) by (simp add: innermost_catch_def last_opt_def)
qed

lemma unwind_find_handler: "unwind cs = None \<longleftrightarrow> find_handler cs = None"
  by (induction cs rule: find_handler.induct) (auto split: option.splits)

lemma exception_state_None: "exception_state st = None \<longleftrightarrow> innermost_handler st = None"
  using unwind_find_handler [of "rev (catches st)"]
  by (auto simp: exception_state_def innermost_handler_def split: option.splits)

lemma osr_point_of_header:
  assumes fin: "finished s is g p f" and h: "is_loop_header g pc" "pc \<in> start_pc ` set (blocks g)"
    and v: "pc \<in> set (visited p)" and b: "map_of (before p) pc = Some st"
  shows "\<lparr>osr_pc = pc, osr_live_slots = live_slots s st\<rparr> \<in> set (vf_osr_points f)"
proof -
  let ?pcs = "filter (\<lambda>pc. is_loop_header g pc \<and> pc \<notin> set (unreachable_pcs is p))
      (map start_pc (blocks g))"
  have all: "list_all2 (\<lambda>pc point. proven_osr_point s p pc = Inr point) ?pcs (vf_osr_points f)"
    using fin by (simp add: finished_def collect_osr_points_def map_res_Inr_iff)
  have "pc \<in> set ?pcs" using h v by (auto simp: unreachable_pcs_mem)
  then obtain m where m: "m < length ?pcs" "?pcs ! m = pc" by (auto simp only: in_set_conv_nth)
  have "proven_osr_point s p pc = Inr (vf_osr_points f ! m)"
    using list_all2_nthD [OF all m(1)] m(2) by simp
  moreover have "m < length (vf_osr_points f)" using list_all2_lengthD [OF all] m(1) by simp
  ultimately show ?thesis using b nth_mem by (auto simp: proven_osr_point_def)
qed

section \<open>The work of the prover\<close>

text \<open>
  The units are a real cost: each instruction the prover visits costs one unit and one for every
  local of the frame, on top of one for every local of the initial frame.
\<close>

definition work_paid :: "proof_task \<Rightarrow> prover \<Rightarrow> bool" where
  "work_paid t p \<longleftrightarrow>
     local_count (task_snapshot t) + Suc (local_count (task_snapshot t)) * card (set (visited p)) \<le> used p \<and>
     used p \<le> task_limit t"

text \<open>A step that visits no instruction only spends units, within the limit.\<close>

definition spends :: "proof_task \<Rightarrow> prover \<Rightarrow> prover \<Rightarrow> bool" where
  "spends t p q \<longleftrightarrow> visited q = visited p \<and> used p \<le> used q \<and>
     (used p \<le> task_limit t \<longrightarrow> used q \<le> task_limit t)"

lemma spends_refl [simp]: "spends t p p"
  by (simp add: spends_def)

lemma spends_trans: "spends t p q \<Longrightarrow> spends t q r \<Longrightarrow> spends t p r"
  by (simp add: spends_def)

lemma work_paid_spends: "work_paid t p \<Longrightarrow> spends t p q \<Longrightarrow> work_paid t q"
  by (simp add: work_paid_def spends_def)

lemma charge_to_spends:
  "charge_to t pc n p = Inr q \<Longrightarrow> task_limit t < usize_max \<Longrightarrow> spends t p q"
  using charge_to_used [of t pc n p q] charge_to_Inr [of t pc n p q] by (auto simp: spends_def)

lemma spends_fields [simp]:
  "spends t p (q\<lparr>before := b\<rparr>) = spends t p q" "spends t p (q\<lparr>after := b\<rparr>) = spends t p q"
  "spends t p (update_entry k r q) = spends t p q" "spends t p (insert_entry k st q) = spends t p q"
  by (simp_all add: spends_def update_entry_def insert_entry_def Let_def)

lemma record_before_spends:
  "record_before t pc st p = Inr q \<Longrightarrow> task_limit t < usize_max \<Longrightarrow> spends t p q"
  by (auto simp: record_before_def rbind_Inr_iff dest!: charge_to_spends split: if_splits)

lemma record_after_spends:
  "record_after t pc st p = Inr q \<Longrightarrow> task_limit t < usize_max \<Longrightarrow> spends t p q"
  by (auto simp: record_after_def rbind_Inr_iff dest!: charge_to_spends split: if_splits)

lemma propagate_spends:
  "propagate_exception t pc st p = Inr q \<Longrightarrow> task_limit t < usize_max \<Longrightarrow> spends t p q"
  by (auto simp: propagate_exception_def rbind_Inr_iff dest!: charge_to_spends split: option.splits)

lemma prove_successor_spends:
  "prove_successor t tail ct st x p = Inr q \<Longrightarrow> task_limit t < usize_max \<Longrightarrow> spends t p q"
  by (auto simp: prove_successor_def flow_to_handler_def flow_to_block_def rbind_Inr_iff Let_def
      dest!: charge_to_spends split: option.splits if_splits)

lemma prove_successors_spends:
  "fold_res (prove_successor t tail ct st) xs p = Inr q \<Longrightarrow> task_limit t < usize_max \<Longrightarrow> spends t p q"
  by (induction xs arbitrary: p)
    (auto simp: rbind_Inr_iff intro: spends_trans dest!: prove_successor_spends)

lemma prove_instruction_work:
  assumes run: "prove_instruction t i (st, p) = Inr (st', p')" and lim: "task_limit t < usize_max"
    and st: "wf_entry (task_snapshot t) st" and paid: "work_paid t p"
  shows "wf_entry (task_snapshot t) st' \<and> work_paid t p'"
proof -
  let ?c = "local_count (task_snapshot t)" and ?u = "sat_add usize_max 1 (cell_count st)"
  obtain p1 p2 p3 where
    1: "charge_to t (ins_pc i) ?u p = Inr p1"
    and 2: "record_before t (ins_pc i) st p1 = Inr p2"
    and 3: "propagate_exception t (ins_pc i) st (record_visit (ins_pc i) st p2) = Inr p3"
    and tr: "transfer (task_snapshot t) i st = Inr st'"
    and 4: "record_after t (ins_pc i) st' p3 = Inr p'"
    using run by (auto simp: prove_instruction_def Let_def rbind_Inr_iff)
  have u1: "used p1 = used p + ?u" "used p1 \<le> task_limit t" using charge_to_used [OF 1 lim] by simp_all
  then have "?u < usize_max" using lim by linarith
  then have "Suc ?c \<le> ?u"
    using st by (auto simp: sat_add_def cell_count_def wf_entry_def min_def split: if_splits)
  then have "used p + Suc ?c \<le> used p1" using u1(1) by linarith
  moreover have s2: "spends t p1 p2" by (rule record_before_spends [OF 2 lim])
  moreover have v1: "visited p1 = visited p" using charge_to_Inr [OF 1] by auto
  moreover have "card (insert (ins_pc i) (set (visited p))) \<le> Suc (card (set (visited p)))"
    by (simp add: card_insert_if)
  then have "Suc ?c * card (insert (ins_pc i) (set (visited p))) \<le> Suc ?c * card (set (visited p)) + Suc ?c"
    by (metis mult_Suc_right mult_le_mono2 add.commute)
  ultimately have "work_paid t (record_visit (ins_pc i) st p2)"
    using paid u1(2) unfolding work_paid_def record_visit_def spends_def by simp
  then have "work_paid t p'"
    using propagate_spends [OF 3 lim] record_after_spends [OF 4 lim] work_paid_spends by blast
  with wf_entry_transfer [OF st tr] show ?thesis by simp
qed

lemma prove_body_work:
  assumes "fold_res (prove_instruction t) body (st, p) = Inr (st', p')" "task_limit t < usize_max"
    "wf_entry (task_snapshot t) st" "work_paid t p"
  shows "work_paid t p'"
  using assms(1,3,4)
proof (induction body arbitrary: st p)
  case (Cons i body)
  then obtain st1 p1 where "prove_instruction t i (st, p) = Inr (st1, p1)"
    "fold_res (prove_instruction t) body (st1, p1) = Inr (st', p')" by (auto simp: rbind_Inr_iff)
  with prove_instruction_work [OF _ assms(2)] Cons show ?case by blast
qed simp

lemma prove_round_work:
  assumes run: "prove_round t pc p = Inr p'" and lim: "task_limit t < usize_max"
    and wf: "wf_prover t p" and paid: "work_paid t p"
  shows "work_paid t p'"
proof -
  obtain e p1 body p2 tail ct xs where
    e: "ent p pc = Some e" and 1: "charge_to t pc (cell_count e) p = Inr p1"
    and body: "\<exists>st'. fold_res (prove_instruction t) body (e, p1) = Inr (st', p2)"
    and succ: "\<exists>st'. fold_res (prove_successor t tail ct st') xs p2 = Inr p'"
    using run unfolding prove_round_def rbind_Inr_iff
    by (auto simp: rbind_Inr_iff split: if_splits) blast+
  have "wf_entry (task_snapshot t) e" using wf e by (simp add: wf_prover_def)
  moreover have "work_paid t p1" by (rule work_paid_spends [OF paid charge_to_spends [OF 1 lim]])
  ultimately have "work_paid t p2" using prove_body_work [OF _ lim] body by blast
  then show ?thesis using prove_successors_spends [OF _ lim] succ work_paid_spends by blast
qed

lemma prove_loop_work:
  assumes lim: "task_limit t < usize_max" and wt: "wf_task t n"
  shows "prove_loop t p = Some (Inr q) \<Longrightarrow> prover_inv t p \<Longrightarrow> work_paid t p \<Longrightarrow> work_paid t q"
proof (induction "Suc (task_limit t) - used p" arbitrary: p rule: less_induct)
  case less
  show ?case
  proof (cases "queue p")
    case Nil
    then show ?thesis using less.prems by (simp add: prove_loop.simps)
  next
    case (Cons pc rest)
    with less.prems(1) obtain p' where r: "prove_round t pc (p\<lparr>queue := rest\<rparr>) = Inr p'"
      and l: "prove_loop t p' = Some (Inr q)"
      by (subst (asm) prove_loop.simps) (auto split: sum.splits)
    from prove_round_used [OF r lim] have "used p < used p'" "used p \<le> task_limit t" by simp_all
    then have "Suc (task_limit t) - used p' < Suc (task_limit t) - used p" by linarith
    moreover have "work_paid t p'"
      using prove_round_work [OF r lim] less.prems(2,3)
      by (simp add: prover_inv_def wf_prover_def work_paid_def)
    ultimately show ?thesis using less.hyps l prove_round_inv [OF wt less.prems(2) Cons r] by blast
  qed
qed

lemma prove_work:
  assumes lim: "task_limit t < usize_max" and wt: "wf_task t n" and p: "prove t = Some (Inr p)"
    and s: "local_count (task_snapshot t) \<le> usize_max"
  shows "work_paid t p"
proof -
  have "0 < block_count t" using wt by (simp add: wf_task_def wf_cfg_def)
  then have "task_instructions t \<noteq> []" using body_of_length(3,4) [OF wt] by fastforce
  with p obtain u where u: "charge (task_limit t) 0 0 (local_count (task_snapshot t)) = Inr u"
    and l: "prove_loop t (initial_prover t u) = Some (Inr p)"
    by (auto simp: prove_def split: sum.splits)
  have "work_paid t (initial_prover t u)"
    using u s by (auto simp: charge_def Let_def sat_add_def work_paid_def initial_prover_def split: if_splits)
  from prove_loop_work [OF lim wt l initial_prover_inv [OF wt] this] show ?thesis .
qed

section \<open>Operands in the bytes\<close>

text \<open>
  The slots an instruction addresses, read off its bytes: \<open>names_slot i space k\<close> if executing \<open>i\<close>
  accesses slot \<open>k\<close> of \<open>space\<close>. Operands are little-endian and follow the opcode byte; the compact
  opcodes carry the index in the last character of their name, the reference opcodes behind an
  atom of four bytes, and a disposal also uses the slot after its operand.
\<close>

definition byte_at :: "instruction \<Rightarrow> nat \<Rightarrow> nat" where
  "byte_at i k = unat (ins_bytes i ! k)"

abbreviation format_name :: "instruction \<Rightarrow> string" where
  "format_name i \<equiv> op_format_name (ins_opcode i)"

definition operand_space :: "string \<Rightarrow> index_space option" where
  "operand_space nm = map_of
     [(''loc'', LocalSpace), (''loc8'', LocalSpace), (''none_loc'', LocalSpace),
      (''arg'', ArgumentSpace), (''none_arg'', ArgumentSpace),
      (''var_ref'', ClosureSpace), (''none_var_ref'', ClosureSpace),
      (''const'', ConstantSpace), (''const8'', ConstantSpace)] nm"

inductive operand_slot :: "instruction \<Rightarrow> index_space \<Rightarrow> nat \<Rightarrow> bool" for i where
  slot_u8: "format_name i \<in> {''loc8'', ''const8''} \<Longrightarrow> operand_space (format_name i) = Some sp \<Longrightarrow>
    operand_slot i sp (byte_at i 1)"
| slot_u16: "format_name i \<in> {''loc'', ''arg'', ''var_ref''} \<Longrightarrow>
    operand_space (format_name i) = Some sp \<Longrightarrow> operand_slot i sp (byte_at i 1 + 256 * byte_at i 2)"
| slot_u32: "format_name i = ''const'' \<Longrightarrow> operand_slot i ConstantSpace
    (byte_at i 1 + 256 * byte_at i 2 + 65536 * byte_at i 3 + 16777216 * byte_at i 4)"
| slot_digit: "format_name i \<in> {''none_loc'', ''none_arg'', ''none_var_ref''} \<Longrightarrow>
    operand_space (format_name i) = Some sp \<Longrightarrow> ins_name i \<noteq> [] \<Longrightarrow>
    of_char (last (ins_name i)) = 48 + k \<Longrightarrow> k \<le> 9 \<Longrightarrow> operand_slot i sp k"
| slot_ref: "format_name i = ''atom_u16'' \<Longrightarrow>
    (ins_name i, sp) \<in> {(''make_loc_ref'', LocalSpace), (''make_arg_ref'', ArgumentSpace),
      (''make_var_ref_ref'', ClosureSpace)} \<Longrightarrow> operand_slot i sp (byte_at i 5 + 256 * byte_at i 6)"

definition names_slot :: "instruction \<Rightarrow> index_space \<Rightarrow> nat \<Rightarrow> bool" where
  "names_slot i sp k \<longleftrightarrow> (\<exists>j. operand_slot i sp j \<and>
     (k = j \<or> ins_name i \<in> {''using_dispose'', ''using_dispose_async''} \<and> k = Suc j))"

lemma operand_bytes:
  "operand_u8 i k = (Inr v :: nat verifying) \<Longrightarrow> v = byte_at i k"
  "operand_u16 i k = (Inr v :: nat verifying) \<Longrightarrow> v = byte_at i k + 256 * byte_at i (k + 1)"
  "operand_u32 i k = (Inr v :: nat verifying) \<Longrightarrow>
     v = byte_at i k + 256 * byte_at i (k + 1) + 65536 * byte_at i (k + 2) + 16777216 * byte_at i (k + 3)"
  by (auto simp: operand_u8_def operand_u16_def operand_u32_def rbind_Inr_iff index_Inr_iff byte_at_def)

lemma operand_slot_indexed:
  assumes slot: "operand_slot i sp k" and ok: "indexed_operand i = Inr r"
  shows "\<exists>w. r = Some (sp, k, w) \<and>
    (ins_name i \<in> {''using_dispose'', ''using_dispose_async''} \<longrightarrow> w = 2)"
  using slot
proof (cases rule: operand_slot.cases)
  case slot_u8
  with ok operand_bytes(1) [of i 1] show ?thesis
    by (auto simp: indexed_operand_def ins_format_def op_format_def from_name_def operand_space_def
        index_space_of_def index_value_def Let_def rbind_Inr_iff split: if_splits)
next
  case slot_u16
  with ok operand_bytes(2) [of i 1] show ?thesis
    by (auto simp: indexed_operand_def ins_format_def op_format_def from_name_def operand_space_def
        index_space_of_def index_value_def Let_def rbind_Inr_iff numeral_2_eq_2
        split: if_splits)
next
  case slot_u32
  have four: "(4 :: nat) = Suc (Suc (Suc (Suc 0)))" by simp
  from slot_u32 ok operand_bytes(3) [of i 1] show ?thesis
    by (auto simp: indexed_operand_def ins_format_def op_format_def from_name_def
        index_space_of_def index_value_def Let_def rbind_Inr_iff numeral_2_eq_2 numeral_3_eq_3 four
        split: if_splits)
next
  case slot_digit
  then have "short_index i = Some k"
    by (simp add: short_index_def name_digit_def last_opt_def Let_def)
  with slot_digit ok show ?thesis
    by (auto simp: indexed_operand_def ins_format_def op_format_def from_name_def operand_space_def
        index_space_of_def index_value_def Let_def rbind_Inr_iff split: if_splits)
next
  case slot_ref
  with ok operand_bytes(2) [of i 5] show ?thesis
    by (auto simp: indexed_operand_def ins_format_def op_format_def from_name_def Let_def rbind_Inr_iff)
qed

lemma index_ok_slots:
  assumes "index_ok s i" "names_slot i sp k"
  shows "k < space_count s sp"
proof -
  obtain j where j: "operand_slot i sp j"
    and k: "k = j \<or> ins_name i \<in> {''using_dispose'', ''using_dispose_async''} \<and> k = Suc j"
    using assms(2) by (auto simp: names_slot_def)
  obtain r where r: "indexed_operand i = Inr r"
    "case r of None \<Rightarrow> True | Some (space, k, width) \<Rightarrow> k + (width - 1) < space_count s space"
    using assms(1) by (auto simp: index_ok_def)
  from operand_slot_indexed [OF j r(1)] r(2) k show ?thesis by auto
qed

section \<open>Exits and sizes\<close>

lemma valid_exit_names:
  assumes exit: "has_valid_exit i = (Inr True :: bool verifying)"
    and sc: "scanned n i (start_pc ` set bs) H" and bs: "start_pc ` set bs \<subseteq> ins_pc ` set is"
  shows "ins_name i \<in> {''return'', ''return_undef'', ''return_async'', ''throw'', ''throw_error'',
      ''tail_call'', ''tail_call_method'', ''ret''} \<or>
    ins_name i \<in> {''goto'', ''goto8'', ''goto16'', ''gosub''} \<and>
    (\<exists>j \<in> set is. branch_target i = (Inr (Some (int (ins_pc j))) :: int option verifying))"
proof (cases "is_terminal i \<or> is_subroutine_return i")
  case True
  then show ?thesis by (auto simp: is_terminal_def is_subroutine_return_def)
next
  case False
  with exit obtain t where t: "branch_target i = (Inr (Some t) :: int option verifying)"
    and un: "is_unconditional i" by (auto simp: has_valid_exit_def rbind_Inr_iff)
  from scanned_target [OF sc t] have "0 \<le> t" "nat t \<in> ins_pc ` set is" using bs by auto
  then have "\<exists>j \<in> set is. t = int (ins_pc j)" by (metis imageE int_nat_eq)
  with t un show ?thesis by (auto simp: is_unconditional_def)
qed

lemma snapshot_bytes_exact:
  assumes "snapshot_bytes env s \<le> m" "m \<le> u32_max"
  shows "length (bytecode s) + length (exception_map s) + length (source_map s) +
    constant_count s * env_descriptor_size env \<le> m"
proof -
  have "m < usize_max" using assms(2) by (simp add: u32_max_def usize_max_def)
  with assms(1) show ?thesis
    unfolding snapshot_bytes_def sat_add_def sat_mul_def by linarith
qed

lemma metadata_bytes_exact:
  "metadata_bytes s = min usize_max
     (32 + (\<Sum>p \<leftarrow> osr_points (metadata s). 4 + length (osr_live_slots p)) +
      (\<Sum>p \<leftarrow> deopt_points (metadata s). 4 + length (deopt_before p) + length (deopt_after p)) +
      length (exception_map s) + length (source_map s))"
  unfolding metadata_bytes_def metadata_byte_len_def sat_add_def Let_def by linarith

lemma verify_proof:
  assumes wf: "wf_env env" "wf_snapshot s" "wf_limits l" and v: "verify env s l = Some (Inr f)"
  obtains p where "prove (vf_task f l) = Some (Inr p)" "work_paid (vf_task f l) p"
    "finished s (vf_instructions f) (vf_cfg f) p f" "vf_snapshot f = s"
proof -
  obtain "is" g p where pre: "prepare env s l = Inr (is, g)"
    and pr: "prove (task_of s is g l) = Some (Inr p)" and fin: "finish_verification s is g p = Inr f"
    using v by (auto simp: verify_def split: sum.splits option.splits)
  note fin = finish_verification_Inr [OF fin]
  then have f: "vf_snapshot f = s" "vf_instructions f = is" "vf_cfg f = g" by (simp_all add: finished_def)
  obtain q where wt: "wf_task (vf_task f l) (length (bytecode s))" using verify_stages [OF assms] by blast
  have "local_count s \<le> usize_max" "max_work_units l < usize_max"
    using wf by (simp_all add: wf_snapshot_def wf_limits_def u16_max_def usize_max_def)
  then have "work_paid (vf_task f l) p" using prove_work [OF _ wt] pr f by simp
  then show ?thesis using that [of p] pr fin f by simp
qed

lemma reachable_work:
  assumes "finished s is g p f" "sorted_wrt (<) (map ins_pc is)"
  shows "length (filter (\<lambda>i. is_reachable f (ins_pc i)) is) \<le> card (set (visited p))"
proof -
  let ?r = "filter (\<lambda>i. is_reachable f (ins_pc i)) is"
  have "distinct (map ins_pc is)" using assms(2) strict_sorted_iff by blast
  then have "distinct (map ins_pc ?r)" by (simp add: distinct_map_filter)
  then have "length ?r = card (ins_pc ` set ?r)" by (metis distinct_card length_map set_map)
  moreover have "ins_pc ` set ?r \<subseteq> set (visited p)"
    using assms(1) by (auto simp: finished_def is_reachable_def unreachable_pcs_mem)
  ultimately show ?thesis using card_mono by (metis List.finite_set)
qed

lemma block_starts:
  assumes g: "wf_cfg is n g"
  shows "start_pc ` set (blocks g) \<subseteq> ins_pc ` set is"
proof
  fix x assume "x \<in> start_pc ` set (blocks g)"
  then obtain k where k: "k < length (blocks g)" "x = start_pc (blocks g ! k)"
    by (auto simp: in_set_conv_nth)
  have "range_first (blocks g ! k) < length is" using block_bounds(1,2) [OF g k(1)] by simp
  then show "x \<in> ins_pc ` set is" using block_bounds(3) [OF g k(1)] k(2) by (metis imageI nth_mem)
qed

section \<open>The sample functions\<close>

definition sample_function :: "8 word list \<Rightarrow> verified_function" where
  "sample_function bs =
     (case verify sample_env (sample_snapshot bs) default_limits of
        Some (Inr f) \<Rightarrow> f
      | _ \<Rightarrow> \<lparr>vf_snapshot = sample_snapshot bs, vf_instructions = [], vf_cfg = sample_cfg bs,
             vf_osr_points = [], vf_exception_handlers = [], vf_unreachable = [],
             vf_exception_regions = False\<rparr>)"

lemma sample_wf: "wf_env sample_env" "wf_snapshot (sample_snapshot bs)" "wf_limits default_limits"
proof -
  show "wf_env sample_env" by code_simp
  show "wf_limits default_limits" by code_simp
  show "wf_snapshot (sample_snapshot bs)"
    by (simp add: wf_snapshot_def sample_snapshot_def with_metadata_def from_untrusted_bytecode_def
        from_untrusted_bytecode_with_flags_def u16_max_def)
qed

lemma sample_verify:
  "verify sample_env (sample_snapshot sample_loop) default_limits = Some (Inr (sample_function sample_loop))"
  "verify sample_env (sample_snapshot sample_try) default_limits = Some (Inr (sample_function sample_try))"
  by code_simp+

lemma sample_vf_task:
  "vf_task (sample_function sample_loop) default_limits = sample_task sample_loop"
  "vf_task (sample_function sample_try) default_limits = sample_task sample_try"
  by code_simp+

section \<open>Properties\<close>

text \<open>
  C1. Verified functions run safely on the abstract machine. Let \<open>verify\<close> accept a snapshot.
  Every state the machine reaches at an instruction satisfies: the instruction is one of the
  function's and is marked reachable, the stack fits the declared size, the exception handler the
  function reports for the pc is exactly the innermost live catch offset, and the instruction can
  be executed: no stack underflow, no overflow, no missing catch region.
\<close>

theorem verify_sound:
  assumes "wf_env env" "wf_snapshot s" "wf_limits l" "verify env s l = Some (Inr f)"
    and "reach (vf_task f l) k j st" "i = body_of (vf_task f l) k ! j"
  shows "i \<in> set (vf_instructions f) \<and> is_reachable f (ins_pc i) \<and>
    length (stack st) \<le> stack_size s \<and> length (locals st) = local_count s \<and>
    vf_exception_handler f (ins_pc i) = innermost_catch st \<and> (\<exists>st'. transfer s i st = Inr st')"
proof -
  obtain p where "point_proved (vf_task f l) p i st" "finished s (vf_instructions f) (vf_cfg f) p f"
    "vf_snapshot f = s" "i \<in> set (vf_instructions f)" "wf_entry s st"
    using verify_reach_proved [OF assms(1-5)] assms(6) by metis
  then show ?thesis
    by (auto simp: point_proved_def finished_def is_reachable_def unreachable_pcs_mem
        vf_exception_handler_def wf_entry_def)
qed

theorem verify_sound_witness:
  "is_reachable (sample_function sample_try) 12 \<and>
   vf_exception_handler (sample_function sample_try) 12 = None"
proof -
  note r = sample_reach_handler [folded sample_vf_task(2)]
  have i: "ins_pc (body_of (vf_task (sample_function sample_try) default_limits) 3 ! 0) = 12"
    unfolding sample_vf_task by code_simp
  have c: "innermost_catch (frame [Tagged] [Tagged] []) = None" by code_simp
  show ?thesis
    using verify_sound [OF sample_wf(1) sample_wf(2) sample_wf(3) sample_verify(2) r refl] i c by simp
qed

text \<open>
  OSR entries are sound. Whenever the machine reaches a loop header of a verified function,
  the function has an OSR point for that pc whose live slots (arguments, locals, closure
  references, stack) have the exact layout of the reached frame and claim of no slot a kind the
  frame does not have.
\<close>

theorem osr_points_sound:
  assumes "wf_env env" "wf_snapshot s" "wf_limits l" "verify env s l = Some (Inr f)"
    and "reach (vf_task f l) k j st" "i = body_of (vf_task f l) k ! j"
    and h: "is_loop_header (vf_cfg f) (ins_pc i)"
  shows "\<exists>point \<in> set (vf_osr_points f).
    osr_pc point = ins_pc i \<and> kinds_le (live_slots s st) (osr_live_slots point)"
proof -
  obtain p where pp: "point_proved (vf_task f l) p i st"
    and fin: "finished s (vf_instructions f) (vf_cfg f) p f" and s: "vf_snapshot f = s"
    and wt: "wf_task (vf_task f l) (length (bytecode s))"
    using verify_reach_proved [OF assms(1-5)] assms(6) by metis
  have start: "ins_pc i \<in> start_pc ` set (blocks (vf_cfg f))"
    using wt h by (auto simp: wf_task_def wf_cfg_def is_loop_header_def)
  then have "ins_pc i \<in> set (before_points (vf_task f l))" using h by (simp add: before_points_mem)
  then obtain b where b: "map_of (before p) (ins_pc i) = Some b" "state_le st b"
    using pp by (auto simp: point_proved_def)
  have "ins_pc i \<in> set (visited p)" using pp by (simp add: point_proved_def)
  from osr_point_of_header [OF fin h start this b(1)] live_slots_le [OF b(2), of s]
  show ?thesis by (intro bexI [of _ "\<lparr>osr_pc = ins_pc i, osr_live_slots = live_slots s b\<rparr>"]) simp_all
qed

theorem osr_points_sound_witness:
  "\<exists>point \<in> set (vf_osr_points (sample_function sample_loop)).
     osr_pc point = 2 \<and>
     kinds_le (live_slots (sample_snapshot sample_loop) (frame [Int32] [] [])) (osr_live_slots point)"
proof -
  let ?f = "sample_function sample_loop"
  note r = sample_reach_loop [folded sample_vf_task(1)]
  have i: "ins_pc (body_of (vf_task ?f default_limits) 1 ! 0) = 2"
    unfolding sample_vf_task by code_simp
  have h: "is_loop_header (vf_cfg ?f) (ins_pc (body_of (vf_task ?f default_limits) 1 ! 0))"
    unfolding i by code_simp
  show ?thesis
    using osr_points_sound [OF sample_wf(1) sample_wf(2) sample_wf(3) sample_verify(1) r refl h] i
    by simp
qed

text \<open>
  C4. Deoptimisation and OSR metadata are checked against the proof. For a verified function,
  the metadata of an accepted OSR point covers every state reached at its pc, and that of an
  accepted deoptimisation point covers every state reached before its instruction and the state
  after executing it.
\<close>

theorem metadata_sound:
  assumes "wf_env env" "wf_snapshot s" "wf_limits l" "verify env s l = Some (Inr f)"
    and "reach (vf_task f l) k j st" "i = body_of (vf_task f l) k ! j"
  shows "(\<forall>point \<in> set (osr_points (metadata s)). osr_pc point = ins_pc i \<longrightarrow>
      is_loop_header (vf_cfg f) (ins_pc i) \<and> kinds_le (live_slots s st) (osr_live_slots point)) \<and>
    (\<forall>point \<in> set (deopt_points (metadata s)). deopt_pc point = ins_pc i \<longrightarrow>
      kinds_le (live_slots s st) (deopt_before point) \<and>
      (\<exists>st'. transfer s i st = Inr st' \<and> kinds_le (live_slots s st') (deopt_after point)))"
proof -
  obtain p where pp: "point_proved (vf_task f l) p i st"
    and fin: "finished s (vf_instructions f) (vf_cfg f) p f" and s: "vf_snapshot f = s"
    using verify_reach_proved [OF assms(1-5)] assms(6) by metis
  let ?pcs = "bs_of_list (map ins_pc (vf_instructions f))"
  have osr: "\<forall>point \<in> set (osr_points (metadata s)).
        verify_osr_point s ?pcs (vf_cfg f) p point () = Inr ()"
    and deopt: "\<forall>point \<in> set (deopt_points (metadata s)). verify_deopt_point s ?pcs p point () = Inr ()"
    using fin by (simp_all add: finished_def verify_metadata_Inr)
  have "is_loop_header (vf_cfg f) (ins_pc i) \<and> kinds_le (live_slots s st) (osr_live_slots point)"
    if point: "point \<in> set (osr_points (metadata s))" "osr_pc point = ins_pc i" for point
  proof -
    have "verify_osr_point s ?pcs (vf_cfg f) p point () = Inr ()" using osr point(1) by blast
    then obtain b where h: "is_loop_header (vf_cfg f) (ins_pc i)"
      and b: "map_of (before p) (ins_pc i) = Some b" "osr_live_slots point = live_slots s b"
      using point(2) by (auto simp: verify_osr_point_Inr)
    have "ins_pc i \<in> set (before_points (vf_task f l))"
      using point s by (force simp: before_points_mem)
    then have "state_le st b" using pp b(1) by (auto simp: point_proved_def)
    then show ?thesis using h b(2) live_slots_le [of _ _ s] by simp
  qed
  moreover
  have "kinds_le (live_slots s st) (deopt_before point) \<and>
      (\<exists>st'. transfer s i st = Inr st' \<and> kinds_le (live_slots s st') (deopt_after point))"
    if point: "point \<in> set (deopt_points (metadata s))" "deopt_pc point = ins_pc i" for point
  proof -
    obtain b a where ba: "map_of (before p) (ins_pc i) = Some b" "map_of (after p) (ins_pc i) = Some a"
      "deopt_before point = live_slots s b" "deopt_after point = live_slots s a"
      using bspec [OF deopt point(1)] point(2) by (auto simp: verify_deopt_point_Inr)
    have "ins_pc i \<in> set (before_points (vf_task f l))" "ins_pc i \<in> set (after_points (vf_task f l))"
      using point s by (force simp: before_points_mem after_points_mem)+
    then obtain st' where "state_le st b" "transfer s i st = Inr st'" "state_le st' a"
      using pp ba s by (auto simp: point_proved_def)
    then show ?thesis using ba(3,4) live_slots_le [of _ _ s] by auto
  qed
  ultimately show ?thesis by blast
qed

theorem metadata_sound_witness:
  "kinds_le (live_slots (sample_snapshot sample_loop) (frame [Tagged] [Int32] [])) [Tagged, Int32]"
proof -
  let ?s = "sample_snapshot sample_loop"
  note r = sample_reach_store [folded sample_vf_task(1)]
  have i: "ins_pc (body_of (vf_task (sample_function sample_loop) default_limits) 0 ! 1) = 1"
    unfolding sample_vf_task by code_simp
  have p: "\<lparr>deopt_pc = 1, deopt_before = [Tagged, Int32], deopt_after = [Int32]\<rparr> \<in>
      set (deopt_points (metadata ?s))" by code_simp
  show ?thesis
    using metadata_sound [OF sample_wf(1) sample_wf(2) sample_wf(3) sample_verify(1) r refl] i p
    by fastforce
qed

text \<open>
  C2. Verification is total. For every snapshot, on a well-formed opcode table and with limits
  below the machine bounds, \<open>verify\<close> returns, and returns a function or an error: it neither loops
  nor panics, whatever the bytecode and the metadata are.
\<close>

theorem verify_total:
  assumes "wf_env env" "wf_snapshot s" "wf_limits l"
  shows "\<exists>r. verify env s l = Some r \<and> no_panic r"
  by (rule verify_result [OF assms])

theorem verify_total_witness:
  "\<exists>r. verify sample_env (sample_snapshot [6, 6, 6]) default_limits = Some r \<and> no_panic r"
  by (rule verify_total [OF sample_wf])

text \<open>
  C5. What acceptance certifies of the code. The instructions of a verified function re-encode to
  exactly the bytecode of the snapshot, and every resource limit is respected: the instructions,
  the blocks, the bytes of the snapshot, the bytes of the metadata, and the work units, of which
  the proof spent at least one per local for the entry frame and one plus one per local for every
  reachable instruction. Every slot that the bytes of an instruction name, local, argument,
  closure variable or constant, the second slot of a disposal included, is below the declared
  count. The last instruction returns, throws, makes a tail call, is \<^verbatim>\<open>ret\<close>, or jumps
  unconditionally to an instruction of the function.
\<close>

theorem verify_certifies:
  assumes wf: "wf_env env" "wf_snapshot s" "wf_limits l" and v: "verify env s l = Some (Inr f)"
  shows "bytes_of (vf_instructions f) = bytecode s \<and>
    decoded (env_table env) 0 (vf_instructions f) \<and>
    length (vf_instructions f) \<le> max_instructions l \<and>
    length (blocks (vf_cfg f)) \<le> max_basic_blocks l \<and>
    length (bytecode s) + length (exception_map s) + length (source_map s) +
      constant_count s * env_descriptor_size env \<le> max_snapshot_bytes l \<and>
    min usize_max
     (32 + (\<Sum>p \<leftarrow> osr_points (metadata s). 4 + length (osr_live_slots p)) +
      (\<Sum>p \<leftarrow> deopt_points (metadata s). 4 + length (deopt_before p) + length (deopt_after p)) +
      length (exception_map s) + length (source_map s)) \<le> max_metadata_bytes l \<and>
    (\<exists>p. prove (task_of s (vf_instructions f) (vf_cfg f) l) = Some (Inr p) \<and>
       local_count s + Suc (local_count s) *
         length (filter (\<lambda>i. is_reachable f (ins_pc i)) (vf_instructions f)) \<le> used p \<and>
       used p \<le> max_work_units l) \<and>
    (\<forall>i space k. i \<in> set (vf_instructions f) \<and> names_slot i space k \<longrightarrow> k < space_count s space) \<and>
    vf_instructions f \<noteq> [] \<and>
    (let tail = last (vf_instructions f) in
       ins_name tail \<in> {''return'', ''return_undef'', ''return_async'', ''throw'', ''throw_error'',
         ''tail_call'', ''tail_call_method'', ''ret''} \<or>
       ins_name tail \<in> {''goto'', ''goto8'', ''goto16'', ''gosub''} \<and>
       (\<exists>j \<in> set (vf_instructions f).
          branch_target tail = (Inr (Some (int (ins_pc j))) :: int option verifying)))"
proof -
  let ?is = "vf_instructions f"
  obtain p where pre: "prepared env s l ?is (vf_cfg f)" using verify_stages [OF assms] by blast
  then have str: "stream ?is (length (bytecode s))" and idx: "list_all (index_ok s) ?is"
    and b: "build ?is (length (bytecode s)) (max_basic_blocks l) = Inr (vf_cfg f)"
    and sb: "snapshot_bytes env s \<le> max_snapshot_bytes l"
    and mb: "metadata_bytes s \<le> max_metadata_bytes l" by (simp_all add: prepared_def)
  obtain q where q: "prove (vf_task f l) = Some (Inr q)" "work_paid (vf_task f l) q"
    and fin: "finished s ?is (vf_cfg f) q f" and s: "vf_snapshot f = s"
    using verify_proof [OF assms] by blast
  have ne: "?is \<noteq> []" and exit: "has_valid_exit (last ?is) = (Inr True :: bool verifying)"
    using fin by (auto simp: finished_def)
  have g: "wf_cfg ?is (length (bytecode s)) (vf_cfg f)" "length (blocks (vf_cfg f)) \<le> max_basic_blocks l"
    using build_wf_cfg [OF str b] by simp_all
  have "max_snapshot_bytes l \<le> u32_max" using wf(3) by (simp add: wf_limits_def)
  note sizes = snapshot_bytes_exact [OF sb this] mb [unfolded metadata_bytes_exact]
  have "length (filter (\<lambda>i. is_reachable f (ins_pc i)) ?is) \<le> card (set (visited q))"
    by (rule reachable_work [OF fin stream_sorted [OF str]])
  then have "Suc (local_count s) * length (filter (\<lambda>i. is_reachable f (ins_pc i)) ?is) \<le>
      Suc (local_count s) * card (set (visited q))" by (rule mult_le_mono2)
  then have work: "local_count s + Suc (local_count s) *
      length (filter (\<lambda>i. is_reachable f (ins_pc i)) ?is) \<le> used q \<and> used q \<le> max_work_units l"
    using q(2) s by (simp add: work_paid_def)
  note exit = valid_exit_names [OF exit build_scanned [OF str b last_in_set [OF ne]] block_starts [OF g(1)]]
  have slots: "\<forall>i space k. i \<in> set ?is \<and> names_slot i space k \<longrightarrow> k < space_count s space"
    using idx index_ok_slots by (auto simp: list_all_iff)
  show ?thesis
    using pre g(2) sizes work q(1) s slots ne exit unfolding prepared_def Let_def by blast
qed

theorem verify_certifies_witness:
  "bytes_of (vf_instructions (sample_function sample_loop)) = sample_loop \<and>
   names_slot (vf_instructions (sample_function sample_loop) ! 1) LocalSpace 0 \<and>
   0 < space_count (sample_snapshot sample_loop) LocalSpace \<and>
   (\<exists>p. prove (sample_task sample_loop) = Some (Inr p) \<and> 13 \<le> used p \<and>
      used p \<le> max_work_units default_limits)"
proof -
  let ?s = "sample_snapshot sample_loop" and ?f = "sample_function sample_loop"
  note th = verify_certifies [OF sample_wf(1) sample_wf(2) sample_wf(3) sample_verify(1)]
  have s: "bytecode ?s = sample_loop"
    by (simp add: sample_snapshot_def with_metadata_def from_untrusted_bytecode_def
        from_untrusted_bytecode_with_flags_def)
  have f: "vf_snapshot ?f = ?s" by code_simp
  have mem: "vf_instructions ?f ! 1 \<in> set (vf_instructions ?f)" by code_simp
  have "operand_slot (vf_instructions ?f ! 1) LocalSpace 0"
    by (rule slot_digit) code_simp+
  then have slot: "names_slot (vf_instructions ?f ! 1) LocalSpace 0" by (auto simp: names_slot_def)
  have w: "local_count ?s + Suc (local_count ?s) *
      length (filter (\<lambda>i. is_reachable ?f (ins_pc i)) (vf_instructions ?f)) = 13" by code_simp
  have t: "task_of ?s (vf_instructions ?f) (vf_cfg ?f) default_limits = sample_task sample_loop"
    using sample_vf_task(1) f by simp
  show ?thesis using th [unfolded w t s] mem slot by blast
qed

text \<open>
  Dead code. A verified function without \<^verbatim>\<open>gosub\<close> and \<^verbatim>\<open>ret\<close> has no unreachable
  instruction, and in every verified function an instruction marked unreachable is never reached by
  the abstract machine.
\<close>

theorem unreachable_sound:
  assumes "wf_env env" "wf_snapshot s" "wf_limits l" "verify env s l = Some (Inr f)"
  shows "(vf_unreachable f = [] \<or> has_subroutines (vf_instructions f)) \<and>
    (\<forall>k j st. reach (vf_task f l) k j st \<longrightarrow>
       ins_pc (body_of (vf_task f l) k ! j) \<notin> set (vf_unreachable f))"
proof -
  obtain p where "finished s (vf_instructions f) (vf_cfg f) p f"
    using verify_stages [OF assms] by blast
  then have "vf_unreachable f = [] \<or> has_subroutines (vf_instructions f)"
    by (simp add: finished_def)
  moreover have "ins_pc (body_of (vf_task f l) k ! j) \<notin> set (vf_unreachable f)"
    if r: "reach (vf_task f l) k j st" for k j st
  proof -
    obtain q where "point_proved (vf_task f l) q (body_of (vf_task f l) k ! j) st"
      "finished s (vf_instructions f) (vf_cfg f) q f"
      using verify_reach_proved [OF assms r] by blast
    then show ?thesis by (simp add: point_proved_def finished_def unreachable_pcs_mem)
  qed
  ultimately show ?thesis by blast
qed

theorem unreachable_sound_witness: "12 \<notin> set (vf_unreachable (sample_function sample_try))"
proof -
  note r = sample_reach_handler [folded sample_vf_task(2)]
  have "ins_pc (body_of (vf_task (sample_function sample_try) default_limits) 3 ! 0) = 12"
    unfolding sample_vf_task by code_simp
  with unreachable_sound [OF sample_wf(1) sample_wf(2) sample_wf(3) sample_verify(2)] r
  show ?thesis by metis
qed

text \<open>
  Functions without exception regions. If a verified function reports no exception regions
  then it contains no try or finally transfer, and in no reached state does raising an exception
  resume a handler of the frame: consumers that do not model exceptional control flow may ignore it.
\<close>

theorem no_exception_regions_sound:
  assumes "wf_env env" "wf_snapshot s" "wf_limits l" "verify env s l = Some (Inr f)"
    and n: "\<not> vf_exception_regions f" and r: "reach (vf_task f l) k j st"
  shows "exception_state st = None \<and> \<not> has_subroutines (vf_instructions f)"
proof -
  let ?i = "body_of (vf_task f l) k ! j"
  obtain p where pp: "point_proved (vf_task f l) p ?i st"
    and fin: "finished s (vf_instructions f) (vf_cfg f) p f" and w: "wf_entry s st"
    using verify_reach_proved [OF assms(1-4) r] by blast
  have no: "\<not> exception_regions (vf_instructions f) p" using n fin by (simp add: finished_def)
  have "innermost_handler st = None"
  proof (rule ccontr)
    assume "innermost_handler st \<noteq> None"
    from innermost_catch_handler [OF w assms(2) this]
    obtain h where "innermost_catch st = Some h" "resumes_in_frame h" by blast
    then have "(ins_pc ?i, h) \<in> set (handlers p)"
      using pp by (auto simp: point_proved_def dest: map_of_SomeD)
    with \<open>resumes_in_frame h\<close> no show False by (auto simp: exception_regions_def list_ex_iff)
  qed
  moreover have "\<not> has_subroutines (vf_instructions f)"
    using no by (auto simp: exception_regions_def has_subroutines_def list_ex_iff)
  ultimately show ?thesis by (simp add: exception_state_None)
qed

theorem no_exception_regions_sound_witness:
  "exception_state (frame [Int32] [] []) = None \<and>
   \<not> has_subroutines (vf_instructions (sample_function sample_loop))"
proof (rule no_exception_regions_sound [OF sample_wf(1) sample_wf(2) sample_wf(3) sample_verify(1)])
  show "\<not> vf_exception_regions (sample_function sample_loop)" by code_simp
  show "reach (vf_task (sample_function sample_loop) default_limits) 1 0 (frame [Int32] [] [])"
    using sample_reach_loop [folded sample_vf_task(1)] .
qed

text \<open>
  Snapshots copied from the C side reach the verifier intact. A copied snapshot passes the
  compatibility check (on the same build a foreign revision or fingerprint would be rejected), the
  size the verifier charges is the size the snapshot owns, so it is rejected for its size exactly
  when it owns more than the limit, and it is well formed when the C fields have their widths.
\<close>

theorem copied_snapshot_compatible:
  assumes c: "raw_contract raw" and r: "copy_raw env raw = Inr s"
    and w: "raw_arg_count raw \<le> u16_max" "raw_local_count raw \<le> u16_max"
      "raw_closure_count raw \<le> u16_max" "raw_stack_size raw \<le> u16_max"
      "raw_constant_count raw \<le> u32_max"
  shows "wf_snapshot s \<and> snapshot_bytes env s = owned_bytes env s \<and>
    prepare env s l \<noteq> fail 0 IncompatibleSnapshot \<and>
    (prepare env s l = fail 0 (ResourceLimit SnapshotBytes) \<longleftrightarrow> max_snapshot_bytes l < owned_bytes env s)"
proof -
  note st = copy_raw_stages [OF r]
  have "length (constants s) = raw_constant_count raw"
    using copied_length [OF st(5)] c by (simp add: raw_contract_def)
  then have sz: "snapshot_bytes env s = owned_bytes env s"
    using st(11) by (simp add: snapshot_bytes_def owned_bytes_def)
  have comp: "source_revision s = SOURCE_REVISION" "opcode_fingerprint s = env_opcode_fingerprint env"
    using st by simp_all
  have "wf_snapshot s" using w st by (simp add: wf_snapshot_def)
  moreover have "prepare env s l \<noteq> fail 0 IncompatibleSnapshot"
    using own_errors_prepare [OF comp, of l 0 IncompatibleSnapshot] by (auto simp: check_error_def)
  moreover have "prepare env s l = fail 0 (ResourceLimit SnapshotBytes) \<longleftrightarrow>
      max_snapshot_bytes l < owned_bytes env s"
    using own_errors_prepare [OF comp, of l 0 "ResourceLimit SnapshotBytes"] comp sz
    by (auto simp: check_error_def prepare_def)
  ultimately show ?thesis using sz by blast
qed

theorem copied_snapshot_compatible_witness:
  "\<exists>s. copy_raw sample_env (sample_raw sample_env sample_loop 1) = Inr s \<and> wf_snapshot s \<and>
     prepare sample_env s default_limits \<noteq> fail 0 IncompatibleSnapshot"
proof -
  let ?raw = "sample_raw sample_env sample_loop 1"
  have "case copy_raw sample_env ?raw of Inl _ \<Rightarrow> False | Inr s \<Rightarrow> True" by code_simp
  then obtain s where s: "copy_raw sample_env ?raw = Inr s" by (auto split: sum.splits)
  have c: "raw_contract ?raw" by (simp add: raw_contract_def sample_raw_def)
  have "wf_snapshot s \<and> prepare sample_env s default_limits \<noteq> fail 0 IncompatibleSnapshot"
    using copied_snapshot_compatible [OF c s] by (simp add: sample_raw_def u16_max_def u32_max_def)
  with s show ?thesis by blast
qed

end
