(* ===== verification/Policy.thy ===== *)
theory Policy
  imports Verify
begin

text \<open>
  The Tier 1 policy, \<^verbatim>\<open>jit/src/bytecode/policy.rs\<close>: the audited table of all opcodes with the
  policy of each (\<^verbatim>\<open>policy_audit.rs\<close>), its lookup, and the eligibility of a verified function for
  the baseline compiler (\<open>tier1_eligibility\<close> of \<^verbatim>\<open>verify.rs\<close>). The table is written in three parts
  of 84 rows.
\<close>

section \<open>Policies\<close>

datatype helper_id =
    HDup | HFree | HResolveConst | HAtomValue | HToNumeric | HToBool | HAddSlow | HBinaryArithSlow
  | HUnaryArithSlow | HCompareSlow | HGetProperty | HSetProperty | HGetElement | HSetElement
  | HToPropertyKey | HGetGlobal | HCall | HNewArray | HNewObject | HCallConstructor | HRegexp
  | HFClosure | HGetVarRef | HPutVarRef | HCloseLocal | HSetName | HGenericOp | HIteratorOp

datatype fallback_reason =
    UnsupportedOpcode | DirectEval | WithScope | GeneratorReason | AsyncReason | DynamicImport
  | ExplicitResourceManagement | ExceptionRegion | ClosureFrame | ExtendedFrame

datatype tier1_policy = Native | Helper helper_id | Reject fallback_reason

record audited_opcode_policy =
  ap_id :: "8 word"
  ap_name :: string
  ap_policy :: tier1_policy

definition audited :: "8 word \<Rightarrow> string \<Rightarrow> tier1_policy \<Rightarrow> audited_opcode_policy" where
  "audited b nm p = \<lparr>ap_id = b, ap_name = nm, ap_policy = p\<rparr>"

definition audited_low :: "audited_opcode_policy list" where
  "audited_low =
     [audited 0 ''invalid'' (Reject UnsupportedOpcode),
      audited 1 ''push_i32'' Native,
      audited 2 ''push_const'' (Helper HResolveConst),
      audited 3 ''fclosure'' (Helper HFClosure),
      audited 4 ''push_atom_value'' (Helper HAtomValue),
      audited 5 ''private_symbol'' (Reject UnsupportedOpcode),
      audited 6 ''undefined'' Native,
      audited 7 ''null'' Native,
      audited 8 ''push_this'' (Helper HGenericOp),
      audited 9 ''push_false'' Native,
      audited 10 ''push_true'' Native,
      audited 11 ''object'' (Helper HNewObject),
      audited 12 ''special_object'' (Helper HGenericOp),
      audited 13 ''rest'' (Reject UnsupportedOpcode),
      audited 14 ''drop'' (Helper HFree),
      audited 15 ''nip'' (Helper HFree),
      audited 16 ''nip1'' (Reject UnsupportedOpcode),
      audited 17 ''dup'' (Helper HDup),
      audited 18 ''dup1'' (Helper HDup),
      audited 19 ''dup2'' (Helper HDup),
      audited 20 ''dup3'' (Reject UnsupportedOpcode),
      audited 21 ''insert2'' (Helper HDup),
      audited 22 ''insert3'' (Helper HDup),
      audited 23 ''insert4'' (Reject UnsupportedOpcode),
      audited 24 ''perm3'' Native,
      audited 25 ''perm4'' Native,
      audited 26 ''perm5'' (Reject UnsupportedOpcode),
      audited 27 ''swap'' Native,
      audited 28 ''swap2'' Native,
      audited 29 ''rot3l'' Native,
      audited 30 ''rot3r'' Native,
      audited 31 ''rot4l'' (Reject UnsupportedOpcode),
      audited 32 ''rot5l'' (Reject UnsupportedOpcode),
      audited 33 ''call_constructor'' (Helper HCallConstructor),
      audited 34 ''call'' (Helper HCall),
      audited 35 ''tail_call'' (Helper HCall),
      audited 36 ''call_method'' (Helper HCall),
      audited 37 ''tail_call_method'' (Helper HCall),
      audited 38 ''array_from'' (Helper HNewArray),
      audited 39 ''apply'' (Reject UnsupportedOpcode),
      audited 40 ''return'' Native,
      audited 41 ''return_undef'' Native,
      audited 42 ''check_ctor_return'' (Reject UnsupportedOpcode),
      audited 43 ''check_ctor'' (Reject UnsupportedOpcode),
      audited 44 ''init_ctor'' (Reject UnsupportedOpcode),
      audited 45 ''check_brand'' (Reject UnsupportedOpcode),
      audited 46 ''add_brand'' (Reject UnsupportedOpcode),
      audited 47 ''return_async'' (Reject AsyncReason),
      audited 48 ''throw'' Native,
      audited 49 ''throw_error'' Native,
      audited 50 ''eval'' (Reject DirectEval),
      audited 51 ''apply_eval'' (Reject DirectEval),
      audited 52 ''regexp'' (Helper HRegexp),
      audited 53 ''get_super'' (Reject UnsupportedOpcode),
      audited 54 ''import'' (Reject DynamicImport),
      audited 55 ''get_var_undef'' (Helper HGenericOp),
      audited 56 ''get_var'' (Helper HGetGlobal),
      audited 57 ''put_var'' (Helper HGenericOp),
      audited 58 ''put_var_init'' (Reject UnsupportedOpcode),
      audited 59 ''get_ref_value'' (Reject UnsupportedOpcode),
      audited 60 ''put_ref_value'' (Reject UnsupportedOpcode),
      audited 61 ''define_var'' (Reject UnsupportedOpcode),
      audited 62 ''check_define_var'' (Reject UnsupportedOpcode),
      audited 63 ''define_func'' (Reject UnsupportedOpcode),
      audited 64 ''get_field'' (Helper HGetProperty),
      audited 65 ''get_field2'' (Helper HGetProperty),
      audited 66 ''put_field'' (Helper HSetProperty),
      audited 67 ''get_private_field'' (Reject UnsupportedOpcode),
      audited 68 ''put_private_field'' (Reject UnsupportedOpcode),
      audited 69 ''define_private_field'' (Reject UnsupportedOpcode),
      audited 70 ''get_array_el'' (Helper HGetElement),
      audited 71 ''get_array_el2'' (Reject UnsupportedOpcode),
      audited 72 ''put_array_el'' (Helper HSetElement),
      audited 73 ''get_super_value'' (Reject UnsupportedOpcode),
      audited 74 ''put_super_value'' (Reject UnsupportedOpcode),
      audited 75 ''define_field'' (Helper HSetProperty),
      audited 76 ''set_name'' (Helper HSetName),
      audited 77 ''set_name_computed'' (Reject UnsupportedOpcode),
      audited 78 ''set_proto'' (Reject UnsupportedOpcode),
      audited 79 ''set_home_object'' (Reject UnsupportedOpcode),
      audited 80 ''define_array_el'' (Helper HSetElement),
      audited 81 ''append'' (Reject UnsupportedOpcode),
      audited 82 ''copy_data_properties'' (Reject UnsupportedOpcode),
      audited 83 ''define_method'' (Reject UnsupportedOpcode)]"

definition audited_mid :: "audited_opcode_policy list" where
  "audited_mid =
     [audited 84 ''define_method_computed'' (Reject UnsupportedOpcode),
      audited 85 ''define_class'' (Reject UnsupportedOpcode),
      audited 86 ''define_class_computed'' (Reject UnsupportedOpcode),
      audited 87 ''get_loc'' (Helper HDup),
      audited 88 ''put_loc'' (Helper HFree),
      audited 89 ''set_loc'' (Helper HFree),
      audited 90 ''get_arg'' (Helper HDup),
      audited 91 ''put_arg'' (Helper HFree),
      audited 92 ''set_arg'' (Helper HFree),
      audited 93 ''get_var_ref'' (Helper HGetVarRef),
      audited 94 ''put_var_ref'' (Helper HPutVarRef),
      audited 95 ''set_var_ref'' (Helper HPutVarRef),
      audited 96 ''set_loc_uninitialized'' (Helper HFree),
      audited 97 ''get_loc_check'' (Helper HDup),
      audited 98 ''put_loc_check'' (Helper HFree),
      audited 99 ''put_loc_check_init'' (Reject UnsupportedOpcode),
      audited 100 ''get_var_ref_check'' (Helper HGetVarRef),
      audited 101 ''put_var_ref_check'' (Helper HPutVarRef),
      audited 102 ''put_var_ref_check_init'' (Reject ClosureFrame),
      audited 103 ''close_loc'' (Helper HCloseLocal),
      audited 104 ''if_false'' (Helper HToBool),
      audited 105 ''if_true'' (Helper HToBool),
      audited 106 ''goto'' Native,
      audited 107 ''catch'' Native,
      audited 108 ''gosub'' Native,
      audited 109 ''ret'' Native,
      audited 110 ''nip_catch'' Native,
      audited 111 ''check_object'' (Reject UnsupportedOpcode),
      audited 112 ''to_object'' (Helper HGenericOp),
      audited 113 ''to_propkey'' (Helper HToPropertyKey),
      audited 114 ''to_propkey2'' (Helper HGenericOp),
      audited 115 ''with_get_var'' (Reject WithScope),
      audited 116 ''with_put_var'' (Reject WithScope),
      audited 117 ''with_delete_var'' (Reject WithScope),
      audited 118 ''with_make_ref'' (Reject WithScope),
      audited 119 ''with_get_ref'' (Reject WithScope),
      audited 120 ''with_get_ref_undef'' (Reject WithScope),
      audited 121 ''make_loc_ref'' (Reject UnsupportedOpcode),
      audited 122 ''make_arg_ref'' (Reject UnsupportedOpcode),
      audited 123 ''make_var_ref_ref'' (Reject ClosureFrame),
      audited 124 ''make_var_ref'' (Reject ClosureFrame),
      audited 125 ''for_in_start'' (Helper HIteratorOp),
      audited 126 ''for_of_start'' (Helper HIteratorOp),
      audited 127 ''for_await_of_start'' (Reject AsyncReason),
      audited 128 ''for_in_next'' (Helper HIteratorOp),
      audited 129 ''for_of_next'' (Helper HIteratorOp),
      audited 130 ''iterator_get_value_done'' (Reject UnsupportedOpcode),
      audited 131 ''iterator_close'' (Helper HIteratorOp),
      audited 132 ''iterator_next'' (Reject UnsupportedOpcode),
      audited 133 ''iterator_call'' (Reject UnsupportedOpcode),
      audited 134 ''initial_yield'' (Reject GeneratorReason),
      audited 135 ''yield'' (Reject GeneratorReason),
      audited 136 ''yield_star'' (Reject GeneratorReason),
      audited 137 ''async_yield_star'' (Reject AsyncReason),
      audited 138 ''await'' (Reject AsyncReason),
      audited 139 ''neg'' (Helper HUnaryArithSlow),
      audited 140 ''plus'' (Helper HToNumeric),
      audited 141 ''dec'' (Helper HUnaryArithSlow),
      audited 142 ''inc'' (Helper HUnaryArithSlow),
      audited 143 ''post_dec'' Native,
      audited 144 ''post_inc'' Native,
      audited 145 ''dec_loc'' Native,
      audited 146 ''inc_loc'' Native,
      audited 147 ''add_loc'' Native,
      audited 148 ''not'' (Helper HUnaryArithSlow),
      audited 149 ''lnot'' (Helper HToBool),
      audited 150 ''typeof'' (Helper HGenericOp),
      audited 151 ''delete'' (Helper HGenericOp),
      audited 152 ''delete_var'' (Helper HGenericOp),
      audited 153 ''mul'' Native,
      audited 154 ''div'' Native,
      audited 155 ''mod'' (Helper HBinaryArithSlow),
      audited 156 ''add'' (Helper HAddSlow),
      audited 157 ''sub'' Native,
      audited 158 ''shl'' Native,
      audited 159 ''sar'' Native,
      audited 160 ''shr'' Native,
      audited 161 ''and'' Native,
      audited 162 ''xor'' Native,
      audited 163 ''or'' Native,
      audited 164 ''pow'' (Helper HBinaryArithSlow),
      audited 165 ''lt'' (Helper HCompareSlow),
      audited 166 ''lte'' (Helper HCompareSlow),
      audited 167 ''gt'' (Helper HCompareSlow)]"

definition audited_high :: "audited_opcode_policy list" where
  "audited_high =
     [audited 168 ''gte'' (Helper HCompareSlow),
      audited 169 ''instanceof'' (Helper HGenericOp),
      audited 170 ''in'' (Helper HGenericOp),
      audited 171 ''eq'' (Helper HCompareSlow),
      audited 172 ''neq'' (Helper HCompareSlow),
      audited 173 ''strict_eq'' (Helper HCompareSlow),
      audited 174 ''strict_neq'' (Helper HCompareSlow),
      audited 175 ''is_undefined_or_null'' (Helper HFree),
      audited 176 ''private_in'' (Reject UnsupportedOpcode),
      audited 177 ''push_bigint_i32'' (Reject UnsupportedOpcode),
      audited 178 ''using_dispose_init'' (Reject ExplicitResourceManagement),
      audited 179 ''using_dispose'' (Reject ExplicitResourceManagement),
      audited 180 ''using_dispose_async'' (Reject AsyncReason),
      audited 181 ''using_dispose_merge'' (Reject UnsupportedOpcode),
      audited 182 ''using_dispose_end'' (Reject UnsupportedOpcode),
      audited 183 ''using_check'' (Reject UnsupportedOpcode),
      audited 184 ''nop'' (Reject UnsupportedOpcode),
      audited 185 ''push_minus1'' Native,
      audited 186 ''push_0'' Native,
      audited 187 ''push_1'' Native,
      audited 188 ''push_2'' Native,
      audited 189 ''push_3'' Native,
      audited 190 ''push_4'' Native,
      audited 191 ''push_5'' Native,
      audited 192 ''push_6'' Native,
      audited 193 ''push_7'' Native,
      audited 194 ''push_i8'' Native,
      audited 195 ''push_i16'' Native,
      audited 196 ''push_const8'' (Helper HResolveConst),
      audited 197 ''fclosure8'' (Helper HFClosure),
      audited 198 ''push_empty_string'' (Helper HAtomValue),
      audited 199 ''get_loc8'' (Helper HDup),
      audited 200 ''put_loc8'' (Helper HFree),
      audited 201 ''set_loc8'' (Helper HFree),
      audited 202 ''get_loc0_loc1'' (Helper HDup),
      audited 203 ''get_loc0'' (Helper HDup),
      audited 204 ''get_loc1'' (Helper HDup),
      audited 205 ''get_loc2'' (Helper HDup),
      audited 206 ''get_loc3'' (Helper HDup),
      audited 207 ''put_loc0'' (Helper HFree),
      audited 208 ''put_loc1'' (Helper HFree),
      audited 209 ''put_loc2'' (Helper HFree),
      audited 210 ''put_loc3'' (Helper HFree),
      audited 211 ''set_loc0'' (Helper HFree),
      audited 212 ''set_loc1'' (Helper HFree),
      audited 213 ''set_loc2'' (Helper HFree),
      audited 214 ''set_loc3'' (Helper HFree),
      audited 215 ''get_arg0'' (Helper HDup),
      audited 216 ''get_arg1'' (Helper HDup),
      audited 217 ''get_arg2'' (Helper HDup),
      audited 218 ''get_arg3'' (Helper HDup),
      audited 219 ''put_arg0'' (Helper HFree),
      audited 220 ''put_arg1'' (Helper HFree),
      audited 221 ''put_arg2'' (Helper HFree),
      audited 222 ''put_arg3'' (Helper HFree),
      audited 223 ''set_arg0'' (Helper HFree),
      audited 224 ''set_arg1'' (Helper HFree),
      audited 225 ''set_arg2'' (Helper HFree),
      audited 226 ''set_arg3'' (Helper HFree),
      audited 227 ''get_var_ref0'' (Helper HGetVarRef),
      audited 228 ''get_var_ref1'' (Helper HGetVarRef),
      audited 229 ''get_var_ref2'' (Helper HGetVarRef),
      audited 230 ''get_var_ref3'' (Helper HGetVarRef),
      audited 231 ''put_var_ref0'' (Helper HPutVarRef),
      audited 232 ''put_var_ref1'' (Helper HPutVarRef),
      audited 233 ''put_var_ref2'' (Helper HPutVarRef),
      audited 234 ''put_var_ref3'' (Helper HPutVarRef),
      audited 235 ''set_var_ref0'' (Helper HPutVarRef),
      audited 236 ''set_var_ref1'' (Helper HPutVarRef),
      audited 237 ''set_var_ref2'' (Helper HPutVarRef),
      audited 238 ''set_var_ref3'' (Helper HPutVarRef),
      audited 239 ''get_length'' (Helper HGetProperty),
      audited 240 ''if_false8'' (Helper HToBool),
      audited 241 ''if_true8'' (Helper HToBool),
      audited 242 ''goto8'' Native,
      audited 243 ''goto16'' Native,
      audited 244 ''call0'' (Helper HCall),
      audited 245 ''call1'' (Helper HCall),
      audited 246 ''call2'' (Helper HCall),
      audited 247 ''call3'' (Helper HCall),
      audited 248 ''is_undefined'' (Helper HFree),
      audited 249 ''is_null'' (Helper HFree),
      audited 250 ''typeof_is_undefined'' (Helper HGenericOp),
      audited 251 ''typeof_is_function'' (Helper HGenericOp)]"

definition AUDITED_POLICIES :: "audited_opcode_policy list" where
  "AUDITED_POLICIES = audited_low @ audited_mid @ audited_high"

text \<open>\<open>tier1_policy(id)\<close>: the row at index \<open>id\<close>, if its id is \<open>id\<close>.\<close>

definition tier1_policy_of :: "8 word \<Rightarrow> tier1_policy option" where
  "tier1_policy_of b =
     (case get_opt AUDITED_POLICIES (unat b) of
        None \<Rightarrow> None
      | Some entry \<Rightarrow> if ap_id entry = b then Some (ap_policy entry) else None)"

record tier1_rejection =
  rej_pc :: nat
  rej_reason :: fallback_reason

section \<open>Eligibility\<close>

definition SPECIAL_OBJECT_MAPPED_ARGUMENTS :: nat where "SPECIAL_OBJECT_MAPPED_ARGUMENTS = 1"
definition SPECIAL_OBJECT_IMPORT_META :: nat where "SPECIAL_OBJECT_IMPORT_META = 6"
definition SPECIAL_OBJECT_MAX :: nat where "SPECIAL_OBJECT_MAX = 7"

definition special_object_rejection ::
  "instruction \<Rightarrow> (tier1_rejection, fallback_reason option) fallible" where
  "special_object_rejection i =
     (if ins_name i \<noteq> ''special_object'' then Inr None
      else rbind (operand_u8 i 1) (\<lambda>kind.
        Inr (if kind = SPECIAL_OBJECT_MAPPED_ARGUMENTS then Some ExtendedFrame
             else if kind = SPECIAL_OBJECT_IMPORT_META then Some UnsupportedOpcode
             else if SPECIAL_OBJECT_MAX < kind then Some UnsupportedOpcode
             else None)))"

text \<open>One round of the loop; the state is the first unsupported opcode met so far.\<close>

definition eligibility_step ::
  "instruction \<Rightarrow> tier1_rejection option \<Rightarrow> (tier1_rejection, tier1_rejection option) fallible" where
  "eligibility_step i unsupported =
     rbind (expect (tier1_policy_of (op_code (ins_opcode i)))) (\<lambda>policy.
     rbind (special_object_rejection i) (\<lambda>special.
       let policy = (case special of Some reason \<Rightarrow> Reject reason | None \<Rightarrow> policy) in
       case policy of
         Reject reason \<Rightarrow>
           let rejection = \<lparr>rej_pc = ins_pc i, rej_reason = reason\<rparr> in
           if reason = UnsupportedOpcode
           then Inr (case unsupported of None \<Rightarrow> Some rejection | Some r \<Rightarrow> Some r)
           else reject rejection
       | _ \<Rightarrow> Inr unsupported))"

definition tier1_eligibility :: "verified_function \<Rightarrow> (tier1_rejection, unit) fallible" where
  "tier1_eligibility f =
     (if exception_map (vf_snapshot f) \<noteq> []
      then reject \<lparr>rej_pc = 0, rej_reason = ExceptionRegion\<rparr>
      else rbind (fold_res eligibility_step (vf_instructions f) None) (\<lambda>unsupported.
        case unsupported of None \<Rightarrow> Inr () | Some r \<Rightarrow> reject r))"

section \<open>The table\<close>

text \<open>Every id below 252 has exactly its own row.\<close>

lemma audited_dense:
  "length AUDITED_POLICIES = 252"
  "map ap_id AUDITED_POLICIES = map of_nat [0..<252]"
  by code_simp+

lemma tier1_policy_of_row:
  assumes "unat b < 252"
  shows "tier1_policy_of b = Some (ap_policy (AUDITED_POLICIES ! unat b))"
proof -
  have "ap_id (AUDITED_POLICIES ! unat b) = map ap_id AUDITED_POLICIES ! unat b"
    using assms audited_dense(1) by simp
  also have "\<dots> = b" using assms audited_dense(2) by simp
  finally show ?thesis using assms audited_dense(1) by (simp add: tier1_policy_of_def get_opt_def)
qed

lemma tier1_policy_of_None: "252 \<le> unat b \<Longrightarrow> tier1_policy_of b = None"
  using audited_dense(1) by (simp add: tier1_policy_of_def get_opt_def)

text \<open>The opcodes the baseline compiler must never see.\<close>

definition interpreter_only :: "string list" where
  "interpreter_only =
     [''eval'', ''apply_eval'', ''import'', ''initial_yield'', ''yield'', ''yield_star'',
      ''async_yield_star'', ''await'', ''return_async'', ''for_await_of_start'', ''with_get_var'',
      ''with_put_var'', ''with_delete_var'', ''with_make_ref'', ''with_get_ref'',
      ''with_get_ref_undef'', ''using_dispose_init'', ''using_dispose'', ''using_dispose_async'',
      ''using_dispose_merge'', ''using_dispose_end'', ''invalid'']"

lemma audited_interpreter_only:
  assumes "e \<in> set AUDITED_POLICIES" "ap_name e \<in> set interpreter_only"
  shows "\<exists>r. ap_policy e = Reject r"
proof -
  have "list_all (\<lambda>e. ap_name e \<in> set interpreter_only \<longrightarrow>
      (case ap_policy e of Reject _ \<Rightarrow> True | _ \<Rightarrow> False)) AUDITED_POLICIES"
    by code_simp
  then have "case ap_policy e of Reject _ \<Rightarrow> True | _ \<Rightarrow> False" using assms by (simp add: list_all_iff)
  then show ?thesis by (cases "ap_policy e") simp_all
qed

section \<open>What the loop computes\<close>

text \<open>The rejection of one instruction, on opcodes of the table with readable operands.\<close>

definition rejection_of :: "instruction \<Rightarrow> fallback_reason option" where
  "rejection_of i =
     (case special_object_rejection i of
        Inr (Some reason) \<Rightarrow> Some reason
      | _ \<Rightarrow> (case tier1_policy_of (op_code (ins_opcode i)) of
               Some (Reject reason) \<Rightarrow> Some reason | _ \<Rightarrow> None))"

definition auditable :: "instruction \<Rightarrow> bool" where
  "auditable i \<longleftrightarrow> unat (op_code (ins_opcode i)) < 252 \<and>
     (ins_name i = ''special_object'' \<longrightarrow> 2 \<le> ins_size i)"

abbreviation rejection_at :: "instruction \<Rightarrow> fallback_reason \<Rightarrow> tier1_rejection" where
  "rejection_at i reason \<equiv> \<lparr>rej_pc = ins_pc i, rej_reason = reason\<rparr>"

definition hard_reason :: "instruction \<Rightarrow> bool" where
  "hard_reason i \<longleftrightarrow> rejection_of i \<noteq> None \<and> rejection_of i \<noteq> Some UnsupportedOpcode"

lemma eligibility_step_auditable:
  assumes "auditable i"
  shows "eligibility_step i u =
    (case rejection_of i of
       None \<Rightarrow> Inr u
     | Some reason \<Rightarrow>
         if reason = UnsupportedOpcode
         then Inr (case u of None \<Rightarrow> Some (rejection_at i reason) | Some r \<Rightarrow> Some r)
         else reject (rejection_at i reason))"
proof -
  obtain p where p: "tier1_policy_of (op_code (ins_opcode i)) = Some p"
    using assms tier1_policy_of_row by (auto simp: auditable_def)
  have "\<exists>k. operand_u8 i 1 = (Inr k :: (tier1_rejection, nat) fallible)" if "2 \<le> ins_size i"
    using operand_u8_no_panic [of 1 i, where ?'a = tier1_rejection] that by auto
  then have "\<exists>sp. special_object_rejection i = Inr sp"
    using assms by (auto simp: special_object_rejection_def auditable_def simp del: One_nat_def)
  then obtain sp where sp: "special_object_rejection i = Inr sp" by blast
  show ?thesis
    using p sp by (cases sp; cases p) (simp_all add: eligibility_step_def rejection_of_def Let_def)
qed

definition first_unsupported :: "instruction list \<Rightarrow> tier1_rejection option \<Rightarrow> tier1_rejection option" where
  "first_unsupported is u =
     (case u of
        Some r \<Rightarrow> Some r
      | None \<Rightarrow> map_option (\<lambda>i. rejection_at i UnsupportedOpcode)
                 (find (\<lambda>i. rejection_of i = Some UnsupportedOpcode) is))"

lemma eligibility_fold:
  assumes "list_all auditable is"
  shows "fold_res eligibility_step is u =
    (case find hard_reason is of
       Some i \<Rightarrow> reject (rejection_at i (the (rejection_of i)))
     | None \<Rightarrow> Inr (first_unsupported is u))"
  using assms
proof (induction "is" arbitrary: u)
  case (Cons i "is")
  then have step: "eligibility_step i u =
    (case rejection_of i of
       None \<Rightarrow> Inr u
     | Some reason \<Rightarrow>
         if reason = UnsupportedOpcode
         then Inr (case u of None \<Rightarrow> Some (rejection_at i reason) | Some r \<Rightarrow> Some r)
         else reject (rejection_at i reason))"
    using eligibility_step_auditable by simp
  have IH: "fold_res eligibility_step is v =
    (case find hard_reason is of
       Some i \<Rightarrow> reject (rejection_at i (the (rejection_of i)))
     | None \<Rightarrow> Inr (first_unsupported is v))" for v
    using Cons by simp
  have hard: "hard_reason i \<longleftrightarrow> rejection_of i \<noteq> None \<and> rejection_of i \<noteq> Some UnsupportedOpcode"
    by (rule hard_reason_def)
  show ?case
    unfolding fold_res.simps step
    by (cases "rejection_of i"; cases "find hard_reason is"; cases u)
      (auto simp: IH hard first_unsupported_def)
qed (auto simp: first_unsupported_def split: option.splits)

section \<open>Sample functions\<close>

definition policy_ins :: "nat \<Rightarrow> 8 word \<Rightarrow> string \<Rightarrow> instruction" where
  "policy_ins pc b nm =
     \<lparr>ins_pc = pc, ins_opcode = sample_row b nm 3 0 0 ''u16'', ins_bytes = [b, 0, 0]\<rparr>"

definition policy_function :: "instruction list \<Rightarrow> verified_function" where
  "policy_function is = (sample_function [])\<lparr>vf_instructions := is\<rparr>"

section \<open>Properties\<close>

text \<open>
  C33. The audited table is closed. Each of the 252 opcode ids has exactly one row, at its own
  index, so \<open>tier1_policy\<close> answers for exactly the ids below 252; and the opcodes of direct eval,
  with scopes, generators, async functions, dynamic import and disposal are all rejected.
\<close>

theorem policy_table_closed:
  "(tier1_policy_of b \<noteq> None \<longleftrightarrow> unat b < 252) \<and>
   (\<forall>e \<in> set AUDITED_POLICIES. tier1_policy_of (ap_id e) = Some (ap_policy e)) \<and>
   (\<forall>e \<in> set AUDITED_POLICIES. ap_name e \<in> set interpreter_only \<longrightarrow> (\<exists>r. ap_policy e = Reject r))"
proof -
  have "tier1_policy_of b \<noteq> None \<longleftrightarrow> unat b < 252"
    using tier1_policy_of_row [of b] tier1_policy_of_None [of b] by (cases "unat b < 252") auto
  moreover have "tier1_policy_of (ap_id e) = Some (ap_policy e)" if e: "e \<in> set AUDITED_POLICIES" for e
  proof -
    obtain k where k: "k < 252" "e = AUDITED_POLICIES ! k"
      using e audited_dense(1) by (auto simp: in_set_conv_nth)
    have "ap_id e = map ap_id AUDITED_POLICIES ! k" using k audited_dense(1) by simp
    then have "ap_id e = of_nat k" using k(1) audited_dense(2) by simp
    then have "unat (ap_id e) = k" using k(1) by (simp add: unsigned_of_nat take_bit_eq_mod)
    then show ?thesis using tier1_policy_of_row [of "ap_id e"] k by simp
  qed
  moreover have "\<exists>r. ap_policy e = Reject r"
    if "e \<in> set AUDITED_POLICIES" "ap_name e \<in> set interpreter_only" for e
    using audited_interpreter_only that by blast
  ultimately show ?thesis by blast
qed

theorem policy_table_closed_witness:
  "tier1_policy_of 50 \<noteq> None \<longleftrightarrow> unat (50 :: 8 word) < 252"
  using policy_table_closed [of 50] by blast

text \<open>
  C32. Eligibility for the baseline compiler. On opcodes of the table, \<open>tier1_eligibility\<close> never
  panics, and its result is determined by the rejections of the instructions: a non-empty
  exception map is rejected first, then the first instruction with a reason other than an
  unsupported opcode, wherever it stands, then the first unsupported opcode; the function is
  eligible exactly when no instruction is rejected.
\<close>

theorem tier1_eligibility_spec:
  assumes "list_all auditable (vf_instructions f)"
  shows "tier1_eligibility f =
    (if exception_map (vf_snapshot f) \<noteq> [] then reject \<lparr>rej_pc = 0, rej_reason = ExceptionRegion\<rparr>
     else case find hard_reason (vf_instructions f) of
       Some i \<Rightarrow> reject (rejection_at i (the (rejection_of i)))
     | None \<Rightarrow>
         (case find (\<lambda>i. rejection_of i = Some UnsupportedOpcode) (vf_instructions f) of
            Some i \<Rightarrow> reject (rejection_at i UnsupportedOpcode)
          | None \<Rightarrow> Inr ()))"
  by (simp add: tier1_eligibility_def eligibility_fold [OF assms] first_unsupported_def
      split: option.splits)

theorem tier1_eligibility_spec_witness:
  "tier1_eligibility (policy_function [policy_ins 0 13 ''rest'', policy_ins 3 50 ''eval'']) =
     reject \<lparr>rej_pc = 3, rej_reason = DirectEval\<rparr>"
proof -
  let ?is = "[policy_ins 0 13 ''rest'', policy_ins 3 50 ''eval'']"
  have aud: "list_all auditable (vf_instructions (policy_function ?is))" by code_simp
  have e: "exception_map (vf_snapshot (policy_function ?is)) = []"
    "find hard_reason (vf_instructions (policy_function ?is)) = Some (policy_ins 3 50 ''eval'')"
    "rejection_of (policy_ins 3 50 ''eval'') = Some DirectEval" "ins_pc (policy_ins 3 50 ''eval'') = 3"
    by code_simp+
  show ?thesis unfolding tier1_eligibility_spec [OF aud] by (simp add: e)
qed

text \<open>
  C31. Eligible functions stay within the compiled subset. If the opcode ids of a function carry the
  names they were audited with and the function is eligible, then it has no exception map, none of
  its instructions is one of the interpreter-only opcodes, and every instruction has a native or
  helper policy.
\<close>

theorem eligible_functions_compiled_subset:
  assumes aud: "list_all auditable (vf_instructions f)"
    and nm: "\<forall>i \<in> set (vf_instructions f). ins_name i = ap_name (AUDITED_POLICIES ! unat (op_code (ins_opcode i)))"
    and ok: "tier1_eligibility f = Inr ()"
  shows "exception_map (vf_snapshot f) = [] \<and>
    (\<forall>i \<in> set (vf_instructions f). ins_name i \<notin> set interpreter_only \<and>
       (tier1_policy_of (op_code (ins_opcode i)) = Some Native \<or>
        (\<exists>h. tier1_policy_of (op_code (ins_opcode i)) = Some (Helper h))))"
proof -
  have none: "exception_map (vf_snapshot f) = []" "find hard_reason (vf_instructions f) = None"
    "find (\<lambda>i. rejection_of i = Some UnsupportedOpcode) (vf_instructions f) = None"
    using ok eligibility_fold [OF aud, of None]
    by (auto simp: tier1_eligibility_def first_unsupported_def split: if_splits option.splits)
  have "ins_name i \<notin> set interpreter_only \<and>
       (tier1_policy_of (op_code (ins_opcode i)) = Some Native \<or>
        (\<exists>h. tier1_policy_of (op_code (ins_opcode i)) = Some (Helper h)))"
    if i: "i \<in> set (vf_instructions f)" for i
  proof -
    let ?b = "op_code (ins_opcode i)"
    have b: "unat ?b < 252" using aud i by (simp add: list_all_iff auditable_def)
    have "rejection_of i = None"
      using none(2,3) i by (auto simp: find_None_iff hard_reason_def)
    then have nr: "ap_policy (AUDITED_POLICIES ! unat ?b) \<noteq> Reject r" for r
      using tier1_policy_of_row [OF b]
      by (auto simp: rejection_of_def split: sum.splits option.splits tier1_policy.splits)
    moreover have "AUDITED_POLICIES ! unat ?b \<in> set AUDITED_POLICIES"
      using b audited_dense(1) by simp
    ultimately have "ins_name i \<notin> set interpreter_only"
      using audited_interpreter_only nm i by metis
    moreover have "tier1_policy_of ?b = Some Native \<or> (\<exists>h. tier1_policy_of ?b = Some (Helper h))"
      using tier1_policy_of_row [OF b] nr by (cases "ap_policy (AUDITED_POLICIES ! unat ?b)") auto
    ultimately show ?thesis by blast
  qed
  with none(1) show ?thesis by blast
qed

theorem eligible_functions_compiled_subset_witness:
  "ins_name (policy_ins 3 41 ''return_undef'') \<notin> set interpreter_only"
proof -
  let ?f = "policy_function [policy_ins 0 6 ''undefined'', policy_ins 3 41 ''return_undef'']"
  have aud: "list_all auditable (vf_instructions ?f)" by code_simp
  have nm: "\<forall>i \<in> set (vf_instructions ?f).
      ins_name i = ap_name (AUDITED_POLICIES ! unat (op_code (ins_opcode i)))"
    by code_simp
  have ok: "tier1_eligibility ?f = Inr ()" by code_simp
  have "policy_ins 3 41 ''return_undef'' \<in> set (vf_instructions ?f)" by code_simp
  with eligible_functions_compiled_subset [OF aud nm ok] show ?thesis by blast
qed

end
