(* ===== verification/Runtime_Keys.thy ===== *)
theory Runtime_Keys
  imports Prelude "HOL-Library.Product_Lexorder"
begin

text \<open>
  Identities shared by the tiering runtime: function keys (\<^verbatim>\<open>jit/src/runtime/coordinator.rs\<close>) and
  the shape and prototype tokens of \<^verbatim>\<open>jit/src/runtime/shape_feedback.rs\<close>, with the derived
  lexicographic order of the Rust types, so that they can be keys of ordered maps; and the
  interface of a component whose operations keep an invariant.
\<close>

datatype function_key = FunctionKey (fk_id: nat) (fk_generation: nat)

datatype shape_token = ShapeToken (sh_identity: nat) (sh_generation: nat)

datatype prototype_token = PrototypeToken (pr_identity: nat) (pr_generation: nat)

instantiation function_key :: linorder
begin

definition less_eq_function_key :: "function_key \<Rightarrow> function_key \<Rightarrow> bool" where
  "less_eq_function_key a b \<longleftrightarrow> (fk_id a, fk_generation a) \<le> (fk_id b, fk_generation b)"

definition less_function_key :: "function_key \<Rightarrow> function_key \<Rightarrow> bool" where
  "less_function_key a b \<longleftrightarrow> (fk_id a, fk_generation a) < (fk_id b, fk_generation b)"

instance
  by standard
    (auto simp: less_eq_function_key_def less_function_key_def intro: function_key.expand)

end

text \<open>Types observed by feedback, \<^verbatim>\<open>jit/src/runtime/feedback.rs\<close>.\<close>

datatype observed_type =
    ObsInt32 | ObsFloat64 | ObsBool | ObsNull | ObsUndefined | ObsString | ObsObject
  | ObsFunction function_key | ObsBigInt | ObsSymbol

datatype feedback_state = Monomorphic | Polymorphic | Megamorphic

section \<open>Components with an invariant\<close>

text \<open>
  A component starts in a state that satisfies its invariant, and every operation keeps it. Then
  it holds after every sequence of operations, whatever their results.
\<close>

locale invariant_component =
  fixes step :: "'op \<Rightarrow> 's \<Rightarrow> 's" and inv :: "'s \<Rightarrow> bool"
  assumes inv_step: "inv s \<Longrightarrow> inv (step op s)"
begin

lemma inv_run: "inv s \<Longrightarrow> inv (fold step ops s)"
  by (induction ops arbitrary: s) (auto intro: inv_step)

end

text \<open>A component in which, besides, every operation moves the state up in a preorder.\<close>

locale monotone_component = invariant_component +
  fixes below :: "'b \<Rightarrow> 'b \<Rightarrow> bool"
  assumes below_refl: "below s s"
    and below_trans: "below a b \<Longrightarrow> below b c \<Longrightarrow> below a c"
    and step_below: "inv s \<Longrightarrow> below s (step op s)"
begin

lemma run_below: "inv s \<Longrightarrow> below s (fold step ops s)"
proof (induction ops arbitrary: s)
  case (Cons op ops)
  have "below s (step op s)" by (rule step_below [OF Cons.prems])
  moreover have "below (step op s) (fold step ops (step op s))"
    by (rule Cons.IH [OF inv_step [OF Cons.prems]])
  ultimately show ?case by (auto intro: below_trans)
qed (simp add: below_refl)

end

end
