(* ===== verification/Osr.thy ===== *)
theory Osr
  imports Verify Runtime_Keys
begin

text \<open>
  On-stack replacement maps, \<^verbatim>\<open>jit/src/runtime/osr.rs\<close>: the identity and frame layout under which
  a running interpreter frame may enter compiled code at a loop header. A map is bound to the
  entry state that verification proved for the header.
\<close>

datatype osr_key = OsrKey (ok_function: function_key) (ok_pc: nat)

record osr_map =
  om_key :: osr_key
  om_entry_offset :: nat
  om_stack_depth :: nat
  om_argument_count :: nat
  om_local_count :: nat
  om_live_slots :: "slot_kind list"

definition new_osr_map :: "osr_key \<Rightarrow> nat \<Rightarrow> nat \<Rightarrow> slot_kind list \<Rightarrow> osr_map" where
  "new_osr_map key entry_offset stack_depth slots =
     \<lparr>om_key = key, om_entry_offset = entry_offset, om_stack_depth = stack_depth,
      om_argument_count = 0, om_local_count = 0, om_live_slots = slots\<rparr>"

definition from_verified :: "verified_function \<Rightarrow> nat \<Rightarrow> nat \<Rightarrow> osr_map option" where
  "from_verified f pc entry_offset =
     (if entry_offset = 0 then None
      else Option.bind (find (\<lambda>point. osr_pc point = pc) (vf_osr_points f)) (\<lambda>point.
        let s = vf_snapshot f in
        Option.bind (checked_add usize_max (arg_count s) (local_count s)) (\<lambda>n.
        Option.bind (checked_add usize_max n (closure_count s)) (\<lambda>fixed.
        Option.bind (checked_sub (length (osr_live_slots point)) fixed) (\<lambda>stack_depth.
        if closure_count s \<noteq> 0 then None
        else if u16_max < stack_depth then None
        else Some
          \<lparr>om_key = OsrKey (FunctionKey (function_id s) (generation s)) pc,
           om_entry_offset = entry_offset, om_stack_depth = stack_depth,
           om_argument_count = arg_count s, om_local_count = local_count s,
           om_live_slots = osr_live_slots point\<rparr>)))))"

definition osr_matches :: "osr_map \<Rightarrow> function_key \<Rightarrow> nat \<Rightarrow> nat \<Rightarrow> slot_kind list \<Rightarrow> bool" where
  "osr_matches m function pc stack_depth slots \<longleftrightarrow>
     om_key m = OsrKey function pc \<and> om_stack_depth m = stack_depth \<and> om_live_slots m = slots"

section \<open>Maps of verified functions\<close>

lemma list_all2_source: "list_all2 P xs ys \<Longrightarrow> y \<in> set ys \<Longrightarrow> \<exists>x \<in> set xs. P x y"
  by (induction rule: list_all2_induct) auto

lemma osr_point_proven:
  assumes fin: "finished s is g p f" and pt: "point \<in> set (vf_osr_points f)"
  obtains b where "map_of (before p) (osr_pc point) = Some b"
    "osr_live_slots point = live_slots s b" "is_loop_header g (osr_pc point)"
proof -
  let ?pcs = "filter (\<lambda>pc. is_loop_header g pc \<and> pc \<notin> set (unreachable_pcs is p))
      (map start_pc (blocks g))"
  have all: "list_all2 (\<lambda>pc point. proven_osr_point s p pc = Inr point) ?pcs (vf_osr_points f)"
    using fin by (simp add: finished_def collect_osr_points_def map_res_Inr_iff)
  obtain pc where pc: "pc \<in> set ?pcs" "proven_osr_point s p pc = Inr point"
    using list_all2_source [OF all pt] by blast
  then obtain b where b: "map_of (before p) pc = Some b"
      "point = \<lparr>osr_pc = pc, osr_live_slots = live_slots s b\<rparr>"
    by (auto simp: proven_osr_point_def rbind_Inr_iff)
  show ?thesis by (rule that [of b]) (use pc(1) b in simp_all)
qed

text \<open>At a reached loop header there is a point, and all points of its pc cover the reached state.\<close>

lemma osr_points_cover:
  assumes v: "wf_env env" "wf_snapshot s" "wf_limits l" "verify env s l = Some (Inr f)"
      "reach (vf_task f l) k j st"
    and pc: "pc = ins_pc (body_of (vf_task f l) k ! j)" and h: "is_loop_header (vf_cfg f) pc"
  shows "\<exists>point. find (\<lambda>point. osr_pc point = pc) (vf_osr_points f) = Some point \<and>
      (\<exists>b. osr_live_slots point = live_slots s b \<and> state_le st b)"
    and "wf_entry s st" and "vf_snapshot f = s"
proof -
  obtain p where pp: "point_proved (vf_task f l) p (body_of (vf_task f l) k ! j) st"
    and fin: "finished s (vf_instructions f) (vf_cfg f) p f" and s: "vf_snapshot f = s"
    and wt: "wf_task (vf_task f l) (length (bytecode s))" and e: "wf_entry s st"
    using verify_reach_proved [OF v] .
  show "wf_entry s st" "vf_snapshot f = s" by (rule e, rule s)
  have start: "pc \<in> start_pc ` set (blocks (vf_cfg f))"
    using wt h by (auto simp: wf_task_def wf_cfg_def is_loop_header_def)
  then have "pc \<in> set (before_points (vf_task f l))" using h by (simp add: before_points_mem)
  then obtain b where b: "map_of (before p) pc = Some b" "state_le st b"
    using pp by (auto simp: point_proved_def pc)
  have "pc \<in> set (visited p)" using pp by (simp add: point_proved_def pc)
  note osr_point_of_header [OF fin h start this b(1)]
  then have "find (\<lambda>point. osr_pc point = pc) (vf_osr_points f) \<noteq> None"
    by (auto simp: find_None_iff)
  then obtain point where pt: "find (\<lambda>point. osr_pc point = pc) (vf_osr_points f) = Some point" by blast
  then have "osr_pc point = pc" "point \<in> set (vf_osr_points f)"
    by (auto simp: find_Some_iff)
  then show "\<exists>point. find (\<lambda>point. osr_pc point = pc) (vf_osr_points f) = Some point \<and>
      (\<exists>b. osr_live_slots point = live_slots s b \<and> state_le st b)"
    using osr_point_proven [OF fin, of point] b pt by (metis option.inject)
qed

text \<open>
  C27. On-stack replacement enters compiled code with the interpreter's frame. When the machine
  reaches a loop header of a verified function that has no closure references, a map built for the
  header with a non-zero entry offset exists, carries the function's identity and the offset, and
  describes exactly the reached frame: its argument and local counts, the height of its operand
  stack, and slot kinds that cover the frame's kinds. Its own identity, depth and slots pass the
  match test. A function with closure references, or offset zero, gets no map.
\<close>

theorem osr_map_exact:
  assumes v: "wf_env env" "wf_snapshot s" "wf_limits l" "verify env s l = Some (Inr f)"
      "reach (vf_task f l) k j st"
    and pc: "pc = ins_pc (body_of (vf_task f l) k ! j)" and h: "is_loop_header (vf_cfg f) pc"
  shows "if entry_offset = 0 \<or> closure_count s \<noteq> 0 then from_verified f pc entry_offset = None
    else \<exists>m. from_verified f pc entry_offset = Some m \<and> om_entry_offset m = entry_offset \<and>
      om_argument_count m = arg_count s \<and> om_local_count m = length (locals st) \<and>
      om_stack_depth m = length (stack st) \<and> kinds_le (live_slots s st) (om_live_slots m) \<and>
      osr_matches m (FunctionKey (function_id s) (generation s)) pc (length (stack st)) (om_live_slots m)"
proof -
  note c = osr_points_cover [OF v pc h]
  obtain point b where pt: "find (\<lambda>point. osr_pc point = pc) (vf_osr_points f) = Some point"
    and b: "osr_live_slots point = live_slots s b" "state_le st b"
    using c(1) by blast
  have len: "length (locals b) = local_count s" "length (stack b) = length (stack st)"
      "length (locals st) = local_count s"
    using b(2) c(2) by (auto simp: state_le_def wf_entry_def dest: list_all2_lengthD)
  have small: "length (stack st) \<le> u16_max" "arg_count s + local_count s + closure_count s \<le> usize_max"
    using c(2) v(2) by (auto simp: wf_entry_def wf_snapshot_def u16_max_def usize_max_def)
  have add: "checked_add usize_max (arg_count s) (local_count s) = Some (arg_count s + local_count s)"
      "checked_add usize_max (arg_count s + local_count s) (closure_count s) =
        Some (arg_count s + local_count s + closure_count s)"
    using small(2) by (simp_all add: checked_add_def)
  have depth: "checked_sub (length (osr_live_slots point)) (arg_count s + local_count s + closure_count s) =
      Some (length (stack st))"
    by (simp add: checked_sub_def b(1) live_slots_def len)
  have "from_verified f pc entry_offset =
      (if entry_offset = 0 \<or> closure_count s \<noteq> 0 then None
       else Some \<lparr>om_key = OsrKey (FunctionKey (function_id s) (generation s)) pc,
         om_entry_offset = entry_offset, om_stack_depth = length (stack st),
         om_argument_count = arg_count s, om_local_count = local_count s,
         om_live_slots = osr_live_slots point\<rparr>)"
    using small(1) by (simp only: from_verified_def pt c(3) add depth Let_def bind.bind_lunit) simp
  then show ?thesis
    using live_slots_le [OF b(2), of s] by (simp add: osr_matches_def len b(1))
qed

theorem osr_map_exact_witness:
  "\<exists>m. from_verified (sample_function sample_loop) 2 16 = Some m \<and> om_stack_depth m = 0 \<and>
     kinds_le (live_slots (sample_snapshot sample_loop) (frame [Int32] [] [])) (om_live_slots m)"
proof -
  let ?f = "sample_function sample_loop"
  note r = sample_reach_loop [folded sample_vf_task(1)]
  have i: "2 = ins_pc (body_of (vf_task ?f default_limits) 1 ! 0)"
    unfolding sample_vf_task by code_simp
  have h: "is_loop_header (vf_cfg ?f) 2" by code_simp
  have c: "closure_count (sample_snapshot sample_loop) = 0" by code_simp
  show ?thesis
    using osr_map_exact [OF sample_wf(1) sample_wf(2) sample_wf(3) sample_verify(1) r i h, of 16]
    by (auto simp: c)
qed

end
