(* ===== verification/Shape_Feedback.thy ===== *)
theory Shape_Feedback
  imports Runtime_Keys
begin

text \<open>
  Receiver shapes observed at property sites, \<^verbatim>\<open>jit/src/runtime/shape_feedback.rs\<close>: bounded
  polymorphic sites per function and pc, with a version that consumers use to detect changes.
  The version is a \<open>u64\<close> that wraps around.
\<close>

unbundle bit_operations_syntax

definition POLYMORPHIC_PROPERTY_LIMIT :: nat where "POLYMORPHIC_PROPERTY_LIMIT = 4"

type_synonym property_attributes = "8 word"

definition attributes_from_bits :: "8 word \<Rightarrow> property_attributes" where
  "attributes_from_bits bits = bits AND 0x0f"

definition attributes_contains :: "property_attributes \<Rightarrow> property_attributes \<Rightarrow> bool" where
  "attributes_contains a b \<longleftrightarrow> a AND b = b"

record shape_observation =
  so_shape :: shape_token
  so_prototype :: prototype_token
  so_offset :: nat
  so_attributes :: property_attributes
  so_value :: observed_type

definition tokens_are_current :: "shape_observation \<Rightarrow> shape_token \<Rightarrow> prototype_token \<Rightarrow> bool" where
  "tokens_are_current ob shape prototype \<longleftrightarrow>
     sh_identity (so_shape ob) = sh_identity shape \<and>
     sh_generation (so_shape ob) = sh_generation shape \<and>
     pr_identity (so_prototype ob) = pr_identity prototype \<and>
     pr_generation (so_prototype ob) = pr_generation prototype"

datatype shape_feedback_state = ShapeMonomorphic | ShapePolymorphic | ShapeMegamorphic

record shape_feedback_site =
  site_state :: shape_feedback_state
  site_observations :: "shape_observation list"

record shape_feedback_table =
  polymorphic_limit :: nat
  sites :: "((function_key \<times> nat) \<times> shape_feedback_site) list"
  shape_version :: nat

definition new_shape_table :: "nat \<Rightarrow> shape_feedback_table" where
  "new_shape_table limit = \<lparr>polymorphic_limit = max limit 1, sites = [], shape_version = 0\<rparr>"

definition empty_site :: shape_feedback_site where
  "empty_site = \<lparr>site_state = ShapeMonomorphic, site_observations = []\<rparr>"

abbreviation shape_id :: "shape_observation \<Rightarrow> nat" where
  "shape_id ob \<equiv> sh_identity (so_shape ob)"

text \<open>The update of one site, and whether the version advances.\<close>

definition observe_site ::
  "nat \<Rightarrow> shape_observation \<Rightarrow> shape_feedback_site \<Rightarrow> bool \<times> shape_feedback_site" where
  "observe_site limit ob site =
     (if site_state site = ShapeMegamorphic then (False, site)
      else if last_opt (site_observations site) = Some ob then (False, site)
      else
        let changed = (ob \<notin> set (site_observations site));
            kept = filter (\<lambda>c. shape_id c \<noteq> shape_id ob) (site_observations site) in
        if ob \<notin> set kept \<and> limit \<le> length kept
        then (changed, \<lparr>site_state = ShapeMegamorphic, site_observations = []\<rparr>)
        else
          let obs = (if ob \<notin> set kept then kept @ [ob] else kept) in
          (changed,
           \<lparr>site_state = (if length obs = 1 then ShapeMonomorphic else ShapePolymorphic),
            site_observations = obs\<rparr>))"

definition observe_shape ::
  "function_key \<Rightarrow> nat \<Rightarrow> shape_observation \<Rightarrow> shape_feedback_table
    \<Rightarrow> shape_feedback_state \<times> shape_feedback_table" where
  "observe_shape f pc ob t =
     (let site = (case map_of (sites t) (f, pc) of None \<Rightarrow> empty_site | Some s \<Rightarrow> s);
          (changed, site') = observe_site (polymorphic_limit t) ob site in
      (site_state site',
       t\<lparr>sites := bt_insert (f, pc) site' (sites t),
         shape_version := (if changed then (shape_version t + 1) mod 2 ^ 64 else shape_version t)\<rparr>))"

definition get_site :: "shape_feedback_table \<Rightarrow> function_key \<Rightarrow> nat \<Rightarrow> shape_feedback_site option" where
  "get_site t f pc = map_of (sites t) (f, pc)"

definition shape_snapshot ::
  "shape_feedback_table \<Rightarrow> function_key \<Rightarrow> (nat \<times> shape_feedback_site) list" where
  "shape_snapshot t f =
     map (\<lambda>e. (snd (fst e), snd e)) (filter (\<lambda>e. fst (fst e) = f) (sites t))"

section \<open>Sites\<close>

definition site_ok :: "nat \<Rightarrow> shape_feedback_site \<Rightarrow> bool" where
  "site_ok limit site \<longleftrightarrow>
     distinct (map shape_id (site_observations site)) \<and> length (site_observations site) \<le> limit \<and>
     (case site_state site of
        ShapeMonomorphic \<Rightarrow> length (site_observations site) = 1
      | ShapePolymorphic \<Rightarrow> 2 \<le> length (site_observations site)
      | ShapeMegamorphic \<Rightarrow> site_observations site = [])"

definition fresh_or_ok :: "nat \<Rightarrow> shape_feedback_site \<Rightarrow> bool" where
  "fresh_or_ok limit site \<longleftrightarrow> site = empty_site \<or> site_ok limit site"

lemma distinct_map_filter_append:
  "distinct (map f xs) \<Longrightarrow> distinct (map f (filter (\<lambda>c. f c \<noteq> f x) xs @ [x]))"
  by (auto simp: distinct_map_filter)

lemma observe_site_ok:
  assumes "fresh_or_ok limit site" "1 \<le> limit"
  shows "site_ok limit (snd (observe_site limit ob site))"
proof (cases "site_state site = ShapeMegamorphic \<or> last_opt (site_observations site) = Some ob")
  case True
  then have "site \<noteq> empty_site" by (auto simp: empty_site_def)
  with assms True show ?thesis by (auto simp: observe_site_def fresh_or_ok_def)
next
  case False
  let ?kept = "filter (\<lambda>c. shape_id c \<noteq> shape_id ob) (site_observations site)"
  have d: "distinct (map shape_id (site_observations site))"
    using assms(1) by (auto simp: fresh_or_ok_def site_ok_def empty_site_def)
  have "ob \<notin> set ?kept" by simp
  then show ?thesis
    using False distinct_map_filter_append [OF d, of ob]
    by (auto simp: observe_site_def site_ok_def Let_def Suc_le_eq simp del: map_append)
qed

text \<open>With distinct identities, dropping the identity of a member drops exactly that member.\<close>

lemma filter_identity:
  assumes "distinct (map f xs)" "x \<in> set xs"
  shows "insert x (set (filter (\<lambda>c. f c \<noteq> f x) xs)) = set xs \<and>
    Suc (length (filter (\<lambda>c. f c \<noteq> f x) xs)) = length xs"
  using assms
proof (induction xs)
  case (Cons y ys)
  show ?case
  proof (cases "x = y")
    case True
    with Cons.prems have "filter (\<lambda>c. f c \<noteq> f x) ys = ys" by (auto simp: filter_id_conv image_iff)
    with True show ?thesis by simp
  next
    case False
    with Cons.prems have x: "x \<in> set ys" "f y \<noteq> f x" by auto
    with Cons show ?thesis by auto
  qed
qed simp

lemma observe_site_unchanged:
  assumes "fresh_or_ok limit site" "1 \<le> limit" "\<not> fst (observe_site limit ob site)"
  shows "site_state (snd (observe_site limit ob site)) = site_state site \<and>
    set (site_observations (snd (observe_site limit ob site))) = set (site_observations site)"
proof (cases "site_state site = ShapeMegamorphic \<or> last_opt (site_observations site) = Some ob")
  case True
  then show ?thesis by (auto simp: observe_site_def)
next
  case False
  let ?kept = "filter (\<lambda>c. shape_id c \<noteq> shape_id ob) (site_observations site)"
  have mem: "ob \<in> set (site_observations site)"
    using assms(3) False by (auto simp: observe_site_def Let_def split: if_splits)
  then have ok: "site_ok limit site" using assms(1) by (auto simp: fresh_or_ok_def empty_site_def)
  then have d: "distinct (map shape_id (site_observations site))"
    and len: "length (site_observations site) \<le> limit"
    by (simp_all add: site_ok_def)
  note f = filter_identity [OF d mem]
  have lt: "length ?kept < limit" using f len by linarith
  then show ?thesis
    using False f ok by (auto simp: observe_site_def Let_def site_ok_def split: shape_feedback_state.splits)
qed

section \<open>The table\<close>

definition shape_table_inv :: "shape_feedback_table \<Rightarrow> bool" where
  "shape_table_inv t \<longleftrightarrow>
     1 \<le> polymorphic_limit t \<and> shape_version t < 2 ^ 64 \<and> strict_sorted_keys (sites t) \<and>
     (\<forall>k site. map_of (sites t) k = Some site \<longrightarrow> site_ok (polymorphic_limit t) site)"

definition site_of :: "shape_feedback_table \<Rightarrow> function_key \<times> nat \<Rightarrow> shape_feedback_site" where
  "site_of t k = (case map_of (sites t) k of None \<Rightarrow> empty_site | Some s \<Rightarrow> s)"

lemma shape_table_inv_site: "shape_table_inv t \<Longrightarrow> fresh_or_ok (polymorphic_limit t) (site_of t k)"
  by (cases k) (auto simp: shape_table_inv_def fresh_or_ok_def site_of_def split: option.splits)

lemma observe_shape_simps:
  "fst (observe_shape f pc ob t) = site_state (snd (observe_site (polymorphic_limit t) ob (site_of t (f, pc))))"
  "sites (snd (observe_shape f pc ob t)) =
     bt_insert (f, pc) (snd (observe_site (polymorphic_limit t) ob (site_of t (f, pc)))) (sites t)"
  "polymorphic_limit (snd (observe_shape f pc ob t)) = polymorphic_limit t"
  "shape_version (snd (observe_shape f pc ob t)) =
     (if fst (observe_site (polymorphic_limit t) ob (site_of t (f, pc)))
      then (shape_version t + 1) mod 2 ^ 64 else shape_version t)"
  by (simp_all add: observe_shape_def site_of_def Let_def split_def)

lemma observe_shape_inv:
  assumes "shape_table_inv t" shows "shape_table_inv (snd (observe_shape f pc ob t))"
  using assms observe_site_ok [OF shape_table_inv_site [OF assms, of "(f, pc)"], of ob]
  by (auto simp: shape_table_inv_def observe_shape_simps split: if_splits)

lemma site_of_observe:
  assumes "shape_table_inv t"
  shows "site_of (snd (observe_shape f pc ob t)) k =
    (if k = (f, pc) then snd (observe_site (polymorphic_limit t) ob (site_of t k)) else site_of t k)"
  using assms by (auto simp: site_of_def [of "snd (observe_shape f pc ob t)"] observe_shape_simps
      shape_table_inv_def) (auto simp: site_of_def)

text \<open>The table as a component: an operation is one observation.\<close>

definition shape_step ::
  "function_key \<times> nat \<times> shape_observation \<Rightarrow> shape_feedback_table \<Rightarrow> shape_feedback_table" where
  "shape_step op t = (case op of (f, pc, ob) \<Rightarrow> snd (observe_shape f pc ob t))"

interpretation shapes: invariant_component shape_step shape_table_inv
  by unfold_locales (auto simp: shape_step_def observe_shape_inv split: prod.split)

lemma new_shape_table_inv: "shape_table_inv (new_shape_table limit)"
  by (simp add: shape_table_inv_def new_shape_table_def)

lemma filter_last_identity:
  "distinct (map f (ys @ [x])) \<Longrightarrow> filter (\<lambda>c. f c = f x) (ys @ [x]) = [x]"
  by (auto simp: filter_empty_conv image_iff)

lemma observe_site_newest:
  assumes "fresh_or_ok limit site"
  shows "site_state (snd (observe_site limit ob site)) = ShapeMegamorphic \<or>
    last_opt (site_observations (snd (observe_site limit ob site))) = Some ob \<and>
    [c \<leftarrow> site_observations (snd (observe_site limit ob site)). shape_id c = shape_id ob] = [ob]"
proof (cases "site_state site = ShapeMegamorphic")
  case True
  then show ?thesis by (simp add: observe_site_def)
next
  case False
  have d: "distinct (map shape_id (site_observations site))"
    using assms by (auto simp: fresh_or_ok_def site_ok_def empty_site_def)
  show ?thesis
  proof (cases "last_opt (site_observations site) = Some ob")
    case True
    then obtain ys where "site_observations site = ys @ [ob]"
      by (metis append_butlast_last_id last_opt_Some_iff)
    with True False d show ?thesis
      using filter_last_identity [of shape_id ys ob] by (simp add: observe_site_def)
  next
    case last: False
    then show ?thesis
      using False by (auto simp: observe_site_def Let_def filter_empty_conv)
  qed
qed

text \<open>Once megamorphic, a site stays so.\<close>

lemma observe_site_megamorphic:
  "site_state site = ShapeMegamorphic \<Longrightarrow> snd (observe_site limit ob site) = site"
  by (simp add: observe_site_def)

lemma megamorphic_run:
  assumes "shape_table_inv t" "site_state (site_of t k) = ShapeMegamorphic"
  shows "site_of (fold shape_step ops t) k = site_of t k"
  using assms
proof (induction ops arbitrary: t)
  case (Cons op ops)
  obtain f pc ob where op: "op = (f, pc, ob)" by (cases op)
  have "site_of (shape_step op t) k = site_of t k"
    using site_of_observe [OF Cons.prems(1), of f pc ob k] Cons.prems(2) op
    by (cases "k = (f, pc)") (simp_all add: shape_step_def observe_site_megamorphic)
  with Cons.IH [OF shapes.inv_step [OF Cons.prems(1)], of op] Cons.prems(2) show ?case by simp
qed simp

section \<open>Properties\<close>

definition sample_observation :: "nat \<Rightarrow> nat \<Rightarrow> shape_observation" where
  "sample_observation identity gen =
     \<lparr>so_shape = ShapeToken identity gen, so_prototype = PrototypeToken 9 1, so_offset = 24,
      so_attributes = 1, so_value = ObsInt32\<rparr>"

text \<open>
  C34. Property sites stay bounded and unambiguous. After any sequence of observations, every site
  of the table holds at most the polymorphic limit of observations, no two of them with the same
  shape identity (so at most one guard of a compiled site can match a shape), a monomorphic site
  has exactly one, a polymorphic one at least two and a megamorphic one none.
\<close>

theorem shape_sites_bounded:
  assumes "map_of (sites (fold shape_step ops (new_shape_table limit))) k = Some site"
  shows "site_ok (max limit 1) site"
proof -
  have "polymorphic_limit (fold shape_step ops t) = polymorphic_limit t" for t
    by (induction ops arbitrary: t)
      (auto simp: shape_step_def observe_shape_simps split: prod.split)
  then have "polymorphic_limit (fold shape_step ops (new_shape_table limit)) = max limit 1"
    by (simp add: new_shape_table_def)
  with assms shapes.inv_run [OF new_shape_table_inv, of ops limit] show ?thesis
    by (cases k) (auto simp: shape_table_inv_def)
qed

theorem shape_sites_bounded_witness:
  "site_ok 2 \<lparr>site_state = ShapePolymorphic,
     site_observations = [sample_observation 6 1, sample_observation 5 2]\<rparr>"
proof -
  let ?f = "FunctionKey 1 1"
  let ?ops = "[(?f, 7, sample_observation 5 1), (?f, 7, sample_observation 6 1),
    (?f, 7, sample_observation 5 2)]"
  have "map_of (sites (fold shape_step ?ops (new_shape_table 2))) (?f, 7) =
      Some \<lparr>site_state = ShapePolymorphic,
        site_observations = [sample_observation 6 1, sample_observation 5 2]\<rparr>"
    by code_simp
  from shape_sites_bounded [OF this] have "site_ok (max 2 1) \<lparr>site_state = ShapePolymorphic,
      site_observations = [sample_observation 6 1, sample_observation 5 2]\<rparr>" .
  moreover have "max 2 1 = (2 :: nat)" by simp
  ultimately show ?thesis by (simp only:)
qed

text \<open>
  C35. The version detects every change. When an observation leaves the version of the table as it
  was, then no site changed its state and no site gained or lost an observation: a consumer that
  caches a decision with the version never misses a change, in spite of the wrap-around.
\<close>

theorem shape_version_detects_changes:
  assumes inv: "shape_table_inv t"
    and same: "shape_version (snd (observe_shape f pc ob t)) = shape_version t"
  shows "site_state (site_of (snd (observe_shape f pc ob t)) k) = site_state (site_of t k) \<and>
    set (site_observations (site_of (snd (observe_shape f pc ob t)) k)) =
    set (site_observations (site_of t k))"
proof -
  have v: "shape_version t < 2 ^ 64" using inv by (simp add: shape_table_inv_def)
  have "(shape_version t + 1) mod 2 ^ 64 \<noteq> shape_version t"
  proof (cases "shape_version t + 1 = 2 ^ 64")
    case False
    with v have "shape_version t + 1 < 2 ^ 64" by linarith
    then show ?thesis by simp
  qed simp
  then have "\<not> fst (observe_site (polymorphic_limit t) ob (site_of t (f, pc)))"
    using same by (auto simp: observe_shape_simps)
  moreover have "1 \<le> polymorphic_limit t" using inv by (simp add: shape_table_inv_def)
  ultimately show ?thesis
    using observe_site_unchanged [OF shape_table_inv_site [OF inv, of "(f, pc)"]]
    by (simp add: site_of_observe [OF inv])
qed

theorem shape_version_detects_changes_witness:
  "site_state (site_of (snd (observe_shape (FunctionKey 1 1) 7 (sample_observation 5 1)
      (new_shape_table 2))) (FunctionKey 1 1, 7)) = ShapeMonomorphic"
proof -
  let ?f = "FunctionKey 1 1" and ?ob = "sample_observation 5 1"
  let ?t = "snd (observe_shape ?f 7 ?ob (new_shape_table 2))"
  have inv: "shape_table_inv ?t" by (rule observe_shape_inv [OF new_shape_table_inv])
  have same: "shape_version (snd (observe_shape ?f 7 ?ob ?t)) = shape_version ?t" by code_simp
  have s: "site_state (site_of (snd (observe_shape ?f 7 ?ob ?t)) (?f, 7)) = ShapeMonomorphic"
    by code_simp
  from shape_version_detects_changes [OF inv same, of "(?f, 7)"] s show ?thesis by simp
qed

text \<open>
  The newest layout wins and megamorphism is final. After an observation its site is either
  megamorphic or holds the observation as its newest entry, with no other entry for the same shape
  identity, whatever generation; and once a site is megamorphic no sequence of observations changes
  it again.
\<close>

theorem shape_newest_wins:
  assumes inv: "shape_table_inv t"
  shows "(let site = site_of (snd (observe_shape f pc ob t)) (f, pc) in
      site_state site = ShapeMegamorphic \<or>
      last_opt (site_observations site) = Some ob \<and>
      [c \<leftarrow> site_observations site. shape_id c = shape_id ob] = [ob]) \<and>
    (site_state (site_of t k) = ShapeMegamorphic \<longrightarrow>
      site_of (fold shape_step ops t) k = site_of t k)"
  using observe_site_newest [OF shape_table_inv_site [OF inv, of "(f, pc)"], of ob]
    megamorphic_run [OF inv, of k ops]
  by (simp add: site_of_observe [OF inv] Let_def)

theorem shape_newest_wins_witness:
  "let site = site_of (snd (observe_shape (FunctionKey 1 1) 7 (sample_observation 5 2)
       (snd (observe_shape (FunctionKey 1 1) 7 (sample_observation 5 1) (new_shape_table 2)))))
     (FunctionKey 1 1, 7) in
   site_state site = ShapeMegamorphic \<or>
   last_opt (site_observations site) = Some (sample_observation 5 2) \<and>
   [c \<leftarrow> site_observations site. shape_id c = shape_id (sample_observation 5 2)] = [sample_observation 5 2]"
  using shape_newest_wins [OF observe_shape_inv [OF new_shape_table_inv]] by blast

end
