(* ===== verification/Invalidate.thy ===== *)
theory Invalidate
  imports Shape_Feedback
begin

text \<open>
  The dependency graph of compiled code, \<^verbatim>\<open>jit/src/runtime/invalidate.rs\<close>: installation of nodes
  with their dependencies, publication of shape and prototype generations, and transitive
  invalidation.

  Every operation returns its result beside the graph it leaves, because \<open>publish_shape\<close> and
  \<open>publish_prototype\<close> invalidate before they install.
\<close>

section \<open>The graph\<close>

datatype dependency_key =
    FunctionDep function_key
  | ShapeDep shape_token
  | PrototypeDep prototype_token

fun key_rank :: "dependency_key \<Rightarrow> nat \<times> nat \<times> nat" where
  "key_rank (FunctionDep k) = (0, fk_id k, fk_generation k)"
| "key_rank (ShapeDep k) = (1, sh_identity k, sh_generation k)"
| "key_rank (PrototypeDep k) = (2, pr_identity k, pr_generation k)"

lemma key_rank_inj: "key_rank a = key_rank b \<Longrightarrow> a = b"
  by (cases a; cases b)
    (auto intro: function_key.expand shape_token.expand prototype_token.expand)

instantiation dependency_key :: linorder
begin

definition less_eq_dependency_key :: "dependency_key \<Rightarrow> dependency_key \<Rightarrow> bool" where
  "less_eq_dependency_key a b \<longleftrightarrow> key_rank a \<le> key_rank b"

definition less_dependency_key :: "dependency_key \<Rightarrow> dependency_key \<Rightarrow> bool" where
  "less_dependency_key a b \<longleftrightarrow> key_rank a < key_rank b"

instance
proof
  fix a b c :: dependency_key
  show "a < b \<longleftrightarrow> a \<le> b \<and> \<not> b \<le> a"
    by (simp add: less_dependency_key_def less_eq_dependency_key_def less_le_not_le)
  show "a \<le> a" by (simp add: less_eq_dependency_key_def)
  show "a \<le> b \<Longrightarrow> b \<le> c \<Longrightarrow> a \<le> c"
    unfolding less_eq_dependency_key_def by (rule order_trans)
  show "a \<le> b \<Longrightarrow> b \<le> a \<Longrightarrow> a = b"
    unfolding less_eq_dependency_key_def by (rule key_rank_inj) (rule order_antisym)
  show "a \<le> b \<or> b \<le> a" unfolding less_eq_dependency_key_def by (rule linear)
qed

end

datatype dependency_error = StaleDependency | VersionRegression | DependencyLimit

record dependency_node =
  node_version :: nat
  node_valid :: bool
  node_dependencies :: "dependency_key list"

record dependency_graph =
  nodes :: "(dependency_key \<times> dependency_node) list"
  reverse :: "(dependency_key \<times> dependency_key list) list"
  shape_generations :: "(nat \<times> nat) list"
  prototype_generations :: "(nat \<times> nat) list"

definition default_graph :: dependency_graph where
  "default_graph = \<lparr>nodes = [], reverse = [], shape_generations = [], prototype_generations = []\<rparr>"

definition is_current_generation :: "(nat \<times> nat) list \<Rightarrow> function_key \<Rightarrow> bool" where
  "is_current_generation generations key \<longleftrightarrow>
     map_of generations (fk_id key) = Some (fk_generation key)"

text \<open>\<open>nodes.get(&k).is_some_and(|node| node.valid)\<close>.\<close>

definition is_valid :: "dependency_graph \<Rightarrow> dependency_key \<Rightarrow> bool" where
  "is_valid g k \<longleftrightarrow> (case map_of (nodes g) k of None \<Rightarrow> False | Some n \<Rightarrow> node_valid n)"

section \<open>Installation\<close>

definition unlink :: "dependency_key \<Rightarrow> dependency_key \<Rightarrow> (dependency_key \<times> dependency_key list) list
    \<Rightarrow> (dependency_key \<times> dependency_key list) list" where
  "unlink key d rv = bt_update d (removeAll key) rv"

definition link :: "dependency_key \<Rightarrow> dependency_key \<Rightarrow> (dependency_key \<times> dependency_key list) list
    \<Rightarrow> (dependency_key \<times> dependency_key list) list" where
  "link key d rv =
     bt_insert d (bs_insert key (case map_of rv d of None \<Rightarrow> [] | Some ds \<Rightarrow> ds)) rv"

definition install :: "dependency_graph \<Rightarrow> dependency_key \<Rightarrow> nat \<Rightarrow> dependency_key list
    \<Rightarrow> (dependency_error + unit) \<times> dependency_graph" where
  "install g key version deps =
     (if (case map_of (nodes g) key of None \<Rightarrow> False | Some n \<Rightarrow> version < node_version n)
      then (Inl VersionRegression, g)
      else
        let deps = bs_of_list deps in
        if list_ex (\<lambda>d. \<not> is_valid g d) deps then (Inl StaleDependency, g)
        else
          let old = (case map_of (nodes g) key of None \<Rightarrow> [] | Some n \<Rightarrow> node_dependencies n);
              rv = fold (unlink key) old (reverse g);
              rv = fold (link key) deps rv
          in (Inr (),
              g\<lparr>reverse := rv,
                nodes := bt_insert key
                  \<lparr>node_version = version, node_valid = True, node_dependencies = deps\<rparr> (nodes g)\<rparr>))"

definition install_shape_specialization ::
  "dependency_graph \<Rightarrow> dependency_key \<Rightarrow> nat \<Rightarrow> shape_observation list \<Rightarrow> nat
    \<Rightarrow> (dependency_error + unit) \<times> dependency_graph" where
  "install_shape_specialization g key version observations limit =
     (if limit < length observations then (Inl DependencyLimit, g)
      else install g key version
        (concat (map (\<lambda>ob. [ShapeDep (so_shape ob), PrototypeDep (so_prototype ob)]) observations)))"

definition validate_install ::
  "dependency_graph \<Rightarrow> dependency_key \<Rightarrow> nat \<Rightarrow> (dependency_key \<times> nat) list \<Rightarrow> bool" where
  "validate_install g key version deps \<longleftrightarrow>
     (let current = (\<lambda>k v. case map_of (nodes g) k of
            None \<Rightarrow> False | Some n \<Rightarrow> node_valid n \<and> node_version n = v)
      in current key version \<and> list_all (\<lambda>(d, v). current d v) deps)"

section \<open>Invalidation\<close>

definition dependents :: "dependency_graph \<Rightarrow> dependency_key \<Rightarrow> dependency_key list" where
  "dependents g k = (case map_of (reverse g) k of None \<Rightarrow> [] | Some ds \<Rightarrow> ds)"

definition mark_invalid :: "dependency_key \<Rightarrow> dependency_graph \<Rightarrow> dependency_graph" where
  "mark_invalid k g = g\<lparr>nodes := bt_update k (\<lambda>n. n\<lparr>node_valid := False\<rparr>) (nodes g)\<rparr>"

lemma mark_invalid_simps [simp]:
  "reverse (mark_invalid k g) = reverse g"
  "shape_generations (mark_invalid k g) = shape_generations g"
  "prototype_generations (mark_invalid k g) = prototype_generations g"
  "dependents (mark_invalid k g) = dependents g"
  by (simp_all add: mark_invalid_def dependents_def fun_eq_iff)

text \<open>Everything the queue can ever hold.\<close>

definition queue_universe :: "dependency_graph \<Rightarrow> dependency_key list \<Rightarrow> dependency_key set" where
  "queue_universe g q = set q \<union> \<Union> (set ` snd ` set (reverse g))"

lemma dependents_universe: "set (dependents g k) \<subseteq> queue_universe g q"
proof
  fix x
  assume "x \<in> set (dependents g k)"
  then obtain ds where "map_of (reverse g) k = Some ds" and x: "x \<in> set ds"
    by (cases "map_of (reverse g) k") (simp_all add: dependents_def)
  then have "(k, ds) \<in> set (reverse g)" by (simp add: map_of_SomeD)
  with x show "x \<in> queue_universe g q" by (force simp: queue_universe_def)
qed

lemma finite_queue_universe [simp]: "finite (queue_universe g q)"
  by (simp add: queue_universe_def)

lemma queue_universe_shrinks:
  "queue_universe (mark_invalid k g) (q @ dependents g k) \<subseteq> queue_universe g (k # q)"
  using dependents_universe [of g k q] by (auto simp: queue_universe_def)

function invalidate_loop ::
  "dependency_graph \<Rightarrow> dependency_key list \<Rightarrow> dependency_key list
    \<Rightarrow> dependency_graph \<times> dependency_key list" where
  "invalidate_loop g [] invalidated = (g, invalidated)"
| "invalidate_loop g (key # queue) invalidated =
     (if key \<in> set invalidated then invalidate_loop g queue invalidated
      else invalidate_loop (mark_invalid key g) (queue @ dependents g key)
             (bs_insert key invalidated))"
  by pat_completeness auto
termination
proof (relation "measures [\<lambda>(g, q, v). card (queue_universe g q - set v), \<lambda>(g, q, v). length q]",
    goal_cases)
  case (2 g key queue v)
  have "queue_universe g queue - set v \<subseteq> queue_universe g (key # queue) - set v"
    by (auto simp: queue_universe_def)
  then have "card (queue_universe g queue - set v) \<le> card (queue_universe g (key # queue) - set v)"
    by (intro card_mono) simp_all
  then show ?case by auto
next
  case (3 g key queue v)
  have "queue_universe (mark_invalid key g) (queue @ dependents g key) - set (bs_insert key v) \<subset>
      queue_universe g (key # queue) - set v"
    using queue_universe_shrinks [of key g queue] 3 by (auto simp: queue_universe_def)
  then show ?case by (simp add: psubset_card_mono)
qed simp

definition invalidate ::
  "dependency_graph \<Rightarrow> dependency_key \<Rightarrow> dependency_key list \<times> dependency_graph" where
  "invalidate g root =
     (if map_of (nodes g) root = None \<and> map_of (reverse g) root = None then ([], g)
      else case invalidate_loop g [root] [] of (g', invalidated) \<Rightarrow> (invalidated, g'))"

section \<open>Publication\<close>

text \<open>
  The end of a publication: the new token is installed without dependencies, and on success its
  generation is recorded.
\<close>

definition install_published ::
  "dependency_key \<Rightarrow> nat \<Rightarrow> (dependency_graph \<Rightarrow> dependency_graph)
    \<Rightarrow> dependency_key list \<times> dependency_graph
    \<Rightarrow> (dependency_error + dependency_key list) \<times> dependency_graph" where
  "install_published key gen record_generation ig =
     (case install (snd ig) key gen [] of
        (Inl e, g) \<Rightarrow> (Inl e, g)
      | (Inr _, g) \<Rightarrow> (Inr (fst ig), record_generation g))"

definition record_shape :: "shape_token \<Rightarrow> dependency_graph \<Rightarrow> dependency_graph" where
  "record_shape token g =
     g\<lparr>shape_generations := bt_insert (sh_identity token) (sh_generation token) (shape_generations g)\<rparr>"

definition record_prototype :: "prototype_token \<Rightarrow> dependency_graph \<Rightarrow> dependency_graph" where
  "record_prototype token g =
     g\<lparr>prototype_generations :=
         bt_insert (pr_identity token) (pr_generation token) (prototype_generations g)\<rparr>"

definition publish_shape ::
  "dependency_graph \<Rightarrow> shape_token \<Rightarrow> (dependency_error + dependency_key list) \<times> dependency_graph" where
  "publish_shape g token =
     (let identity = sh_identity token; gen = sh_generation token;
          finish = install_published (ShapeDep token) gen (record_shape token) in
      case map_of (shape_generations g) identity of
        None \<Rightarrow> finish ([], g)
      | Some current \<Rightarrow>
          if gen < current then (Inl VersionRegression, g)
          else if gen = current then
            (if \<not> is_valid g (ShapeDep token) then (Inl StaleDependency, g) else (Inr [], g))
          else finish (invalidate g (ShapeDep (ShapeToken identity current))))"

definition publish_prototype ::
  "dependency_graph \<Rightarrow> prototype_token
    \<Rightarrow> (dependency_error + dependency_key list) \<times> dependency_graph" where
  "publish_prototype g token =
     (let identity = pr_identity token; gen = pr_generation token;
          finish = install_published (PrototypeDep token) gen (record_prototype token) in
      case map_of (prototype_generations g) identity of
        None \<Rightarrow> finish ([], g)
      | Some current \<Rightarrow>
          if gen < current then (Inl VersionRegression, g)
          else if gen = current then
            (if \<not> is_valid g (PrototypeDep token) then (Inl StaleDependency, g) else (Inr [], g))
          else finish (invalidate g (PrototypeDep (PrototypeToken identity current))))"

section \<open>What a dependency is\<close>

definition depends_on :: "dependency_graph \<Rightarrow> dependency_key \<Rightarrow> dependency_key \<Rightarrow> bool" where
  "depends_on g a b \<longleftrightarrow> (\<exists>n. map_of (nodes g) a = Some n \<and> b \<in> set (node_dependencies n))"

lemma depends_on_code [code]:
  "depends_on g k d \<longleftrightarrow>
     (case map_of (nodes g) k of None \<Rightarrow> False | Some n \<Rightarrow> d \<in> set (node_dependencies n))"
  by (simp add: depends_on_def split: option.split)

definition graph_inv :: "dependency_graph \<Rightarrow> bool" where
  "graph_inv g \<longleftrightarrow>
     strict_sorted_keys (nodes g) \<and> strict_sorted_keys (reverse g) \<and>
     strict_sorted_keys (shape_generations g) \<and> strict_sorted_keys (prototype_generations g) \<and>
     (\<forall>d k. k \<in> set (dependents g d) \<longleftrightarrow> depends_on g k d) \<and>
     (\<forall>k d. is_valid g k \<longrightarrow> depends_on g k d \<longrightarrow> is_valid g d)"

lemma graph_inv_default: "graph_inv default_graph"
  by (simp add: graph_inv_def default_graph_def dependents_def depends_on_def is_valid_def)

section \<open>Installation keeps the invariant\<close>

definition edges :: "(dependency_key \<times> dependency_key list) list \<Rightarrow> dependency_key \<Rightarrow> dependency_key set" where
  "edges rv d = (case map_of rv d of None \<Rightarrow> {} | Some ds \<Rightarrow> set ds)"

lemma set_dependents: "set (dependents g d) = edges (reverse g) d"
  by (simp add: dependents_def edges_def split: option.split)

lemma sorted_unlink [simp]: "strict_sorted_keys rv \<Longrightarrow> strict_sorted_keys (unlink key d rv)"
  by (simp add: unlink_def)

lemma sorted_link [simp]: "strict_sorted_keys rv \<Longrightarrow> strict_sorted_keys (link key d rv)"
  by (simp add: link_def)

lemma sorted_fold_links:
  "strict_sorted_keys rv \<Longrightarrow> strict_sorted_keys (fold (unlink key) ds rv)"
  "strict_sorted_keys rv \<Longrightarrow> strict_sorted_keys (fold (link key) ds rv)"
  by (induction ds arbitrary: rv) simp_all

lemma edges_unlink: "edges (unlink key d rv) x = edges rv x - (if x = d then {key} else {})"
  by (cases "map_of rv x") (auto simp: unlink_def edges_def)

lemma edges_link:
  "strict_sorted_keys rv \<Longrightarrow> edges (link key d rv) x = edges rv x \<union> (if x = d then {key} else {})"
  by (cases "map_of rv x") (auto simp: link_def edges_def)

lemma edges_fold_unlink:
  "edges (fold (unlink key) ds rv) x = edges rv x - (if x \<in> set ds then {key} else {})"
  by (induction ds arbitrary: rv) (auto simp: edges_unlink)

lemma edges_fold_link:
  "strict_sorted_keys rv \<Longrightarrow>
   edges (fold (link key) ds rv) x = edges rv x \<union> (if x \<in> set ds then {key} else {})"
  by (induction ds arbitrary: rv) (auto simp: edges_link)

lemma install_cases:
  assumes "install g key v deps = (r, g')"
  obtains (regression) n where "map_of (nodes g) key = Some n" "v < node_version n"
      "r = Inl VersionRegression" "g' = g"
    | (stale) d where "d \<in> set deps" "\<not> is_valid g d" "r = Inl StaleDependency" "g' = g"
    | (installed) "r = Inr ()" "\<forall>n. map_of (nodes g) key = Some n \<longrightarrow> node_version n \<le> v"
      "\<forall>d \<in> set deps. is_valid g d"
      "g' = g\<lparr>reverse := fold (link key) (bs_of_list deps)
          (fold (unlink key) (case map_of (nodes g) key of None \<Rightarrow> [] | Some n \<Rightarrow> node_dependencies n)
            (reverse g)),
        nodes := bt_insert key \<lparr>node_version = v, node_valid = True,
          node_dependencies = bs_of_list deps\<rparr> (nodes g)\<rparr>"
proof -
  let ?reg = "case map_of (nodes g) key of None \<Rightarrow> False | Some n \<Rightarrow> v < node_version n"
  show thesis
  proof (cases ?reg)
    case True
    then obtain n where n: "map_of (nodes g) key = Some n" "v < node_version n"
      by (cases "map_of (nodes g) key") simp_all
    then have "install g key v deps = (Inl VersionRegression, g)" by (simp add: install_def)
    with n assms show ?thesis by (intro regression) simp_all
  next
    case reg: False
    then have ver: "\<forall>n. map_of (nodes g) key = Some n \<longrightarrow> node_version n \<le> v"
      by (cases "map_of (nodes g) key") simp_all
    show ?thesis
    proof (cases "list_ex (\<lambda>d. \<not> is_valid g d) (bs_of_list deps)")
      case True
      then obtain d where d: "d \<in> set deps" "\<not> is_valid g d" by (auto simp: list_ex_iff)
      have "install g key v deps = (Inl StaleDependency, g)"
        unfolding install_def Let_def if_not_P [OF reg] if_P [OF True] ..
      with d assms show ?thesis by (intro stale) simp_all
    next
      case False
      then have all: "\<forall>d \<in> set deps. is_valid g d" by (auto simp: list_ex_iff)
      note eq = assms [unfolded install_def Let_def if_not_P [OF reg] if_not_P [OF False]]
      show ?thesis by (rule installed) (use eq ver all in simp_all)
    qed
  qed
qed

lemma installed_nodes:
  assumes "strict_sorted_keys (nodes g)"
    and g': "g' = g\<lparr>reverse := rv, nodes := bt_insert key \<lparr>node_version = v, node_valid = True,
      node_dependencies = bs_of_list deps\<rparr> (nodes g)\<rparr>"
  shows "is_valid g' k \<longleftrightarrow> k = key \<or> is_valid g k"
    "depends_on g' k d \<longleftrightarrow> (if k = key then d \<in> set deps else depends_on g k d)"
  using assms by (auto simp: is_valid_def depends_on_def)

lemma install_inv:
  assumes inv: "graph_inv g" and i: "install g key v deps = (r, g')"
  shows "graph_inv g'"
  using i
proof (cases rule: install_cases)
  case installed
  have s: "strict_sorted_keys (nodes g)" "strict_sorted_keys (reverse g)"
    and ex: "\<And>k d. k \<in> set (dependents g d) \<longleftrightarrow> depends_on g k d"
    and cl: "\<And>k d. is_valid g k \<Longrightarrow> depends_on g k d \<Longrightarrow> is_valid g d"
    using inv by (auto simp: graph_inv_def)
  note nodes' = installed_nodes [OF s(1) installed(4)]
  let ?old = "case map_of (nodes g) key of None \<Rightarrow> [] | Some n \<Rightarrow> node_dependencies n"
  have old: "d \<in> set ?old \<longleftrightarrow> depends_on g key d" for d
    by (cases "map_of (nodes g) key") (auto simp: depends_on_def)
  have "edges (reverse g') d = edges (reverse g) d - (if d \<in> set ?old then {key} else {}) \<union>
      (if d \<in> set deps then {key} else {})" for d
    using installed(4) s(2)
    by (simp add: edges_fold_link [OF sorted_fold_links(1)] edges_fold_unlink)
  then have "k \<in> set (dependents g' d) \<longleftrightarrow> depends_on g' k d" for k d
    using ex [of k d] nodes'(2) [of k d] old [of d] by (auto simp: set_dependents)
  moreover have "is_valid g' d" if "is_valid g' k" "depends_on g' k d" for k d
    using that cl installed(3) nodes' by (auto split: if_splits)
  ultimately show ?thesis
    using inv installed(4) by (auto simp: graph_inv_def intro!: sorted_fold_links)
qed (use inv in simp_all)

section \<open>Invalidation reaches exactly the transitive dependents\<close>

abbreviation affects :: "dependency_graph \<Rightarrow> dependency_key \<Rightarrow> dependency_key \<Rightarrow> bool" where
  "affects g d k \<equiv> k \<in> set (dependents g d)"

lemma invalidate_loop_frame:
  "invalidate_loop g q v = (g', v') \<Longrightarrow>
   reverse g' = reverse g \<and> shape_generations g' = shape_generations g \<and>
   prototype_generations g' = prototype_generations g \<and> map fst (nodes g') = map fst (nodes g)"
  by (induction g q v arbitrary: g' v' rule: invalidate_loop.induct)
    (auto simp: mark_invalid_def split: if_splits)

lemma invalidate_loop_visits:
  "invalidate_loop g q v = (g', v') \<Longrightarrow> set v \<union> set q \<subseteq> set v' \<and>
   (\<forall>k \<in> set v' - set v. set (dependents g k) \<subseteq> set v')"
proof (induction g q v arbitrary: g' v' rule: invalidate_loop.induct)
  case (2 g key q v)
  show ?case
  proof (cases "key \<in> set v")
    case True
    with 2 show ?thesis by auto
  next
    case False
    have run: "invalidate_loop (mark_invalid key g) (q @ dependents g key) (bs_insert key v) = (g', v')"
      using "2.prems" False by simp
    note IH = "2.IH"(2) [OF False run]
    then have "set (dependents g k) \<subseteq> set v'" if "k \<in> set v' - set v" for k
      using that by (cases "k = key") auto
    with IH show ?thesis by auto
  qed
qed simp

lemma invalidate_loop_reachable:
  "invalidate_loop g q v = (g', v') \<Longrightarrow> k \<in> set v' \<Longrightarrow> k \<notin> set v \<Longrightarrow>
   \<exists>x \<in> set q. (affects g)\<^sup>*\<^sup>* x k"
proof (induction g q v arbitrary: g' v' rule: invalidate_loop.induct)
  case (2 g key q v)
  show ?case
  proof (cases "key \<in> set v")
    case True
    with 2 show ?thesis by auto
  next
    case False
    have run: "invalidate_loop (mark_invalid key g) (q @ dependents g key) (bs_insert key v) = (g', v')"
      using "2.prems" False by simp
    show ?thesis
    proof (cases "k = key")
      case False
      then have "k \<notin> set (bs_insert key v)" using "2.prems"(3) by simp
      from "2.IH"(2) [OF \<open>key \<notin> set v\<close> run "2.prems"(2) this]
      obtain x where x: "x \<in> set q \<or> affects g key x" "(affects g)\<^sup>*\<^sup>* x k" by auto
      then show ?thesis by (auto intro: converse_rtranclp_into_rtranclp)
    qed simp
  qed
qed simp

lemma invalidate_loop_nodes:
  "invalidate_loop g q v = (g', v') \<Longrightarrow>
   map_of (nodes g') k =
     map_option (\<lambda>n. if k \<in> set v' - set v then n\<lparr>node_valid := False\<rparr> else n) (map_of (nodes g) k)"
proof (induction g q v arbitrary: g' v' rule: invalidate_loop.induct)
  case (1 g v)
  then show ?case by (cases "map_of (nodes g) k") auto
next
  case (2 g key q v)
  show ?case
  proof (cases "key \<in> set v")
    case True
    with 2 show ?thesis by auto
  next
    case False
    have run: "invalidate_loop (mark_invalid key g) (q @ dependents g key) (bs_insert key v) = (g', v')"
      using "2.prems" False by simp
    have "key \<in> set v'" using invalidate_loop_visits [OF run] by auto
    with "2.IH"(2) [OF False run] False show ?thesis
      by (cases "map_of (nodes g) k") (auto simp: mark_invalid_def)
  qed
qed

lemma invalidate_loop_sorted:
  "invalidate_loop g q v = (g', v') \<Longrightarrow> sorted_wrt (<) v \<Longrightarrow> sorted_wrt (<) v'"
  by (induction g q v arbitrary: g' v' rule: invalidate_loop.induct) (auto split: if_splits)

lemma invalidate_loop_closure:
  assumes "invalidate_loop g [root] [] = (g', v')"
  shows "set v' = {k. (affects g)\<^sup>*\<^sup>* root k}"
proof -
  note vis = invalidate_loop_visits [OF assms]
  have "k \<in> set v'" if "(affects g)\<^sup>*\<^sup>* root k" for k
    using that by (induction rule: rtranclp_induct) (use vis in auto)
  then show ?thesis using invalidate_loop_reachable [OF assms] by auto
qed

lemma affects_depends:
  "graph_inv g \<Longrightarrow> (affects g)\<^sup>*\<^sup>* d k \<longleftrightarrow> (depends_on g)\<^sup>*\<^sup>* k d"
proof -
  assume inv: "graph_inv g"
  then have "affects g = (depends_on g)\<inverse>\<inverse>" by (auto simp: graph_inv_def fun_eq_iff)
  then show ?thesis by (simp add: rtranclp_conversep)
qed

lemma invalidate_cases:
  assumes "invalidate g root = (ks, g')"
  obtains (unknown) "map_of (nodes g) root = None" "map_of (reverse g) root = None" "ks = []" "g' = g"
  | (known) "map_of (nodes g) root \<noteq> None \<or> map_of (reverse g) root \<noteq> None"
      "invalidate_loop g [root] [] = (g', ks)"
proof (cases "map_of (nodes g) root = None \<and> map_of (reverse g) root = None")
  case True
  with assms show ?thesis by (intro unknown) (simp_all add: invalidate_def)
next
  case False
  with assms show ?thesis by (intro known) (auto simp: invalidate_def split: prod.splits)
qed

lemma invalidated_nodes:
  assumes "invalidate_loop g [root] [] = (g', ks)"
  shows "is_valid g' k \<longleftrightarrow> is_valid g k \<and> k \<notin> set ks" "depends_on g' = depends_on g"
    "node_version (the (map_of (nodes g') k)) = node_version (the (map_of (nodes g) k)) \<or>
     map_of (nodes g) k = None"
proof -
  note n = invalidate_loop_nodes [OF assms]
  show "is_valid g' k \<longleftrightarrow> is_valid g k \<and> k \<notin> set ks"
    using n [of k] by (cases "map_of (nodes g) k") (auto simp: is_valid_def)
  have "depends_on g' x y \<longleftrightarrow> depends_on g x y" for x y
    using n [of x] by (cases "map_of (nodes g) x") (auto simp: depends_on_def)
  then show "depends_on g' = depends_on g" by (simp add: fun_eq_iff)
  show "node_version (the (map_of (nodes g') k)) = node_version (the (map_of (nodes g) k)) \<or>
     map_of (nodes g) k = None"
    using n [of k] by (cases "map_of (nodes g) k") auto
qed

lemma invalidate_inv:
  assumes inv: "graph_inv g" and i: "invalidate g root = (ks, g')"
  shows "graph_inv g'"
  using i
proof (cases rule: invalidate_cases)
  case known
  note fr = invalidate_loop_frame [OF known(2)] and vis = invalidate_loop_visits [OF known(2)]
    and nd = invalidated_nodes [OF known(2)]
  have dep: "dependents g' = dependents g" using fr by (simp add: dependents_def fun_eq_iff)
  have ex: "\<And>k d. affects g d k \<longleftrightarrow> depends_on g k d"
    and cl: "\<And>k d. is_valid g k \<Longrightarrow> depends_on g k d \<Longrightarrow> is_valid g d"
    using inv by (auto simp: graph_inv_def)
  have "is_valid g' d" if "is_valid g' k" "depends_on g k d" for k d
    using that nd(1) [of k] nd(1) [of d] cl ex [of k d] vis by auto
  then show ?thesis using inv fr by (auto simp: graph_inv_def dep nd(2))
qed (use inv in simp)

section \<open>Versions and generations only grow\<close>

definition graph_below :: "dependency_graph \<Rightarrow> dependency_graph \<Rightarrow> bool" where
  "graph_below g g' \<longleftrightarrow>
     (\<forall>k n. map_of (nodes g) k = Some n \<longrightarrow>
        (\<exists>n'. map_of (nodes g') k = Some n' \<and> node_version n \<le> node_version n')) \<and>
     (\<forall>i x. map_of (shape_generations g) i = Some x \<longrightarrow>
        (\<exists>y \<ge> x. map_of (shape_generations g') i = Some y)) \<and>
     (\<forall>i x. map_of (prototype_generations g) i = Some x \<longrightarrow>
        (\<exists>y \<ge> x. map_of (prototype_generations g') i = Some y))"

lemma graph_below_refl: "graph_below g g"
  by (auto simp: graph_below_def)

lemma graph_below_trans: "graph_below a b \<Longrightarrow> graph_below b c \<Longrightarrow> graph_below a c"
  unfolding graph_below_def by (meson order_trans)

lemma install_below:
  assumes inv: "graph_inv g" and i: "install g key v deps = (r, g')"
  shows "graph_below g g'"
  using i
proof (cases rule: install_cases)
  case installed
  have "strict_sorted_keys (nodes g)" using inv by (simp add: graph_inv_def)
  with installed show ?thesis by (auto simp: graph_below_def)
qed (simp_all add: graph_below_refl)

lemma invalidate_below:
  assumes "invalidate g root = (ks, g')" shows "graph_below g g'"
  using assms
proof (cases rule: invalidate_cases)
  case known
  have "\<exists>n'. map_of (nodes g') k = Some n' \<and> node_version n \<le> node_version n'"
    if "map_of (nodes g) k = Some n" for k n
    using invalidate_loop_nodes [OF known(2), of k] that by auto
  then show ?thesis using invalidate_loop_frame [OF known(2)] by (auto simp: graph_below_def)
qed (simp add: graph_below_refl)

lemma record_inv: "graph_inv g \<Longrightarrow> graph_inv (record_shape t g)" "graph_inv g \<Longrightarrow> graph_inv (record_prototype p g)"
  by (simp_all add: graph_inv_def record_shape_def record_prototype_def is_valid_def depends_on_def
      dependents_def)

lemma record_valid [simp]:
  "is_valid (record_shape t g) = is_valid g" "is_valid (record_prototype p g) = is_valid g"
  "depends_on (record_shape t g) = depends_on g" "depends_on (record_prototype p g) = depends_on g"
  by (simp_all add: record_shape_def record_prototype_def is_valid_def depends_on_def fun_eq_iff)

lemma install_empty_generations:
  assumes "install g key v deps = (r, g')"
  shows "shape_generations g' = shape_generations g \<and> prototype_generations g' = prototype_generations g"
  using assms by (cases rule: install_cases) simp_all

lemma invalidate_generations:
  assumes "invalidate g root = (ks, g')"
  shows "shape_generations g' = shape_generations g \<and> prototype_generations g' = prototype_generations g"
  using assms by (cases rule: invalidate_cases) (use invalidate_loop_frame in auto)

text \<open>
  A publication is harmless, or it invalidates the older token, if there is one, and installs the
  new one.
\<close>

lemma install_published_ok:
  assumes inv: "graph_inv (snd ig)" and i: "install_published key gen upd ig = (r, g')"
    and upd: "\<And>g. graph_inv g \<Longrightarrow> graph_inv (upd g)"
    and below: "\<And>g1. install (snd ig) key gen [] = (Inr (), g1) \<Longrightarrow> graph_below g1 (upd g1)"
  shows "graph_inv g' \<and> graph_below (snd ig) g'"
proof -
  obtain ri g1 where g1: "install (snd ig) key gen [] = (ri, g1)" by fastforce
  note ok = install_inv [OF inv g1] install_below [OF inv g1]
  show ?thesis
  proof (cases ri)
    case (Inl e)
    with i g1 ok show ?thesis by (simp add: install_published_def)
  next
    case (Inr u)
    with i g1 have "g' = upd g1" by (simp add: install_published_def)
    with Inr g1 ok upd below [of g1] show ?thesis using graph_below_trans by auto
  qed
qed

text \<open>Both publications are instances of this scheme.\<close>

definition publish_scheme ::
  "dependency_graph \<Rightarrow> dependency_key \<Rightarrow> nat \<Rightarrow> nat option \<Rightarrow> (nat \<Rightarrow> dependency_key)
    \<Rightarrow> (dependency_graph \<Rightarrow> dependency_graph)
    \<Rightarrow> (dependency_error + dependency_key list) \<times> dependency_graph" where
  "publish_scheme g key gen cur old upd =
     (case cur of
        None \<Rightarrow> install_published key gen upd ([], g)
      | Some c \<Rightarrow>
          if gen < c then (Inl VersionRegression, g)
          else if gen = c then
            (if \<not> is_valid g key then (Inl StaleDependency, g) else (Inr [], g))
          else install_published key gen upd (invalidate g (old c)))"

lemma publish_schemes:
  "publish_shape g tok =
     publish_scheme g (ShapeDep tok) (sh_generation tok)
       (map_of (shape_generations g) (sh_identity tok))
       (\<lambda>c. ShapeDep (ShapeToken (sh_identity tok) c)) (record_shape tok)"
  "publish_prototype g ptok =
     publish_scheme g (PrototypeDep ptok) (pr_generation ptok)
       (map_of (prototype_generations g) (pr_identity ptok))
       (\<lambda>c. PrototypeDep (PrototypeToken (pr_identity ptok) c)) (record_prototype ptok)"
  by (simp_all add: publish_shape_def publish_prototype_def publish_scheme_def Let_def)

lemma publish_scheme_ok:
  assumes inv: "graph_inv g" and p: "publish_scheme g key gen cur old upd = (r, g')"
    and upd: "\<And>g. graph_inv g \<Longrightarrow> graph_inv (upd g)"
    and below: "\<And>g1. shape_generations g1 = shape_generations g \<Longrightarrow>
      prototype_generations g1 = prototype_generations g \<Longrightarrow>
      \<forall>c. cur = Some c \<longrightarrow> c < gen \<Longrightarrow> graph_below g1 (upd g1)"
  shows "graph_inv g' \<and> graph_below g g'"
proof -
  have fin: "graph_inv g' \<and> graph_below g g'"
    if ig: "graph_inv (snd ig)" "graph_below g (snd ig)"
        "shape_generations (snd ig) = shape_generations g \<and>
         prototype_generations (snd ig) = prototype_generations g"
      and newer: "\<forall>c. cur = Some c \<longrightarrow> c < gen"
      and p: "install_published key gen upd ig = (r, g')" for ig
  proof -
    have "graph_below g1 (upd g1)" if "install (snd ig) key gen [] = (Inr (), g1)" for g1
      using install_empty_generations [OF that] ig(3) newer by (intro below) simp_all
    from install_published_ok [OF ig(1) p upd this] ig(2)
    show ?thesis using graph_below_trans by blast
  qed
  show ?thesis
  proof (cases cur)
    case None
    with p fin [of "([], g)"] inv show ?thesis by (simp add: publish_scheme_def graph_below_refl)
  next
    case (Some c)
    obtain ks g0 where g0: "invalidate g (old c) = (ks, g0)" by fastforce
    show ?thesis
    proof (cases "c < gen")
      case True
      with p Some g0 have "install_published key gen upd (ks, g0) = (r, g')"
        by (simp add: publish_scheme_def)
      then show ?thesis
        using fin [of "(ks, g0)"] invalidate_inv [OF inv g0] invalidate_below [OF g0]
          invalidate_generations [OF g0] Some True by simp
    next
      case False
      with p Some have "g' = g" by (auto simp: publish_scheme_def split: if_splits)
      then show ?thesis using inv by (simp add: graph_below_refl)
    qed
  qed
qed

lemma record_below:
  assumes "graph_inv g"
  shows "\<forall>c. map_of (shape_generations g) (sh_identity t) = Some c \<longrightarrow> c < sh_generation t \<Longrightarrow>
      shape_generations g1 = shape_generations g \<Longrightarrow> graph_below g1 (record_shape t g1)"
    "\<forall>c. map_of (prototype_generations g) (pr_identity p) = Some c \<longrightarrow> c < pr_generation p \<Longrightarrow>
      prototype_generations g1 = prototype_generations g \<Longrightarrow> graph_below g1 (record_prototype p g1)"
  using assms
  by (auto simp: graph_below_def record_shape_def record_prototype_def graph_inv_def)

lemma publish_shape_ok:
  assumes "graph_inv g" "publish_shape g tok = (r, g')"
  shows "graph_inv g' \<and> graph_below g g'"
  using publish_scheme_ok [OF assms(1) assms(2) [unfolded publish_schemes] record_inv(1)]
    record_below(1) [OF assms(1), of tok] by blast

lemma publish_prototype_ok:
  assumes "graph_inv g" "publish_prototype g tok = (r, g')"
  shows "graph_inv g' \<and> graph_below g g'"
  using publish_scheme_ok [OF assms(1) assms(2) [unfolded publish_schemes] record_inv(2)]
    record_below(2) [OF assms(1), of tok] by blast

section \<open>The graph as a component\<close>

datatype graph_op =
    PublishShape shape_token
  | PublishPrototype prototype_token
  | Install dependency_key nat "dependency_key list"
  | InstallShape dependency_key nat "shape_observation list" nat
  | InvalidateRoot dependency_key

fun graph_step :: "graph_op \<Rightarrow> dependency_graph \<Rightarrow> dependency_graph" where
  "graph_step (PublishShape t) g = snd (publish_shape g t)"
| "graph_step (PublishPrototype t) g = snd (publish_prototype g t)"
| "graph_step (Install k v ds) g = snd (install g k v ds)"
| "graph_step (InstallShape k v obs limit) g = snd (install_shape_specialization g k v obs limit)"
| "graph_step (InvalidateRoot k) g = snd (invalidate g k)"

lemma graph_step_ok:
  assumes inv: "graph_inv g" shows "graph_inv (graph_step op g) \<and> graph_below g (graph_step op g)"
proof -
  have i: "graph_inv (snd (install g k v ds)) \<and> graph_below g (snd (install g k v ds))" for k v ds
    using install_inv [OF inv prod.collapse [symmetric]] install_below [OF inv prod.collapse [symmetric]]
    by blast
  show ?thesis
  proof (cases op)
    case (PublishShape t)
    then show ?thesis using publish_shape_ok [OF inv prod.collapse [symmetric]] by simp
  next
    case (PublishPrototype t)
    then show ?thesis using publish_prototype_ok [OF inv prod.collapse [symmetric]] by simp
  next
    case (InvalidateRoot k)
    then show ?thesis
      using invalidate_inv [OF inv prod.collapse [symmetric]]
        invalidate_below [OF prod.collapse [symmetric]] by simp
  qed (use i inv graph_below_refl in \<open>simp_all add: install_shape_specialization_def\<close>)
qed

interpretation graph: monotone_component graph_step graph_inv graph_below
  using graph_step_ok graph_below_refl graph_below_trans by unfold_locales blast+

lemma valid_transitive:
  assumes inv: "graph_inv g" and v: "is_valid g k" and d: "(depends_on g)\<^sup>*\<^sup>* k d"
  shows "is_valid g d"
  using d
proof (induction rule: rtranclp_induct)
  case (step y z)
  then show ?case using inv by (auto simp: graph_inv_def)
qed (rule v)

section \<open>Retired generations\<close>

text \<open>What an operation can make valid: the node it installs or publishes.\<close>

fun installs :: "graph_op \<Rightarrow> dependency_key \<Rightarrow> bool" where
  "installs (PublishShape t) k \<longleftrightarrow> k = ShapeDep t"
| "installs (PublishPrototype t) k \<longleftrightarrow> k = PrototypeDep t"
| "installs (Install key _ _) k \<longleftrightarrow> k = key"
| "installs (InstallShape key _ _ _) k \<longleftrightarrow> k = key"
| "installs (InvalidateRoot _) k \<longleftrightarrow> False"

lemma install_valid:
  assumes "graph_inv g" "is_valid (snd (install g key v deps)) k"
  shows "k = key \<or> is_valid g k"
proof -
  obtain r g' where i: "install g key v deps = (r, g')" by fastforce
  then show ?thesis
  proof (cases rule: install_cases)
    case installed
    then show ?thesis using installed_nodes(1) [OF _ installed(4)] assms i by (simp add: graph_inv_def)
  qed (use assms(2) i in simp_all)
qed

lemma invalidate_valid: "is_valid (snd (invalidate g root)) k \<Longrightarrow> is_valid g k"
proof -
  assume v: "is_valid (snd (invalidate g root)) k"
  obtain ks g' where i: "invalidate g root = (ks, g')" by fastforce
  then show "is_valid g k"
  proof (cases rule: invalidate_cases)
    case known
    then show ?thesis using invalidated_nodes(1) [OF known(2)] v i by simp
  qed (use v i in simp)
qed

lemma publish_scheme_valid:
  assumes inv: "graph_inv g" and v: "is_valid (snd (publish_scheme g key gen cur old upd)) k"
    and upd: "\<And>g. is_valid (upd g) = is_valid g"
  shows "k = key \<or> is_valid g k"
proof -
  have fin: "k = key \<or> is_valid (snd ig) k"
    if "graph_inv (snd ig)" "is_valid (snd (install_published key gen upd ig)) k" for ig
    using install_valid [OF that(1), of key gen "[]" k] that(2)
    by (auto simp: install_published_def upd split: prod.splits sum.splits)
  show ?thesis
  proof (cases "\<exists>c. cur = Some c \<and> c < gen")
    case True
    then obtain c where c: "cur = Some c" "c < gen" by blast
    have "graph_inv (snd (invalidate g (old c)))" using invalidate_inv [OF inv prod.collapse [symmetric]] .
    from fin [OF this] v c show ?thesis using invalidate_valid by (auto simp: publish_scheme_def)
  next
    case False
    then show ?thesis using v fin [of "([], g)"] inv
      by (auto simp: publish_scheme_def split: option.splits if_splits)
  qed
qed

lemma graph_step_valid:
  assumes inv: "graph_inv g" and v: "is_valid (graph_step op g) k"
  shows "is_valid g k \<or> installs op k"
proof (cases op)
  case (PublishShape t)
  then show ?thesis using publish_scheme_valid [OF inv v [unfolded PublishShape graph_step.simps publish_schemes] record_valid(1)] by auto
next
  case (PublishPrototype t)
  then show ?thesis using publish_scheme_valid [OF inv v [unfolded PublishPrototype graph_step.simps publish_schemes] record_valid(2)] by auto
next
  case (InvalidateRoot root)
  then show ?thesis using invalidate_valid v by simp
qed (use v install_valid [OF inv] in \<open>auto simp: install_shape_specialization_def split: if_splits\<close>)

text \<open>A retired shape token: invalid, and older than the current generation of its shape.\<close>

definition retired :: "shape_token \<Rightarrow> dependency_graph \<Rightarrow> bool" where
  "retired t g \<longleftrightarrow> \<not> is_valid g (ShapeDep t) \<and>
     (\<exists>c > sh_generation t. map_of (shape_generations g) (sh_identity t) = Some c)"

text \<open>A direct installation of a node, as opposed to a publication.\<close>

fun direct_install :: "graph_op \<Rightarrow> dependency_key \<Rightarrow> bool" where
  "direct_install (Install key _ _) k \<longleftrightarrow> k = key"
| "direct_install (InstallShape key _ _ _) k \<longleftrightarrow> k = key"
| "direct_install _ k \<longleftrightarrow> False"

lemma retired_step:
  assumes inv: "graph_inv g" and r: "retired t g" and op: "\<not> direct_install op (ShapeDep t)"
  shows "retired t (graph_step op g)"
proof -
  obtain c where c: "sh_generation t < c" "map_of (shape_generations g) (sh_identity t) = Some c"
    and nv: "\<not> is_valid g (ShapeDep t)" using r by (auto simp: retired_def)
  have "\<exists>c > sh_generation t. map_of (shape_generations (graph_step op g)) (sh_identity t) = Some c"
    using graph_step_ok [OF inv, of op] c unfolding graph_below_def by (meson order_less_le_trans)
  moreover have "\<not> is_valid (graph_step op g) (ShapeDep t)"
  proof (cases "op = PublishShape t")
    case True
    then show ?thesis using c nv by (simp add: publish_shape_def)
  next
    case False
    then have "\<not> installs op (ShapeDep t)" using op by (cases op) auto
    then show ?thesis using graph_step_valid [OF inv] nv by blast
  qed
  ultimately show ?thesis by (simp add: retired_def)
qed

lemma retired_run:
  "graph_inv g \<Longrightarrow> retired t g \<Longrightarrow> (\<And>op. op \<in> set ops \<Longrightarrow> \<not> direct_install op (ShapeDep t)) \<Longrightarrow>
   retired t (fold graph_step ops g)"
  by (induction ops arbitrary: g) (simp_all add: retired_step graph_step_ok)

lemma retired_refuses:
  assumes "retired t g" "ShapeDep t \<in> set deps"
  shows "\<exists>e. fst (install g key v deps) = Inl e"
proof -
  obtain r g' where i: "install g key v deps = (r, g')" by fastforce
  then have "\<exists>e. r = Inl e" by (cases rule: install_cases) (use assms in \<open>auto simp: retired_def\<close>)
  then show ?thesis using i by simp
qed

lemma publish_newer:
  assumes p: "publish_shape g tok = (Inr ks, g')"
    and cur: "map_of (shape_generations g) (sh_identity tok) = Some c" "c < sh_generation tok"
  obtains g0 g1 where "invalidate g (ShapeDep (ShapeToken (sh_identity tok) c)) = (ks, g0)"
    "install g0 (ShapeDep tok) (sh_generation tok) [] = (Inr (), g1)" "g' = record_shape tok g1"
proof -
  let ?old = "ShapeDep (ShapeToken (sh_identity tok) c)"
  obtain ks0 g0 where g0: "invalidate g ?old = (ks0, g0)" by fastforce
  obtain ri g1 where g1: "install g0 (ShapeDep tok) (sh_generation tok) [] = (ri, g1)" by fastforce
  have "ri = Inr ()" "ks = ks0" "g' = record_shape tok g1"
    using p cur g0 g1 by (auto simp: publish_shape_def Let_def install_published_def split: sum.splits)
  then show ?thesis using that g0 g1 by blast
qed

text \<open>The nodes after the publication of a newer generation.\<close>

lemma published_nodes:
  assumes inv: "graph_inv g" and p: "publish_shape g tok = (Inr ks, g')"
    and cur: "map_of (shape_generations g) (sh_identity tok) = Some c" "c < sh_generation tok"
    and kn: "map_of (nodes g) (ShapeDep (ShapeToken (sh_identity tok) c)) \<noteq> None"
  shows "set ks = {k. (depends_on g)\<^sup>*\<^sup>* k (ShapeDep (ShapeToken (sh_identity tok) c))}"
    and "map_of (nodes g') (ShapeDep tok) =
      Some \<lparr>node_version = sh_generation tok, node_valid = True, node_dependencies = []\<rparr>"
    and "k \<noteq> ShapeDep tok \<Longrightarrow> map_of (nodes g') k =
      map_option (\<lambda>n. n\<lparr>node_valid := node_valid n \<and> k \<notin> set ks\<rparr>) (map_of (nodes g) k)"
    and "map_of (shape_generations g') (sh_identity tok) = Some (sh_generation tok)"
    and "graph_inv g'"
proof -
  let ?old = "ShapeDep (ShapeToken (sh_identity tok) c)"
  obtain g0 g1 where g0: "invalidate g ?old = (ks, g0)"
    and g1: "install g0 (ShapeDep tok) (sh_generation tok) [] = (Inr (), g1)" and g': "g' = record_shape tok g1"
    by (rule publish_newer [OF p cur])
  have loop: "invalidate_loop g [?old] [] = (g0, ks)"
    using g0 by (cases rule: invalidate_cases) (use kn in simp_all)
  show "set ks = {k. (depends_on g)\<^sup>*\<^sup>* k ?old}"
    using invalidate_loop_closure [OF loop] affects_depends [OF inv] by simp
  have inv0: "graph_inv g0" by (rule invalidate_inv [OF inv g0])
  have "strict_sorted_keys (nodes g0)" using inv0 by (simp add: graph_inv_def)
  with g1 have n1: "map_of (nodes g1) = (map_of (nodes g0))(ShapeDep tok \<mapsto>
      \<lparr>node_version = sh_generation tok, node_valid = True, node_dependencies = []\<rparr>)"
    by (cases rule: install_cases) (simp_all add: bs_of_list_def)
  show "map_of (nodes g') (ShapeDep tok) =
      Some \<lparr>node_version = sh_generation tok, node_valid = True, node_dependencies = []\<rparr>"
    by (simp add: g' record_shape_def n1)
  show "map_of (nodes g') k = map_option (\<lambda>n. n\<lparr>node_valid := node_valid n \<and> k \<notin> set ks\<rparr>) (map_of (nodes g) k)"
    if "k \<noteq> ShapeDep tok"
    using that invalidate_loop_nodes [OF loop, of k] by (cases "map_of (nodes g) k") (auto simp: g' record_shape_def n1)
  have inv1: "graph_inv g1" by (rule install_inv [OF inv0 g1])
  then show "map_of (shape_generations g') (sh_identity tok) = Some (sh_generation tok)" "graph_inv g'"
    using record_inv(1) [of g1 tok] by (simp_all add: g') (simp add: record_shape_def graph_inv_def)
qed

section \<open>Properties\<close>

definition sample_ops :: "graph_op list" where
  "sample_ops =
     [PublishShape (ShapeToken 10 1), PublishPrototype (PrototypeToken 9 1),
      InstallShape (FunctionDep (FunctionKey 1 1)) 1 [sample_observation 10 1] 2,
      Install (FunctionDep (FunctionKey 2 1)) 1 [FunctionDep (FunctionKey 1 1)]]"

definition sample_graph :: dependency_graph where
  "sample_graph = fold graph_step sample_ops default_graph"

lemma sample_graph_inv: "graph_inv sample_graph"
  unfolding sample_graph_def by (rule graph.inv_run [OF graph_inv_default])

text \<open>
  C28. Invalidation is exact. Invalidating a root that the graph knows returns, in order and without
  repetition, exactly the root and everything that depends on it directly or transitively; all of
  these are invalid afterwards, and the validity, version and dependencies of everything else are
  unchanged. In particular the worklist ends on cyclic graphs.
\<close>

theorem invalidate_exact:
  assumes inv: "graph_inv g" and i: "invalidate g root = (ks, g')"
    and known: "map_of (nodes g) root \<noteq> None \<or> map_of (reverse g) root \<noteq> None"
  shows "set ks = {k. (depends_on g)\<^sup>*\<^sup>* k root} \<and> sorted_wrt (<) ks \<and>
    (\<forall>k. is_valid g' k \<longleftrightarrow> is_valid g k \<and> \<not> (depends_on g)\<^sup>*\<^sup>* k root) \<and>
    depends_on g' = depends_on g"
  using i
proof (cases rule: invalidate_cases)
  case known
  have set: "set ks = {k. (depends_on g)\<^sup>*\<^sup>* k root}"
    using invalidate_loop_closure [OF known(2)] affects_depends [OF inv] by simp
  with invalidated_nodes [OF known(2)] invalidate_loop_sorted [OF known(2)] show ?thesis by auto
qed (use known in simp)

theorem invalidate_exact_witness:
  "(depends_on sample_graph)\<^sup>*\<^sup>* (FunctionDep (FunctionKey 2 1)) (ShapeDep (ShapeToken 10 1))"
proof -
  let ?root = "ShapeDep (ShapeToken 10 1)"
  let ?r = "invalidate sample_graph ?root"
  have k: "map_of (nodes sample_graph) ?root \<noteq> None \<or> map_of (reverse sample_graph) ?root \<noteq> None"
    by code_simp
  have "FunctionDep (FunctionKey 2 1) \<in> set (fst ?r)" by code_simp
  moreover have "set (fst ?r) = {k. (depends_on sample_graph)\<^sup>*\<^sup>* k ?root}"
    using invalidate_exact [OF sample_graph_inv prod.collapse [symmetric] k] by blast
  ultimately show ?thesis by blast
qed

text \<open>
  C29. Valid code never rests on stale assumptions. After any sequence of publications,
  installations and invalidations, with any results, everything a valid node depends on, directly
  or transitively, is itself valid. Hence a successful \<open>validate_install\<close> certifies the whole
  dependency closure of the installed code.
\<close>

theorem valid_closure:
  assumes "validate_install (fold graph_step ops default_graph) key version deps"
  shows "\<forall>d. (depends_on (fold graph_step ops default_graph))\<^sup>*\<^sup>* key d \<longrightarrow>
    is_valid (fold graph_step ops default_graph) d"
proof -
  let ?g = "fold graph_step ops default_graph"
  have inv: "graph_inv ?g" by (rule graph.inv_run [OF graph_inv_default])
  have "is_valid ?g key"
    using assms by (cases "map_of (nodes ?g) key") (auto simp: validate_install_def is_valid_def)
  then show ?thesis using valid_transitive [OF inv] by blast
qed

theorem valid_closure_witness:
  "is_valid (fold graph_step sample_ops default_graph) (ShapeDep (ShapeToken 10 1))"
proof -
  let ?g = "fold graph_step sample_ops default_graph"
  let ?f = "FunctionDep (FunctionKey 2 1)" and ?h = "FunctionDep (FunctionKey 1 1)"
    and ?s = "ShapeDep (ShapeToken 10 1)"
  have v: "validate_install ?g ?f 1 [(?s, 1)]" by code_simp
  have "depends_on ?g ?f ?h" "depends_on ?g ?h ?s" by code_simp+
  then have "(depends_on ?g)\<^sup>*\<^sup>* ?f ?s" by (auto intro: rtranclp_trans)
  with valid_closure [OF v] show ?thesis by blast
qed

text \<open>
  C30. A new shape generation retires the old one. When a newer generation of a shape is published
  successfully, the returned keys are exactly the transitive dependents of the old token, and these are
  exactly the nodes that become invalid: every other node keeps its version, validity and dependencies,
  except that the new token has a valid node of its own without dependencies. The new generation is the
  current one. From then on, through any sequence of operations that does not directly install the node
  of the old token again (publishing the old token again is among them), every installation that names
  the old token is refused.
\<close>

theorem publish_shape_retires:
  assumes inv: "graph_inv g" and p: "publish_shape g tok = (Inr ks, g')"
    and cur: "map_of (shape_generations g) (sh_identity tok) = Some c" "c < sh_generation tok"
    and old: "old = ShapeDep (ShapeToken (sh_identity tok) c)" "map_of (nodes g) old \<noteq> None"
  shows "set ks = {k. (depends_on g)\<^sup>*\<^sup>* k old} \<and>
    (\<forall>k. map_of (nodes g') k =
       (if k = ShapeDep tok
        then Some \<lparr>node_version = sh_generation tok, node_valid = True, node_dependencies = []\<rparr>
        else map_option (\<lambda>n. n\<lparr>node_valid := node_valid n \<and> \<not> (depends_on g)\<^sup>*\<^sup>* k old\<rparr>) (map_of (nodes g) k))) \<and>
    map_of (shape_generations g') (sh_identity tok) = Some (sh_generation tok) \<and>
    (\<forall>ops key v deps. old \<in> set deps \<longrightarrow> (\<forall>op \<in> set ops. \<not> direct_install op old) \<longrightarrow>
      (\<exists>e. fst (install (fold graph_step ops g') key v deps) = Inl e))"
proof -
  note n = published_nodes [OF inv p cur old(2) [unfolded old(1)], folded old(1)]
  have "old \<noteq> ShapeDep tok" using old(1) cur(2) by (cases tok) auto
  then have "\<not> is_valid g' old" using n(3) [of old] n(1) by (cases "map_of (nodes g) old") (simp_all add: is_valid_def)
  then have "retired (ShapeToken (sh_identity tok) c) g'" using n(4) cur(2) by (simp add: retired_def old(1))
  then have "\<exists>e. fst (install (fold graph_step ops g') key v deps) = Inl e"
    if "old \<in> set deps" "\<forall>op \<in> set ops. \<not> direct_install op old" for ops key v deps
    using retired_refuses [OF retired_run [OF n(5)]] that unfolding old(1) by blast
  then show ?thesis using n(1,2,4) n(3) by auto
qed

theorem publish_shape_retires_witness:
  "\<not> is_valid (snd (publish_shape sample_graph (ShapeToken 10 2))) (FunctionDep (FunctionKey 2 1)) \<and>
   is_valid (snd (publish_shape sample_graph (ShapeToken 10 2))) (PrototypeDep (PrototypeToken 9 1)) \<and>
   (\<exists>e. fst (install (fold graph_step [PublishShape (ShapeToken 10 1), InvalidateRoot (FunctionDep (FunctionKey 1 1))]
       (snd (publish_shape sample_graph (ShapeToken 10 2))))
     (FunctionDep (FunctionKey 3 1)) 1 [ShapeDep (ShapeToken 10 1)]) = Inl e)"
proof -
  let ?tok = "ShapeToken 10 2" and ?old = "ShapeDep (ShapeToken 10 1)"
  let ?r = "publish_shape sample_graph ?tok"
  have p: "?r = (Inr (projr (fst ?r)), snd ?r)" by code_simp
  have cur: "map_of (shape_generations sample_graph) (sh_identity ?tok) = Some 1" "1 < sh_generation ?tok"
    and old: "?old = ShapeDep (ShapeToken (sh_identity ?tok) 1)" "map_of (nodes sample_graph) ?old \<noteq> None"
    and mem: "FunctionDep (FunctionKey 2 1) \<in> set (projr (fst ?r))" "PrototypeDep (PrototypeToken 9 1) \<notin> set (projr (fst ?r))"
    and valid: "is_valid sample_graph (PrototypeDep (PrototypeToken 9 1))"
    by code_simp+
  note th = publish_shape_retires [OF sample_graph_inv p cur old]
  have nodes: "map_of (nodes (snd ?r)) k = map_option (\<lambda>n. n\<lparr>node_valid := node_valid n \<and> k \<notin> set (projr (fst ?r))\<rparr>)
      (map_of (nodes sample_graph) k)" if "k \<noteq> ShapeDep ?tok" for k using th that by simp
  have "\<not> is_valid (snd ?r) (FunctionDep (FunctionKey 2 1))"
    using nodes [of "FunctionDep (FunctionKey 2 1)"] mem(1)
    by (cases "map_of (nodes sample_graph) (FunctionDep (FunctionKey 2 1))") (simp_all add: is_valid_def)
  moreover have "is_valid (snd ?r) (PrototypeDep (PrototypeToken 9 1))"
    using nodes [of "PrototypeDep (PrototypeToken 9 1)"] mem(2) valid
    by (cases "map_of (nodes sample_graph) (PrototypeDep (PrototypeToken 9 1))") (simp_all add: is_valid_def)
  moreover have "\<exists>e. fst (install (fold graph_step [PublishShape (ShapeToken 10 1), InvalidateRoot (FunctionDep (FunctionKey 1 1))]
       (snd ?r)) (FunctionDep (FunctionKey 3 1)) 1 [?old]) = Inl e"
  proof -
    note later = th [THEN conjunct2, THEN conjunct2, THEN conjunct2, rule_format]
    show ?thesis by (rule later) auto
  qed
  ultimately show ?thesis by blast
qed

text \<open>
  C39. Versions never regress. Along any sequence of operations, with any results, the version of
  every node and the current generation of every shape and prototype only grow.
\<close>

theorem versions_monotone:
  "graph_below (fold graph_step ops default_graph) (fold graph_step (ops @ ops2) default_graph)"
  using graph.run_below [OF graph.inv_run [OF graph_inv_default], of ops ops2] by simp

end
