(* ===== verification/Array_Feedback.thy ===== *)
theory Array_Feedback
  imports Runtime_Keys
begin

text \<open>
  Array access observations, \<^verbatim>\<open>jit/src/runtime/array_feedback.rs\<close>: per function and pc a mask of
  the array modes and hazards seen there, in a table of bounded size. Wire values are decoded from
  a mode number and a flag word. Masks are machine words, the version and drop counters saturate.
\<close>

unbundle bit_operations_syntax

datatype array_mode = ModeGeneric | ModePacked | ModeInt32 | ModeFloat64

fun mode_code :: "array_mode \<Rightarrow> nat" where
  "mode_code ModeGeneric = 0"
| "mode_code ModePacked = 1"
| "mode_code ModeInt32 = 2"
| "mode_code ModeFloat64 = 3"

datatype array_access = AccessLoad | AccessStore | AccessLength

type_synonym array_hazards = "32 word"

definition HAZARD_NONE :: array_hazards where "HAZARD_NONE = 0"
definition HAZARD_EXOTIC :: array_hazards where "HAZARD_EXOTIC = push_bit 8 1"
definition HAZARD_SLOW_ARRAY :: array_hazards where "HAZARD_SLOW_ARRAY = push_bit 9 1"
definition HAZARD_RESIZABLE :: array_hazards where "HAZARD_RESIZABLE = push_bit 10 1"
definition HAZARD_DETACHED :: array_hazards where "HAZARD_DETACHED = push_bit 11 1"
definition HAZARD_IMMUTABLE :: array_hazards where "HAZARD_IMMUTABLE = push_bit 12 1"
definition HAZARD_SHARED :: array_hazards where "HAZARD_SHARED = push_bit 13 1"
definition HAZARD_INVALID_BACKING :: array_hazards where "HAZARD_INVALID_BACKING = push_bit 14 1"

definition STORE_FLAG :: "32 word" where "STORE_FLAG = push_bit 6 1"
definition LENGTH_FLAG :: "32 word" where "LENGTH_FLAG = push_bit 7 1"
definition HAZARD_MASK :: "32 word" where
  "HAZARD_MASK = (push_bit 15 1 - 1) AND NOT (push_bit 8 1 - 1)"

definition decode_access :: "32 word \<Rightarrow> array_access option" where
  "decode_access flags =
     (let kind = flags AND (STORE_FLAG OR LENGTH_FLAG) in
      if kind = 0 then Some AccessLoad
      else if kind = STORE_FLAG then Some AccessStore
      else if kind = LENGTH_FLAG then Some AccessLength
      else None)"

definition decode_mode :: "32 word \<Rightarrow> array_mode option" where
  "decode_mode mode =
     (if mode = 0 then Some ModeGeneric
      else if mode = 1 then Some ModePacked
      else if mode = 2 then Some ModeInt32
      else if mode = 3 then Some ModeFloat64
      else None)"

definition decode_array ::
  "32 word \<Rightarrow> 32 word \<Rightarrow> (array_access \<times> array_mode \<times> array_hazards) option" where
  "decode_array mode flags =
     (if flags AND NOT (STORE_FLAG OR LENGTH_FLAG OR HAZARD_MASK) \<noteq> 0 then None
      else Option.bind (decode_access flags) (\<lambda>access.
        Option.bind (decode_mode mode) (\<lambda>mode.
          Some (access, mode, flags AND HAZARD_MASK))))"

record array_entry =
  ae_function :: function_key
  ae_pc :: nat
  ae_access :: array_access
  ae_modes :: "8 word"
  ae_hazards :: array_hazards
  ae_state :: feedback_state

definition mode_bit :: "array_mode \<Rightarrow> 8 word" where
  "mode_bit mode = push_bit (mode_code mode) 1"

definition entry_modes :: "array_entry \<Rightarrow> array_mode list" where
  "entry_modes e =
     filter (\<lambda>mode. ae_modes e AND mode_bit mode \<noteq> 0)
       [ModeGeneric, ModePacked, ModeInt32, ModeFloat64]"

definition can_specialize :: "array_entry \<Rightarrow> bool" where
  "can_specialize e \<longleftrightarrow>
     ae_state e \<noteq> Megamorphic \<and> ae_hazards e = 0 \<and> ae_modes e \<noteq> 0 \<and> ae_modes e AND 1 = 0"

record array_feedback_table =
  at_capacity :: nat
  at_diversity_limit :: nat
  at_entries :: "((function_key \<times> nat) \<times> array_entry) list"
  at_version :: nat
  at_dropped :: nat

definition new_array_table :: "nat \<Rightarrow> nat \<Rightarrow> array_feedback_table" where
  "new_array_table capacity diversity_limit =
     \<lparr>at_capacity = capacity, at_diversity_limit = min (max diversity_limit 1) 3, at_entries = [],
      at_version = 0, at_dropped = 0\<rparr>"

definition forget_array_function :: "function_key \<Rightarrow> array_feedback_table \<Rightarrow> array_feedback_table" where
  "forget_array_function function t =
     t\<lparr>at_entries := filter (\<lambda>e. fst (fst e) \<noteq> function) (at_entries t)\<rparr>"

definition count_ones :: "8 word \<Rightarrow> nat" where
  "count_ones w = length (filter (bit w) [0..<8])"

definition fresh_entry :: "function_key \<Rightarrow> nat \<Rightarrow> array_access \<Rightarrow> array_entry" where
  "fresh_entry function pc access =
     \<lparr>ae_function = function, ae_pc = pc, ae_access = access, ae_modes = 0,
      ae_hazards = HAZARD_NONE, ae_state = Monomorphic\<rparr>"

definition observe_entry ::
  "nat \<Rightarrow> array_access \<Rightarrow> array_mode \<Rightarrow> array_hazards \<Rightarrow> array_entry \<Rightarrow> array_entry" where
  "observe_entry diversity_limit access mode hazards e =
     (let e = e\<lparr>ae_modes := ae_modes e OR mode_bit mode\<rparr>;
          e = e\<lparr>ae_hazards := ae_hazards e OR hazards\<rparr>;
          diversity = count_ones (ae_modes e)
      in e\<lparr>ae_state :=
           if ae_state e = Megamorphic \<or> ae_access e \<noteq> access \<or> diversity_limit < diversity
           then Megamorphic
           else if 1 < diversity then Polymorphic
           else Monomorphic\<rparr>)"

definition observe_array ::
  "function_key \<Rightarrow> nat \<Rightarrow> array_access \<Rightarrow> array_mode \<Rightarrow> array_hazards \<Rightarrow> array_feedback_table \<Rightarrow>
   feedback_state \<times> array_feedback_table" where
  "observe_array function pc access mode hazards t =
     (let key = (function, pc) in
      if map_of (at_entries t) key = None \<and> at_capacity t \<le> length (at_entries t)
      then (Megamorphic, t\<lparr>at_dropped := sat_add u64_max (at_dropped t) 1\<rparr>)
      else
        let old = (case map_of (at_entries t) key of
                     Some e \<Rightarrow> e | None \<Rightarrow> fresh_entry function pc access);
            e = observe_entry (at_diversity_limit t) access mode hazards old;
            t = t\<lparr>at_entries := bt_insert key e (at_entries t)\<rparr>;
            t = (if e \<noteq> old then t\<lparr>at_version := sat_add u64_max (at_version t) 1\<rparr> else t)
        in (ae_state e, t))"

definition observe_raw ::
  "function_key \<Rightarrow> nat \<Rightarrow> 32 word \<Rightarrow> 32 word \<Rightarrow> array_feedback_table \<Rightarrow>
   feedback_state option \<times> array_feedback_table" where
  "observe_raw function pc mode flags t =
     (case decode_array mode flags of
        None \<Rightarrow> (None, t)
      | Some (access, mode, hazards) \<Rightarrow>
          (case observe_array function pc access mode hazards t of (state, t) \<Rightarrow> (Some state, t)))"

definition array_snapshot :: "array_feedback_table \<Rightarrow> array_entry list" where
  "array_snapshot t = map snd (at_entries t)"

section \<open>The wire format\<close>

fun access_flag :: "array_access \<Rightarrow> 32 word" where
  "access_flag AccessLoad = 0"
| "access_flag AccessStore = STORE_FLAG"
| "access_flag AccessLength = LENGTH_FLAG"

lemmas flag_defs = STORE_FLAG_def LENGTH_FLAG_def HAZARD_MASK_def

lemma decode_mode_Some: "decode_mode w = Some m \<longleftrightarrow> w = of_nat (mode_code m)"
  by (cases m) (auto simp: decode_mode_def)

lemma decode_access_Some:
  "decode_access w = Some a \<longleftrightarrow> w AND (STORE_FLAG OR LENGTH_FLAG) = access_flag a"
  by (cases a) (auto simp: decode_access_def flag_defs Let_def)

lemma bit_flags:
  fixes n :: nat
  shows "bit STORE_FLAG n \<longleftrightarrow> n = 6" "bit LENGTH_FLAG n \<longleftrightarrow> n = 7"
    "bit HAZARD_MASK n \<longleftrightarrow> 8 \<le> n \<and> n < 15"
proof -
  have m: "push_bit 15 1 - 1 = (mask 15 :: 32 word)" "push_bit 8 1 - 1 = (mask 8 :: 32 word)"
    by (simp_all add: mask_eq_exp_minus_1 push_bit_eq_mult)
  show "bit STORE_FLAG n \<longleftrightarrow> n = 6" "bit LENGTH_FLAG n \<longleftrightarrow> n = 7"
    by (auto simp only: flag_defs bit_push_bit_iff bit_1_iff) auto
  show "bit HAZARD_MASK n \<longleftrightarrow> 8 \<le> n \<and> n < 15"
    unfolding HAZARD_MASK_def m by (auto simp: bit_simps)
qed

lemma access_flag_bits: "bit (access_flag a) n \<Longrightarrow> n = 6 \<or> n = 7"
  by (cases a) (simp_all add: bit_flags)

lemma word_bits_cong: "(\<And>n. bit (a::32 word) n \<longleftrightarrow> bit b n) \<Longrightarrow> a = b"
  by (simp add: bit_eq_iff)

text \<open>The flag word of an access kind and hazards falls apart into both again.\<close>

lemma flags_split:
  "w AND NOT (STORE_FLAG OR LENGTH_FLAG OR HAZARD_MASK) = 0 \<and>
   w AND (STORE_FLAG OR LENGTH_FLAG) = access_flag a \<and> w AND HAZARD_MASK = h \<longleftrightarrow>
   w = access_flag a OR h \<and> h AND NOT HAZARD_MASK = 0" (is "?l \<longleftrightarrow> ?r")
proof
  assume l: ?l
  then have "w = access_flag a OR h" by (simp add: bit_eq_iff bit_simps) blast
  moreover have "h AND NOT HAZARD_MASK = 0" using l by (simp add: bit_eq_iff bit_simps) blast
  ultimately show ?r ..
next
  assume r: ?r
  have h: "8 \<le> n \<and> n < 15" if "bit h n" for n
  proof -
    have "n < 32" using bit_imp_le_length [OF that] by simp
    then show ?thesis using r that by (simp add: bit_eq_iff bit_simps bit_flags)
  qed
  have "w AND NOT (STORE_FLAG OR LENGTH_FLAG OR HAZARD_MASK) = 0"
    by (rule word_bits_cong)
      (use r h access_flag_bits in \<open>auto simp: bit_simps bit_flags\<close>)
  moreover have "w AND (STORE_FLAG OR LENGTH_FLAG) = access_flag a"
    by (rule word_bits_cong)
      (use r h access_flag_bits in \<open>fastforce simp: bit_simps bit_flags\<close>)
  moreover have "w AND HAZARD_MASK = h"
    by (rule word_bits_cong)
      (use r h access_flag_bits in \<open>fastforce simp: bit_simps bit_flags\<close>)
  ultimately show ?l by simp
qed

text \<open>
  Decoding a wire observation inverts its encoding. A mode number and a flag word decode to
  an access kind, a mode and a hazard set exactly when the number is that of the mode and the
  word is the flag of the access kind together with hazard bits inside the hazard mask; all other
  words, with unknown bits or both access flags, are refused.
\<close>

theorem decode_array_exact:
  "decode_array number flags = Some (access, mode, hazards) \<longleftrightarrow>
     number = of_nat (mode_code mode) \<and> flags = access_flag access OR hazards \<and>
     hazards AND NOT HAZARD_MASK = 0"
proof -
  have "decode_array number flags = Some (access, mode, hazards) \<longleftrightarrow>
      number = of_nat (mode_code mode) \<and>
      flags AND NOT (STORE_FLAG OR LENGTH_FLAG OR HAZARD_MASK) = 0 \<and>
      flags AND (STORE_FLAG OR LENGTH_FLAG) = access_flag access \<and> flags AND HAZARD_MASK = hazards"
    by (auto simp: decode_array_def bind_eq_Some_conv decode_mode_Some decode_access_Some)
  then show ?thesis by (simp only: flags_split)
qed


section \<open>Sites\<close>

definition word_le :: "'a::len word \<Rightarrow> 'a word \<Rightarrow> bool" where
  "word_le a b \<longleftrightarrow> a AND b = a"

lemma word_le_refl [simp]: "word_le a a"
  by (simp add: word_le_def)

lemma word_le_or [simp]: "word_le a (a OR b)" "word_le b (a OR b)"
  by (auto simp: word_le_def bit_eq_iff bit_simps)

lemma word_le_trans: "word_le a b \<Longrightarrow> word_le b c \<Longrightarrow> word_le a c"
  unfolding word_le_def by (metis and.assoc)

lemma word_le_zero: "word_le a 0 \<Longrightarrow> a = 0"
  by (simp add: word_le_def)

text \<open>An entry only widens: it keeps its site, its modes, its hazards and megamorphism.\<close>

definition entry_le :: "array_entry \<Rightarrow> array_entry \<Rightarrow> bool" where
  "entry_le a b \<longleftrightarrow>
     ae_function a = ae_function b \<and> ae_pc a = ae_pc b \<and> ae_access a = ae_access b \<and>
     word_le (ae_modes a) (ae_modes b) \<and> word_le (ae_hazards a) (ae_hazards b) \<and>
     (ae_state a = Megamorphic \<longrightarrow> ae_state b = Megamorphic)"

lemma entry_le_refl [simp]: "entry_le a a"
  by (simp add: entry_le_def)

lemma entry_le_trans: "entry_le a b \<Longrightarrow> entry_le b c \<Longrightarrow> entry_le a c"
  by (auto simp: entry_le_def intro: word_le_trans)

text \<open>What an entry records of an observation it absorbed.\<close>

definition records :: "array_entry \<Rightarrow> array_access \<Rightarrow> array_mode \<Rightarrow> array_hazards \<Rightarrow> bool" where
  "records e access mode hazards \<longleftrightarrow>
     word_le (mode_bit mode) (ae_modes e) \<and> word_le hazards (ae_hazards e) \<and>
     (ae_access e = access \<or> ae_state e = Megamorphic)"

lemma records_mono: "records a access mode hazards \<Longrightarrow> entry_le a b \<Longrightarrow> records b access mode hazards"
  by (auto simp: records_def entry_le_def intro: word_le_trans)

lemma observe_entry_le: "entry_le e (observe_entry limit access mode hazards e)"
  by (simp add: entry_le_def observe_entry_def Let_def)

lemma observe_entry_records: "records (observe_entry limit access mode hazards e) access mode hazards"
  by (simp add: records_def observe_entry_def Let_def)

text \<open>The state of an entry follows from its modes unless it is megamorphic.\<close>

definition entry_ok :: "nat \<Rightarrow> function_key \<times> nat \<Rightarrow> array_entry \<Rightarrow> bool" where
  "entry_ok limit key e \<longleftrightarrow>
     (ae_function e, ae_pc e) = key \<and> ae_modes e \<noteq> 0 \<and>
     (ae_state e = Megamorphic \<or>
      count_ones (ae_modes e) \<le> limit \<and>
      ae_state e = (if 1 < count_ones (ae_modes e) then Polymorphic else Monomorphic))"

lemma mode_bit_nonzero: "w OR mode_bit mode \<noteq> 0"
proof
  assume "w OR mode_bit mode = 0"
  then have "mode_bit mode = 0" by (simp add: or_eq_0_iff)
  then show False by (cases mode) (simp_all add: mode_bit_def)
qed

lemma observe_entry_ok:
  "(ae_function e, ae_pc e) = key \<Longrightarrow> entry_ok limit key (observe_entry limit access mode hazards e)"
  by (auto simp: entry_ok_def observe_entry_def Let_def mode_bit_nonzero)

lemma can_specialize_records:
  assumes "can_specialize e" "records e access mode hazards"
  shows "hazards = 0 \<and> mode \<noteq> ModeGeneric \<and> access = ae_access e \<and> mode \<in> set (entry_modes e)"
proof -
  have c: "ae_state e \<noteq> Megamorphic" "ae_hazards e = 0" "ae_modes e AND 1 = 0"
    using assms(1) by (simp_all add: can_specialize_def)
  have r: "word_le (mode_bit mode) (ae_modes e)" "word_le hazards (ae_hazards e)" "ae_access e = access"
    using assms(2) c(1) by (simp_all add: records_def)
  have b: "mode_bit mode AND ae_modes e = mode_bit mode" "mode_bit mode \<noteq> 0"
    using r(1) mode_bit_nonzero [of 0 mode] by (simp_all add: word_le_def)
  then have "mode \<noteq> ModeGeneric" using c(3) by (auto simp: mode_bit_def and.commute)
  moreover have "ae_modes e AND mode_bit mode \<noteq> 0" using b by (simp add: and.commute)
  then have "mode \<in> set (entry_modes e)" by (cases mode) (simp_all add: entry_modes_def)
  ultimately show ?thesis using r c word_le_zero by auto
qed

section \<open>The table\<close>

definition array_inv :: "array_feedback_table \<Rightarrow> bool" where
  "array_inv t \<longleftrightarrow>
     strict_sorted_keys (at_entries t) \<and> length (at_entries t) \<le> at_capacity t \<and>
     at_version t \<le> u64_max \<and>
     (\<forall>(k, e) \<in> set (at_entries t). entry_ok (at_diversity_limit t) k e)"

datatype array_op =
    ObserveArray function_key nat array_access array_mode array_hazards
  | ObserveRaw function_key nat "32 word" "32 word"
  | ForgetFunction function_key

fun array_step :: "array_op \<Rightarrow> array_feedback_table \<Rightarrow> array_feedback_table" where
  "array_step (ObserveArray f pc access mode hazards) t = snd (observe_array f pc access mode hazards t)"
| "array_step (ObserveRaw f pc mode flags) t = snd (observe_raw f pc mode flags t)"
| "array_step (ForgetFunction f) t = forget_array_function f t"

lemma length_bt_insert:
  "strict_sorted_keys m \<Longrightarrow>
   length (bt_insert k v m) = (if map_of m k = None then Suc (length m) else length m)"
proof -
  assume m: "strict_sorted_keys m"
  have "length (bt_insert k v m) = card (set (map fst (bt_insert k v m)))"
    using distinct_card [OF strict_sorted_distinct [OF sorted_bt_insert [OF m, of k v]]]
    by (simp only: length_map)
  also have "\<dots> = card (insert k (set (map fst m)))" by (simp only: keys_bt_insert)
  also have "\<dots> = (if map_of m k = None then Suc (length m) else length m)"
    using strict_sorted_distinct [OF m] distinct_card [of "map fst m"]
    by (auto simp: map_of_eq_None_iff insert_absorb card_insert_if)
  finally show ?thesis .
qed

definition old_entry :: "array_feedback_table \<Rightarrow> function_key \<Rightarrow> nat \<Rightarrow> array_access \<Rightarrow> array_entry" where
  "old_entry t f pc access =
     (case map_of (at_entries t) (f, pc) of Some e \<Rightarrow> e | None \<Rightarrow> fresh_entry f pc access)"

definition full_for :: "array_feedback_table \<Rightarrow> function_key \<times> nat \<Rightarrow> bool" where
  "full_for t k \<longleftrightarrow> map_of (at_entries t) k = None \<and> at_capacity t \<le> length (at_entries t)"

lemma observe_array_full:
  "full_for t (f, pc) \<Longrightarrow> observe_array f pc access mode hazards t =
     (Megamorphic, t\<lparr>at_dropped := sat_add u64_max (at_dropped t) 1\<rparr>)"
  by (simp add: observe_array_def full_for_def)

lemma observe_array_stored:
  assumes "\<not> full_for t (f, pc)"
  shows "observe_array f pc access mode hazards t =
    (let e = observe_entry (at_diversity_limit t) access mode hazards (old_entry t f pc access) in
     (ae_state e,
      t\<lparr>at_entries := bt_insert (f, pc) e (at_entries t),
        at_version := if e \<noteq> old_entry t f pc access then sat_add u64_max (at_version t) 1
                      else at_version t\<rparr>))"
  using assms
  by (auto simp: observe_array_def full_for_def old_entry_def Let_def split: option.splits)


lemma new_array_table_inv: "array_inv (new_array_table capacity limit)"
  by (simp add: array_inv_def new_array_table_def)

lemma bt_insert_set: "strict_sorted_keys m \<Longrightarrow> set (bt_insert k v m) \<subseteq> insert (k, v) (set m)"
  by (induction m) (auto split: if_splits)

lemma bt_insert_same: "strict_sorted_keys m \<Longrightarrow> map_of m k = Some v \<Longrightarrow> bt_insert k v m = m"
proof (induction m)
  case (Cons e m)
  show ?case
  proof (cases "fst e = k")
    case True
    with Cons.prems(2) have "e = (k, v)" by (cases e) simp
    then show ?thesis by simp
  next
    case False
    with Cons.prems have m: "map_of m k = Some v" by (cases e) simp
    then have "k \<in> fst ` set m" by (metis domI dom_map_of_conv_image_fst)
    with Cons.prems(1) have "fst e < k" by auto
    with Cons.IH Cons.prems(1) m show ?thesis by simp
  qed
qed simp

lemma old_entry_site:
  assumes "array_inv t"
  shows "(ae_function (old_entry t f pc access), ae_pc (old_entry t f pc access)) = (f, pc)"
proof (cases "map_of (at_entries t) (f, pc)")
  case (Some e)
  then have "entry_ok (at_diversity_limit t) (f, pc) e"
    using assms map_of_SomeD [OF Some] by (auto simp: array_inv_def)
  then show ?thesis by (simp add: old_entry_def Some entry_ok_def)
qed (simp add: old_entry_def fresh_entry_def)

lemma observe_array_inv:
  assumes inv: "array_inv t"
  shows "array_inv (snd (observe_array f pc access mode hazards t))"
proof (cases "full_for t (f, pc)")
  case True
  then show ?thesis using inv by (simp add: observe_array_full array_inv_def)
next
  case False
  let ?e = "observe_entry (at_diversity_limit t) access mode hazards (old_entry t f pc access)"
  have sorted: "strict_sorted_keys (at_entries t)" using inv by (simp add: array_inv_def)
  have ok: "entry_ok (at_diversity_limit t) (f, pc) ?e"
    by (rule observe_entry_ok [OF old_entry_site [OF inv]])
  have "length (bt_insert (f, pc) ?e (at_entries t)) \<le> at_capacity t"
    using False inv by (auto simp: length_bt_insert [OF sorted] full_for_def array_inv_def)
  moreover have "\<forall>(k, e) \<in> set (bt_insert (f, pc) ?e (at_entries t)). entry_ok (at_diversity_limit t) k e"
    using bt_insert_set [OF sorted, of "(f, pc)" ?e] ok inv by (auto simp: array_inv_def)
  ultimately show ?thesis using inv
    by (simp add: observe_array_stored [OF False] array_inv_def Let_def)
qed

lemma observe_raw_step:
  "snd (observe_raw f pc mode flags t) =
     (case decode_array mode flags of None \<Rightarrow> t
      | Some (access, mode, hazards) \<Rightarrow> snd (observe_array f pc access mode hazards t))"
  by (simp add: observe_raw_def case_prod_unfold split: option.splits)

lemma forget_inv: "array_inv t \<Longrightarrow> array_inv (forget_array_function f t)"
  by (auto simp: array_inv_def forget_array_function_def sorted_wrt_map sorted_wrt_filter
      intro: le_trans [OF length_filter_le])

interpretation arrays: invariant_component array_step array_inv
proof unfold_locales
  fix t op assume "array_inv t"
  then show "array_inv (array_step op t)"
    by (cases op) (simp_all add: observe_array_inv observe_raw_step forget_inv
        split: option.splits prod.splits)
qed

lemma array_run_inv: "array_inv (fold array_step ops (new_array_table capacity limit))"
  by (rule arrays.inv_run [OF new_array_table_inv])

text \<open>The entry of a site widens along every run that does not forget its function.\<close>

lemma map_of_observe:
  assumes "array_inv t"
  shows "map_of (at_entries (snd (observe_array f pc access mode hazards t))) k =
    (if k = (f, pc) \<and> \<not> full_for t (f, pc)
     then Some (observe_entry (at_diversity_limit t) access mode hazards (old_entry t f pc access))
     else map_of (at_entries t) k)"
  using assms
  by (cases "full_for t (f, pc)")
    (simp_all add: observe_array_full observe_array_stored Let_def array_inv_def)

lemma observe_array_widens:
  assumes inv: "array_inv t" and e: "map_of (at_entries t) k = Some e"
  shows "\<exists>e'. map_of (at_entries (snd (observe_array f pc access mode hazards t))) k = Some e' \<and>
    entry_le e e'"
  using e by (auto simp: map_of_observe [OF inv] old_entry_def observe_entry_le)

lemma map_of_filter_keep: "P k \<Longrightarrow> map_of (filter (\<lambda>e. P (fst e)) m) k = map_of m k"
  by (induction m) auto

lemma array_step_widens:
  assumes inv: "array_inv t" and e: "map_of (at_entries t) (f, pc) = Some e" and op: "op \<noteq> ForgetFunction f"
  shows "\<exists>e'. map_of (at_entries (array_step op t)) (f, pc) = Some e' \<and> entry_le e e'"
proof (cases op)
  case (ForgetFunction g)
  then have "map_of (at_entries (array_step op t)) (f, pc) = map_of (at_entries t) (f, pc)"
    using op map_of_filter_keep [of "\<lambda>k. fst k \<noteq> g" "(f, pc)" "at_entries t"]
    by (simp add: forget_array_function_def)
  then show ?thesis using e by simp
qed (use observe_array_widens [OF inv e] e in
    \<open>auto simp: observe_raw_step split: option.splits prod.splits\<close>)

lemma array_run_widens:
  assumes "array_inv t" "map_of (at_entries t) (f, pc) = Some e" "ForgetFunction f \<notin> set ops"
  shows "\<exists>e'. map_of (at_entries (fold array_step ops t)) (f, pc) = Some e' \<and> entry_le e e'"
  using assms
proof (induction ops arbitrary: t e)
  case (Cons op ops)
  from array_step_widens [OF Cons.prems(1,2), of op] Cons.prems(3)
  obtain e' where "map_of (at_entries (array_step op t)) (f, pc) = Some e'" "entry_le e e'" by auto
  with Cons.IH [of "array_step op t" e'] arrays.inv_step [OF Cons.prems(1)] Cons.prems(3)
  show ?case by (auto intro: entry_le_trans)
qed simp


text \<open>
  C36. A specialisable site was never seen otherwise. Take any run of the table in which an array
  observation of a site was stored, not dropped, and the function not forgotten since. If the
  entry the site ends with allows specialisation, that observation had no hazard, was not generic,
  had the access kind of the entry, and its mode is among the modes the entry lists for guards.
\<close>

theorem array_specialize_sound:
  fixes capacity limit :: nat and ops :: "array_op list"
  assumes t: "t = fold array_step ops (new_array_table capacity limit)"
    and stored: "\<not> full_for t (f, pc)" and kept: "ForgetFunction f \<notin> set later"
    and e: "map_of (at_entries (fold array_step later
              (array_step (ObserveArray f pc access mode hazards) t))) (f, pc) = Some e"
    and c: "can_specialize e"
  shows "hazards = 0 \<and> mode \<noteq> ModeGeneric \<and> access = ae_access e \<and> mode \<in> set (entry_modes e)"
proof -
  let ?e = "observe_entry (at_diversity_limit t) access mode hazards (old_entry t f pc access)"
  have inv: "array_inv t" unfolding t by (rule array_run_inv)
  then have inv': "array_inv (array_step (ObserveArray f pc access mode hazards) t)"
    by (rule arrays.inv_step)
  have "map_of (at_entries (array_step (ObserveArray f pc access mode hazards) t)) (f, pc) = Some ?e"
    using stored by (simp add: map_of_observe [OF inv])
  from array_run_widens [OF inv' this kept] e have "entry_le ?e e" by simp
  with can_specialize_records [OF c records_mono [OF observe_entry_records]] show ?thesis by blast
qed

definition sample_array_table :: array_feedback_table where
  "sample_array_table = fold array_step [ObserveRaw (FunctionKey 42 1) 3 2 0] (new_array_table 2 3)"

theorem array_specialize_sound_witness:
  "\<exists>e. map_of (at_entries (snd (observe_array (FunctionKey 42 1) 3 AccessLoad ModeFloat64 0
       sample_array_table))) (FunctionKey 42 1, 3) = Some e \<and>
     ModeFloat64 \<in> set (entry_modes e) \<and> ae_access e = AccessLoad"
proof -
  let ?t = "snd (observe_array (FunctionKey 42 1) 3 AccessLoad ModeFloat64 0 sample_array_table)"
  have "map_option can_specialize (map_of (at_entries ?t) (FunctionKey 42 1, 3)) = Some True"
    by code_simp
  then obtain e where e: "map_of (at_entries ?t) (FunctionKey 42 1, 3) = Some e" "can_specialize e"
    by auto
  have n: "\<not> full_for sample_array_table (FunctionKey 42 1, 3)" by code_simp
  show ?thesis
    using array_specialize_sound [OF sample_array_table_def n, of "[]" AccessLoad ModeFloat64 0 e] e
    by simp
qed

lemma old_entry_Some: "map_of (at_entries t) (f, pc) = Some e \<Longrightarrow> old_entry t f pc access = e"
  by (simp add: old_entry_def)

lemma observe_unchanged:
  assumes sorted: "strict_sorted_keys (at_entries t)"
  shows "bt_insert (f, pc) (observe_entry limit access mode hazards (old_entry t f pc access)) (at_entries t)
      = at_entries t \<longleftrightarrow>
    observe_entry limit access mode hazards (old_entry t f pc access) = old_entry t f pc access"
proof (cases "map_of (at_entries t) (f, pc)")
  case None
  let ?old = "fresh_entry f pc access" and ?e = "observe_entry limit access mode hazards (fresh_entry f pc access)"
  have "map_of (bt_insert (f, pc) ?e (at_entries t)) (f, pc) \<noteq> None" using sorted by simp
  then have "bt_insert (f, pc) ?e (at_entries t) \<noteq> at_entries t" using None by metis
  moreover have "ae_modes ?e \<noteq> 0" by (simp add: observe_entry_def Let_def mode_bit_nonzero)
  then have "?e \<noteq> ?old" by (auto simp: fresh_entry_def)
  ultimately show ?thesis using None by (simp add: old_entry_def)
next
  case (Some e)
  let ?e = "observe_entry limit access mode hazards e"
  have "?e = e" if "bt_insert (f, pc) ?e (at_entries t) = at_entries t"
    using map_of_bt_insert [OF sorted, of "(f, pc)" ?e] that Some by (metis fun_upd_same option.inject)
  then show ?thesis unfolding old_entry_Some [OF Some] using bt_insert_same [OF sorted Some] by auto
qed

text \<open>
  C37. The version tells whether feedback changed. On every table that can arise, the table stays
  within its capacity, and an observation advances the version by one exactly when it changes some
  entry and otherwise leaves it alone, as long as the 64-bit counter has not saturated; a full
  table answers megamorphic for a new site and only counts the drop.
\<close>

theorem array_version_exact:
  fixes capacity limit :: nat and ops :: "array_op list"
  assumes t: "t = fold array_step ops (new_array_table capacity limit)"
    and t': "(state, t') = observe_array f pc access mode hazards t" and v: "at_version t < u64_max"
  shows "length (at_entries t') \<le> at_capacity t \<and>
    at_version t' = at_version t + (if at_entries t' = at_entries t then 0 else 1) \<and>
    (if full_for t (f, pc) then state = Megamorphic \<and> at_entries t' = at_entries t
     else map_option ae_state (map_of (at_entries t') (f, pc)) = Some state)"
proof -
  let ?old = "old_entry t f pc access"
  let ?e = "observe_entry (at_diversity_limit t) access mode hazards ?old"
  have inv: "array_inv t" unfolding t by (rule array_run_inv)
  then have sorted: "strict_sorted_keys (at_entries t)" by (simp add: array_inv_def)
  show ?thesis
  proof (cases "full_for t (f, pc)")
    case True
    then show ?thesis using t' inv by (simp add: observe_array_full array_inv_def)
  next
    case False
    have same: "bt_insert (f, pc) ?e (at_entries t) = at_entries t \<longleftrightarrow> ?e = ?old"
      by (rule observe_unchanged [OF sorted])
    let ?t' = "snd (observe_array f pc access mode hazards t)"
    have len: "length (at_entries ?t') \<le> at_capacity t"
      using observe_array_inv [OF inv, of f pc access mode hazards]
      by (simp add: array_inv_def observe_array_stored [OF False] Let_def)
    have r: "state = ae_state ?e" "t' = ?t'" "at_entries ?t' = bt_insert (f, pc) ?e (at_entries t)"
        "at_version ?t' = at_version t + (if ?e = ?old then 0 else 1)"
      using t' v by (simp_all add: observe_array_stored [OF False] Let_def sat_add_def)
    have "map_of (at_entries ?t') (f, pc) = Some ?e" unfolding r(3) using sorted by simp
    moreover have "at_entries ?t' = at_entries t \<longleftrightarrow> ?e = ?old" unfolding r(3) by (rule same)
    ultimately show ?thesis using len False unfolding r(2) r(4) r(1) by (simp only: if_cancel) auto
  qed
qed

theorem array_version_exact_witness:
  "at_version (snd (observe_array (FunctionKey 42 1) 3 AccessLoad ModeFloat64 0 sample_array_table)) = 2"
proof -
  let ?t = sample_array_table
  let ?r = "observe_array (FunctionKey 42 1) 3 AccessLoad ModeFloat64 0 ?t"
  have v: "at_version ?t = 1" by code_simp
  have d: "at_entries (snd ?r) \<noteq> at_entries ?t" by code_simp
  from array_version_exact [OF sample_array_table_def, of "fst ?r" "snd ?r"] v d
  show ?thesis by (simp add: u64_max_def)
qed

end
