(* ===== verification/Hotness.thy ===== *)
theory Hotness
  imports Runtime_Keys
begin

text \<open>
  Tiering policy, \<^verbatim>\<open>jit/src/runtime/hotness.rs\<close>: the profitability model that decides whether a
  function is interpreted, compiled by the baseline compiler or optimised, the adaptive hotness
  thresholds, and the counters that decide when a function is queued for compilation.

  Times, counts and sizes are \<open>u64\<close> or \<open>u32\<close> values with the saturation of the source. The net
  benefit is an \<open>i128\<close>: the difference of two \<open>u64\<close> values, for which \<open>int\<close> is exact.
\<close>

definition BASE_CALL_THRESHOLD :: nat where "BASE_CALL_THRESHOLD = 32"
definition BASE_LOOP_THRESHOLD :: nat where "BASE_LOOP_THRESHOLD = 56"

section \<open>Profitability\<close>

record profile =
  bytecodes :: nat
  helper_calls :: nat
  compile_ns :: nat
  install_ns :: nat
  executions :: nat
  interpreter_ns :: nat
  baseline_ns :: nat
  optimized_ns :: nat
  code_bytes :: nat

datatype decision = Interpret | Baseline | Optimize

datatype profitability_rationale =
    FixedPolicy | InsufficientMeasurement | NoBaselineBenefit | HelperDominated | BeforeBreakEven
  | PositiveAmortizedBenefit

record profitability_decision =
  pd_tier :: decision
  pd_rationale :: profitability_rationale
  pd_gross_benefit_ns :: nat
  pd_net_benefit_ns :: int
  pd_break_even_executions :: nat
  pd_benefit_density :: nat

record profitability =
  fixed_tier :: "decision option"
  helper_ratio_limit_per_mille :: nat

definition default_profitability :: profitability where
  "default_profitability = \<lparr>fixed_tier = None, helper_ratio_limit_per_mille = 250\<rparr>"

definition fixed_profitability :: "decision \<Rightarrow> profitability" where
  "fixed_profitability t = \<lparr>fixed_tier = Some t, helper_ratio_limit_per_mille = 250\<rparr>"

definition decide_tier ::
  "decision \<Rightarrow> profitability_rationale \<Rightarrow> nat \<Rightarrow> int \<Rightarrow> nat \<Rightarrow> nat \<Rightarrow> profitability_decision" where
  "decide_tier tier why gross net break_even density =
     \<lparr>pd_tier = tier, pd_rationale = why, pd_gross_benefit_ns = gross, pd_net_benefit_ns = net,
      pd_break_even_executions = break_even, pd_benefit_density = density\<rparr>"

definition ceil_div :: "nat \<Rightarrow> nat \<Rightarrow> nat" where
  "ceil_div numerator denominator =
     (if denominator = 0 then u64_max
      else if numerator mod denominator = 0 then numerator div denominator
      else sat_add u64_max (numerator div denominator) 1)"

definition compile_cost :: "profile \<Rightarrow> nat" where
  "compile_cost p = sat_add u64_max (compile_ns p) (install_ns p)"

definition net_benefit :: "nat \<Rightarrow> profile \<Rightarrow> int" where
  "net_benefit saved_per_execution p =
     int (sat_mul u64_max saved_per_execution (executions p)) - int (compile_cost p)"

definition measured_decision ::
  "decision \<Rightarrow> profitability_rationale \<Rightarrow> nat \<Rightarrow> profile \<Rightarrow> profitability_decision" where
  "measured_decision tier why saved_per_execution p =
     (let gross = sat_mul u64_max saved_per_execution (executions p);
          net = net_benefit saved_per_execution p;
          density = (if code_bytes p = 0 \<or> net \<le> 0 then 0
                     else (if net \<le> int u64_max then nat net else u64_max) div code_bytes p)
      in decide_tier tier why gross net (ceil_div (compile_cost p) saved_per_execution) density)"

definition with_break_even :: "nat \<Rightarrow> profitability_decision \<Rightarrow> profitability_decision" where
  "with_break_even n d = d\<lparr>pd_break_even_executions := n\<rparr>"

definition evaluate :: "profitability \<Rightarrow> profile \<Rightarrow> profitability_decision" where
  "evaluate policy p =
     (case fixed_tier policy of
        Some tier \<Rightarrow> decide_tier tier FixedPolicy 0 0 0 0
      | None \<Rightarrow>
          if executions p = 0 \<or> interpreter_ns p = 0
          then decide_tier Interpret InsufficientMeasurement 0 0 0 0
          else
            let interpreter_per_execution = interpreter_ns p div executions p;
                baseline_per_execution = baseline_ns p div executions p;
                optimized_per_execution = optimized_ns p div executions p in
            if interpreter_per_execution \<le> baseline_per_execution
            then decide_tier Interpret NoBaselineBenefit 0 0 0 0
            else
              let baseline_saving = sat_sub interpreter_per_execution baseline_per_execution in
              if bytecodes p \<noteq> 0 \<and>
                 sat_mul u64_max (bytecodes p) (helper_ratio_limit_per_mille policy)
                   \<le> sat_mul u64_max (helper_calls p) 1000
              then measured_decision Baseline HelperDominated baseline_saving p
              else
                let optimized_saving = sat_sub baseline_per_execution optimized_per_execution;
                    break_even = ceil_div (compile_cost p) optimized_saving;
                    net = net_benefit optimized_saving p in
                with_break_even break_even
                  (if optimized_saving = 0 \<or> net \<le> 0
                   then measured_decision Baseline BeforeBreakEven optimized_saving p
                   else measured_decision Optimize PositiveAmortizedBenefit optimized_saving p))"


section \<open>Thresholds\<close>

datatype hot_reason =
    NeutralBase | CallThreshold | LoopThreshold | BytecodeScale | HelperDensity | MeasuredWork

record hot_thresholds =
  th_calls :: nat
  th_loops :: nat
  th_rationale :: hot_reason

record adaptive_inputs =
  bytecode_bytes :: nat
  helper_ops :: nat
  instruction_count :: nat
  measured_work :: "nat option"

definition default_inputs :: adaptive_inputs where
  "default_inputs =
     \<lparr>bytecode_bytes = 0, helper_ops = 0, instruction_count = 0, measured_work = None\<rparr>"

definition thresholds :: "adaptive_inputs \<Rightarrow> hot_thresholds" where
  "thresholds a =
     (case measured_work a of
        None \<Rightarrow> \<lparr>th_calls = BASE_CALL_THRESHOLD, th_loops = BASE_LOOP_THRESHOLD, th_rationale = NeutralBase\<rparr>
      | Some work \<Rightarrow>
          if 4096 \<le> work then
            \<lparr>th_calls = BASE_CALL_THRESHOLD div 2, th_loops = BASE_LOOP_THRESHOLD div 2,
             th_rationale = MeasuredWork\<rparr>
          else if instruction_count a \<noteq> 0 \<and> instruction_count a \<le> sat_mul u32_max (helper_ops a) 4 then
            \<lparr>th_calls = sat_mul u32_max BASE_CALL_THRESHOLD 2,
             th_loops = sat_mul u32_max BASE_LOOP_THRESHOLD 2, th_rationale = HelperDensity\<rparr>
          else if 4096 \<le> bytecode_bytes a then
            \<lparr>th_calls = sat_mul u32_max BASE_CALL_THRESHOLD 2,
             th_loops = sat_mul u32_max BASE_LOOP_THRESHOLD 2, th_rationale = BytecodeScale\<rparr>
          else
            \<lparr>th_calls = BASE_CALL_THRESHOLD, th_loops = BASE_LOOP_THRESHOLD, th_rationale = NeutralBase\<rparr>)"

section \<open>Counters\<close>

datatype hot_decision = Cold | Queue hot_reason | AlreadyQueued

record hotness_state =
  hs_calls :: nat
  hs_loops :: nat
  hs_exits :: nat
  hs_queued :: bool

definition default_hotness :: hotness_state where
  "default_hotness = \<lparr>hs_calls = 0, hs_loops = 0, hs_exits = 0, hs_queued = False\<rparr>"

definition record_calls :: "nat \<Rightarrow> hotness_state \<Rightarrow> hotness_state" where
  "record_calls count s = s\<lparr>hs_calls := sat_add u32_max (hs_calls s) count\<rparr>"

definition record_loops :: "nat \<Rightarrow> hotness_state \<Rightarrow> hotness_state" where
  "record_loops count s = s\<lparr>hs_loops := sat_add u32_max (hs_loops s) count\<rparr>"

definition record_exits :: "nat \<Rightarrow> hotness_state \<Rightarrow> hotness_state" where
  "record_exits count s = s\<lparr>hs_exits := sat_add u32_max (hs_exits s) count\<rparr>"

definition mark_queued :: "hotness_state \<Rightarrow> bool \<times> hotness_state" where
  "mark_queued s = (if hs_queued s then (False, s) else (True, s\<lparr>hs_queued := True\<rparr>))"

definition clear_queued :: "hotness_state \<Rightarrow> hotness_state" where
  "clear_queued s = s\<lparr>hs_queued := False\<rparr>"

definition decide :: "bool \<Rightarrow> hot_reason \<Rightarrow> hotness_state \<Rightarrow> hot_decision \<times> hotness_state" where
  "decide hot reason s =
     (if \<not> hot then (Cold, s)
      else case mark_queued s of (fresh, s) \<Rightarrow> (if fresh then Queue reason else AlreadyQueued, s))"

definition record_call_event_with_thresholds ::
  "nat \<Rightarrow> hot_thresholds \<Rightarrow> hotness_state \<Rightarrow> hot_decision \<times> hotness_state" where
  "record_call_event_with_thresholds count th s =
     (let s = record_calls count s in decide (th_calls th \<le> hs_calls s) CallThreshold s)"

definition record_loop_event_with_thresholds ::
  "nat \<Rightarrow> hot_thresholds \<Rightarrow> hotness_state \<Rightarrow> hot_decision \<times> hotness_state" where
  "record_loop_event_with_thresholds count th s =
     (let s = record_loops count s in decide (th_loops th \<le> hs_loops s) LoopThreshold s)"

definition record_call_event :: "nat \<Rightarrow> hotness_state \<Rightarrow> hot_decision \<times> hotness_state" where
  "record_call_event count s = record_call_event_with_thresholds count (thresholds default_inputs) s"

definition record_loop_event :: "nat \<Rightarrow> hotness_state \<Rightarrow> hot_decision \<times> hotness_state" where
  "record_loop_event count s = record_loop_event_with_thresholds count (thresholds default_inputs) s"


section \<open>What a decision means\<close>

named_theorems hot_defs

lemmas [hot_defs] = measured_decision_def decide_tier_def with_break_even_def Let_def

text \<open>The break-even count is the least number of executions that pays for the compilation.\<close>

lemma ceil_div_least:
  assumes "0 < d" "n \<le> u64_max"
  shows "n \<le> ceil_div n d * d" "m < ceil_div n d \<Longrightarrow> m * d < n"
proof -
  define q r where "q = n div d" and "r = n mod d"
  have n: "n = q * d + r" "r < d" using assms by (simp_all add: q_def r_def)
  have "ceil_div n d = (if r = 0 then q else q + 1)"
  proof (cases "r = 0")
    case False
    have "q * 1 \<le> q * d" by (rule mult_le_mono2) (use assms in simp)
    then have "q + 1 \<le> u64_max" using n False assms(2) by linarith
    then show ?thesis using False assms by (simp add: ceil_div_def sat_add_def q_def r_def)
  qed (use assms in \<open>simp add: ceil_div_def q_def r_def\<close>)
  note c = this
  show "n \<le> ceil_div n d * d" using n unfolding c by simp
  show "m * d < n" if "m < ceil_div n d"
  proof (cases "r = 0")
    case True
    then have "m < q" using that by (simp add: c)
    then show ?thesis using True n assms(1) by simp
  next
    case False
    then have "m \<le> q" using that by (simp add: c)
    then have "m * d \<le> q * d" by (rule mult_le_mono1)
    then show ?thesis using n False by linarith
  qed
qed

lemma compile_cost_le: "compile_cost p \<le> u64_max"
  by (simp add: compile_cost_def sat_add_def)

definition per_execution :: "(profile \<Rightarrow> nat) \<Rightarrow> profile \<Rightarrow> nat" where
  "per_execution time p = time p div executions p"

definition helper_dominated :: "nat \<Rightarrow> profile \<Rightarrow> bool" where
  "helper_dominated limit p \<longleftrightarrow>
     bytecodes p \<noteq> 0 \<and>
     sat_mul u64_max (bytecodes p) limit \<le> sat_mul u64_max (helper_calls p) 1000"

definition optimized_saving :: "profile \<Rightarrow> nat" where
  "optimized_saving p = per_execution baseline_ns p - per_execution optimized_ns p"

text \<open>The decision of the adaptive policy, rationale by rationale.\<close>

lemma evaluate_adaptive:
  assumes "fixed_tier policy = None"
  shows "pd_rationale (evaluate policy p) =
    (if executions p = 0 \<or> interpreter_ns p = 0 then InsufficientMeasurement
     else if per_execution interpreter_ns p \<le> per_execution baseline_ns p then NoBaselineBenefit
     else if helper_dominated (helper_ratio_limit_per_mille policy) p then HelperDominated
     else if optimized_saving p = 0 \<or> net_benefit (optimized_saving p) p \<le> 0 then BeforeBreakEven
     else PositiveAmortizedBenefit)"
  using assms
  by (simp add: evaluate_def hot_defs per_execution_def helper_dominated_def optimized_saving_def
      sat_sub_def)

lemma evaluate_optimized:
  assumes "fixed_tier policy = None" "pd_rationale (evaluate policy p) = PositiveAmortizedBenefit"
  shows "evaluate policy p =
    measured_decision Optimize PositiveAmortizedBenefit (optimized_saving p) p"
  using assms
  by (auto simp: evaluate_def hot_defs per_execution_def optimized_saving_def sat_sub_def
      split: if_splits)

lemma evaluate_tier:
  assumes "fixed_tier policy = None"
  shows "pd_tier (evaluate policy p) = Optimize \<longleftrightarrow>
    pd_rationale (evaluate policy p) = PositiveAmortizedBenefit"
  using assms by (simp add: evaluate_def hot_defs)

text \<open>The modelled profile of a trial: per execution, the baseline time, twice and three quarters of it.\<close>

lemma div_mult_exact: "0 < e \<Longrightarrow> a * e \<le> u64_max \<Longrightarrow> sat_mul u64_max a e div e = (a::nat)"
  by (simp add: sat_mul_exact)

lemma evaluate_optimize_iff:
  assumes "fixed_tier policy = None"
  shows "pd_tier (evaluate policy p) = Optimize \<longleftrightarrow>
    executions p \<noteq> 0 \<and> interpreter_ns p \<noteq> 0 \<and>
    per_execution baseline_ns p < per_execution interpreter_ns p \<and>
    \<not> helper_dominated (helper_ratio_limit_per_mille policy) p \<and>
    per_execution optimized_ns p < per_execution baseline_ns p \<and>
    0 < net_benefit (optimized_saving p) p"
  by (auto simp: evaluate_tier [OF assms] evaluate_adaptive [OF assms] optimized_saving_def)

lemma evaluate_break_even:
  assumes adaptive: "fixed_tier policy = None" and opt: "pd_tier (evaluate policy p) = Optimize"
  shows "let b = pd_break_even_executions (evaluate policy p) in
    compile_cost p \<le> b * optimized_saving p \<and>
    (\<forall>n < b. n * optimized_saving p < compile_cost p) \<and> b \<le> executions p \<and>
    0 < pd_net_benefit_ns (evaluate policy p)"
proof -
  let ?s = "optimized_saving p" and ?c = "compile_cost p"
  have e: "evaluate policy p = measured_decision Optimize PositiveAmortizedBenefit ?s p"
    using evaluate_optimized [OF adaptive] evaluate_tier [OF adaptive] opt by blast
  have s: "0 < ?s" and net: "0 < net_benefit ?s p"
    using evaluate_optimize_iff [OF adaptive] opt by (auto simp: optimized_saving_def)
  note least = ceil_div_least [OF s compile_cost_le]
  have "?c < executions p * ?s"
    using net by (auto simp: net_benefit_def sat_mul_def mult.commute min_def split: if_splits)
  then have "ceil_div ?c ?s \<le> executions p"
    using least(2) [of "executions p" p] by (meson less_asym not_le_imp_less)
  then show ?thesis using least net by (simp add: e hot_defs)
qed

text \<open>
  C38. Optimisation is requested exactly when it pays. Under the adaptive policy \<open>evaluate\<close> answers
  Optimize if and only if the profile was measured, baseline code is faster per execution than the
  interpreter, helper calls do not dominate, optimised code is faster than baseline code, and the
  time saved over the recorded executions exceeds compilation plus installation. The break-even
  count it then reports is the least number of executions that recovers the cost, it has been
  reached, and the reported net benefit is positive.
\<close>

theorem optimize_pays:
  assumes adaptive: "fixed_tier policy = None"
  shows "(pd_tier (evaluate policy p) = Optimize \<longleftrightarrow>
      executions p \<noteq> 0 \<and> interpreter_ns p \<noteq> 0 \<and>
      per_execution baseline_ns p < per_execution interpreter_ns p \<and>
      \<not> helper_dominated (helper_ratio_limit_per_mille policy) p \<and>
      per_execution optimized_ns p < per_execution baseline_ns p \<and>
      0 < net_benefit (optimized_saving p) p) \<and>
    (pd_tier (evaluate policy p) = Optimize \<longrightarrow>
      (let b = pd_break_even_executions (evaluate policy p) in
       compile_cost p \<le> b * optimized_saving p \<and>
       (\<forall>n < b. n * optimized_saving p < compile_cost p) \<and> b \<le> executions p \<and>
       0 < pd_net_benefit_ns (evaluate policy p)))"
  using evaluate_optimize_iff [OF adaptive, of p] evaluate_break_even [OF adaptive, of p]
  by blast

definition sample_profile :: profile where
  "sample_profile = \<lparr>bytecodes = 1000, helper_calls = 10, compile_ns = 4000, install_ns = 500,
     executions = 100, interpreter_ns = 50000, baseline_ns = 20000, optimized_ns = 10000,
     code_bytes = 64\<rparr>"

theorem optimize_pays_witness:
  "pd_tier (evaluate default_profitability sample_profile) = Optimize \<and>
   pd_break_even_executions (evaluate default_profitability sample_profile) = 45 \<and>
   45 \<le> executions sample_profile \<and> compile_cost sample_profile \<le> 45 * optimized_saving sample_profile"
proof -
  have a: "fixed_tier default_profitability = None" by (simp add: default_profitability_def)
  have o: "pd_tier (evaluate default_profitability sample_profile) = Optimize"
    by code_simp
  have "pd_break_even_executions (evaluate default_profitability sample_profile) = 45" by code_simp
  with optimize_pays [OF a, of sample_profile] o show ?thesis by (simp add: Let_def)
qed




definition trial_profile :: "profile \<Rightarrow> profile" where
  "trial_profile p = (let b = per_execution baseline_ns p in
     p\<lparr>interpreter_ns := sat_mul u64_max (sat_mul u64_max b 2) (executions p),
       optimized_ns := sat_mul u64_max (sat_mul u64_max b 3 div 4) (executions p),
       helper_calls := 0\<rparr>)"

lemma trial_profile_fields [simp]:
  "executions (trial_profile p) = executions p" "baseline_ns (trial_profile p) = baseline_ns p"
  "helper_calls (trial_profile p) = 0" "bytecodes (trial_profile p) = bytecodes p"
  "per_execution baseline_ns (trial_profile p) = per_execution baseline_ns p"
  "compile_cost (trial_profile p) = compile_cost p"
  by (simp_all add: trial_profile_def Let_def per_execution_def compile_cost_def)



lemma default_adaptive [simp]:
  "fixed_tier default_profitability = None"
  "helper_ratio_limit_per_mille default_profitability = 250"
  by (simp_all add: default_profitability_def)



section \<open>Queueing\<close>

text \<open>The thresholds are positive, at most twice the base ones, and never saturate a counter.\<close>

lemma thresholds_cases:
  "(th_calls (thresholds a), th_loops (thresholds a)) \<in> {(16, 28), (32, 56), (64, 112)}"
  by (cases "measured_work a")
    (auto simp: thresholds_def BASE_CALL_THRESHOLD_def BASE_LOOP_THRESHOLD_def sat_mul_def u32_max_def)

datatype hot_event = CallEvent nat hot_thresholds | LoopEvent nat hot_thresholds

fun hot_step :: "hot_event \<Rightarrow> hotness_state \<Rightarrow> hot_decision \<times> hotness_state" where
  "hot_step (CallEvent n th) s = record_call_event_with_thresholds n th s"
| "hot_step (LoopEvent n th) s = record_loop_event_with_thresholds n th s"

fun hot_run :: "hot_event list \<Rightarrow> hotness_state \<Rightarrow> hot_decision list \<times> hotness_state" where
  "hot_run [] s = ([], s)"
| "hot_run (e # es) s =
     (let (d, s) = hot_step e s; (ds, s) = hot_run es s in (d # ds, s))"

lemmas hot_step_defs = record_call_event_with_thresholds_def record_loop_event_with_thresholds_def
  record_calls_def record_loops_def decide_def mark_queued_def Let_def

text \<open>When an event is hot: the counts of its kind so far, its own included, reach the threshold; the counter
  stops at the largest \<open>u32\<close>.\<close>

fun event_count :: "hot_event \<Rightarrow> hot_event \<Rightarrow> nat" where
  "event_count (CallEvent _ _) (CallEvent n _) = n"
| "event_count (LoopEvent _ _) (LoopEvent n _) = n"
| "event_count _ _ = 0"

fun event_hot :: "hot_event list \<Rightarrow> hot_event \<Rightarrow> hotness_state \<Rightarrow> bool" where
  "event_hot before (CallEvent n th) s \<longleftrightarrow>
     th_calls th \<le> min u32_max (hs_calls s + sum_list (map (event_count (CallEvent n th)) before) + n)"
| "event_hot before (LoopEvent n th) s \<longleftrightarrow>
     th_loops th \<le> min u32_max (hs_loops s + sum_list (map (event_count (LoopEvent n th)) before) + n)"

fun event_reason :: "hot_event \<Rightarrow> hot_reason" where
  "event_reason (CallEvent _ _) = CallThreshold"
| "event_reason (LoopEvent _ _) = LoopThreshold"

abbreviation hot_at :: "hot_event list \<Rightarrow> hotness_state \<Rightarrow> nat \<Rightarrow> bool" where
  "hot_at es s i \<equiv> event_hot (take i es) (es ! i) s"

lemma hot_step_spec:
  assumes "hot_step e s = (d, s')"
  shows "d = (if \<not> event_hot [] e s then Cold else if hs_queued s then AlreadyQueued else Queue (event_reason e))"
    and "hs_queued s' \<longleftrightarrow> hs_queued s \<or> event_hot [] e s"
    and "event_hot before e' s' = event_hot (e # before) e' s"
proof -
  show "d = (if \<not> event_hot [] e s then Cold else if hs_queued s then AlreadyQueued else Queue (event_reason e))"
    "hs_queued s' \<longleftrightarrow> hs_queued s \<or> event_hot [] e s"
    using assms by (cases e; auto simp: hot_step_defs sat_add_def split: if_splits)+
  have "hs_calls s' = (case e of CallEvent n _ \<Rightarrow> min u32_max (hs_calls s + n) | LoopEvent _ _ \<Rightarrow> hs_calls s)"
    "hs_loops s' = (case e of LoopEvent n _ \<Rightarrow> min u32_max (hs_loops s + n) | CallEvent _ _ \<Rightarrow> hs_loops s)"
    using assms by (cases e; auto simp: hot_step_defs sat_add_def split: if_splits)+
  then show "event_hot before e' s' = event_hot (e # before) e' s"
    by (cases e; cases e') (auto simp: min_def)
qed

text \<open>
  C40. A function is queued exactly once. In the decisions that a sequence of call and loop events
  produces, with whatever thresholds, an event is cold exactly while the counts of its kind, from the
  start and saturating, are below its threshold. The first event that is not cold queues a function that
  is not queued yet, for the reason of that event, and every other one reports that it is queued already.
  Afterwards the function is queued if it was before or if some event was hot.
\<close>

theorem queued_once:
  "fst (hot_run es s) = map (\<lambda>i.
      if \<not> hot_at es s i then Cold
      else if hs_queued s \<or> (\<exists>j < i. hot_at es s j) then AlreadyQueued
      else Queue (event_reason (es ! i))) [0..<length es] \<and>
   (hs_queued (snd (hot_run es s)) \<longleftrightarrow> hs_queued s \<or> (\<exists>i < length es. hot_at es s i))"
proof (induction es arbitrary: s)
  case (Cons e es)
  obtain d s' where d: "hot_step e s = (d, s')" by (cases "hot_step e s")
  obtain ds s'' where ds: "hot_run es s' = (ds, s'')" by (cases "hot_run es s'")
  note step = hot_step_spec [OF d]
  have run: "hot_run (e # es) s = (d # ds, s'')" by (simp add: d ds Let_def)
  note IH = Cons.IH [of s', unfolded ds fst_conv snd_conv step(3)]
  have ex: "(\<exists>j < Suc k. hot_at (e # es) s j) \<longleftrightarrow> event_hot [] e s \<or> (\<exists>j < k. event_hot (e # take j es) (es ! j) s)" for k
    by (simp add: Ex_less_Suc2 del: event_hot.simps)
  have upt: "[0..<length (e # es)] = 0 # map Suc [0..<length es]" by (simp add: upt_conv_Cons map_Suc_upt del: upt_Suc)
  show ?case
    unfolding run fst_conv snd_conv upt
    using step(1,2) IH ex by (simp add: comp_def del: event_hot.simps) blast
qed simp

theorem queued_once_witness:
  "fst (hot_run [CallEvent 31 (thresholds default_inputs), LoopEvent 60 (thresholds default_inputs),
     CallEvent 1 (thresholds default_inputs)] default_hotness) = [Cold, Queue LoopThreshold, AlreadyQueued]"
proof -
  let ?es = "[CallEvent 31 (thresholds default_inputs), LoopEvent 60 (thresholds default_inputs),
     CallEvent 1 (thresholds default_inputs)]"
  have "th_calls (thresholds default_inputs) = 32" "th_loops (thresholds default_inputs) = 56" by code_simp+
  then show ?thesis
    using conjunct1 [OF queued_once [of ?es default_hotness]]
    by (simp add: default_hotness_def u32_max_def upt_rec numeral_2_eq_2 Ex_less_Suc)
qed

lemma call_run_nth:
  assumes "i < length counts" "limit = th_calls th" "limit \<le> u32_max"
    and "hs_calls s = min u32_max c" "hs_queued s \<longleftrightarrow> limit \<le> c"
  shows "fst (hot_run (map (\<lambda>n. CallEvent n th) counts) s) ! i =
    (if c + sum_list (take (Suc i) counts) < limit then Cold
     else if c + sum_list (take i counts) < limit then Queue CallThreshold else AlreadyQueued)"
  using assms
proof (induction counts arbitrary: s c i)
  case (Cons n counts)
  obtain d s' where d: "record_call_event_with_thresholds n th s = (d, s')"
    by (cases "record_call_event_with_thresholds n th s")
  have calls: "hs_calls s' = min u32_max (c + n)" and queued: "hs_queued s' \<longleftrightarrow> limit \<le> c + n"
    and first: "d = (if c + n < limit then Cold
      else if c < limit then Queue CallThreshold else AlreadyQueued)"
    using d Cons.prems(2-5) by (auto simp: hot_step_defs sat_add_def split: if_splits)
  show ?case
  proof (cases i)
    case 0
    then show ?thesis by (simp add: d first case_prod_unfold Let_def)
  next
    case (Suc j)
    have "fst (hot_run (map (\<lambda>n. CallEvent n th) counts) s') ! j =
        (if c + n + sum_list (take (Suc j) counts) < limit then Cold
         else if c + n + sum_list (take j counts) < limit then Queue CallThreshold else AlreadyQueued)"
      by (rule Cons.IH) (use Cons.prems Suc calls queued in simp_all)
    then show ?thesis using Suc by (simp add: d case_prod_unfold Let_def add.assoc)
  qed
qed simp

text \<open>
  The threshold is met exactly. On a fresh function with adaptive thresholds, the \<open>i\<close>-th batch
  of calls leaves it cold while the calls counted so far stay below the threshold, queues it with
  the batch that reaches the threshold, and finds it queued from then on, saturation of the counter
  included.
\<close>

theorem call_threshold_exact:
  assumes i: "i < length counts"
  shows "fst (hot_run (map (\<lambda>n. CallEvent n (thresholds a)) counts) default_hotness) ! i =
    (let limit = th_calls (thresholds a) in
     if sum_list (take (Suc i) counts) < limit then Cold
     else if sum_list (take i counts) < limit then Queue CallThreshold else AlreadyQueued)"
  using call_run_nth [OF i refl, where c = 0 and s = default_hotness and th = "thresholds a"]
    thresholds_cases [of a]
  by (auto simp: default_hotness_def Let_def u32_max_def)

theorem call_threshold_exact_witness:
  "fst (hot_run (map (\<lambda>n. CallEvent n (thresholds default_inputs)) [31, 1, 1]) default_hotness) =
    [Cold, Queue CallThreshold, AlreadyQueued]"
proof -
  let ?run = "fst (hot_run (map (\<lambda>n. CallEvent n (thresholds default_inputs)) [31, 1, 1]) default_hotness)"
  have l: "th_calls (thresholds default_inputs) = 32" "length ?run = 3" by code_simp+
  have "?run ! 0 = Cold" "?run ! 1 = Queue CallThreshold" "?run ! 2 = AlreadyQueued"
    using call_threshold_exact [of 0 "[31, 1, 1]" default_inputs]
      call_threshold_exact [of 1 "[31, 1, 1]" default_inputs]
      call_threshold_exact [of 2 "[31, 1, 1]" default_inputs]
    by (simp_all add: l Let_def numeral_2_eq_2)
  then show ?thesis using l(2)
    by (auto simp: numeral_3_eq_3 numeral_2_eq_2 length_Suc_conv)
qed

end
