(* ===== verification/Artifact.thy ===== *)
theory Artifact
  imports Runtime_Keys
begin

text \<open>
  Compiled artifacts, \<^verbatim>\<open>jit/src/code_cache/artifact.rs\<close>: their compatibility key with its derived
  order, relocations and their resolution, benefit counters, and the number of bytes an artifact is
  charged in the cache. The sizes of Rust types are those of the build, given by a record; the
  published machine code an artifact owns is outside the model.
\<close>

unbundle bit_operations_syntax

section \<open>Keys\<close>

datatype tier = TierBaseline | TierOptimizing

datatype artifact_key =
  ArtifactKey
    (ak_runtime_id: nat) (ak_function_id: nat) (ak_generation: nat) (ak_tier: tier)
    (ak_target_isa: nat) (ak_cpu_features: nat) (ak_abi_fingerprint: nat)
    (ak_source_revision: nat) (ak_opcode_fingerprint: nat) (ak_config_fingerprint: nat)
    (ak_specialization_fingerprint: nat)

fun tier_rank :: "tier \<Rightarrow> nat" where
  "tier_rank TierBaseline = 0"
| "tier_rank TierOptimizing = 1"

text \<open>The derived order compares the fields lexicographically.\<close>

fun artifact_rank ::
  "artifact_key \<Rightarrow> nat \<times> nat \<times> nat \<times> nat \<times> nat \<times> nat \<times> nat \<times> nat \<times> nat \<times> nat \<times> nat" where
  "artifact_rank (ArtifactKey r f g t i c a s p n k) = (r, f, g, tier_rank t, i, c, a, s, p, n, k)"

lemma tier_rank_inj: "tier_rank s = tier_rank t \<longleftrightarrow> s = t"
  by (cases s; cases t) simp_all

lemma artifact_rank_inj: "artifact_rank a = artifact_rank b \<longleftrightarrow> a = b"
  by (cases a; cases b) (auto simp: tier_rank_inj)

instantiation artifact_key :: linorder
begin

definition less_eq_artifact_key :: "artifact_key \<Rightarrow> artifact_key \<Rightarrow> bool" where
  "less_eq_artifact_key a b \<longleftrightarrow> artifact_rank a \<le> artifact_rank b"

definition less_artifact_key :: "artifact_key \<Rightarrow> artifact_key \<Rightarrow> bool" where
  "less_artifact_key a b \<longleftrightarrow> artifact_rank a < artifact_rank b"

instance
proof
  fix a b c :: artifact_key
  show "a < b \<longleftrightarrow> a \<le> b \<and> \<not> b \<le> a"
    unfolding less_eq_artifact_key_def less_artifact_key_def by (rule less_le_not_le)
  show "a \<le> a" by (simp add: less_eq_artifact_key_def)
  show "a \<le> c" if "a \<le> b" "b \<le> c"
    using that unfolding less_eq_artifact_key_def by (rule order_trans)
  show "a = b" if "a \<le> b" "b \<le> a"
    using that unfolding less_eq_artifact_key_def
    by (simp only: artifact_rank_inj [symmetric] order_antisym)
  show "a \<le> b \<or> b \<le> a"
    unfolding less_eq_artifact_key_def by (rule linear)
qed

end

fun with_tier :: "artifact_key \<Rightarrow> tier \<Rightarrow> artifact_key" where
  "with_tier (ArtifactKey r f g _ i c a s p n k) t =
     ArtifactKey r f g t i c a s p n (if t = TierBaseline then 0 else k)"

definition artifact_function :: "artifact_key \<Rightarrow> function_key" where
  "artifact_function k = FunctionKey (ak_function_id k) (ak_generation k)"

record version_identity =
  vi_primary_fingerprint :: "64 word"
  vi_call_fingerprint :: "64 word"
  vi_fingerprint :: "64 word"

definition SUBSTITUTE :: "64 word" where "SUBSTITUTE = 0x9e3779b97f4a7c15"

definition new_version_identity :: "64 word \<Rightarrow> 64 word \<Rightarrow> version_identity" where
  "new_version_identity primary call =
     (let primary = (if primary = 0 then SUBSTITUTE else primary);
          call = (if call = 0 then SUBSTITUTE else call);
          combined = (primary XOR word_rotl 29 call) * 0x100000001b3
      in \<lparr>vi_primary_fingerprint = primary, vi_call_fingerprint = call,
          vi_fingerprint = (if combined = 0 then SUBSTITUTE else combined)\<rparr>)"

fun with_version_identity :: "artifact_key \<Rightarrow> version_identity \<Rightarrow> artifact_key" where
  "with_version_identity (ArtifactKey r f g t i c a s p n _) v =
     ArtifactKey r f g t i c a s p n (unat (vi_fingerprint v))"

section \<open>Relocations and frame metadata\<close>

datatype relocation_kind =
    Abs4 | Abs8 | X86PCRel4 | X86CallPCRel4 | X86CallPLTRel4 | X86GOTPCRel4 | X86SecRel
  | Arm32Call | Arm64Call | S390xPCRel32Dbl | S390xPLTRel32Dbl | ElfX86_64TlsGd | MachOX86_64Tlv
  | MachOAarch64TlsAdrPage21 | MachOAarch64TlsAdrPageOff12 | Aarch64TlsDescAdrPage21
  | Aarch64TlsDescLd64Lo12 | Aarch64TlsDescAddLo12 | Aarch64TlsDescCall | Aarch64AdrGotPage21
  | Aarch64Ld64GotLo12Nc | RiscvCallPlt | RiscvTlsGdHi20 | RiscvPCRelLo12I | RiscvGotHi20
  | S390xTlsGd64 | S390xTlsGdCall | PulleyCallIndirectHost

datatype relocation_target = Absolute nat | FunctionOffset nat | Symbol string

record relocation =
  rl_offset :: nat
  rl_kind :: relocation_kind
  rl_target :: relocation_target
  rl_addend :: int

definition new_relocation :: "nat \<Rightarrow> nat \<Rightarrow> int \<Rightarrow> relocation" where
  "new_relocation offset target addend =
     \<lparr>rl_offset = offset, rl_kind = Abs8, rl_target = Absolute target, rl_addend = addend\<rparr>"

record resolved_relocation =
  rr_offset :: nat
  rr_kind :: relocation_kind
  rr_target :: nat
  rr_addend :: int

datatype resolve_error = UnresolvedTarget

definition resolve_with ::
  "(relocation_target \<Rightarrow> nat option) \<Rightarrow> relocation \<Rightarrow> resolve_error + resolved_relocation" where
  "resolve_with resolve r =
     (case (case rl_target r of
              Absolute target \<Rightarrow> Inr target
            | _ \<Rightarrow> ok_or UnresolvedTarget (resolve (rl_target r))) of
        Inl e \<Rightarrow> Inl e
      | Inr target \<Rightarrow>
          Inr \<lparr>rr_offset = rl_offset r, rr_kind = rl_kind r, rr_target = target, rr_addend = rl_addend r\<rparr>)"

record stack_map =
  sm_code_offset :: nat
  sm_live_slots :: "nat list"

datatype unwind_kind = SystemV | WindowsX64 | WindowsArm64

record unwind_metadata =
  um_kind :: unwind_kind
  um_frame_size :: nat
  um_encoding :: "8 word list"

datatype frame_state_location_kind = CallReturn | Marker

record frame_state =
  fs_code_offset :: nat
  fs_bytecode_pc :: nat
  fs_slots :: "nat list"
  fs_location_kind :: frame_state_location_kind
  fs_source_location :: nat
  fs_source_start :: nat
  fs_source_end :: nat

definition new_frame_state :: "nat \<Rightarrow> nat \<Rightarrow> nat list \<Rightarrow> frame_state" where
  "new_frame_state code_offset bytecode_pc slots =
     \<lparr>fs_code_offset = code_offset, fs_bytecode_pc = bytecode_pc, fs_slots = slots,
      fs_location_kind = Marker, fs_source_location = 0, fs_source_start = code_offset,
      fs_source_end = sat_add u32_max code_offset 1\<rparr>"

section \<open>Artifacts\<close>

record benefit_counters =
  bc_executions :: nat
  bc_score :: nat

definition record_score :: "nat \<Rightarrow> benefit_counters \<Rightarrow> benefit_counters" where
  "record_score score b =
     b\<lparr>bc_executions := sat_add u64_max (bc_executions b) 1,
       bc_score := sat_add u64_max (bc_score b) score\<rparr>"

text \<open>
  Of the optimised metadata the charge depends on the deoptimisation sites only, and of each site
  on the number of its materialisations; of a retained inline body on its retained bytes.
\<close>

record compiled_artifact =
  art_key :: artifact_key
  art_code :: "8 word list"
  art_relocations :: "relocation list"
  art_unwind_metadata :: "unwind_metadata option"
  art_stack_maps :: "stack_map list"
  art_frame_states :: "frame_state list"
  art_dependencies :: "function_key list"
  art_benefit :: benefit_counters
  art_deopt_materializations :: "nat list option"
  art_inline_retained_bytes :: "nat option"

definition from_parts ::
  "artifact_key \<Rightarrow> 8 word list \<Rightarrow> relocation list \<Rightarrow> stack_map list \<Rightarrow> frame_state list \<Rightarrow>
   function_key list \<Rightarrow> compiled_artifact" where
  "from_parts key code relocations stack_maps frame_states dependencies =
     \<lparr>art_key = key, art_code = code, art_relocations = relocations, art_unwind_metadata = None,
      art_stack_maps = stack_maps, art_frame_states = frame_states,
      art_dependencies = dependencies,
      art_benefit = \<lparr>bc_executions = 0, bc_score = 0\<rparr>,
      art_deopt_materializations = None, art_inline_retained_bytes = None\<rparr>"

record type_sizes =
  size_relocation :: nat
  size_unwind_metadata :: nat
  size_stack_map :: nat
  size_frame_state :: nat
  size_dependency :: nat
  size_optimized_metadata :: nat
  size_deopt_site :: nat
  size_materialization :: nat

definition SIZE_U16 :: nat where "SIZE_U16 = 2"

definition add_slice :: "nat \<Rightarrow> nat \<Rightarrow> nat \<Rightarrow> nat option" where
  "add_slice elem_size acc len =
     Option.bind (checked_mul usize_max len elem_size) (checked_add usize_max acc)"

fun fold_opt :: "('a \<Rightarrow> 's \<Rightarrow> 's option) \<Rightarrow> 'a list \<Rightarrow> 's \<Rightarrow> 's option" where
  "fold_opt f [] s = Some s"
| "fold_opt f (x # xs) s = Option.bind (f x s) (fold_opt f xs)"

fun add_symbol :: "relocation_target \<Rightarrow> nat \<Rightarrow> nat option" where
  "add_symbol (Symbol symbol) acc = checked_add usize_max acc (length symbol)"
| "add_symbol _ acc = Some acc"

definition code_bytes_of :: "compiled_artifact \<Rightarrow> nat" where
  "code_bytes_of a = length (art_code a)"

text \<open>The running total, one part of the artifact after the other.\<close>

definition charge_inline :: "compiled_artifact \<Rightarrow> nat \<Rightarrow> nat option" where
  "charge_inline a acc =
     (case art_inline_retained_bytes a of
        None \<Rightarrow> Some acc
      | Some retained \<Rightarrow> checked_add usize_max acc retained)"

definition charge_relocations :: "type_sizes \<Rightarrow> compiled_artifact \<Rightarrow> nat \<Rightarrow> nat option" where
  "charge_relocations sz a acc =
     Option.bind (add_slice (size_relocation sz) acc (length (art_relocations a)))
       (fold_opt (\<lambda>r. add_symbol (rl_target r)) (art_relocations a))"

definition charge_unwind :: "type_sizes \<Rightarrow> compiled_artifact \<Rightarrow> nat \<Rightarrow> nat option" where
  "charge_unwind sz a acc =
     (case art_unwind_metadata a of
        None \<Rightarrow> Some acc
      | Some unwind \<Rightarrow>
          Option.bind (checked_add usize_max acc (size_unwind_metadata sz)) (\<lambda>acc.
            checked_add usize_max acc (length (um_encoding unwind))))"

definition charge_stack_maps :: "type_sizes \<Rightarrow> compiled_artifact \<Rightarrow> nat \<Rightarrow> nat option" where
  "charge_stack_maps sz a acc =
     Option.bind (add_slice (size_stack_map sz) acc (length (art_stack_maps a)))
       (fold_opt (\<lambda>m acc. add_slice SIZE_U16 acc (length (sm_live_slots m))) (art_stack_maps a))"

definition charge_frame_states :: "type_sizes \<Rightarrow> compiled_artifact \<Rightarrow> nat \<Rightarrow> nat option" where
  "charge_frame_states sz a acc =
     Option.bind (add_slice (size_frame_state sz) acc (length (art_frame_states a)))
       (fold_opt (\<lambda>s acc. add_slice SIZE_U16 acc (length (fs_slots s))) (art_frame_states a))"

definition charge_optimized :: "type_sizes \<Rightarrow> compiled_artifact \<Rightarrow> nat \<Rightarrow> nat option" where
  "charge_optimized sz a acc =
     (case art_deopt_materializations a of
        None \<Rightarrow> Some acc
      | Some sites \<Rightarrow>
          Option.bind (checked_add usize_max acc (size_optimized_metadata sz)) (\<lambda>acc.
          Option.bind (add_slice (size_deopt_site sz) acc (length sites))
            (fold_opt (\<lambda>n acc. add_slice (size_materialization sz) acc n) sites)))"

definition charge_bytes :: "type_sizes \<Rightarrow> compiled_artifact \<Rightarrow> nat option" where
  "charge_bytes sz a =
     Option.bind (charge_inline a (length (art_code a))) (\<lambda>acc.
     Option.bind (charge_relocations sz a acc) (\<lambda>acc.
     Option.bind (charge_unwind sz a acc) (\<lambda>acc.
     Option.bind (charge_stack_maps sz a acc) (\<lambda>acc.
     Option.bind (charge_frame_states sz a acc) (\<lambda>acc.
     Option.bind (add_slice (size_dependency sz) acc (length (art_dependencies a)))
       (charge_optimized sz a))))))"

definition artifact_metadata_bytes :: "type_sizes \<Rightarrow> compiled_artifact \<Rightarrow> nat option" where
  "artifact_metadata_bytes sz a =
     Option.bind (charge_bytes sz a) (\<lambda>acc. checked_sub acc (code_bytes_of a))"

section \<open>The charge is exact\<close>

definition total_or_none :: "nat \<Rightarrow> nat option" where
  "total_or_none n = (if n \<le> usize_max then Some n else None)"

lemma bind_total:
  assumes "\<And>m. m \<le> usize_max \<Longrightarrow> f m = total_or_none (m + d)"
  shows "Option.bind (total_or_none n) f = total_or_none (n + d)"
  using assms by (auto simp: total_or_none_def)

lemma checked_add_total: "checked_add usize_max m d = total_or_none (m + d)"
  by (simp add: checked_add_def total_or_none_def)

lemma add_slice_total: "add_slice sz m n = total_or_none (m + n * sz)"
  by (auto simp: add_slice_def checked_mul_def checked_add_def total_or_none_def)

lemma fold_opt_total:
  assumes "\<And>x m. m \<le> usize_max \<Longrightarrow> f x m = total_or_none (m + g x)" "m \<le> usize_max"
  shows "fold_opt f xs m = total_or_none (m + sum_list (map g xs))"
  using assms(2)
proof (induction xs arbitrary: m)
  case (Cons x xs)
  have "Option.bind (f x m) (fold_opt f xs) = total_or_none (m + g x + sum_list (map g xs))"
    unfolding assms(1) [OF Cons.prems] by (rule bind_total) (rule Cons.IH)
  then show ?case by (simp add: add.assoc)
qed (simp add: total_or_none_def)

fun symbol_bytes :: "relocation_target \<Rightarrow> nat" where
  "symbol_bytes (Symbol symbol) = length symbol"
| "symbol_bytes _ = 0"

lemma add_symbol_total: "m \<le> usize_max \<Longrightarrow> add_symbol t m = total_or_none (m + symbol_bytes t)"
  by (cases t) (simp_all add: checked_add_total total_or_none_def)

text \<open>The bytes of each part, without overflow checks.\<close>

definition part_inline :: "compiled_artifact \<Rightarrow> nat" where
  "part_inline a = (case art_inline_retained_bytes a of None \<Rightarrow> 0 | Some n \<Rightarrow> n)"

definition part_relocations :: "type_sizes \<Rightarrow> compiled_artifact \<Rightarrow> nat" where
  "part_relocations sz a = length (art_relocations a) * size_relocation sz
     + sum_list (map (\<lambda>r. symbol_bytes (rl_target r)) (art_relocations a))"

definition part_unwind :: "type_sizes \<Rightarrow> compiled_artifact \<Rightarrow> nat" where
  "part_unwind sz a = (case art_unwind_metadata a of None \<Rightarrow> 0
     | Some u \<Rightarrow> size_unwind_metadata sz + length (um_encoding u))"

definition part_stack_maps :: "type_sizes \<Rightarrow> compiled_artifact \<Rightarrow> nat" where
  "part_stack_maps sz a = length (art_stack_maps a) * size_stack_map sz
     + sum_list (map (\<lambda>m. length (sm_live_slots m) * SIZE_U16) (art_stack_maps a))"

definition part_frame_states :: "type_sizes \<Rightarrow> compiled_artifact \<Rightarrow> nat" where
  "part_frame_states sz a = length (art_frame_states a) * size_frame_state sz
     + sum_list (map (\<lambda>s. length (fs_slots s) * SIZE_U16) (art_frame_states a))"

definition part_optimized :: "type_sizes \<Rightarrow> compiled_artifact \<Rightarrow> nat" where
  "part_optimized sz a = (case art_deopt_materializations a of None \<Rightarrow> 0
     | Some sites \<Rightarrow> size_optimized_metadata sz + (length sites * size_deopt_site sz
         + sum_list (map (\<lambda>n. n * size_materialization sz) sites)))"

definition footprint :: "type_sizes \<Rightarrow> compiled_artifact \<Rightarrow> nat" where
  "footprint sz a =
     length (art_code a) + part_inline a + part_relocations sz a + part_unwind sz a
     + part_stack_maps sz a + part_frame_states sz a
     + length (art_dependencies a) * size_dependency sz + part_optimized sz a"

lemma slice_total:
  assumes "\<And>x m. m \<le> usize_max \<Longrightarrow> f x m = total_or_none (m + g x)"
  shows "Option.bind (add_slice sz m n) (fold_opt f xs) =
    total_or_none (m + (n * sz + sum_list (map g xs)))"
  unfolding add_slice_total add.assoc [symmetric]
  by (rule bind_total) (rule fold_opt_total [OF assms])

lemma charge_parts:
  assumes m: "m \<le> usize_max"
  shows "charge_inline a m = total_or_none (m + part_inline a)"
    "charge_relocations sz a m = total_or_none (m + part_relocations sz a)"
    "charge_unwind sz a m = total_or_none (m + part_unwind sz a)"
    "charge_stack_maps sz a m = total_or_none (m + part_stack_maps sz a)"
    "charge_frame_states sz a m = total_or_none (m + part_frame_states sz a)"
    "charge_optimized sz a m = total_or_none (m + part_optimized sz a)"
proof -
  show "charge_inline a m = total_or_none (m + part_inline a)"
    using m by (simp add: charge_inline_def part_inline_def checked_add_total total_or_none_def
        split: option.split)
  show "charge_relocations sz a m = total_or_none (m + part_relocations sz a)"
    unfolding charge_relocations_def part_relocations_def
    by (rule slice_total) (rule add_symbol_total)
  show "charge_unwind sz a m = total_or_none (m + part_unwind sz a)"
    using m by (auto simp: charge_unwind_def part_unwind_def checked_add_total total_or_none_def
        add.assoc split: option.split)
  show "charge_stack_maps sz a m = total_or_none (m + part_stack_maps sz a)"
    unfolding charge_stack_maps_def part_stack_maps_def by (rule slice_total) (rule add_slice_total)
  show "charge_frame_states sz a m = total_or_none (m + part_frame_states sz a)"
    unfolding charge_frame_states_def part_frame_states_def by (rule slice_total) (rule add_slice_total)
  show "charge_optimized sz a m = total_or_none (m + part_optimized sz a)"
  proof (cases "art_deopt_materializations a")
    case (Some ns)
    have "Option.bind (total_or_none (m + size_optimized_metadata sz)) (\<lambda>acc.
        Option.bind (add_slice (size_deopt_site sz) acc (length ns))
          (fold_opt (\<lambda>n acc. add_slice (size_materialization sz) acc n) ns)) =
      total_or_none (m + size_optimized_metadata sz + (length ns * size_deopt_site sz
         + sum_list (map (\<lambda>n. n * size_materialization sz) ns)))"
      by (rule bind_total) (rule slice_total, rule add_slice_total)
    then show ?thesis
      by (simp only: charge_optimized_def part_optimized_def Some option.case checked_add_total add.assoc)
  qed (use m in \<open>simp add: charge_optimized_def part_optimized_def total_or_none_def\<close>)
qed

text \<open>
  An artifact is charged for every byte it keeps. The charge is the exact size of code, inline
  body, relocations with their symbol names, unwind data, stack maps, frame states, dependencies
  and deoptimisation sites, or none when that sum does not fit the address space; the metadata
  share is the charge without the code, and never fails when the charge does not.
\<close>

lemma charge_exact:
  assumes "length (art_code a) \<le> usize_max"
  shows "charge_bytes sz a = (if footprint sz a \<le> usize_max then Some (footprint sz a) else None) \<and>
    artifact_metadata_bytes sz a = map_option (\<lambda>n. n - code_bytes_of a) (charge_bytes sz a)"
proof -
  have "charge_bytes sz a = total_or_none (footprint sz a)"
    unfolding charge_bytes_def footprint_def charge_parts(1) [OF assms] add_slice_total
    by (simp add: bind_total charge_parts total_or_none_def)
  then show ?thesis
    by (auto simp: artifact_metadata_bytes_def total_or_none_def checked_sub_def code_bytes_of_def
        footprint_def)
qed

end
