(* ===== verification/Code_Cache.thy ===== *)
theory Code_Cache
  imports Artifact "HOL-Library.AList"
begin

text \<open>
  The code cache, \<^verbatim>\<open>jit/src/code_cache/mod.rs\<close> and \<^verbatim>\<open>jit/src/code_cache/evict.rs\<close>: byte-charged
  artifacts with least-benefit eviction, execution pins that keep code alive while it runs, the
  references optimised artifacts hold on their baseline, and deferred reclamation of invalidated
  artifacts.

  Shared artifacts (\<open>Arc\<close>) live in an explicit heap of cells; the map, the deoptimisation pins, the
  execution pins and the last benefit target refer to cells by address. A cell is dropped with its
  last owner: the owners besides the map and the benefit target are the pins, which the two counters
  of the cell count. Operations are atomic steps.
\<close>

section \<open>State\<close>

record cached_artifact =
  ca_artifact :: compiled_artifact
  ca_execution_pins :: nat
  ca_deopt_references :: nat
  ca_last_used :: nat
  ca_invalidated :: bool
  ca_deopt_target :: "nat option"
  ca_charge_bytes :: nat
  ca_code_bytes :: nat
  ca_metadata_bytes :: nat

abbreviation cell_key :: "cached_artifact \<Rightarrow> artifact_key" where
  "cell_key x \<equiv> art_key (ca_artifact x)"

definition new_cached ::
  "compiled_artifact \<Rightarrow> nat \<Rightarrow> nat option \<Rightarrow> nat \<Rightarrow> nat \<Rightarrow> nat \<Rightarrow> cached_artifact" where
  "new_cached artifact last_used deopt_target charge code metadata =
     \<lparr>ca_artifact = artifact, ca_execution_pins = 0, ca_deopt_references = 0,
      ca_last_used = last_used, ca_invalidated = False, ca_deopt_target = deopt_target,
      ca_charge_bytes = charge, ca_code_bytes = code, ca_metadata_bytes = metadata\<rparr>"

definition is_evictable :: "cached_artifact \<Rightarrow> bool" where
  "is_evictable x \<longleftrightarrow> ca_execution_pins x = 0 \<and> ca_deopt_references x = 0"

definition eviction_order :: "cached_artifact \<Rightarrow> nat \<times> nat \<times> artifact_key" where
  "eviction_order x =
     (bc_score (art_benefit (ca_artifact x)) * 1000000 div max (ca_charge_bytes x) 1,
      ca_last_used x, cell_key x)"

definition reclaim_tier_order :: "artifact_key \<Rightarrow> nat" where
  "reclaim_tier_order k = (case ak_tier k of TierOptimizing \<Rightarrow> 0 | TierBaseline \<Rightarrow> 1)"

definition eviction_plan_order :: "cached_artifact \<Rightarrow> nat \<times> nat \<times> nat \<times> artifact_key" where
  "eviction_plan_order x =
     (let key = cell_key x in
      if ca_invalidated x then (0, reclaim_tier_order key, 0, key)
      else case eviction_order x of (benefit, last_used, key) \<Rightarrow> (1, benefit, last_used, key))"

datatype cache_error =
    CapacityZero | AllArtifactsPinned | ArtifactPinned | MissingArtifact | MissingDeoptTarget
  | ArtifactTooLarge | ChargeOverflow | PublishFailed

record reclamation_poll =
  rp_reclaimed :: nat
  rp_may_have_remaining :: bool

record code_cache =
  cc_max_bytes :: nat
  cc_max_code_bytes :: nat
  cc_max_metadata_bytes :: nat
  cc_separate_limits :: bool
  cc_charged_bytes :: nat
  cc_charged_code_bytes :: nat
  cc_charged_metadata_bytes :: nat
  cc_clock :: nat
  cc_artifacts :: "(artifact_key \<times> nat) list"
  cc_last_benefit_target :: "nat option"
  cc_reclaim_needed :: bool
  cc_heap :: "(nat \<times> cached_artifact) list"
  cc_fresh :: nat

abbreviation cell :: "code_cache \<Rightarrow> nat \<Rightarrow> cached_artifact option" where
  "cell c a \<equiv> map_of (cc_heap c) a"

definition new_cache :: "nat \<Rightarrow> code_cache" where
  "new_cache max_bytes =
     \<lparr>cc_max_bytes = max_bytes, cc_max_code_bytes = max_bytes, cc_max_metadata_bytes = max_bytes,
      cc_separate_limits = False, cc_charged_bytes = 0, cc_charged_code_bytes = 0,
      cc_charged_metadata_bytes = 0, cc_clock = 0, cc_artifacts = [],
      cc_last_benefit_target = None, cc_reclaim_needed = False, cc_heap = [], cc_fresh = 0\<rparr>"

definition new_with_separate_limits :: "nat \<Rightarrow> nat \<Rightarrow> code_cache" where
  "new_with_separate_limits max_code max_metadata =
     (new_cache (sat_add usize_max max_code max_metadata))
       \<lparr>cc_max_code_bytes := max_code, cc_max_metadata_bytes := max_metadata,
        cc_separate_limits := True\<rparr>"

section \<open>Cells\<close>

definition map_cell :: "nat \<Rightarrow> (cached_artifact \<Rightarrow> cached_artifact) \<Rightarrow> code_cache \<Rightarrow> code_cache" where
  "map_cell a f c =
     (case cell c a of None \<Rightarrow> c | Some x \<Rightarrow> c\<lparr>cc_heap := AList.update a (f x) (cc_heap c)\<rparr>)"

definition add_deopt_reference :: "nat \<Rightarrow> code_cache \<Rightarrow> code_cache" where
  "add_deopt_reference a =
     map_cell a (\<lambda>x. x\<lparr>ca_deopt_references := ca_deopt_references x + 1\<rparr>)"

text \<open>What is left of dropping a pin: the counter and the wake-up of reclamation.\<close>

definition wake :: "(cached_artifact \<Rightarrow> nat) \<Rightarrow> nat \<Rightarrow> code_cache \<Rightarrow> code_cache" where
  "wake counter a c =
     (case cell c a of None \<Rightarrow> c
      | Some x \<Rightarrow> if counter x = 1 \<and> ca_invalidated x then c\<lparr>cc_reclaim_needed := True\<rparr> else c)"

definition sub_deopt_reference :: "nat \<Rightarrow> code_cache \<Rightarrow> code_cache" where
  "sub_deopt_reference a c =
     map_cell a (\<lambda>x. x\<lparr>ca_deopt_references := ca_deopt_references x - 1\<rparr>)
       (wake ca_deopt_references a c)"

definition sub_execution_pin :: "nat \<Rightarrow> code_cache \<Rightarrow> code_cache" where
  "sub_execution_pin a c =
     map_cell a (\<lambda>x. x\<lparr>ca_execution_pins := ca_execution_pins x - 1\<rparr>)
       (wake ca_execution_pins a c)"

definition unowned :: "code_cache \<Rightarrow> nat \<Rightarrow> bool" where
  "unowned c a \<longleftrightarrow>
     a \<notin> snd ` set (cc_artifacts c) \<and> cc_last_benefit_target c \<noteq> Some a \<and>
     (case cell c a of None \<Rightarrow> False | Some x \<Rightarrow> is_evictable x)"

text \<open>Giving up an owner of a cell. Dropping the cell gives up its deoptimisation pin in turn.\<close>

function release_owner :: "nat \<Rightarrow> code_cache \<Rightarrow> code_cache" where
  "release_owner a c =
     (if \<not> unowned c a then c
      else
        let target = Option.bind (cell c a) ca_deopt_target;
            c = c\<lparr>cc_heap := AList.delete a (cc_heap c)\<rparr>
        in case target of
             None \<Rightarrow> c
           | Some t \<Rightarrow> release_owner t (sub_deopt_reference t c))"
  by pat_completeness auto

lemma length_update_present:
  "a \<in> fst ` set al \<Longrightarrow> length (AList.update a x al) = length al"
  by (induction al) auto

lemma length_map_cell [simp]: "length (cc_heap (map_cell a f c)) = length (cc_heap c)"
proof (cases "cell c a")
  case (Some x)
  then have "a \<in> fst ` set (cc_heap c)" by (metis domI dom_map_of_conv_image_fst)
  then show ?thesis by (simp add: map_cell_def Some length_update_present)
qed (simp add: map_cell_def)

lemma wake_heap [simp]: "cc_heap (wake counter a c) = cc_heap c"
  by (simp add: wake_def split: option.split)

lemma length_delete_present:
  assumes "a \<in> fst ` set al"
  shows "length (AList.delete a al) < length al"
proof -
  obtain b where "(a, b) \<in> set al" using assms by auto
  then show ?thesis unfolding AList.delete_eq by (intro length_filter_less) auto
qed

termination release_owner
proof (relation "measure (\<lambda>(a, c). length (cc_heap c))")
  fix a t x xa c c'
  assume u: "\<not> \<not> unowned c a" and "x = Option.bind (cell c a) ca_deopt_target"
    and c': "c' = c\<lparr>cc_heap := AList.delete a (cc_heap c)\<rparr>"
  from u have "a \<in> fst ` set (cc_heap c)"
    by (cases "cell c a") (simp_all add: unowned_def map_of_eq_None_iff, metis domI dom_map_of_conv_image_fst)
  then show "((t, sub_deopt_reference t c'), a, c) \<in> measure (\<lambda>(a, c). length (cc_heap c))"
    by (simp add: c' sub_deopt_reference_def length_delete_present)
qed simp

declare release_owner.simps [simp del]

definition drop_deopt_pin :: "nat \<Rightarrow> code_cache \<Rightarrow> code_cache" where
  "drop_deopt_pin a c = release_owner a (sub_deopt_reference a c)"

definition drop_execution_pin :: "nat \<Rightarrow> code_cache \<Rightarrow> code_cache" where
  "drop_execution_pin a c = release_owner a (sub_execution_pin a c)"


section \<open>Eviction\<close>

text \<open>The first of the elements with the least measure.\<close>

fun min_by_key :: "('a \<Rightarrow> 'b::linorder) \<Rightarrow> 'a list \<Rightarrow> 'a option" where
  "min_by_key f [] = None"
| "min_by_key f (x # xs) =
     (case min_by_key f xs of
        None \<Rightarrow> Some x
      | Some y \<Rightarrow> if f x \<le> f y then Some x else Some y)"

definition residents :: "code_cache \<Rightarrow> (artifact_key \<times> cached_artifact) list" where
  "residents c = List.map_filter (\<lambda>e. map_option (Pair (fst e)) (cell c (snd e))) (cc_artifacts c)"

definition deopt_target_key :: "code_cache \<Rightarrow> cached_artifact \<Rightarrow> artifact_key option" where
  "deopt_target_key c x =
     Option.bind (ca_deopt_target x) (\<lambda>t. map_option cell_key (cell c t))"

definition release_deopt_reference ::
  "(artifact_key \<times> nat) list \<Rightarrow> artifact_key \<Rightarrow> (artifact_key \<times> nat) list" where
  "release_deopt_reference refs target = bt_update target (\<lambda>n. n - 1) refs"

definition release_target_of ::
  "code_cache \<Rightarrow> artifact_key \<Rightarrow> (artifact_key \<times> nat) list \<Rightarrow> (artifact_key \<times> nat) list" where
  "release_target_of c key refs =
     (case Option.bind (map_of (residents c) key) (deopt_target_key c) of
        None \<Rightarrow> refs
      | Some target \<Rightarrow> release_deopt_reference refs target)"

definition plan_candidate ::
  "code_cache \<Rightarrow> artifact_key \<Rightarrow> artifact_key list \<Rightarrow> (artifact_key \<times> nat) list \<Rightarrow>
   (artifact_key \<times> cached_artifact) option" where
  "plan_candidate c excluded selected refs =
     min_by_key (\<lambda>e. eviction_plan_order (snd e))
       (filter (\<lambda>e. fst e \<noteq> excluded \<and> fst e \<notin> set selected \<and> ca_execution_pins (snd e) = 0 \<and>
          (case map_of refs (fst e) of None \<Rightarrow> 0 | Some n \<Rightarrow> n) = 0) (residents c))"

record byte_triple =
  bt_bytes :: nat
  bt_code :: nat
  bt_metadata :: nat

definition enough :: "byte_triple \<Rightarrow> byte_triple \<Rightarrow> bool" where
  "enough freed needed \<longleftrightarrow>
     bt_bytes needed \<le> bt_bytes freed \<and> bt_code needed \<le> bt_code freed \<and>
     bt_metadata needed \<le> bt_metadata freed"

definition add_freed :: "cached_artifact \<Rightarrow> byte_triple \<Rightarrow> byte_triple option" where
  "add_freed x freed =
     Option.bind (checked_add usize_max (bt_bytes freed) (ca_charge_bytes x)) (\<lambda>bytes.
     Option.bind (checked_add usize_max (bt_code freed) (ca_code_bytes x)) (\<lambda>code.
     Option.bind (checked_add usize_max (bt_metadata freed) (ca_metadata_bytes x)) (\<lambda>metadata.
       Some \<lparr>bt_bytes = bytes, bt_code = code, bt_metadata = metadata\<rparr>)))"

lemma min_by_key_mem: "min_by_key f xs = Some x \<Longrightarrow> x \<in> set xs"
  by (induction xs arbitrary: x) (auto split: option.splits if_splits)

lemma plan_candidate_mem:
  "plan_candidate c excluded selected refs = Some e \<Longrightarrow>
   e \<in> set (residents c) \<and> fst e \<noteq> excluded \<and> fst e \<notin> set selected \<and>
   ca_execution_pins (snd e) = 0 \<and> (case map_of refs (fst e) of None \<Rightarrow> 0 | Some n \<Rightarrow> n) = 0"
  unfolding plan_candidate_def by (drule min_by_key_mem) simp

function plan_loop ::
  "code_cache \<Rightarrow> artifact_key \<Rightarrow> byte_triple \<Rightarrow> (artifact_key \<times> nat) list \<Rightarrow> byte_triple \<Rightarrow>
   artifact_key list \<Rightarrow> cache_error + artifact_key list" where
  "plan_loop c excluded needed refs freed selected =
     (if enough freed needed then Inr selected
      else case plan_candidate c excluded selected refs of
             None \<Rightarrow> Inl AllArtifactsPinned
           | Some e \<Rightarrow>
               (case add_freed (snd e) freed of
                  None \<Rightarrow> Inl ChargeOverflow
                | Some freed \<Rightarrow>
                    plan_loop c excluded needed (release_target_of c (fst e) refs) freed
                      (selected @ [fst e])))"
  by pat_completeness auto
termination
proof (relation "measure (\<lambda>(c, excluded, needed, refs, freed, selected).
    card (fst ` set (residents c) - set selected))", goal_cases)
  case (2 c excluded needed refs freed selected e freed')
  then have "fst e \<in> fst ` set (residents c) - set selected"
    using plan_candidate_mem by blast
  then have "card (fst ` set (residents c) - set (selected @ [fst e])) <
      card (fst ` set (residents c) - set selected)"
    by (intro psubset_card_mono) auto
  then show ?case by simp
qed simp

declare plan_loop.simps [simp del]

definition evict_plan ::
  "code_cache \<Rightarrow> artifact_key \<Rightarrow> byte_triple \<Rightarrow> cache_error + artifact_key list" where
  "evict_plan c excluded needed =
     (let refs = map (\<lambda>e. (fst e, ca_deopt_references (snd e))) (residents c);
          refs = release_target_of c excluded refs
      in plan_loop c excluded needed refs \<lparr>bt_bytes = 0, bt_code = 0, bt_metadata = 0\<rparr> [])"

section \<open>Operations\<close>

definition next_tick :: "code_cache \<Rightarrow> code_cache" where
  "next_tick c = c\<lparr>cc_clock := sat_add u64_max (cc_clock c) 1\<rparr>"

definition benefit_target_is :: "code_cache \<Rightarrow> artifact_key \<Rightarrow> bool" where
  "benefit_target_is c key \<longleftrightarrow>
     (case Option.bind (cc_last_benefit_target c) (cell c) of
        None \<Rightarrow> False | Some x \<Rightarrow> cell_key x = key)"

definition give_up_benefit_target :: "code_cache \<Rightarrow> code_cache" where
  "give_up_benefit_target c =
     (case cc_last_benefit_target c of
        None \<Rightarrow> c
      | Some a \<Rightarrow> release_owner a (c\<lparr>cc_last_benefit_target := None\<rparr>))"

definition cache_remove :: "artifact_key \<Rightarrow> code_cache \<Rightarrow> code_cache" where
  "cache_remove key c =
     (let c = (if benefit_target_is c key then give_up_benefit_target c else c) in
      case map_of (cc_artifacts c) key of
        None \<Rightarrow> c
      | Some a \<Rightarrow>
          (case cell c a of
             None \<Rightarrow> c
           | Some x \<Rightarrow>
               release_owner a
                 (c\<lparr>cc_artifacts := bt_remove key (cc_artifacts c),
                    cc_charged_bytes := sat_sub (cc_charged_bytes c) (ca_charge_bytes x),
                    cc_charged_code_bytes := sat_sub (cc_charged_code_bytes c) (ca_code_bytes x),
                    cc_charged_metadata_bytes :=
                      sat_sub (cc_charged_metadata_bytes c) (ca_metadata_bytes x)\<rparr>)))"

definition contains :: "code_cache \<Rightarrow> artifact_key \<Rightarrow> bool" where
  "contains c key \<longleftrightarrow> map_of (cc_artifacts c) key \<noteq> None"

definition resident :: "code_cache \<Rightarrow> artifact_key \<Rightarrow> cached_artifact option" where
  "resident c key = Option.bind (map_of (cc_artifacts c) key) (cell c)"

text \<open>The bytes an insertion needs to free, from the charges without an artifact it replaces.\<close>

definition bytes_needed ::
  "code_cache \<Rightarrow> byte_triple \<Rightarrow> byte_triple \<Rightarrow> cache_error + byte_triple" where
  "bytes_needed c existing new =
     (case Option.bind (checked_sub (cc_charged_bytes c) (bt_bytes existing)) (\<lambda>retained.
           Option.bind (checked_add usize_max retained (bt_bytes new)) (\<lambda>desired.
           Option.bind (checked_add usize_max (sat_sub (cc_charged_code_bytes c) (bt_code existing))
                          (bt_code new)) (\<lambda>desired_code.
           Option.bind (checked_add usize_max
                          (sat_sub (cc_charged_metadata_bytes c) (bt_metadata existing))
                          (bt_metadata new)) (\<lambda>desired_metadata.
           Some \<lparr>bt_bytes = sat_sub desired (cc_max_bytes c),
                 bt_code = (if cc_separate_limits c then sat_sub desired_code (cc_max_code_bytes c) else 0),
                 bt_metadata = (if cc_separate_limits c
                                then sat_sub desired_metadata (cc_max_metadata_bytes c) else 0)\<rparr>))))
      of None \<Rightarrow> Inl ChargeOverflow | Some needed \<Rightarrow> Inr needed)"

text \<open>The eviction an insertion needs, planned before anything is removed.\<close>

definition insert_plan ::
  "code_cache \<Rightarrow> artifact_key \<Rightarrow> byte_triple \<Rightarrow> cache_error + artifact_key list" where
  "insert_plan c key new =
     (case resident c key of
        Some x \<Rightarrow>
          if \<not> is_evictable x then Inl ArtifactPinned
          else (case bytes_needed c \<lparr>bt_bytes = ca_charge_bytes x, bt_code = ca_code_bytes x,
                                     bt_metadata = ca_metadata_bytes x\<rparr> new of
                  Inl e \<Rightarrow> Inl e | Inr needed \<Rightarrow> evict_plan c key needed)
      | None \<Rightarrow>
          (case bytes_needed c \<lparr>bt_bytes = 0, bt_code = 0, bt_metadata = 0\<rparr> new of
             Inl e \<Rightarrow> Inl e | Inr needed \<Rightarrow> evict_plan c key needed))"

text \<open>Charging and storing the artifact once room is made. An error leaves what was charged.\<close>

definition insert_stored ::
  "compiled_artifact \<Rightarrow> nat option \<Rightarrow> byte_triple \<Rightarrow> artifact_key list \<Rightarrow> code_cache \<Rightarrow>
   (cache_error + artifact_key list) \<times> code_cache" where
  "insert_stored artifact deopt_target new selected c =
     (case checked_add usize_max (cc_charged_bytes c) (bt_bytes new) of
        None \<Rightarrow> (Inl ChargeOverflow, c)
      | Some bytes \<Rightarrow>
          (let c = c\<lparr>cc_charged_bytes := bytes\<rparr> in
           case checked_add usize_max (cc_charged_code_bytes c) (bt_code new) of
             None \<Rightarrow> (Inl ChargeOverflow, c)
           | Some code \<Rightarrow>
               (let c = c\<lparr>cc_charged_code_bytes := code\<rparr> in
                case checked_add usize_max (cc_charged_metadata_bytes c) (bt_metadata new) of
                  None \<Rightarrow> (Inl ChargeOverflow, c)
                | Some metadata \<Rightarrow>
                    (let c = c\<lparr>cc_charged_metadata_bytes := metadata\<rparr>;
                         x = new_cached artifact (cc_clock c) deopt_target (bt_bytes new)
                               (bt_code new) (bt_metadata new)
                     in (Inr selected,
                         c\<lparr>cc_artifacts := bt_insert (art_key artifact) (cc_fresh c) (cc_artifacts c),
                           cc_heap := AList.update (cc_fresh c) x (cc_heap c),
                           cc_fresh := cc_fresh c + 1\<rparr>)))))"

definition insert_pinned ::
  "compiled_artifact \<Rightarrow> nat option \<Rightarrow> byte_triple \<Rightarrow> code_cache \<Rightarrow>
   (cache_error + artifact_key list) \<times> code_cache" where
  "insert_pinned artifact deopt_target new c =
     (let key = art_key artifact in
      case insert_plan c key new of
        Inl e \<Rightarrow> (Inl e, c)
      | Inr selected \<Rightarrow>
          let c = (if contains c key then cache_remove key c else c);
              c = fold cache_remove selected c;
              c = next_tick c
          in insert_stored artifact deopt_target new selected c)"

definition cache_insert ::
  "type_sizes \<Rightarrow> compiled_artifact \<Rightarrow> code_cache \<Rightarrow> (cache_error + artifact_key list) \<times> code_cache" where
  "cache_insert sz artifact c =
     (if cc_max_bytes c = 0 then (Inl CapacityZero, c)
      else case charge_bytes sz artifact of
        None \<Rightarrow> (Inl ChargeOverflow, c)
      | Some charge \<Rightarrow>
          (case artifact_metadata_bytes sz artifact of
             None \<Rightarrow> (Inl ChargeOverflow, c)
           | Some metadata \<Rightarrow>
               let code = code_bytes_of artifact;
                   new = \<lparr>bt_bytes = charge, bt_code = code, bt_metadata = metadata\<rparr>;
                   key = art_key artifact
               in
               if cc_separate_limits c \<and> (cc_max_code_bytes c < code \<or> cc_max_metadata_bytes c < metadata)
               then (Inl ArtifactTooLarge, c)
               else if cc_max_bytes c < charge then (Inl ArtifactTooLarge, c)
               else if ak_tier key = TierOptimizing then
                 (case map_of (cc_artifacts c) (with_tier key TierBaseline) of
                    None \<Rightarrow> (Inl MissingDeoptTarget, c)
                  | Some baseline \<Rightarrow>
                      (case insert_pinned artifact (Some baseline) new (add_deopt_reference baseline c) of
                         (Inl e, c) \<Rightarrow> (Inl e, drop_deopt_pin baseline c)
                       | (Inr evicted, c) \<Rightarrow> (Inr evicted, c)))
               else insert_pinned artifact None new c))"


definition touch :: "artifact_key \<Rightarrow> code_cache \<Rightarrow> bool \<times> code_cache" where
  "touch key c =
     (let c = next_tick c in
      case map_of (cc_artifacts c) key of
        None \<Rightarrow> (False, c)
      | Some a \<Rightarrow> (True, map_cell a (\<lambda>x. x\<lparr>ca_last_used := cc_clock c\<rparr>) c))"

definition set_benefit_target :: "nat \<Rightarrow> code_cache \<Rightarrow> code_cache" where
  "set_benefit_target a c =
     (let old = cc_last_benefit_target c;
          c = c\<lparr>cc_last_benefit_target := Some a\<rparr>
      in case old of None \<Rightarrow> c | Some b \<Rightarrow> release_owner b c)"

definition score_cell :: "nat \<Rightarrow> nat \<Rightarrow> cached_artifact \<Rightarrow> cached_artifact" where
  "score_cell benefit tick x =
     (let artifact = ca_artifact x;
          x = x\<lparr>ca_artifact := artifact\<lparr>art_benefit := record_score benefit (art_benefit artifact)\<rparr>\<rparr>
      in x\<lparr>ca_last_used := tick\<rparr>)"

definition record_benefit ::
  "artifact_key \<Rightarrow> nat \<Rightarrow> code_cache \<Rightarrow> (cache_error + unit) \<times> code_cache" where
  "record_benefit key benefit c =
     (let c = next_tick c in
      case (if benefit_target_is c key then Inr c
            else case map_of (cc_artifacts c) key of
                   None \<Rightarrow> Inl MissingArtifact
                 | Some a \<Rightarrow> Inr (set_benefit_target a c)) of
        Inl e \<Rightarrow> (Inl e, c)
      | Inr c \<Rightarrow>
          (case cc_last_benefit_target c of
             None \<Rightarrow> (Inl MissingArtifact, c)
           | Some a \<Rightarrow> (Inr (), map_cell a (score_cell benefit (cc_clock c)) c)))"

definition pin :: "artifact_key \<Rightarrow> code_cache \<Rightarrow> nat option \<times> code_cache" where
  "pin key c =
     (let c = next_tick c in
      case map_of (cc_artifacts c) key of
        None \<Rightarrow> (None, c)
      | Some a \<Rightarrow>
          (case cell c a of
             None \<Rightarrow> (None, c)
           | Some x \<Rightarrow>
               if ca_invalidated x then (None, c)
               else (Some a,
                     map_cell a (\<lambda>x. x\<lparr>ca_execution_pins := ca_execution_pins x + 1,
                                       ca_last_used := cc_clock c\<rparr>) c)))"

definition deopt_references :: "code_cache \<Rightarrow> artifact_key \<Rightarrow> nat option" where
  "deopt_references c key = map_option ca_deopt_references (resident c key)"

definition invalidate_deferred :: "function_key \<Rightarrow> code_cache \<Rightarrow> code_cache" where
  "invalidate_deferred function c =
     (let hits = filter (\<lambda>e. ak_function_id (fst e) = fk_id function \<and>
                             ak_generation (fst e) = fk_generation function) (cc_artifacts c);
          c = fold (\<lambda>e. map_cell (snd e) (\<lambda>x. x\<lparr>ca_invalidated := True\<rparr>)) hits c
      in if hits \<noteq> [] then c\<lparr>cc_reclaim_needed := True\<rparr> else c)"

definition next_invalidated_candidate :: "code_cache \<Rightarrow> artifact_key option" where
  "next_invalidated_candidate c =
     map_option fst
       (min_by_key (\<lambda>e. (reclaim_tier_order (fst e), fst e))
         (filter (\<lambda>e. ca_invalidated (snd e) \<and> is_evictable (snd e)) (residents c)))"

text \<open>The loop, on the budget that is left; it returns how many artifacts it reclaimed.\<close>

fun collect_loop :: "nat \<Rightarrow> code_cache \<Rightarrow> nat \<times> code_cache" where
  "collect_loop 0 c = (0, c)"
| "collect_loop (Suc budget) c =
     (case next_invalidated_candidate c of
        None \<Rightarrow> (0, c)
      | Some candidate \<Rightarrow>
          (case collect_loop budget (cache_remove candidate c) of (n, c) \<Rightarrow> (n + 1, c)))"

definition collect_invalidated_with_budget :: "nat \<Rightarrow> code_cache \<Rightarrow> reclamation_poll \<times> code_cache" where
  "collect_invalidated_with_budget budget c =
     (case collect_loop budget c of (reclaimed, c) \<Rightarrow>
        (\<lparr>rp_reclaimed = reclaimed,
          rp_may_have_remaining = (next_invalidated_candidate c \<noteq> None)\<rparr>, c))"

definition collect_invalidated :: "code_cache \<Rightarrow> nat \<times> code_cache" where
  "collect_invalidated c =
     (let c = c\<lparr>cc_reclaim_needed := False\<rparr> in
      case collect_invalidated_with_budget usize_max c of (poll, c) \<Rightarrow>
        (rp_reclaimed poll,
         if rp_may_have_remaining poll then c\<lparr>cc_reclaim_needed := True\<rparr> else c))"

definition cache_invalidate :: "function_key \<Rightarrow> code_cache \<Rightarrow> nat \<times> code_cache" where
  "cache_invalidate function c = collect_invalidated (invalidate_deferred function c)"

definition poll_reclamation_with_budget :: "nat \<Rightarrow> code_cache \<Rightarrow> reclamation_poll \<times> code_cache" where
  "poll_reclamation_with_budget budget c =
     (if \<not> cc_reclaim_needed c
      then (\<lparr>rp_reclaimed = 0, rp_may_have_remaining = False\<rparr>, c\<lparr>cc_reclaim_needed := False\<rparr>)
      else
        case collect_invalidated_with_budget budget (c\<lparr>cc_reclaim_needed := False\<rparr>) of (poll, c) \<Rightarrow>
          (poll, if rp_may_have_remaining poll then c\<lparr>cc_reclaim_needed := True\<rparr> else c))"

definition poll_reclamation :: "code_cache \<Rightarrow> nat \<times> code_cache" where
  "poll_reclamation c =
     (case poll_reclamation_with_budget usize_max c of (poll, c) \<Rightarrow> (rp_reclaimed poll, c))"

section \<open>Structure of a cache\<close>

definition sum_resident :: "(cached_artifact \<Rightarrow> nat) \<Rightarrow> code_cache \<Rightarrow> nat" where
  "sum_resident f c = sum_list (map (f \<circ> snd) (residents c))"

text \<open>Every resident cell has its key, and an optimised one points at its resident baseline.\<close>

definition target_ok :: "code_cache \<Rightarrow> cached_artifact \<Rightarrow> bool" where
  "target_ok c x \<longleftrightarrow>
     (case ak_tier (cell_key x) of
        TierBaseline \<Rightarrow> ca_deopt_target x = None
      | TierOptimizing \<Rightarrow>
          ca_deopt_target x \<noteq> None \<and>
          map_of (cc_artifacts c) (with_tier (cell_key x) TierBaseline) = ca_deopt_target x)"

definition shape_ok :: "code_cache \<Rightarrow> bool" where
  "shape_ok c \<longleftrightarrow>
     strict_sorted_keys (cc_artifacts c) \<and> distinct (map snd (cc_artifacts c)) \<and>
     dom (cell c) = snd ` set (cc_artifacts c) \<and> (\<forall>a \<in> dom (cell c). a < cc_fresh c) \<and>
     (\<forall>(k, a) \<in> set (cc_artifacts c). \<exists>x. cell c a = Some x \<and> cell_key x = k \<and> target_ok c x) \<and>
     (\<forall>a. cc_last_benefit_target c = Some a \<longrightarrow> a \<in> dom (cell c))"

definition charges_ok :: "code_cache \<Rightarrow> bool" where
  "charges_ok c \<longleftrightarrow>
     cc_charged_bytes c = sum_resident ca_charge_bytes c \<and>
     cc_charged_code_bytes c = sum_resident ca_code_bytes c \<and>
     cc_charged_metadata_bytes c = sum_resident ca_metadata_bytes c"

definition limits_ok :: "code_cache \<Rightarrow> bool" where
  "limits_ok c \<longleftrightarrow>
     cc_charged_bytes c \<le> cc_max_bytes c \<and>
     (cc_separate_limits c \<longrightarrow>
        cc_charged_code_bytes c \<le> cc_max_code_bytes c \<and>
        cc_charged_metadata_bytes c \<le> cc_max_metadata_bytes c)"

text \<open>
  The counters count: \<open>pins\<close> are the execution pins handed out, \<open>extra\<close> the deoptimisation pins
  that do not belong to a stored artifact yet.
\<close>

definition targets_of :: "code_cache \<Rightarrow> nat \<Rightarrow> nat set" where
  "targets_of c a = {b. \<exists>x. cell c b = Some x \<and> ca_deopt_target x = Some a}"

definition counts_ok :: "nat list \<Rightarrow> nat list \<Rightarrow> code_cache \<Rightarrow> bool" where
  "counts_ok pins extra c \<longleftrightarrow>
     set pins \<subseteq> dom (cell c) \<and> set extra \<subseteq> dom (cell c) \<and>
     (\<forall>a x. cell c a = Some x \<longrightarrow>
        ca_execution_pins x = count_list pins a \<and>
        ca_deopt_references x = card (targets_of c a) + count_list extra a)"

text \<open>Reclaimable artifacts never go unnoticed.\<close>

definition wake_ok :: "code_cache \<Rightarrow> bool" where
  "wake_ok c \<longleftrightarrow>
     (\<forall>a x. cell c a = Some x \<longrightarrow> ca_invalidated x \<longrightarrow> is_evictable x \<longrightarrow> cc_reclaim_needed c)"

end
