(* ===== verification/Cache_Safety.thy ===== *)
theory Cache_Safety
  imports Code_Cache
begin

text \<open>
  Safety of the code cache: accounting, limits, pins and reclamation hold in every state that
  operations can reach.
\<close>

section \<open>Cells and frames\<close>

lemma cell_map_cell [simp]:
  "cell (map_cell a f c) b = (if b = a then map_option f (cell c a) else cell c b)"
  by (cases "cell c a") (simp_all add: map_cell_def update_conv')

lemma map_cell_fields [simp]:
  "cc_max_bytes (map_cell a f c) = cc_max_bytes c"
  "cc_max_code_bytes (map_cell a f c) = cc_max_code_bytes c"
  "cc_max_metadata_bytes (map_cell a f c) = cc_max_metadata_bytes c"
  "cc_separate_limits (map_cell a f c) = cc_separate_limits c"
  "cc_charged_bytes (map_cell a f c) = cc_charged_bytes c"
  "cc_charged_code_bytes (map_cell a f c) = cc_charged_code_bytes c"
  "cc_charged_metadata_bytes (map_cell a f c) = cc_charged_metadata_bytes c"
  "cc_clock (map_cell a f c) = cc_clock c"
  "cc_artifacts (map_cell a f c) = cc_artifacts c"
  "cc_last_benefit_target (map_cell a f c) = cc_last_benefit_target c"
  "cc_reclaim_needed (map_cell a f c) = cc_reclaim_needed c"
  "cc_fresh (map_cell a f c) = cc_fresh c"
  by (cases "cell c a"; simp add: map_cell_def)+

lemma wake_eq:
  "wake counter a c = c\<lparr>cc_reclaim_needed := cc_reclaim_needed c \<or>
     (\<exists>x. cell c a = Some x \<and> counter x = 1 \<and> ca_invalidated x)\<rparr>"
  by (cases "cell c a"; cases c) (auto simp: wake_def)

text \<open>What bookkeeping on a cell leaves alone.\<close>

definition static_eq :: "cached_artifact \<Rightarrow> cached_artifact \<Rightarrow> bool" where
  "static_eq x y \<longleftrightarrow>
     cell_key x = cell_key y \<and> ca_deopt_target x = ca_deopt_target y \<and>
     ca_charge_bytes x = ca_charge_bytes y \<and> ca_code_bytes x = ca_code_bytes y \<and>
     ca_metadata_bytes x = ca_metadata_bytes y"

definition same_shape :: "code_cache \<Rightarrow> code_cache \<Rightarrow> bool" where
  "same_shape c d \<longleftrightarrow>
     cc_artifacts c = cc_artifacts d \<and> cc_fresh c = cc_fresh d \<and>
     cc_last_benefit_target c = cc_last_benefit_target d \<and>
     cc_max_bytes c = cc_max_bytes d \<and> cc_max_code_bytes c = cc_max_code_bytes d \<and>
     cc_max_metadata_bytes c = cc_max_metadata_bytes d \<and>
     cc_separate_limits c = cc_separate_limits d \<and>
     cc_charged_bytes c = cc_charged_bytes d \<and> cc_charged_code_bytes c = cc_charged_code_bytes d \<and>
     cc_charged_metadata_bytes c = cc_charged_metadata_bytes d \<and>
     (\<forall>a. rel_option static_eq (cell c a) (cell d a))"

lemma static_eq_refl [simp]: "static_eq x x"
  by (simp add: static_eq_def)

lemma rel_option_static_refl [simp]: "rel_option static_eq r r"
  by (cases r) simp_all

lemma same_shape_map_cell: "(\<And>x. static_eq x (f x)) \<Longrightarrow> same_shape c (map_cell a f c)"
  by (auto simp: same_shape_def option.rel_map intro: option.rel_refl_strong)

lemma same_shape_cell:
  assumes "same_shape c d"
  obtains "cell c a = None" "cell d a = None"
    | x y where "cell c a = Some x" "cell d a = Some y" "static_eq x y"
proof -
  have "rel_option static_eq (cell c a) (cell d a)" using assms by (simp add: same_shape_def)
  then show ?thesis by (cases rule: option.rel_cases) (use that in auto)
qed

lemma same_shape_dom: "same_shape c d \<Longrightarrow> dom (cell c) = dom (cell d)"
proof (rule set_eqI)
  fix a assume s: "same_shape c d"
  show "a \<in> dom (cell c) \<longleftrightarrow> a \<in> dom (cell d)" by (rule same_shape_cell [OF s, of a]) auto
qed

lemma same_shape_target_ok: "same_shape c d \<Longrightarrow> static_eq x y \<Longrightarrow> target_ok c x \<longleftrightarrow> target_ok d y"
  by (cases "ak_tier (cell_key y)") (simp_all add: same_shape_def static_eq_def target_ok_def)

lemma same_shape_shape_ok:
  assumes s: "same_shape c d" and ok: "shape_ok c"
  shows "shape_ok d"
proof -
  have arts: "cc_artifacts d = cc_artifacts c" "cc_fresh d = cc_fresh c"
    "cc_last_benefit_target d = cc_last_benefit_target c"
    using s by (simp_all add: same_shape_def)
  have "\<exists>y. cell d a = Some y \<and> cell_key y = k \<and> target_ok d y"
    if ka: "(k, a) \<in> set (cc_artifacts c)" for k a
  proof -
    obtain x where x: "cell c a = Some x" "cell_key x = k" "target_ok c x"
      using ok ka by (fastforce simp: shape_ok_def)
    have "rel_option static_eq (cell c a) (cell d a)" using s by (simp add: same_shape_def)
    then obtain y where y: "cell d a = Some y" "static_eq x y"
      using x by (auto simp: option_rel_Some1)
    then show ?thesis using x same_shape_target_ok [OF s y(2)] by (auto simp: static_eq_def)
  qed
  then show ?thesis using ok same_shape_dom [OF s] by (auto simp: shape_ok_def arts)
qed

lemma sum_resident_cong:
  assumes "cc_artifacts c = cc_artifacts d"
    and "\<And>a. rel_option (\<lambda>x y. f x = f y) (cell c a) (cell d a)"
  shows "sum_resident f c = sum_resident f d"
proof -
  have "sum_list (map (f \<circ> snd) (List.map_filter (\<lambda>e. map_option (Pair (fst e)) (cell c (snd e))) es)) =
      sum_list (map (f \<circ> snd) (List.map_filter (\<lambda>e. map_option (Pair (fst e)) (cell d (snd e))) es))"
    for es :: "(artifact_key \<times> nat) list"
  proof (induction es)
    case (Cons e es)
    have "rel_option (\<lambda>x y. f x = f y) (cell c (snd e)) (cell d (snd e))" by (rule assms(2))
    then show ?case
      using Cons by (cases "cell c (snd e)"; cases "cell d (snd e)") (simp_all add: map_filter_simps)
  qed (simp add: map_filter_simps)
  then show ?thesis by (simp add: sum_resident_def residents_def assms(1))
qed

lemma same_shape_charges:
  assumes s: "same_shape c d"
  shows "charges_ok d \<longleftrightarrow> charges_ok c" "limits_ok d \<longleftrightarrow> limits_ok c"
proof -
  have r: "rel_option static_eq (cell c a) (cell d a)" for a using s by (simp add: same_shape_def)
  have "sum_resident ca_charge_bytes c = sum_resident ca_charge_bytes d"
    "sum_resident ca_code_bytes c = sum_resident ca_code_bytes d"
    "sum_resident ca_metadata_bytes c = sum_resident ca_metadata_bytes d"
    by (rule sum_resident_cong, use s in \<open>simp add: same_shape_def\<close>,
        rule option.rel_mono_strong [OF r], simp add: static_eq_def)+
  then show "charges_ok d \<longleftrightarrow> charges_ok c" using s by (simp add: charges_ok_def same_shape_def)
  show "limits_ok d \<longleftrightarrow> limits_ok c" using s by (simp add: limits_ok_def same_shape_def)
qed

lemma same_shape_targets_of: "same_shape c d \<Longrightarrow> targets_of d a = targets_of c a"
proof -
  assume s: "same_shape c d"
  have "(\<exists>x. cell c b = Some x \<and> ca_deopt_target x = Some a) \<longleftrightarrow>
      (\<exists>y. cell d b = Some y \<and> ca_deopt_target y = Some a)" for b
    by (rule same_shape_cell [OF s, of b]) (auto simp: static_eq_def)
  then show ?thesis by (simp add: targets_of_def)
qed


section \<open>Resident artifacts\<close>

lemma shape_resident:
  assumes "shape_ok c" "map_of (cc_artifacts c) k = Some a"
  obtains x where "cell c a = Some x" "cell_key x = k" "target_ok c x"
proof -
  have "(k, a) \<in> set (cc_artifacts c)" using assms(2) by (rule map_of_SomeD)
  then show ?thesis using assms(1) that by (fastforce simp: shape_ok_def)
qed

lemma shape_cell:
  assumes ok: "shape_ok c" and x: "cell c a = Some x"
  shows "map_of (cc_artifacts c) (cell_key x) = Some a" "target_ok c x"
proof -
  have "a \<in> snd ` set (cc_artifacts c)" using ok x by (auto simp: shape_ok_def)
  then obtain k where ka: "(k, a) \<in> set (cc_artifacts c)" by auto
  have "strict_sorted_keys (cc_artifacts c)" using ok by (simp add: shape_ok_def)
  then have m: "map_of (cc_artifacts c) k = Some a"
    using ka by (simp add: map_of_strict_sorted_iff)
  obtain y where y: "cell c a = Some y" "cell_key y = k" "target_ok c y"
    by (rule shape_resident [OF ok m])
  show "map_of (cc_artifacts c) (cell_key x) = Some a" "target_ok c x"
    using m x y by simp_all
qed

lemma shape_addr_inj:
  assumes ok: "shape_ok c" and "map_of (cc_artifacts c) k = Some a" "map_of (cc_artifacts c) l = Some a"
  shows "k = l"
proof -
  obtain x where "cell c a = Some x" "cell_key x = k" by (rule shape_resident [OF ok assms(2)])
  moreover obtain y where "cell c a = Some y" "cell_key y = l" by (rule shape_resident [OF ok assms(3)])
  ultimately show ?thesis by simp
qed

lemma residents_eq:
  assumes "shape_ok c"
  shows "residents c = map (\<lambda>e. (fst e, the (cell c (snd e)))) (cc_artifacts c)"
proof -
  have "\<forall>e \<in> set (cc_artifacts c). cell c (snd e) \<noteq> None" using assms by (force simp: shape_ok_def)
  moreover have "\<forall>e \<in> set es. cell c (snd e) \<noteq> None \<Longrightarrow>
      List.map_filter (\<lambda>e. map_option (Pair (fst e)) (cell c (snd e))) es =
      map (\<lambda>e. (fst e, the (cell c (snd e)))) es" for es :: "(artifact_key \<times> nat) list"
    by (induction es) (auto simp: map_filter_simps)
  ultimately show ?thesis by (simp add: residents_def)
qed

lemma map_of_residents:
  assumes "shape_ok c"
  shows "map_of (residents c) k = resident c k"
proof -
  have "map_of (map (\<lambda>e. (fst e, the (cell c (snd e)))) es) k = map_option (\<lambda>a. the (cell c a)) (map_of es k)"
    for es :: "(artifact_key \<times> nat) list" by (induction es) auto
  moreover have "map_option (\<lambda>a. the (cell c a)) (map_of (cc_artifacts c) k) = resident c k"
  proof (cases "map_of (cc_artifacts c) k")
    case (Some a)
    obtain x where "cell c a = Some x" by (rule shape_resident [OF assms Some])
    then show ?thesis by (simp add: resident_def Some)
  qed (simp add: resident_def)
  ultimately show ?thesis by (simp add: residents_eq [OF assms])
qed

lemma resident_mem:
  assumes "shape_ok c"
  shows "(k, x) \<in> set (residents c) \<longleftrightarrow> resident c k = Some x"
proof -
  have "strict_sorted_keys (cc_artifacts c)" using assms by (simp add: shape_ok_def)
  then have "distinct (map fst (residents c))"
    unfolding residents_eq [OF assms] by (simp add: strict_sorted_distinct comp_def)
  then show ?thesis by (simp add: map_of_residents [OF assms, symmetric] map_of_eq_Some_iff)
qed

lemma sum_resident_cells:
  assumes "shape_ok c"
  shows "sum_resident f c = (\<Sum>a \<in> dom (cell c). f (the (cell c a)))"
proof -
  have "sum_resident f c = sum_list (map (\<lambda>a. f (the (cell c a))) (map snd (cc_artifacts c)))"
    by (simp add: sum_resident_def residents_eq [OF assms] comp_def)
  also have "\<dots> = (\<Sum>a \<in> set (map snd (cc_artifacts c)). f (the (cell c a)))"
    using assms by (intro sum_list_distinct_conv_sum_set) (simp add: shape_ok_def)
  finally show ?thesis using assms by (simp add: shape_ok_def)
qed

lemma finite_cells [simp]: "finite (dom (cell c))"
  by (rule finite_dom_map_of)

lemma finite_targets [simp]: "finite (targets_of c a)"
  by (rule finite_subset [OF _ finite_cells [of c]]) (auto simp: targets_of_def)


section \<open>Removal\<close>

definition core_ok :: "nat list \<Rightarrow> nat list \<Rightarrow> code_cache \<Rightarrow> bool" where
  "core_ok pins extra c \<longleftrightarrow>
     shape_ok c \<and> charges_ok c \<and> limits_ok c \<and> counts_ok pins extra c"

definition cache_ok :: "nat list \<Rightarrow> nat list \<Rightarrow> code_cache \<Rightarrow> bool" where
  "cache_ok pins extra c \<longleftrightarrow> core_ok pins extra c \<and> wake_ok c"

lemma core_shape: "core_ok pins extra c \<Longrightarrow> shape_ok c"
  by (simp add: core_ok_def)

lemma cache_core: "cache_ok pins extra c \<Longrightarrow> core_ok pins extra c"
  by (simp add: cache_ok_def)

lemma cell_delete [simp]:
  "map_of (AList.delete a h) b = (if b = a then None else map_of h b)"
  by (simp add: delete_conv')

lemma release_owner_owned: "\<not> unowned c a \<Longrightarrow> release_owner a c = c"
  by (simp add: release_owner.simps [of a c])

lemma resident_owned: "map_of (cc_artifacts c) k = Some a \<Longrightarrow> \<not> unowned c a"
  by (force simp: unowned_def dest: map_of_SomeD)

text \<open>The cache after the removal of an artifact nothing refers to.\<close>

definition drop_reference :: "cached_artifact \<Rightarrow> cached_artifact" where
  "drop_reference x = x\<lparr>ca_deopt_references := ca_deopt_references x - 1\<rparr>"

definition removed :: "artifact_key \<Rightarrow> nat \<Rightarrow> cached_artifact \<Rightarrow> code_cache \<Rightarrow> code_cache \<Rightarrow> bool" where
  "removed k a x c d \<longleftrightarrow>
     cc_artifacts d = bt_remove k (cc_artifacts c) \<and> cc_fresh d = cc_fresh c \<and>
     cc_clock d = cc_clock c \<and>
     cc_last_benefit_target d =
       (if cc_last_benefit_target c = Some a then None else cc_last_benefit_target c) \<and>
     cc_max_bytes d = cc_max_bytes c \<and> cc_max_code_bytes d = cc_max_code_bytes c \<and>
     cc_max_metadata_bytes d = cc_max_metadata_bytes c \<and>
     cc_separate_limits d = cc_separate_limits c \<and>
     cc_charged_bytes d = cc_charged_bytes c - ca_charge_bytes x \<and>
     cc_charged_code_bytes d = cc_charged_code_bytes c - ca_code_bytes x \<and>
     cc_charged_metadata_bytes d = cc_charged_metadata_bytes c - ca_metadata_bytes x \<and>
     (\<forall>b. cell d b =
        (if b = a then None
         else if ca_deopt_target x = Some b then map_option drop_reference (cell c b)
         else cell c b)) \<and>
     (cc_reclaim_needed d \<longleftrightarrow> cc_reclaim_needed c \<or>
        (\<exists>b y. ca_deopt_target x = Some b \<and> cell c b = Some y \<and>
           ca_deopt_references y = 1 \<and> ca_invalidated y))"

lemma benefit_target_is_resident:
  assumes ok: "shape_ok c" and a: "map_of (cc_artifacts c) k = Some a"
  shows "benefit_target_is c k \<longleftrightarrow> cc_last_benefit_target c = Some a"
proof -
  obtain x where x: "cell c a = Some x" "cell_key x = k" by (rule shape_resident [OF ok a])
  show ?thesis
  proof
    assume "benefit_target_is c k"
    then obtain b y where b: "cc_last_benefit_target c = Some b" "cell c b = Some y" "cell_key y = k"
      by (auto simp: benefit_target_is_def bind_eq_Some_conv split: option.splits)
    then show "cc_last_benefit_target c = Some a" using shape_cell(1) [OF ok b(2)] a by simp
  next
    assume "cc_last_benefit_target c = Some a"
    then show "benefit_target_is c k" using x by (simp add: benefit_target_is_def)
  qed
qed

lemma target_other_key:
  assumes ok: "shape_ok c" and x: "cell c a = Some x" and t: "ca_deopt_target x = Some b"
  shows "map_of (cc_artifacts c) (with_tier (cell_key x) TierBaseline) = Some b"
    "with_tier (cell_key x) TierBaseline \<noteq> cell_key x" "ak_tier (cell_key x) = TierOptimizing" "b \<noteq> a"
proof -
  have ok_x: "target_ok c x" by (rule shape_cell(2) [OF ok x])
  then show o: "ak_tier (cell_key x) = TierOptimizing"
    using t by (cases "ak_tier (cell_key x)") (simp_all add: target_ok_def)
  show m: "map_of (cc_artifacts c) (with_tier (cell_key x) TierBaseline) = Some b"
    using ok_x t o by (simp add: target_ok_def)
  show n: "with_tier (cell_key x) TierBaseline \<noteq> cell_key x"
    using o by (cases "cell_key x") auto
  show "b \<noteq> a" using shape_addr_inj [OF ok m, of "cell_key x"] shape_cell(1) [OF ok x] n by auto
qed

lemma not_resident_after_remove:
  assumes ok: "shape_ok c" and a: "map_of (cc_artifacts c) k = Some a"
  shows "a \<notin> snd ` set (bt_remove k (cc_artifacts c))"
proof
  assume "a \<in> snd ` set (bt_remove k (cc_artifacts c))"
  then obtain l where l: "(l, a) \<in> set (cc_artifacts c)" "l \<noteq> k" by (auto simp: bt_remove_def)
  moreover have "strict_sorted_keys (cc_artifacts c)" using ok by (simp add: shape_ok_def)
  ultimately have "map_of (cc_artifacts c) l = Some a" by (simp add: map_of_strict_sorted_iff)
  then show False using shape_addr_inj [OF ok a] l(2) by blast
qed

lemma cache_remove_removed:
  assumes ok: "shape_ok c" and a: "map_of (cc_artifacts c) k = Some a"
    and x: "cell c a = Some x" and e: "is_evictable x"
  shows "removed k a x c (cache_remove k c)"
proof -
  define c1 where "c1 = (if benefit_target_is c k then c\<lparr>cc_last_benefit_target := None\<rparr> else c)"
  define c2 where "c2 = c1\<lparr>cc_artifacts := bt_remove k (cc_artifacts c),
    cc_charged_bytes := sat_sub (cc_charged_bytes c) (ca_charge_bytes x),
    cc_charged_code_bytes := sat_sub (cc_charged_code_bytes c) (ca_code_bytes x),
    cc_charged_metadata_bytes := sat_sub (cc_charged_metadata_bytes c) (ca_metadata_bytes x)\<rparr>"
  have lb: "benefit_target_is c k \<longleftrightarrow> cc_last_benefit_target c = Some a"
    by (rule benefit_target_is_resident [OF ok a])
  have up: "give_up_benefit_target c = c\<lparr>cc_last_benefit_target := None\<rparr>" if "benefit_target_is c k"
  proof -
    have "\<not> unowned (c\<lparr>cc_last_benefit_target := None\<rparr>) a" by (rule resident_owned [of _ k]) (simp add: a)
    then show ?thesis using that lb by (simp add: give_up_benefit_target_def release_owner_owned)
  qed
  have c1: "cc_artifacts c1 = cc_artifacts c" "cc_heap c1 = cc_heap c"
    "cc_charged_bytes c1 = cc_charged_bytes c" "cc_charged_code_bytes c1 = cc_charged_code_bytes c"
    "cc_charged_metadata_bytes c1 = cc_charged_metadata_bytes c"
    by (simp_all add: c1_def)
  have rm: "cache_remove k c = release_owner a c2"
    using up a x by (auto simp: cache_remove_def Let_def c2_def c1_def)
  have key: "cell_key x = k" using shape_cell(1) [OF ok x] shape_addr_inj [OF ok _ a] by blast
  have c2: "cell c2 = cell c" "cc_artifacts c2 = bt_remove k (cc_artifacts c)"
    by (simp_all add: c2_def c1)
  have lb2: "cc_last_benefit_target c2 =
      (if cc_last_benefit_target c = Some a then None else cc_last_benefit_target c)"
    by (simp add: c2_def c1_def lb)
  define c3 where "c3 = c2\<lparr>cc_heap := AList.delete a (cc_heap c2)\<rparr>"
  have "unowned c2 a"
    using e x lb2 not_resident_after_remove [OF ok a] by (simp add: unowned_def c2)
  then have rel: "release_owner a c2 = (case ca_deopt_target x of None \<Rightarrow> c3
      | Some t \<Rightarrow> release_owner t (sub_deopt_reference t c3))"
    by (cases "ca_deopt_target x") (simp_all add: release_owner.simps [of a c2] c2 x c3_def Let_def)
  have fin: "release_owner a c2 = (case ca_deopt_target x of None \<Rightarrow> c3
      | Some t \<Rightarrow> sub_deopt_reference t c3)"
  proof (cases "ca_deopt_target x")
    case (Some t)
    note t = target_other_key [OF ok x Some]
    have "map_of (cc_artifacts (sub_deopt_reference t c3)) (with_tier k TierBaseline) = Some t"
      using t(1,2) by (simp add: sub_deopt_reference_def wake_eq c3_def c2 key)
    then show ?thesis using rel resident_owned release_owner_owned by (simp add: Some)
  qed (use rel in simp)
  have rest: "cc_fresh c3 = cc_fresh c" "cc_clock c3 = cc_clock c" "cc_max_bytes c3 = cc_max_bytes c"
    "cc_max_code_bytes c3 = cc_max_code_bytes c" "cc_max_metadata_bytes c3 = cc_max_metadata_bytes c"
    "cc_separate_limits c3 = cc_separate_limits c" "cc_reclaim_needed c3 = cc_reclaim_needed c"
    "cc_charged_bytes c3 = cc_charged_bytes c - ca_charge_bytes x"
    "cc_charged_code_bytes c3 = cc_charged_code_bytes c - ca_code_bytes x"
    "cc_charged_metadata_bytes c3 = cc_charged_metadata_bytes c - ca_metadata_bytes x"
    by (simp_all add: c3_def c2_def c1_def sat_sub_def)
  have c3: "cell c3 b = (if b = a then None else cell c b)" "cc_artifacts c3 = bt_remove k (cc_artifacts c)"
    "cc_last_benefit_target c3 =
      (if cc_last_benefit_target c = Some a then None else cc_last_benefit_target c)" for b
    using lb2 by (simp_all add: c3_def c2)
  show ?thesis
    using target_other_key(4) [OF ok x]
    by (cases "ca_deopt_target x")
      (auto simp: rm fin removed_def rest c3 sub_deopt_reference_def wake_eq drop_reference_def [abs_def])
qed


lemma removed_cell:
  assumes "removed k a x c d" "cell d b = Some y"
  obtains z where "cell c b = Some z" "b \<noteq> a" "static_eq z y"
    "y = (if ca_deopt_target x = Some b then drop_reference z else z)"
proof -
  have "cell d b = (if b = a then None
      else if ca_deopt_target x = Some b then map_option drop_reference (cell c b) else cell c b)"
    using assms(1) by (simp add: removed_def)
  with assms(2) obtain z where "cell c b = Some z" "b \<noteq> a"
      "y = (if ca_deopt_target x = Some b then drop_reference z else z)"
    by (auto split: if_splits)
  moreover from this have "static_eq z y" by (simp add: static_eq_def drop_reference_def)
  ultimately show ?thesis using that by blast
qed

lemma removed_dom:
  assumes "removed k a x c d"
  shows "dom (cell d) = dom (cell c) - {a}"
proof (rule set_eqI)
  fix b
  have "cell d b = (if b = a then None
      else if ca_deopt_target x = Some b then map_option drop_reference (cell c b) else cell c b)"
    using assms by (simp add: removed_def)
  then show "b \<in> dom (cell d) \<longleftrightarrow> b \<in> dom (cell c) - {a}" by (simp add: domIff)
qed

lemma counts_evictable:
  assumes "counts_ok pins extra c" "cell c a = Some x" "is_evictable x"
  shows "a \<notin> set pins" "a \<notin> set extra" "targets_of c a = {}"
proof -
  have "ca_execution_pins x = count_list pins a"
    "ca_deopt_references x = card (targets_of c a) + count_list extra a"
    using assms(1,2) by (simp_all add: counts_ok_def)
  then show "a \<notin> set pins" "a \<notin> set extra" "targets_of c a = {}"
    using assms(3) by (simp_all add: is_evictable_def count_list_0_iff)
qed

lemma removed_shape_ok:
  assumes ok: "shape_ok c" and r: "removed k a x c d"
    and a: "map_of (cc_artifacts c) k = Some a" and free: "targets_of c a = {}"
  shows "shape_ok d"
proof -
  have arts: "cc_artifacts d = bt_remove k (cc_artifacts c)" "cc_fresh d = cc_fresh c"
    "cc_last_benefit_target d =
      (if cc_last_benefit_target c = Some a then None else cc_last_benefit_target c)"
    using r by (simp_all add: removed_def)
  have sorted: "strict_sorted_keys (cc_artifacts c)" and dist: "distinct (map snd (cc_artifacts c))"
    and dom: "dom (cell c) = snd ` set (cc_artifacts c)" and fresh: "\<forall>a \<in> dom (cell c). a < cc_fresh c"
    and lb: "\<forall>a. cc_last_benefit_target c = Some a \<longrightarrow> a \<in> dom (cell c)"
    using ok unfolding shape_ok_def by blast+
  have "snd ` set (bt_remove k (cc_artifacts c)) = snd ` set (cc_artifacts c) - {a}"
  proof
    show "snd ` set (bt_remove k (cc_artifacts c)) \<subseteq> snd ` set (cc_artifacts c) - {a}"
      using not_resident_after_remove [OF ok a] by (auto simp: bt_remove_def)
    have "(l, b) \<in> set (bt_remove k (cc_artifacts c))" if "(l, b) \<in> set (cc_artifacts c)" "b \<noteq> a" for l b
      using that a sorted by (auto simp: bt_remove_def map_of_strict_sorted_iff [symmetric])
    then show "snd ` set (cc_artifacts c) - {a} \<subseteq> snd ` set (bt_remove k (cc_artifacts c))" by force
  qed
  then have d: "dom (cell d) = snd ` set (cc_artifacts d)" using removed_dom [OF r] dom arts by simp
  have cells: "\<exists>y. cell d b = Some y \<and> cell_key y = l \<and> target_ok d y"
    if lb: "(l, b) \<in> set (cc_artifacts d)" for l b
  proof -
    have m: "map_of (cc_artifacts c) l = Some b" "l \<noteq> k"
      using lb sorted by (auto simp: arts bt_remove_def map_of_strict_sorted_iff)
    obtain z where z: "cell c b = Some z" "cell_key z = l" "target_ok c z"
      by (rule shape_resident [OF ok m(1)])
    have "b \<in> dom (cell d)" using d lb by force
    then obtain y where y: "cell d b = Some y" by blast
    obtain z' where "cell c b = Some z'" "static_eq z' y" by (rule removed_cell [OF r y])
    with z(1) have s: "static_eq z y" by simp
    have "target_ok d y"
    proof (cases "ca_deopt_target z")
      case None
      then show ?thesis using z(3) s
        by (cases "ak_tier (cell_key z)") (simp_all add: target_ok_def static_eq_def)
    next
      case (Some t)
      note t = target_other_key [OF ok z(1) Some]
      have "t \<noteq> a" using free z(1) Some by (auto simp: targets_of_def)
      then have "with_tier (cell_key z) TierBaseline \<noteq> k" using t(1) a by auto
      moreover have "ca_deopt_target y = Some t" "cell_key y = cell_key z"
        using s Some by (simp_all add: static_eq_def)
      ultimately show ?thesis using t by (simp add: target_ok_def arts)
    qed
    then show ?thesis using y s z(2) by (auto simp: static_eq_def)
  qed
  have "distinct (map snd (bt_remove k (cc_artifacts c)))"
    using dist by (simp add: bt_remove_def distinct_map_filter)
  moreover have "strict_sorted_keys (cc_artifacts d)" using sorted by (simp add: arts)
  moreover have "\<forall>b \<in> dom (cell d). b < cc_fresh d"
    "\<forall>b. cc_last_benefit_target d = Some b \<longrightarrow> b \<in> dom (cell d)"
    using fresh lb unfolding removed_dom [OF r] arts by auto
  ultimately show ?thesis using d cells unfolding shape_ok_def arts by blast
qed

lemma removed_sum:
  assumes ok: "shape_ok c" and okd: "shape_ok d" and r: "removed k a x c d" and x: "cell c a = Some x"
    and f: "\<And>x y. static_eq x y \<Longrightarrow> f x = f y"
  shows "sum_resident f d + f x = sum_resident f c"
proof -
  have "f (the (cell d b)) = f (the (cell c b))" if b: "b \<in> dom (cell d)" for b
  proof -
    obtain y where "cell d b = Some y" using b by blast
    then obtain z where "cell c b = Some z" "static_eq z y" by (rule removed_cell [OF r])
    then show ?thesis using f \<open>cell d b = Some y\<close> by simp
  qed
  then have "sum_resident f d = (\<Sum>b \<in> dom (cell c) - {a}. f (the (cell c b)))"
    by (simp add: sum_resident_cells [OF okd] removed_dom [OF r])
  moreover have "a \<in> dom (cell c)" using x by blast
  ultimately show ?thesis
    using sum.remove [OF finite_cells [of c], of a "\<lambda>b. f (the (cell c b))"] x
    by (simp add: sum_resident_cells [OF ok])
qed

lemma removed_charges:
  assumes ok: "shape_ok c" and okd: "shape_ok d" and r: "removed k a x c d" and x: "cell c a = Some x"
    and ch: "charges_ok c"
  shows "charges_ok d"
    "cc_charged_bytes d + ca_charge_bytes x = cc_charged_bytes c"
    "cc_charged_code_bytes d + ca_code_bytes x = cc_charged_code_bytes c"
    "cc_charged_metadata_bytes d + ca_metadata_bytes x = cc_charged_metadata_bytes c"
proof -
  note sums = removed_sum [OF ok okd r x]
  have s: "sum_resident ca_charge_bytes d + ca_charge_bytes x = sum_resident ca_charge_bytes c"
    "sum_resident ca_code_bytes d + ca_code_bytes x = sum_resident ca_code_bytes c"
    "sum_resident ca_metadata_bytes d + ca_metadata_bytes x = sum_resident ca_metadata_bytes c"
    by (rule sums, simp add: static_eq_def)+
  have c: "cc_charged_bytes d = cc_charged_bytes c - ca_charge_bytes x"
    "cc_charged_code_bytes d = cc_charged_code_bytes c - ca_code_bytes x"
    "cc_charged_metadata_bytes d = cc_charged_metadata_bytes c - ca_metadata_bytes x"
    using r by (simp_all add: removed_def)
  from s ch show "charges_ok d" unfolding charges_ok_def c by linarith
  from s ch show "cc_charged_bytes d + ca_charge_bytes x = cc_charged_bytes c"
    "cc_charged_code_bytes d + ca_code_bytes x = cc_charged_code_bytes c"
    "cc_charged_metadata_bytes d + ca_metadata_bytes x = cc_charged_metadata_bytes c"
    unfolding charges_ok_def c by linarith+
qed

lemma removed_counts:
  assumes ct: "counts_ok pins extra c" and r: "removed k a x c d" and x: "cell c a = Some x"
    and e: "is_evictable x"
  shows "counts_ok pins extra d"
proof -
  note free = counts_evictable [OF ct x e]
  have dom: "set pins \<subseteq> dom (cell d)" "set extra \<subseteq> dom (cell d)"
    using ct free by (auto simp: counts_ok_def removed_dom [OF r])
  have t: "targets_of d b = targets_of c b - {a}" for b
  proof (rule set_eqI)
    fix e
    show "e \<in> targets_of d b \<longleftrightarrow> e \<in> targets_of c b - {a}"
      using r by (cases "cell c e") (auto simp: targets_of_def removed_def drop_reference_def split: if_splits)
  qed
  have "ca_execution_pins y = count_list pins b \<and>
      ca_deopt_references y = card (targets_of d b) + count_list extra b"
    if y: "cell d b = Some y" for b y
  proof -
    obtain z where z: "cell c b = Some z" "y = (if ca_deopt_target x = Some b then drop_reference z else z)"
      using y by (rule removed_cell [OF r])
    have c: "ca_execution_pins z = count_list pins b"
      "ca_deopt_references z = card (targets_of c b) + count_list extra b"
      using ct z(1) by (simp_all add: counts_ok_def)
    show ?thesis
    proof (cases "ca_deopt_target x = Some b")
      case True
      then have "a \<in> targets_of c b" using x by (simp add: targets_of_def)
      then have "card (targets_of c b) = Suc (card (targets_of d b))"
        unfolding t using card_Suc_Diff1 [OF finite_targets] by metis
      then show ?thesis using c z(2) True by (simp add: drop_reference_def)
    next
      case False
      then have "a \<notin> targets_of c b" using x by (simp add: targets_of_def)
      then show ?thesis using c z(2) False by (simp add: t)
    qed
  qed
  then show ?thesis using dom by (simp add: counts_ok_def)
qed

lemma removed_wake:
  assumes w: "wake_ok c" and r: "removed k a x c d"
  shows "wake_ok d"
  unfolding wake_ok_def
proof (intro allI impI)
  fix b y assume y: "cell d b = Some y" "ca_invalidated y" "is_evictable y"
  obtain z where z: "cell c b = Some z" "y = (if ca_deopt_target x = Some b then drop_reference z else z)"
    using y(1) by (rule removed_cell [OF r])
  have "is_evictable z \<or> ca_deopt_target x = Some b \<and> ca_deopt_references z = 1"
    using y(3) z(2) by (auto simp: is_evictable_def drop_reference_def split: if_splits)
  moreover have "ca_invalidated z" using y(2) z(2) by (simp add: drop_reference_def split: if_splits)
  ultimately show "cc_reclaim_needed d" using w r z(1) by (auto simp: wake_ok_def removed_def)
qed

lemma removed_core:
  assumes ok: "core_ok pins extra c" and r: "removed k a x c d"
    and a: "map_of (cc_artifacts c) k = Some a" and x: "cell c a = Some x" "is_evictable x"
  shows "core_ok pins extra d"
proof -
  have c: "shape_ok c" "charges_ok c" "limits_ok c" "counts_ok pins extra c"
    using ok by (simp_all add: core_ok_def)
  have s: "shape_ok d" by (rule removed_shape_ok [OF c(1) r a counts_evictable(3) [OF c(4) x]])
  note ch = removed_charges [OF c(1) s r x(1) c(2)]
  have "limits_ok d" using c(3) ch(2-4) r by (auto simp: limits_ok_def removed_def)
  then show ?thesis using s ch(1) removed_counts [OF c(4) r x] by (simp add: core_ok_def)
qed

lemma cache_remove_evictable:
  assumes ok: "core_ok pins extra c" and x: "resident c k = Some x" "is_evictable x"
  obtains a where "map_of (cc_artifacts c) k = Some a" "cell c a = Some x"
    "removed k a x c (cache_remove k c)" "core_ok pins extra (cache_remove k c)"
    "wake_ok c \<Longrightarrow> wake_ok (cache_remove k c)"
proof -
  obtain a where a: "map_of (cc_artifacts c) k = Some a" "cell c a = Some x"
    using x(1) by (auto simp: resident_def bind_eq_Some_conv)
  have r: "removed k a x c (cache_remove k c)"
    by (rule cache_remove_removed [OF core_shape [OF ok] a x(2)])
  show ?thesis by (rule that [OF a r removed_core [OF ok r a x(2)] removed_wake [OF _ r]])
qed

section \<open>Bookkeeping\<close>

lemma frame_core:
  assumes ok: "core_ok pins extra c" and s: "same_shape c d"
    and dom: "set pins' \<subseteq> dom (cell c)" "set extra' \<subseteq> dom (cell c)"
    and p: "\<And>b x y. cell c b = Some x \<Longrightarrow> cell d b = Some y \<Longrightarrow>
      ca_execution_pins x = count_list pins b \<Longrightarrow> ca_execution_pins y = count_list pins' b"
    and e: "\<And>b x y n. cell c b = Some x \<Longrightarrow> cell d b = Some y \<Longrightarrow>
      ca_deopt_references x = n + count_list extra b \<Longrightarrow> ca_deopt_references y = n + count_list extra' b"
  shows "core_ok pins' extra' d"
proof -
  have c: "shape_ok c" "charges_ok c" "limits_ok c" "counts_ok pins extra c"
    using ok by (simp_all add: core_ok_def)
  have "ca_execution_pins y = count_list pins' b \<and>
      ca_deopt_references y = card (targets_of d b) + count_list extra' b"
    if y: "cell d b = Some y" for b y
  proof -
    have "b \<in> dom (cell c)" using y same_shape_dom [OF s] by auto
    then obtain x where x: "cell c b = Some x" by blast
    then show ?thesis
      using c(4) p [OF x y] e [OF x y] by (simp add: counts_ok_def same_shape_targets_of [OF s])
  qed
  then have "counts_ok pins' extra' d" using dom same_shape_dom [OF s] by (simp add: counts_ok_def)
  then show ?thesis
    using same_shape_shape_ok [OF s c(1)] same_shape_charges [OF s] c(2,3) by (simp add: core_ok_def)
qed

lemma same_shape_tick [simp]: "same_shape c (next_tick c)"
  by (simp add: same_shape_def next_tick_def)

lemma same_shape_flag [simp]: "same_shape c (c\<lparr>cc_reclaim_needed := b\<rparr>)"
  by (simp add: same_shape_def)

lemma same_shape_trans: "same_shape c d \<Longrightarrow> same_shape d e \<Longrightarrow> same_shape c e"
proof -
  assume s: "same_shape c d" "same_shape d e"
  have "rel_option static_eq (cell c a) (cell e a)" for a
    by (rule same_shape_cell [OF s(1), of a]; rule same_shape_cell [OF s(2), of a])
      (auto simp: static_eq_def)
  then show ?thesis using s by (simp add: same_shape_def)
qed

lemma next_tick_fields [simp]:
  "cc_heap (next_tick c) = cc_heap c" "cc_artifacts (next_tick c) = cc_artifacts c"
  "cc_reclaim_needed (next_tick c) = cc_reclaim_needed c"
  "cc_last_benefit_target (next_tick c) = cc_last_benefit_target c"
  by (simp_all add: next_tick_def)

lemma core_tick [simp]: "core_ok pins extra (next_tick c) \<longleftrightarrow> core_ok pins extra c"
  by (simp add: core_ok_def shape_ok_def charges_ok_def limits_ok_def counts_ok_def target_ok_def
      sum_resident_def residents_def targets_of_def next_tick_def cong: tier.case_cong)

lemma core_flag [simp]: "core_ok pins extra (c\<lparr>cc_reclaim_needed := b\<rparr>) \<longleftrightarrow> core_ok pins extra c"
  by (simp add: core_ok_def shape_ok_def charges_ok_def limits_ok_def counts_ok_def target_ok_def
      sum_resident_def residents_def targets_of_def cong: tier.case_cong)

lemma wake_tick [simp]: "wake_ok (next_tick c) \<longleftrightarrow> wake_ok c"
  by (simp add: wake_ok_def)

text \<open>An update that touches no counter.\<close>

definition neutral :: "(cached_artifact \<Rightarrow> cached_artifact) \<Rightarrow> bool" where
  "neutral f \<longleftrightarrow> (\<forall>x. static_eq x (f x) \<and> ca_execution_pins (f x) = ca_execution_pins x \<and>
     ca_deopt_references (f x) = ca_deopt_references x \<and> ca_invalidated (f x) = ca_invalidated x)"

lemma neutral_map_cell:
  assumes n: "neutral f" and ok: "cache_ok pins extra c"
  shows "cache_ok pins extra (map_cell a f c)"
proof -
  have core: "core_ok pins extra c" using ok by (rule cache_core)
  have "same_shape c (map_cell a f c)" by (rule same_shape_map_cell) (use n in \<open>simp add: neutral_def\<close>)
  then have "core_ok pins extra (map_cell a f c)"
    by (rule frame_core [OF core])
      (use core n in \<open>auto simp: core_ok_def counts_ok_def neutral_def split: if_splits\<close>)
  moreover have "wake_ok (map_cell a f c)"
    using ok n by (auto simp: cache_ok_def wake_ok_def neutral_def is_evictable_def split: if_splits)
  ultimately show ?thesis by (simp add: cache_ok_def)
qed

lemma touch_ok: "cache_ok pins extra c \<Longrightarrow> cache_ok pins extra (snd (touch key c))"
proof -
  assume ok: "cache_ok pins extra c"
  have "neutral (\<lambda>x. x\<lparr>ca_last_used := t\<rparr>)" for t by (simp add: neutral_def static_eq_def)
  moreover have "cache_ok pins extra (next_tick c)" using ok by (simp add: cache_ok_def)
  ultimately show ?thesis
    by (auto simp: touch_def Let_def neutral_map_cell split: option.split)
qed

lemma core_benefit_target:
  assumes "core_ok pins extra c" "a \<in> dom (cell c)"
  shows "core_ok pins extra (c\<lparr>cc_last_benefit_target := Some a\<rparr>)"
proof -
  let ?d = "c\<lparr>cc_last_benefit_target := Some a\<rparr>"
  have "target_ok ?d = target_ok c"
    by (rule ext) (simp add: target_ok_def cong: tier.case_cong)
  then have iff: "shape_ok ?d \<longleftrightarrow>
      strict_sorted_keys (cc_artifacts c) \<and> distinct (map snd (cc_artifacts c)) \<and>
      dom (cell c) = snd ` set (cc_artifacts c) \<and> (\<forall>a \<in> dom (cell c). a < cc_fresh c) \<and>
      (\<forall>(k, a) \<in> set (cc_artifacts c). \<exists>x. cell c a = Some x \<and> cell_key x = k \<and> target_ok c x) \<and>
      a \<in> dom (cell c)"
    by (simp add: shape_ok_def)
  have "shape_ok ?d"
    by (rule iffD2 [OF iff], insert assms, unfold core_ok_def shape_ok_def, elim conjE, intro conjI)
  moreover have "charges_ok ?d = charges_ok c" "limits_ok ?d = limits_ok c"
    "counts_ok pins extra ?d = counts_ok pins extra c"
    by (simp_all add: charges_ok_def limits_ok_def counts_ok_def sum_resident_def residents_def
        targets_of_def)
  ultimately show ?thesis using assms(1) by (simp add: core_ok_def)
qed

lemma shape_owned: "shape_ok c \<Longrightarrow> cell c a = Some x \<Longrightarrow> \<not> unowned c a"
  using shape_cell(1) resident_owned by blast

lemma set_benefit_target_eq:
  assumes ok: "core_ok pins extra c"
  shows "set_benefit_target a c = c\<lparr>cc_last_benefit_target := Some a\<rparr>"
proof (cases "cc_last_benefit_target c")
  case (Some b)
  have "b \<in> snd ` set (cc_artifacts c)" using core_shape [OF ok] Some unfolding shape_ok_def by blast
  then have "\<not> unowned (c\<lparr>cc_last_benefit_target := Some a\<rparr>) b" by (simp add: unowned_def)
  then show ?thesis by (simp add: set_benefit_target_def Some release_owner_owned)
qed (simp add: set_benefit_target_def)

lemma neutral_score: "neutral (score_cell benefit tick)"
  by (simp add: neutral_def score_cell_def static_eq_def Let_def)

lemma record_benefit_ok:
  assumes ok: "cache_ok pins extra c"
  shows "cache_ok pins extra (snd (record_benefit key benefit c))"
proof -
  let ?c = "next_tick c"
  have tick: "cache_ok pins extra ?c" using ok by (simp add: cache_ok_def)
  have target: "cache_ok pins extra (?c\<lparr>cc_last_benefit_target := Some a\<rparr>)"
    if a: "map_of (cc_artifacts ?c) key = Some a" for a
  proof -
    obtain x where "cell ?c a = Some x"
      by (rule shape_resident [OF core_shape [OF cache_core [OF tick]] a])
    then show ?thesis using core_benefit_target [OF cache_core [OF tick], of a] tick
      by (auto simp: cache_ok_def wake_ok_def)
  qed
  show ?thesis
    using tick target neutral_map_cell [OF neutral_score]
    by (auto simp: record_benefit_def Let_def set_benefit_target_eq [OF cache_core [OF tick]]
        split: option.split sum.split if_split_asm)
qed

lemma pin_ok:
  assumes ok: "cache_ok pins extra c"
  shows "cache_ok (case fst (pin key c) of None \<Rightarrow> pins | Some a \<Rightarrow> a # pins) extra (snd (pin key c))"
proof (cases "fst (pin key c)")
  case None
  then have "snd (pin key c) = next_tick c"
    by (auto simp: pin_def Let_def split: option.splits if_splits)
  then show ?thesis using ok None by (simp add: cache_ok_def)
next
  case (Some a)
  let ?f = "\<lambda>x. x\<lparr>ca_execution_pins := ca_execution_pins x + 1, ca_last_used := cc_clock (next_tick c)\<rparr>"
  let ?d = "map_cell a ?f (next_tick c)"
  have d: "snd (pin key c) = ?d" and x: "\<exists>x. cell c a = Some x \<and> \<not> ca_invalidated x"
    using Some by (auto simp: pin_def Let_def split: option.splits if_splits)
  have core: "core_ok pins extra (next_tick c)" using ok by (simp add: cache_ok_def)
  have "same_shape (next_tick c) ?d" by (rule same_shape_map_cell) (simp add: static_eq_def)
  then have "core_ok (a # pins) extra ?d"
    by (rule frame_core [OF core])
      (use core x in \<open>auto simp: core_ok_def counts_ok_def split: if_splits\<close>)
  moreover have "wake_ok ?d"
    using ok x by (auto simp: cache_ok_def wake_ok_def is_evictable_def split: if_splits)
  ultimately show ?thesis using Some d by (simp add: cache_ok_def)
qed

lemma count_list_remove1:
  "count_list (remove1 a xs) b = count_list xs b - (if a = b then 1 else 0)"
  by (induction xs) (auto simp: count_list_0_iff)

lemma drop_execution_pin_ok:
  assumes ok: "cache_ok pins extra c" and a: "a \<in> set pins"
  shows "cache_ok (remove1 a pins) extra (drop_execution_pin a c)"
proof -
  let ?f = "\<lambda>x. x\<lparr>ca_execution_pins := ca_execution_pins x - 1\<rparr>"
  have core: "core_ok pins extra c" using ok by (rule cache_core)
  obtain x where x: "cell c a = Some x" using core a by (auto simp: core_ok_def counts_ok_def)
  define w where "w = wake ca_execution_pins a c"
  have wc: "core_ok pins extra w" using core by (simp add: w_def wake_eq)
  have cells: "cell w = cell c" by (simp add: w_def)
  have "same_shape w (map_cell a ?f w)" by (rule same_shape_map_cell) (simp add: static_eq_def)
  then have m: "core_ok (remove1 a pins) extra (map_cell a ?f w)"
    by (rule frame_core [OF wc])
      (use wc in \<open>auto simp: core_ok_def counts_ok_def count_list_remove1 split: if_splits
        dest: notin_set_remove1\<close>)
  have "cell (map_cell a ?f w) a = Some (?f x)" using x by (simp add: cells)
  then have "drop_execution_pin a c = map_cell a ?f w"
    using release_owner_owned [OF shape_owned [OF core_shape [OF m]]]
    by (simp add: drop_execution_pin_def sub_execution_pin_def flip: w_def)
  moreover have "wake_ok (map_cell a ?f w)"
    unfolding wake_ok_def
  proof (intro allI impI)
    fix b y assume y: "cell (map_cell a ?f w) b = Some y" "ca_invalidated y" "is_evictable y"
    show "cc_reclaim_needed (map_cell a ?f w)"
    proof (cases "b = a")
      case True
      then have "y = ?f x" using y(1) x by (simp add: cells)
      moreover have "ca_execution_pins x = count_list pins a"
        using core x by (simp add: core_ok_def counts_ok_def)
      moreover have "count_list pins a \<noteq> 0" using a by (simp add: count_list_0_iff)
      ultimately show ?thesis using y x by (auto simp: w_def wake_eq is_evictable_def)
    next
      case False
      then show ?thesis using y ok by (auto simp: w_def wake_eq cache_ok_def wake_ok_def)
    qed
  qed
  ultimately show ?thesis using m by (simp add: cache_ok_def)
qed


lemma add_deopt_reference_ok:
  assumes ok: "cache_ok pins extra c" and a: "a \<in> dom (cell c)"
  shows "cache_ok pins (a # extra) (add_deopt_reference a c)"
proof -
  let ?f = "\<lambda>x. x\<lparr>ca_deopt_references := ca_deopt_references x + 1\<rparr>"
  have core: "core_ok pins extra c" using ok by (rule cache_core)
  have "same_shape c (map_cell a ?f c)" by (rule same_shape_map_cell) (simp add: static_eq_def)
  then have "core_ok pins (a # extra) (map_cell a ?f c)"
    by (rule frame_core [OF core])
      (use core a in \<open>auto simp: core_ok_def counts_ok_def split: if_splits\<close>)
  moreover have "wake_ok (map_cell a ?f c)"
    using ok by (auto simp: cache_ok_def wake_ok_def is_evictable_def split: if_splits)
  ultimately show ?thesis by (simp add: cache_ok_def add_deopt_reference_def)
qed

lemma drop_deopt_pin_ok:
  assumes ok: "cache_ok pins extra c" and a: "a \<in> set extra"
  shows "cache_ok pins (remove1 a extra) (drop_deopt_pin a c)"
    and "same_shape c (drop_deopt_pin a c)"
proof -
  let ?f = "\<lambda>x. x\<lparr>ca_deopt_references := ca_deopt_references x - 1\<rparr>"
  have core: "core_ok pins extra c" using ok by (rule cache_core)
  obtain x where x: "cell c a = Some x" using core a by (auto simp: core_ok_def counts_ok_def)
  have refs: "ca_deopt_references x = card (targets_of c a) + count_list extra a"
    using core x by (simp add: core_ok_def counts_ok_def)
  have pos: "0 < count_list extra a" using a count_list_0_iff [of extra a] by auto
  define w where "w = wake ca_deopt_references a c"
  have wc: "core_ok pins extra w" using core by (simp add: w_def wake_eq)
  have cells: "cell w = cell c" by (simp add: w_def)
  have sm: "same_shape w (map_cell a ?f w)" by (rule same_shape_map_cell) (simp add: static_eq_def)
  have doms: "set pins \<subseteq> dom (cell w)" "set (remove1 a extra) \<subseteq> dom (cell w)"
    using wc set_remove1_subset [of a extra] by (auto simp: core_ok_def counts_ok_def)
  have m: "core_ok pins (remove1 a extra) (map_cell a ?f w)"
    by (rule frame_core [OF wc sm doms])
      (use pos in \<open>simp_all add: count_list_remove1 split: if_splits, auto\<close>)
  have "cell (map_cell a ?f w) a = Some (?f x)" using x by (simp add: cells)
  then have eq: "drop_deopt_pin a c = map_cell a ?f w"
    using release_owner_owned [OF shape_owned [OF core_shape [OF m]]]
    by (simp add: drop_deopt_pin_def sub_deopt_reference_def flip: w_def)
  have "cc_reclaim_needed (map_cell a ?f w)"
    if y: "cell (map_cell a ?f w) b = Some y" "ca_invalidated y" "is_evictable y" for b y
  proof (cases "b = a")
    case True
    then have "y = ?f x" using y(1) x by (simp add: cells)
    then show ?thesis using y x refs pos by (auto simp: w_def wake_eq is_evictable_def)
  next
    case False
    then show ?thesis using y ok by (auto simp: w_def wake_eq cache_ok_def wake_ok_def)
  qed
  then have "wake_ok (map_cell a ?f w)" unfolding wake_ok_def by blast
  then show "cache_ok pins (remove1 a extra) (drop_deopt_pin a c)"
    using m by (simp add: eq cache_ok_def)
  have "same_shape c w" unfolding w_def wake_eq by (rule same_shape_flag)
  then show "same_shape c (drop_deopt_pin a c)" unfolding eq by (rule same_shape_trans) (rule sm)
qed

section \<open>Reclamation\<close>

lemma invalidate_fold:
  assumes "core_ok pins extra c"
  shows "core_ok pins extra (fold (\<lambda>e. map_cell (snd e) (\<lambda>x. x\<lparr>ca_invalidated := True\<rparr>)) hits c)"
    "cc_reclaim_needed (fold (\<lambda>e. map_cell (snd e) (\<lambda>x. x\<lparr>ca_invalidated := True\<rparr>)) hits c) =
      cc_reclaim_needed c"
proof -
  have step: "core_ok pins extra (map_cell a (\<lambda>x. x\<lparr>ca_invalidated := True\<rparr>) d)"
    if d: "core_ok pins extra d" for a d
    by (rule frame_core [OF d same_shape_map_cell])
      (use d in \<open>auto simp: static_eq_def core_ok_def counts_ok_def split: if_splits\<close>)
  show "core_ok pins extra (fold (\<lambda>e. map_cell (snd e) (\<lambda>x. x\<lparr>ca_invalidated := True\<rparr>)) hits c)"
    using assms by (induction hits arbitrary: c) (simp_all add: step)
  show "cc_reclaim_needed (fold (\<lambda>e. map_cell (snd e) (\<lambda>x. x\<lparr>ca_invalidated := True\<rparr>)) hits c) =
      cc_reclaim_needed c"
    by (induction hits arbitrary: c) simp_all
qed

lemma invalidate_deferred_ok:
  assumes ok: "cache_ok pins extra c"
  shows "cache_ok pins extra (invalidate_deferred f c)"
proof -
  define hits where "hits = filter (\<lambda>e. ak_function_id (fst e) = fk_id f \<and>
    ak_generation (fst e) = fk_generation f) (cc_artifacts c)"
  show ?thesis
  proof (cases "hits = []")
    case True
    then show ?thesis using ok by (simp add: invalidate_deferred_def Let_def flip: hits_def)
  next
    case False
    then show ?thesis using invalidate_fold(1) [OF cache_core [OF ok], of hits]
      by (simp add: invalidate_deferred_def Let_def cache_ok_def wake_ok_def flip: hits_def)
  qed
qed

lemma min_by_key_None: "min_by_key f xs = None \<longleftrightarrow> xs = []"
  by (cases xs) (auto split: option.split)

lemma candidate_Some:
  assumes ok: "shape_ok c" and n: "next_invalidated_candidate c = Some k"
  shows "\<exists>x. resident c k = Some x \<and> ca_invalidated x \<and> is_evictable x"
proof -
  obtain e where e: "min_by_key (\<lambda>e. (reclaim_tier_order (fst e), fst e))
      (filter (\<lambda>e. ca_invalidated (snd e) \<and> is_evictable (snd e)) (residents c)) = Some e" "fst e = k"
    using n unfolding next_invalidated_candidate_def by blast
  from min_by_key_mem [OF e(1)] have "(k, snd e) \<in> set (residents c)"
    "ca_invalidated (snd e)" "is_evictable (snd e)"
    using e(2) by auto
  then show ?thesis unfolding resident_mem [OF ok] by blast
qed

lemma candidate_None:
  assumes ok: "shape_ok c" and n: "next_invalidated_candidate c = None" and x: "cell c a = Some x"
  shows "\<not> (ca_invalidated x \<and> is_evictable x)"
proof -
  have "resident c (cell_key x) = Some x" using shape_cell(1) [OF ok x] x by (simp add: resident_def)
  then have "(cell_key x, x) \<in> set (residents c)" by (simp add: resident_mem [OF ok])
  then show ?thesis using n by (force simp: next_invalidated_candidate_def min_by_key_None filter_empty_conv)
qed

lemma remove_candidate_ok:
  assumes ok: "core_ok pins extra c" and n: "next_invalidated_candidate c = Some k"
  shows "core_ok pins extra (cache_remove k c)" "wake_ok c \<Longrightarrow> wake_ok (cache_remove k c)"
proof -
  obtain x where x: "resident c k = Some x" "is_evictable x"
    using candidate_Some [OF core_shape [OF ok] n] by blast
  show "core_ok pins extra (cache_remove k c)" "wake_ok c \<Longrightarrow> wake_ok (cache_remove k c)"
    by (rule cache_remove_evictable [OF ok x]; assumption)+
qed

lemma collect_loop_ok:
  assumes "core_ok pins extra c"
  shows "core_ok pins extra (snd (collect_loop budget c)) \<and>
    (wake_ok c \<longrightarrow> wake_ok (snd (collect_loop budget c)))"
  using assms
proof (induction budget arbitrary: c)
  case (Suc budget)
  show ?case
  proof (cases "next_invalidated_candidate c")
    case (Some k)
    show ?thesis
      using Suc.IH [OF remove_candidate_ok(1) [OF Suc.prems Some]] remove_candidate_ok(2) [OF Suc.prems Some]
      by (simp add: Some case_prod_unfold)
  qed (use Suc.prems in simp)
qed simp

lemma wake_from_poll:
  assumes "shape_ok c"
  shows "wake_ok (if next_invalidated_candidate c \<noteq> None then c\<lparr>cc_reclaim_needed := True\<rparr> else c)"
  using candidate_None [OF assms] by (auto simp: wake_ok_def)

lemma collect_ok:
  fixes budget :: nat
  assumes core: "core_ok pins extra c"
  defines "d \<equiv> snd (collect_invalidated_with_budget budget c)"
  defines "p \<equiv> fst (collect_invalidated_with_budget budget c)"
  shows "core_ok pins extra d" "wake_ok c \<Longrightarrow> wake_ok d"
    "cache_ok pins extra (if rp_may_have_remaining p then d\<lparr>cc_reclaim_needed := True\<rparr> else d)"
proof -
  have d: "d = snd (collect_loop budget c)"
    and p: "rp_may_have_remaining p \<longleftrightarrow> next_invalidated_candidate d \<noteq> None"
    by (simp_all add: d_def p_def collect_invalidated_with_budget_def case_prod_unfold)
  show "core_ok pins extra d" unfolding d using collect_loop_ok [OF core] by simp
  then show "cache_ok pins extra (if rp_may_have_remaining p then d\<lparr>cc_reclaim_needed := True\<rparr> else d)"
    using wake_from_poll [OF core_shape, of pins extra d] unfolding p by (simp add: cache_ok_def split: if_splits)
  show "wake_ok d" if "wake_ok c" unfolding d using collect_loop_ok [OF core] that by simp
qed

lemma collect_invalidated_ok:
  "core_ok pins extra c \<Longrightarrow> cache_ok pins extra (snd (collect_invalidated c))"
  using collect_ok(3) [of pins extra "c\<lparr>cc_reclaim_needed := False\<rparr>" usize_max]
  by (simp add: collect_invalidated_def Let_def case_prod_unfold)

lemma poll_ok:
  assumes ok: "cache_ok pins extra c"
  shows "cache_ok pins extra (snd (poll_reclamation_with_budget budget c))"
proof (cases "cc_reclaim_needed c")
  case True
  then show ?thesis
    using collect_ok(3) [of pins extra "c\<lparr>cc_reclaim_needed := False\<rparr>" budget] cache_core [OF ok]
    by (simp add: poll_reclamation_with_budget_def case_prod_unfold)
next
  case False
  then have "c\<lparr>cc_reclaim_needed := False\<rparr> = c" by (cases c) simp
  then have "snd (poll_reclamation_with_budget budget c) = c"
    using False unfolding poll_reclamation_with_budget_def by simp
  then show ?thesis using ok by simp
qed

end
