(* ===== verification/Cache_Insert.thy ===== *)
theory Cache_Insert
  imports Cache_Safety
begin

text \<open>
  Insertion into the code cache. The eviction plan of \<^verbatim>\<open>jit/src/code_cache/evict.rs\<close> simulates removals
  on a table of reference counts without touching the cache. The simulation is exact: whenever a key
  is selected, the removals carried out so far have left its artifact without pins and references,
  and the freed bytes are the bytes the cache gives up. Insertion therefore keeps the invariant of
  the cache and its byte limits, and a refused insertion changes no resident artifact.
\<close>

section \<open>The plan simulates the removals\<close>

text \<open>
  The cache \<open>d\<close> is \<open>c\<close> without the artifacts \<open>dead\<close>; what is left of \<open>c\<close> differs in its
  reference counts only, which \<open>refs\<close> has.
\<close>

definition simulates ::
  "nat list \<Rightarrow> nat list \<Rightarrow> code_cache \<Rightarrow> artifact_key set \<Rightarrow> (artifact_key \<times> nat) list \<Rightarrow> code_cache \<Rightarrow> bool" where
  "simulates pins extra c dead refs d \<longleftrightarrow>
     core_ok pins extra d \<and> (wake_ok c \<longrightarrow> wake_ok d) \<and>
     (\<forall>k. map_of (cc_artifacts d) k = (if k \<in> dead then None else map_of (cc_artifacts c) k)) \<and>
     (\<forall>a y. cell d a = Some y \<longrightarrow>
        (\<exists>x. cell c a = Some x \<and> y = x\<lparr>ca_deopt_references := ca_deopt_references y\<rparr> \<and>
           map_of refs (cell_key y) = Some (ca_deopt_references y))) \<and>
     cc_max_bytes d = cc_max_bytes c \<and> cc_max_code_bytes d = cc_max_code_bytes c \<and>
     cc_max_metadata_bytes d = cc_max_metadata_bytes c \<and>
     cc_separate_limits d = cc_separate_limits c \<and> cc_fresh d = cc_fresh c \<and> cc_clock d = cc_clock c"

lemma simulates_core: "simulates pins extra c dead refs d \<Longrightarrow> core_ok pins extra d"
  by (simp add: simulates_def)

lemma simulates_cell:
  assumes "simulates pins extra c dead refs d" "cell d a = Some y"
  shows "\<exists>x. cell c a = Some x \<and> y = x\<lparr>ca_deopt_references := ca_deopt_references y\<rparr> \<and>
    map_of refs (cell_key y) = Some (ca_deopt_references y)"
  using assms by (simp add: simulates_def)

lemma simulates_start:
  assumes ok: "core_ok pins extra c"
  shows "simulates pins extra c {} (map (\<lambda>e. (fst e, ca_deopt_references (snd e))) (residents c)) c"
proof -
  have m: "map_of (map (\<lambda>e. (fst e, ca_deopt_references (snd e))) es) k =
      map_option ca_deopt_references (map_of es k)" for es :: "(artifact_key \<times> cached_artifact) list" and k
    by (induction es) auto
  have "map_of (residents c) (cell_key x) = Some x" if "cell c a = Some x" for a x
    using shape_cell(1) [OF core_shape [OF ok] that] that
    by (simp add: map_of_residents [OF core_shape [OF ok]] resident_def)
  then show ?thesis using ok by (auto simp: simulates_def m)
qed

text \<open>What releasing the target of a resident key does to the table.\<close>

lemma release_target_of_resident:
  assumes ok: "shape_ok c" and x: "resident c k = Some x"
  shows "release_target_of c k refs =
    (case Option.bind (ca_deopt_target x) (\<lambda>t. map_option cell_key (cell c t)) of
       None \<Rightarrow> refs | Some l \<Rightarrow> bt_update l (\<lambda>n. n - 1) refs)"
  using x unfolding release_target_of_def map_of_residents [OF ok] release_deopt_reference_def
  by (simp add: deopt_target_key_def)

lemma static_refs:
  "v = w\<lparr>ca_deopt_references := n\<rparr> \<Longrightarrow>
   v\<lparr>ca_deopt_references := m\<rparr> = w\<lparr>ca_deopt_references := m\<rparr> \<and> ca_deopt_references v = n"
  by simp

lemma simulates_release:
  assumes s: "simulates pins extra c dead refs d" and ok: "shape_ok c"
    and a: "map_of (cc_artifacts d) k = Some a" "cell d a = Some y" "cell c a = Some x"
    and k: "map_of (cc_artifacts c) k = Some a"
    and r: "removed k a y d e" and z: "cell e b = Some z"
  shows "\<exists>w. cell c b = Some w \<and> z = w\<lparr>ca_deopt_references := ca_deopt_references z\<rparr> \<and>
    map_of (release_target_of c k refs) (cell_key z) = Some (ca_deopt_references z)"
proof -
  have okd: "shape_ok d" by (rule core_shape [OF simulates_core [OF s]])
  obtain v where v: "cell d b = Some v" "z = (if ca_deopt_target y = Some b then drop_reference v else v)"
    using z by (rule removed_cell [OF r])
  obtain w where w: "cell c b = Some w" "v = w\<lparr>ca_deopt_references := ca_deopt_references v\<rparr>"
      "map_of refs (cell_key v) = Some (ca_deopt_references v)"
    using simulates_cell [OF s v(1)] by blast
  have xy: "ca_deopt_target y = ca_deopt_target x"
    using simulates_cell [OF s a(2)] a(3) by (metis cached_artifact.select_convs(6) cached_artifact.surjective
        cached_artifact.update_convs(3) option.inject)
  have res: "resident c k = Some x" using k a(3) by (simp add: resident_def)
  have key: "cell_key z = cell_key v" using v(2) by (simp add: drop_reference_def)
  have fin: "z = w\<lparr>ca_deopt_references := ca_deopt_references z\<rparr>"
  proof (cases "ca_deopt_target y = Some b")
    case True
    then show ?thesis using v(2) static_refs [OF w(2)] by (simp add: drop_reference_def)
  next
    case False
    then show ?thesis using v(2) w(2) by simp
  qed
  show ?thesis
  proof (cases "ca_deopt_target x")
    case None
    then show ?thesis using w fin v(2) xy by (simp add: release_target_of_resident [OF ok res])
  next
    case (Some t)
    have t: "map_of (cc_artifacts d) (with_tier (cell_key y) TierBaseline) = Some t"
      by (rule target_other_key(1) [OF okd a(2)]) (simp add: xy Some)
    obtain u where u: "cell d t = Some u" by (rule shape_resident [OF okd t])
    obtain u' where u': "cell c t = Some u'" "u = u'\<lparr>ca_deopt_references := ca_deopt_references u\<rparr>"
      using simulates_cell [OF s u] by blast
    have ku: "cell_key u = cell_key u'" by (subst u'(2)) simp
    have "cell_key v = cell_key u \<longleftrightarrow> b = t"
      using shape_cell(1) [OF okd u] shape_cell(1) [OF okd v(1)] u v(1) by auto
    then show ?thesis using w(1,3) fin v(2) key xy Some u'(1) ku
      by (auto simp: release_target_of_resident [OF ok res] drop_reference_def)
  qed
qed

lemma simulates_remove:
  assumes s: "simulates pins extra c dead refs d" and ok: "shape_ok c"
    and y: "resident d k = Some y" "is_evictable y"
  shows "simulates pins extra c (insert k dead) (release_target_of c k refs) (cache_remove k d)"
    "cc_charged_bytes (cache_remove k d) + ca_charge_bytes y = cc_charged_bytes d"
    "cc_charged_code_bytes (cache_remove k d) + ca_code_bytes y = cc_charged_code_bytes d"
    "cc_charged_metadata_bytes (cache_remove k d) + ca_metadata_bytes y = cc_charged_metadata_bytes d"
proof -
  have core: "core_ok pins extra d" by (rule simulates_core [OF s])
  obtain a where a: "map_of (cc_artifacts d) k = Some a" "cell d a = Some y"
    and r: "removed k a y d (cache_remove k d)" and co: "core_ok pins extra (cache_remove k d)"
    and wa: "wake_ok d \<Longrightarrow> wake_ok (cache_remove k d)"
    by (rule cache_remove_evictable [OF core y]) blast
  obtain x where x: "cell c a = Some x" using simulates_cell [OF s a(2)] by blast
  have k: "map_of (cc_artifacts c) k = Some a" using s a(1) by (auto simp: simulates_def split: if_splits)
  have fields: "wake_ok c \<longrightarrow> wake_ok d"
    "\<forall>k. map_of (cc_artifacts d) k = (if k \<in> dead then None else map_of (cc_artifacts c) k)"
    "cc_max_bytes d = cc_max_bytes c" "cc_max_code_bytes d = cc_max_code_bytes c"
    "cc_max_metadata_bytes d = cc_max_metadata_bytes c" "cc_separate_limits d = cc_separate_limits c"
    "cc_fresh d = cc_fresh c" "cc_clock d = cc_clock c"
    using s by (simp_all add: simulates_def)
  have rf: "cc_artifacts (cache_remove k d) = bt_remove k (cc_artifacts d)"
    "cc_max_bytes (cache_remove k d) = cc_max_bytes d"
    "cc_max_code_bytes (cache_remove k d) = cc_max_code_bytes d"
    "cc_max_metadata_bytes (cache_remove k d) = cc_max_metadata_bytes d"
    "cc_separate_limits (cache_remove k d) = cc_separate_limits d"
    "cc_fresh (cache_remove k d) = cc_fresh d" "cc_clock (cache_remove k d) = cc_clock d"
    using r by (simp_all add: removed_def)
  show "simulates pins extra c (insert k dead) (release_target_of c k refs) (cache_remove k d)"
    unfolding simulates_def
    using co wa fields rf simulates_release [OF s ok a x k r] by simp
  have ch: "charges_ok d" using core by (simp add: core_ok_def)
  note rc = removed_charges [OF core_shape [OF core] core_shape [OF co] r a(2) ch]
  show "cc_charged_bytes (cache_remove k d) + ca_charge_bytes y = cc_charged_bytes d"
    "cc_charged_code_bytes (cache_remove k d) + ca_code_bytes y = cc_charged_code_bytes d"
    "cc_charged_metadata_bytes (cache_remove k d) + ca_metadata_bytes y = cc_charged_metadata_bytes d"
    by (rule rc)+
qed

lemma candidate_simulated:
  assumes s: "simulates pins extra c (insert excluded (set selected)) refs d" and ok: "shape_ok c"
    and e: "plan_candidate c excluded selected refs = Some e"
  shows "\<exists>y. resident d (fst e) = Some y \<and> is_evictable y \<and>
    y = (snd e)\<lparr>ca_deopt_references := ca_deopt_references y\<rparr>"
proof -
  note m = plan_candidate_mem [OF e]
  have "(fst e, snd e) \<in> set (residents c)" using m by simp
  then have "resident c (fst e) = Some (snd e)" unfolding resident_mem [OF ok] .
  then obtain a where a: "map_of (cc_artifacts c) (fst e) = Some a" "cell c a = Some (snd e)"
    by (auto simp: resident_def bind_eq_Some_conv)
  have d: "map_of (cc_artifacts d) (fst e) = Some a" using s a(1) m by (simp add: simulates_def)
  obtain y where y: "cell d a = Some y" "cell_key y = fst e"
    by (rule shape_resident [OF core_shape [OF simulates_core [OF s]] d])
  have xy: "y = (snd e)\<lparr>ca_deopt_references := ca_deopt_references y\<rparr>"
    and r: "map_of refs (fst e) = Some (ca_deopt_references y)"
    using simulates_cell [OF s y(1)] a(2) y(2) by simp_all
  have "ca_execution_pins y = ca_execution_pins (snd e)"
    by (subst xy) simp
  then have "is_evictable y" using m r by (simp add: is_evictable_def)
  then show ?thesis using d y(1) xy by (auto simp: resident_def)
qed

lemma add_freed_Some:
  "add_freed x freed = Some f \<longleftrightarrow>
     bt_bytes freed + ca_charge_bytes x \<le> usize_max \<and> bt_code freed + ca_code_bytes x \<le> usize_max \<and>
     bt_metadata freed + ca_metadata_bytes x \<le> usize_max \<and>
     f = \<lparr>bt_bytes = bt_bytes freed + ca_charge_bytes x, bt_code = bt_code freed + ca_code_bytes x,
          bt_metadata = bt_metadata freed + ca_metadata_bytes x\<rparr>"
  by (auto simp: add_freed_def checked_add_def bind_eq_Some_conv)

text \<open>The bytes charged and the bytes freed, together.\<close>

definition charged_and_freed :: "code_cache \<Rightarrow> byte_triple \<Rightarrow> nat \<times> nat \<times> nat" where
  "charged_and_freed d freed =
     (cc_charged_bytes d + bt_bytes freed, cc_charged_code_bytes d + bt_code freed,
      cc_charged_metadata_bytes d + bt_metadata freed)"

lemma plan_step_simulates:
  assumes s: "simulates pins extra c (insert excluded (set selected)) refs d" and ok: "shape_ok c"
    and e: "plan_candidate c excluded selected refs = Some e" and f: "add_freed (snd e) freed = Some freed'"
  shows "simulates pins extra c (insert excluded (set (selected @ [fst e])))
      (release_target_of c (fst e) refs) (cache_remove (fst e) d)"
    "charged_and_freed (cache_remove (fst e) d) freed' = charged_and_freed d freed"
proof -
  obtain y where y: "resident d (fst e) = Some y" "is_evictable y"
    and xy: "y = (snd e)\<lparr>ca_deopt_references := ca_deopt_references y\<rparr>"
    using candidate_simulated [OF s ok e] by blast
  note r = simulates_remove [OF s ok y]
  show "simulates pins extra c (insert excluded (set (selected @ [fst e])))
      (release_target_of c (fst e) refs) (cache_remove (fst e) d)"
    using r(1) by (simp add: insert_commute)
  have "ca_charge_bytes y = ca_charge_bytes (snd e)" "ca_code_bytes y = ca_code_bytes (snd e)"
    "ca_metadata_bytes y = ca_metadata_bytes (snd e)"
    by (subst xy, simp)+
  then show "charged_and_freed (cache_remove (fst e) d) freed' = charged_and_freed d freed"
    using r(2-4) f by (simp add: charged_and_freed_def add_freed_Some)
qed

lemma plan_loop_Inr:
  assumes p: "plan_loop c excluded needed refs freed selected = Inr sel"
  obtains (stop) "enough freed needed" "sel = selected"
  | (more) e f where "\<not> enough freed needed" "plan_candidate c excluded selected refs = Some e"
      "add_freed (snd e) freed = Some f"
      "plan_loop c excluded needed (release_target_of c (fst e) refs) f (selected @ [fst e]) = Inr sel"
proof (cases "enough freed needed")
  case True
  then show ?thesis using p by (subst (asm) plan_loop.simps) (simp add: stop)
next
  case False
  have q: "(case plan_candidate c excluded selected refs of
             None \<Rightarrow> Inl AllArtifactsPinned
           | Some e \<Rightarrow>
               (case add_freed (snd e) freed of
                  None \<Rightarrow> Inl ChargeOverflow
                | Some freed \<Rightarrow>
                    plan_loop c excluded needed (release_target_of c (fst e) refs) freed
                      (selected @ [fst e]))) = Inr sel"
    using p False by (subst (asm) plan_loop.simps) simp
  show ?thesis
  proof (cases "plan_candidate c excluded selected refs")
    case (Some e)
    show ?thesis
    proof (cases "add_freed (snd e) freed")
      case f: (Some f)
      show ?thesis by (rule more [OF False Some f]) (use q Some f in simp)
    qed (use q Some in simp)
  qed (use q in simp)
qed

lemma plan_loop_simulates:
  assumes "simulates pins extra c (insert excluded (set selected)) refs d" "shape_ok c"
    and "plan_loop c excluded needed refs freed selected = Inr sel"
  shows "\<exists>rest refs' freed'. sel = selected @ rest \<and>
    simulates pins extra c (insert excluded (set sel)) refs' (fold cache_remove rest d) \<and>
    charged_and_freed (fold cache_remove rest d) freed' = charged_and_freed d freed \<and>
    enough freed' needed"
  using assms
proof (induction c excluded needed refs freed selected arbitrary: d rule: plan_loop.induct)
  case (1 c excluded needed refs freed selected)
  from 1(4) show ?case
  proof (cases rule: plan_loop_Inr)
    case stop
    then have "sel = selected @ []" by simp
    then show ?thesis using 1(2) stop by fastforce
  next
    case (more e f)
    note st = plan_step_simulates [OF 1(2,3) more(2,3)]
    obtain rest refs' freed' where r: "sel = (selected @ [fst e]) @ rest"
      "simulates pins extra c (insert excluded (set sel)) refs' (fold cache_remove rest (cache_remove (fst e) d))"
      "charged_and_freed (fold cache_remove rest (cache_remove (fst e) d)) freed' = charged_and_freed d freed"
      "enough freed' needed"
      using 1(1) [OF more(1,2,3) st(1) 1(3) more(4)] unfolding st(2) by blast
    then have "sel = selected @ (fst e # rest)" by simp
    then show ?thesis using r(2-4) by (metis fold_simps(2))
  qed
qed

text \<open>The plan of an insertion, carried out after the artifact it replaces is removed.\<close>

definition make_room :: "artifact_key \<Rightarrow> artifact_key list \<Rightarrow> code_cache \<Rightarrow> code_cache" where
  "make_room key selected c =
     fold cache_remove selected (if contains c key then cache_remove key c else c)"

lemma evict_plan_simulates:
  assumes core: "core_ok pins extra c" and x: "\<And>x. resident c key = Some x \<Longrightarrow> is_evictable x"
    and p: "evict_plan c key needed = Inr sel"
  shows "\<exists>refs freed. simulates pins extra c (insert key (set sel)) refs (make_room key sel c) \<and>
    charged_and_freed (make_room key sel c) freed =
      charged_and_freed (if contains c key then cache_remove key c else c)
        \<lparr>bt_bytes = 0, bt_code = 0, bt_metadata = 0\<rparr> \<and> enough freed needed"
proof -
  let ?refs = "map (\<lambda>e. (fst e, ca_deopt_references (snd e))) (residents c)"
  let ?d = "if contains c key then cache_remove key c else c"
  have ok: "shape_ok c" by (rule core_shape [OF core])
  have s: "simulates pins extra c {key} (release_target_of c key ?refs) ?d"
  proof (cases "resident c key")
    case None
    have n: "map_of (cc_artifacts c) key = None"
    proof (rule ccontr)
      assume "map_of (cc_artifacts c) key \<noteq> None"
      then obtain a where a: "map_of (cc_artifacts c) key = Some a" by blast
      obtain y where "cell c a = Some y" by (rule shape_resident [OF ok a])
      then show False using None a by (simp add: resident_def)
    qed
    have "release_target_of c key ?refs = ?refs"
      by (simp add: release_target_of_def map_of_residents [OF ok] None)
    then show ?thesis using simulates_start [OF core] n by (auto simp: contains_def simulates_def)
  next
    case (Some y)
    then have "contains c key" by (auto simp: contains_def resident_def bind_eq_Some_conv)
    then show ?thesis using simulates_remove(1) [OF simulates_start [OF core] ok Some x [OF Some]] by simp
  qed
  have "plan_loop c key needed (release_target_of c key ?refs)
      \<lparr>bt_bytes = 0, bt_code = 0, bt_metadata = 0\<rparr> [] = Inr sel"
    using p by (simp add: evict_plan_def Let_def)
  from plan_loop_simulates [OF _ ok this, of pins extra ?d] s show ?thesis
    by (auto simp: make_room_def)
qed


section \<open>Storing the new artifact\<close>

definition stored :: "compiled_artifact \<Rightarrow> nat option \<Rightarrow> byte_triple \<Rightarrow> code_cache \<Rightarrow> code_cache" where
  "stored artifact target new d =
     d\<lparr>cc_charged_bytes := cc_charged_bytes d + bt_bytes new,
       cc_charged_code_bytes := cc_charged_code_bytes d + bt_code new,
       cc_charged_metadata_bytes := cc_charged_metadata_bytes d + bt_metadata new,
       cc_artifacts := bt_insert (art_key artifact) (cc_fresh d) (cc_artifacts d),
       cc_heap := AList.update (cc_fresh d)
         (new_cached artifact (cc_clock d) target (bt_bytes new) (bt_code new) (bt_metadata new)) (cc_heap d),
       cc_fresh := cc_fresh d + 1\<rparr>"

lemma insert_stored_eq:
  assumes "cc_charged_bytes d + bt_bytes new \<le> usize_max"
    "cc_charged_code_bytes d + bt_code new \<le> usize_max"
    "cc_charged_metadata_bytes d + bt_metadata new \<le> usize_max"
  shows "insert_stored artifact target new selected d = (Inr selected, stored artifact target new d)"
  using assms by (simp add: insert_stored_def checked_add_def stored_def)

lemma set_bt_insert_fresh:
  "k \<notin> fst ` set m \<Longrightarrow> set (bt_insert k v m) = insert (k, v) (set m)"
  by (induction m) (auto simp: image_iff)

lemma distinct_bt_insert_fresh:
  "k \<notin> fst ` set m \<Longrightarrow> v \<notin> snd ` set m \<Longrightarrow> distinct (map snd m) \<Longrightarrow>
   distinct (map snd (bt_insert k v m))"
proof (induction m)
  case (Cons e m)
  then have "snd ` set (bt_insert k v m) = insert v (snd ` set m)" by (simp add: set_bt_insert_fresh)
  with Cons show ?case by auto
qed simp

text \<open>An artifact that fits: its key is free, and its target is its resident baseline.\<close>

definition fits :: "compiled_artifact \<Rightarrow> nat option \<Rightarrow> code_cache \<Rightarrow> bool" where
  "fits artifact target d \<longleftrightarrow>
     map_of (cc_artifacts d) (art_key artifact) = None \<and>
     (case ak_tier (art_key artifact) of
        TierBaseline \<Rightarrow> target = None
      | TierOptimizing \<Rightarrow> target \<noteq> None \<and>
          map_of (cc_artifacts d) (with_tier (art_key artifact) TierBaseline) = target)"

lemma stored_cell:
  "cell (stored artifact target new d) a =
     (if a = cc_fresh d
      then Some (new_cached artifact (cc_clock d) target (bt_bytes new) (bt_code new) (bt_metadata new))
      else cell d a)"
  by (simp add: stored_def update_conv')

lemma fresh_unused:
  assumes "shape_ok d"
  shows "cell d (cc_fresh d) = None" "targets_of d (cc_fresh d) = {}"
proof -
  have f: "\<forall>a \<in> dom (cell d). a < cc_fresh d" using assms unfolding shape_ok_def by blast
  then show "cell d (cc_fresh d) = None" by fastforce
  show "targets_of d (cc_fresh d) = {}"
  proof (rule ccontr)
    assume "targets_of d (cc_fresh d) \<noteq> {}"
    then obtain b x where x: "cell d b = Some x" "ca_deopt_target x = Some (cc_fresh d)"
      by (auto simp: targets_of_def)
    obtain y where "cell d (cc_fresh d) = Some y"
      by (rule shape_resident [OF assms target_other_key(1) [OF assms x]])
    then show False using f by fastforce
  qed
qed

lemma stored_shape_ok:
  assumes ok: "shape_ok d" and f: "fits artifact target d"
  shows "shape_ok (stored artifact target new d)"
proof -
  let ?d = "stored artifact target new d" and ?k = "art_key artifact"
  have sorted: "strict_sorted_keys (cc_artifacts d)" and dist: "distinct (map snd (cc_artifacts d))"
    and dom: "dom (cell d) = snd ` set (cc_artifacts d)" and fresh: "\<forall>a \<in> dom (cell d). a < cc_fresh d"
    and lb: "\<forall>a. cc_last_benefit_target d = Some a \<longrightarrow> a \<in> dom (cell d)"
    using ok unfolding shape_ok_def by blast+
  have k: "map_of (cc_artifacts d) ?k = None" using f by (simp add: fits_def)
  then have nk: "?k \<notin> fst ` set (cc_artifacts d)" by (simp add: map_of_eq_None_iff)
  have nv: "cc_fresh d \<notin> snd ` set (cc_artifacts d)" using fresh dom by blast
  have arts: "cc_artifacts ?d = bt_insert ?k (cc_fresh d) (cc_artifacts d)" "cc_fresh ?d = cc_fresh d + 1"
    "cc_last_benefit_target ?d = cc_last_benefit_target d"
    by (simp_all add: stored_def)
  have m: "map_of (cc_artifacts ?d) = (map_of (cc_artifacts d))(?k \<mapsto> cc_fresh d)"
    using sorted by (simp add: arts)
  have domd: "dom (cell ?d) = insert (cc_fresh d) (dom (cell d))" by (auto simp: stored_cell split: if_splits)
  have tk: "target_ok ?d x" if "target_ok d x" for x
    using that k by (cases "ak_tier (cell_key x)") (auto simp: target_ok_def m)
  have new: "target_ok ?d (new_cached artifact (cc_clock d) target (bt_bytes new) (bt_code new) (bt_metadata new))"
  proof (cases "ak_tier ?k")
    case TierOptimizing
    then have "with_tier ?k TierBaseline \<noteq> ?k" by (cases ?k) auto
    then show ?thesis using f TierOptimizing by (simp add: fits_def target_ok_def new_cached_def m)
  qed (use f in \<open>simp add: fits_def target_ok_def new_cached_def\<close>)
  have cells: "\<exists>x. cell ?d a = Some x \<and> cell_key x = k \<and> target_ok ?d x"
    if ka: "(k, a) \<in> set (cc_artifacts ?d)" for k a
  proof (cases "k = ?k \<and> a = cc_fresh d")
    case True
    then show ?thesis using new by (simp add: stored_cell) (simp add: new_cached_def)
  next
    case False
    then have old: "(k, a) \<in> set (cc_artifacts d)" using ka by (auto simp: arts set_bt_insert_fresh [OF nk])
    then have "map_of (cc_artifacts d) k = Some a" using sorted by (simp add: map_of_strict_sorted_iff)
    then obtain x where "cell d a = Some x" "cell_key x = k" "target_ok d x" by (rule shape_resident [OF ok])
    moreover have "a \<noteq> cc_fresh d" using old nv by force
    ultimately show ?thesis using tk by (simp add: stored_cell)
  qed
  have "distinct (map snd (cc_artifacts ?d))"
    unfolding arts by (rule distinct_bt_insert_fresh [OF nk nv dist])
  moreover have "strict_sorted_keys (cc_artifacts ?d)" using sorted by (simp add: arts)
  moreover have "dom (cell ?d) = snd ` set (cc_artifacts ?d)"
    unfolding domd dom arts set_bt_insert_fresh [OF nk] by simp
  moreover have "\<forall>a \<in> dom (cell ?d). a < cc_fresh ?d"
    using fresh unfolding domd arts by (metis insertE less_Suc_eq Suc_eq_plus1)
  moreover have "\<forall>a. cc_last_benefit_target ?d = Some a \<longrightarrow> a \<in> dom (cell ?d)" using lb unfolding domd arts by auto
  ultimately show ?thesis using cells unfolding shape_ok_def by blast
qed

lemma stored_sum:
  assumes ok: "shape_ok d" and f: "fits artifact target d"
  shows "sum_resident g (stored artifact target new d) = sum_resident g d +
    g (new_cached artifact (cc_clock d) target (bt_bytes new) (bt_code new) (bt_metadata new))"
proof -
  let ?d = "stored artifact target new d"
  have n: "cc_fresh d \<notin> dom (cell d)" using fresh_unused(1) [OF ok] by blast
  have "dom (cell ?d) = insert (cc_fresh d) (dom (cell d))" by (auto simp: stored_cell split: if_splits)
  moreover have "(\<Sum>a \<in> dom (cell d). g (the (cell ?d a))) = (\<Sum>a \<in> dom (cell d). g (the (cell d a)))"
    using n by (intro sum.cong) (auto simp: stored_cell)
  ultimately show ?thesis
    using n by (simp add: sum_resident_cells [OF ok] sum_resident_cells [OF stored_shape_ok [OF ok f]]
        stored_cell add.commute)
qed

lemma stored_core:
  assumes core: "core_ok pins (case target of None \<Rightarrow> [] | Some t \<Rightarrow> [t]) d" and f: "fits artifact target d"
    and room: "cc_charged_bytes d + bt_bytes new \<le> cc_max_bytes d"
      "cc_separate_limits d \<Longrightarrow> cc_charged_code_bytes d + bt_code new \<le> cc_max_code_bytes d"
      "cc_separate_limits d \<Longrightarrow> cc_charged_metadata_bytes d + bt_metadata new \<le> cc_max_metadata_bytes d"
  shows "core_ok pins [] (stored artifact target new d)"
proof -
  let ?d = "stored artifact target new d" and ?x = "case target of None \<Rightarrow> [] | Some t \<Rightarrow> [t]"
  have ok: "shape_ok d" and ch: "charges_ok d" and ct: "counts_ok pins ?x d"
    using core by (simp_all add: core_ok_def)
  note fr = fresh_unused [OF ok]
  have "charges_ok ?d"
    using ch by (simp add: charges_ok_def stored_sum [OF ok f]) (simp add: stored_def new_cached_def)
  moreover have "limits_ok ?d" using room by (simp add: limits_ok_def stored_def)
  moreover have "counts_ok pins [] ?d"
  proof -
    have t: "targets_of ?d a = (if target = Some a then insert (cc_fresh d) (targets_of d a) else targets_of d a)" for a
      using fr(1) by (auto simp: targets_of_def stored_cell new_cached_def split: if_splits)
    have nt: "cc_fresh d \<notin> targets_of d a" for a using fr(1) by (simp add: targets_of_def)
    have dp: "set pins \<subseteq> dom (cell d)" and dx: "set ?x \<subseteq> dom (cell d)" using ct by (simp_all add: counts_ok_def)
    have np: "cc_fresh d \<notin> set pins" "target \<noteq> Some (cc_fresh d)" using dp dx fr(1) by (auto split: option.splits)
    have "ca_execution_pins x = count_list pins a \<and> ca_deopt_references x = card (targets_of ?d a)"
      if x: "cell ?d a = Some x" for a x
    proof (cases "a = cc_fresh d")
      case True
      then show ?thesis using x np fr(2) by (auto simp: stored_cell new_cached_def t)
    next
      case False
      note ta = t [of a]
      from False have "cell d a = Some x" using x by (simp add: stored_cell)
      then have "ca_execution_pins x = count_list pins a \<and>
          ca_deopt_references x = card (targets_of d a) + count_list ?x a"
        using ct by (simp add: counts_ok_def)
      then show ?thesis unfolding ta using nt by (cases target) auto
    qed
    moreover have "set pins \<subseteq> dom (cell ?d)" using dp np by (auto simp: stored_cell domIff)
    ultimately show ?thesis by (simp add: counts_ok_def)
  qed
  ultimately show ?thesis using stored_shape_ok [OF ok f] by (simp add: core_ok_def)
qed

lemma stored_wake: "wake_ok d \<Longrightarrow> wake_ok (stored artifact target new d)"
  by (auto simp: wake_ok_def stored_cell new_cached_def split: if_splits) (auto simp: stored_def)


section \<open>Insertion\<close>

definition bytes_of_cell :: "cached_artifact option \<Rightarrow> byte_triple" where
  "bytes_of_cell r =
     (case r of None \<Rightarrow> \<lparr>bt_bytes = 0, bt_code = 0, bt_metadata = 0\<rparr>
      | Some x \<Rightarrow> \<lparr>bt_bytes = ca_charge_bytes x, bt_code = ca_code_bytes x, bt_metadata = ca_metadata_bytes x\<rparr>)"

lemma insert_plan_Inr:
  assumes "insert_plan c key new = Inr sel"
  obtains needed where "\<And>x. resident c key = Some x \<Longrightarrow> is_evictable x"
    "bytes_needed c (bytes_of_cell (resident c key)) new = Inr needed" "evict_plan c key needed = Inr sel"
proof (cases "bytes_needed c (bytes_of_cell (resident c key)) new")
  case (Inl e)
  then have False
    using assms by (cases "resident c key") (simp_all add: insert_plan_def bytes_of_cell_def split: if_splits)
  then show ?thesis ..
next
  case (Inr needed)
  then show ?thesis
    using assms that by (cases "resident c key")
      (auto simp: insert_plan_def bytes_of_cell_def split: if_splits)
qed

lemma bytes_needed_Inr:
  assumes "bytes_needed c ex new = Inr needed"
  shows "bt_bytes ex \<le> cc_charged_bytes c"
    "cc_charged_bytes c - bt_bytes ex + bt_bytes new \<le> usize_max"
    "cc_charged_code_bytes c - bt_code ex + bt_code new \<le> usize_max"
    "cc_charged_metadata_bytes c - bt_metadata ex + bt_metadata new \<le> usize_max"
    "bt_bytes needed = cc_charged_bytes c - bt_bytes ex + bt_bytes new - cc_max_bytes c"
    "cc_separate_limits c \<Longrightarrow>
      bt_code needed = cc_charged_code_bytes c - bt_code ex + bt_code new - cc_max_code_bytes c"
    "cc_separate_limits c \<Longrightarrow>
      bt_metadata needed = cc_charged_metadata_bytes c - bt_metadata ex + bt_metadata new - cc_max_metadata_bytes c"
  using assms
  by (auto simp: bytes_needed_def checked_add_def checked_sub_def sat_sub_def split: if_splits)

lemma replaced_bytes:
  assumes core: "core_ok pins extra c" and x: "\<And>x. resident c key = Some x \<Longrightarrow> is_evictable x"
  defines "d \<equiv> if contains c key then cache_remove key c else c"
  shows "cc_charged_bytes d = cc_charged_bytes c - bt_bytes (bytes_of_cell (resident c key))"
    "cc_charged_code_bytes d = cc_charged_code_bytes c - bt_code (bytes_of_cell (resident c key))"
    "cc_charged_metadata_bytes d = cc_charged_metadata_bytes c - bt_metadata (bytes_of_cell (resident c key))"
proof -
  have ok: "shape_ok c" by (rule core_shape [OF core])
  show "cc_charged_bytes d = cc_charged_bytes c - bt_bytes (bytes_of_cell (resident c key))"
    "cc_charged_code_bytes d = cc_charged_code_bytes c - bt_code (bytes_of_cell (resident c key))"
    "cc_charged_metadata_bytes d = cc_charged_metadata_bytes c - bt_metadata (bytes_of_cell (resident c key))"
  proof (atomize (full), cases "map_of (cc_artifacts c) key")
    case None
    then show "cc_charged_bytes d = cc_charged_bytes c - bt_bytes (bytes_of_cell (resident c key)) \<and>
      cc_charged_code_bytes d = cc_charged_code_bytes c - bt_code (bytes_of_cell (resident c key)) \<and>
      cc_charged_metadata_bytes d = cc_charged_metadata_bytes c - bt_metadata (bytes_of_cell (resident c key))"
      by (simp add: d_def contains_def resident_def bytes_of_cell_def)
  next
    case (Some a)
    obtain y where y: "cell c a = Some y" by (rule shape_resident [OF ok Some])
    then have r: "resident c key = Some y" by (simp add: resident_def Some)
    note s = simulates_remove(2-4) [OF simulates_start [OF core] ok r x [OF r]]
    show "cc_charged_bytes d = cc_charged_bytes c - bt_bytes (bytes_of_cell (resident c key)) \<and>
      cc_charged_code_bytes d = cc_charged_code_bytes c - bt_code (bytes_of_cell (resident c key)) \<and>
      cc_charged_metadata_bytes d = cc_charged_metadata_bytes c - bt_metadata (bytes_of_cell (resident c key))"
      using s r by (auto simp: d_def contains_def Some bytes_of_cell_def)
  qed
qed

text \<open>After the plan there is room for the new artifact.\<close>

lemma make_room_ok:
  assumes core: "core_ok pins extra c" and p: "insert_plan c key new = Inr sel"
  defines "d \<equiv> make_room key sel c"
  shows "\<exists>refs. simulates pins extra c (insert key (set sel)) refs d"
    "cc_charged_bytes d + bt_bytes new \<le> min usize_max (cc_max_bytes c)"
    "cc_charged_code_bytes d + bt_code new \<le> usize_max"
    "cc_charged_metadata_bytes d + bt_metadata new \<le> usize_max"
    "cc_separate_limits c \<Longrightarrow> cc_charged_code_bytes d + bt_code new \<le> cc_max_code_bytes c"
    "cc_separate_limits c \<Longrightarrow> cc_charged_metadata_bytes d + bt_metadata new \<le> cc_max_metadata_bytes c"
proof -
  obtain needed where ev: "\<And>x. resident c key = Some x \<Longrightarrow> is_evictable x"
    and b: "bytes_needed c (bytes_of_cell (resident c key)) new = Inr needed"
    and e: "evict_plan c key needed = Inr sel"
    by (rule insert_plan_Inr [OF p]) blast
  obtain refs freed where s: "simulates pins extra c (insert key (set sel)) refs d"
    and cf: "charged_and_freed d freed =
      charged_and_freed (if contains c key then cache_remove key c else c)
        \<lparr>bt_bytes = 0, bt_code = 0, bt_metadata = 0\<rparr>"
    and en: "enough freed needed"
    using evict_plan_simulates [OF core ev e] unfolding d_def by blast
  show "\<exists>refs. simulates pins extra c (insert key (set sel)) refs d" using s by blast
  note r = replaced_bytes [OF core ev] and n = bytes_needed_Inr [OF b]
  have f: "cc_charged_bytes d + bt_bytes freed = cc_charged_bytes c - bt_bytes (bytes_of_cell (resident c key))"
    "cc_charged_code_bytes d + bt_code freed = cc_charged_code_bytes c - bt_code (bytes_of_cell (resident c key))"
    "cc_charged_metadata_bytes d + bt_metadata freed =
      cc_charged_metadata_bytes c - bt_metadata (bytes_of_cell (resident c key))"
    using cf by (simp_all add: charged_and_freed_def r)
  have g: "bt_bytes needed \<le> bt_bytes freed" "bt_code needed \<le> bt_code freed"
    "bt_metadata needed \<le> bt_metadata freed"
    using en by (simp_all add: enough_def)
  show "cc_charged_bytes d + bt_bytes new \<le> min usize_max (cc_max_bytes c)"
    using f(1) g(1) n(2,5) by simp
  show "cc_charged_code_bytes d + bt_code new \<le> usize_max" using f(2) n(3) by linarith
  show "cc_charged_metadata_bytes d + bt_metadata new \<le> usize_max" using f(3) n(4) by linarith
  show "cc_charged_code_bytes d + bt_code new \<le> cc_max_code_bytes c" if "cc_separate_limits c"
    using f(2) g(2) n(6) [OF that] by linarith
  show "cc_charged_metadata_bytes d + bt_metadata new \<le> cc_max_metadata_bytes c" if "cc_separate_limits c"
    using f(3) g(3) n(7) [OF that] by linarith
qed

lemma make_room_fits:
  assumes s: "simulates pins (case target of None \<Rightarrow> [] | Some t \<Rightarrow> [t]) c (insert (art_key artifact) (set sel)) refs d"
    and ok: "shape_ok c"
    and t: "case ak_tier (art_key artifact) of TierBaseline \<Rightarrow> target = None
      | TierOptimizing \<Rightarrow> target \<noteq> None \<and>
          map_of (cc_artifacts c) (with_tier (art_key artifact) TierBaseline) = target"
  shows "fits artifact target d"
proof (cases "ak_tier (art_key artifact)")
  case TierBaseline
  then show ?thesis using s t by (simp add: fits_def simulates_def)
next
  case TierOptimizing
  then obtain a where a: "target = Some a"
    "map_of (cc_artifacts c) (with_tier (art_key artifact) TierBaseline) = Some a" using t by auto
  have core: "core_ok pins [a] d" using simulates_core [OF s] a(1) by simp
  then obtain y where y: "cell d a = Some y" by (auto simp: core_ok_def counts_ok_def)
  then obtain x where x: "cell c a = Some x" "y = x\<lparr>ca_deopt_references := ca_deopt_references y\<rparr>"
    using simulates_cell [OF s y] by blast
  have "cell_key y = cell_key x" by (subst x(2)) simp
  also have "\<dots> = with_tier (art_key artifact) TierBaseline"
    using shape_cell(1) [OF ok x(1)] shape_addr_inj [OF ok _ a(2)] by blast
  finally have "map_of (cc_artifacts d) (with_tier (art_key artifact) TierBaseline) = Some a"
    using shape_cell(1) [OF core_shape [OF core] y] by simp
  then show ?thesis using s a(1) TierOptimizing by (simp add: fits_def simulates_def)
qed

lemma insert_pinned_Inl:
  assumes core: "core_ok pins extra c" and r: "insert_pinned artifact target new c = (Inl e, d)"
  shows "d = c"
proof (cases "insert_plan c (art_key artifact) new")
  case (Inr sel)
  note m = make_room_ok [OF core Inr]
  have "insert_stored artifact target new sel (next_tick (make_room (art_key artifact) sel c)) =
      (Inr sel, stored artifact target new (next_tick (make_room (art_key artifact) sel c)))"
    by (rule insert_stored_eq) (use m(2-4) in \<open>simp_all add: next_tick_def\<close>)
  then show ?thesis using r by (simp add: insert_pinned_def Inr make_room_def Let_def)
qed (use r in \<open>simp add: insert_pinned_def\<close>)

lemma insert_pinned_Inr:
  assumes core: "core_ok pins (case target of None \<Rightarrow> [] | Some t \<Rightarrow> [t]) c" and w: "wake_ok c"
    and t: "case ak_tier (art_key artifact) of TierBaseline \<Rightarrow> target = None
      | TierOptimizing \<Rightarrow> target \<noteq> None \<and>
          map_of (cc_artifacts c) (with_tier (art_key artifact) TierBaseline) = target"
    and r: "insert_pinned artifact target new c = (Inr sel, d)"
  shows "cache_ok pins [] d" "d = stored artifact target new (next_tick (make_room (art_key artifact) sel c))"
    "\<exists>refs. simulates pins (case target of None \<Rightarrow> [] | Some t \<Rightarrow> [t]) c
       (insert (art_key artifact) (set sel)) refs (make_room (art_key artifact) sel c)"
    "insert_plan c (art_key artifact) new = Inr sel"
proof -
  let ?m = "make_room (art_key artifact) sel c"
  obtain sel' where p: "insert_plan c (art_key artifact) new = Inr sel'"
    using r by (cases "insert_plan c (art_key artifact) new") (simp_all add: insert_pinned_def)
  note m' = make_room_ok [OF core p]
  have "insert_stored artifact target new sel' (next_tick (make_room (art_key artifact) sel' c)) =
      (Inr sel', stored artifact target new (next_tick (make_room (art_key artifact) sel' c)))"
    by (rule insert_stored_eq) (use m'(2-4) in \<open>simp_all add: next_tick_def\<close>)
  then have sel: "sel' = sel" and d: "d = stored artifact target new (next_tick ?m)"
    using r by (auto simp: insert_pinned_def p make_room_def Let_def)
  note m = m' [unfolded sel]
  from m(1) obtain refs where s: "simulates pins (case target of None \<Rightarrow> [] | Some t \<Rightarrow> [t]) c
       (insert (art_key artifact) (set sel)) refs ?m" by blast
  have lim: "cc_max_bytes ?m = cc_max_bytes c" "cc_max_code_bytes ?m = cc_max_code_bytes c"
    "cc_max_metadata_bytes ?m = cc_max_metadata_bytes c" "cc_separate_limits ?m = cc_separate_limits c"
    "wake_ok ?m"
    using s w by (simp_all add: simulates_def)
  have f: "fits artifact target (next_tick ?m)"
    using make_room_fits [OF s core_shape [OF core] t]
    by (simp add: fits_def next_tick_def cong: tier.case_cong)
  have "core_ok pins [] (stored artifact target new (next_tick ?m))"
    by (rule stored_core [OF _ f]) (use simulates_core [OF s] m(2,5,6) lim in \<open>simp_all add: core_tick, simp_all add: next_tick_def\<close>)
  moreover have "wake_ok (stored artifact target new (next_tick ?m))"
    by (rule stored_wake) (use lim(5) in \<open>simp add: wake_tick\<close>)
  ultimately show "cache_ok pins [] d" by (simp add: d cache_ok_def)
  show "d = stored artifact target new (next_tick ?m)" by (rule d)
  show "\<exists>refs. simulates pins (case target of None \<Rightarrow> [] | Some t \<Rightarrow> [t]) c
       (insert (art_key artifact) (set sel)) refs ?m" using s by blast
  show "insert_plan c (art_key artifact) new = Inr sel" using p sel by simp
qed


text \<open>A pin on the baseline taken and given back leaves every cell as it was.\<close>

lemma add_drop_deopt_pin:
  assumes ok: "cache_ok pins [] c" and a: "map_of (cc_artifacts c) k = Some a"
  defines "d \<equiv> drop_deopt_pin a (add_deopt_reference a c)"
  shows "cache_ok pins [] d" "same_shape c d" "cell d = cell c"
proof -
  obtain x where x: "cell c a = Some x"
    by (rule shape_resident [OF core_shape [OF cache_core [OF ok]] a])
  have pinned: "cache_ok pins [a] (add_deopt_reference a c)"
    by (rule add_deopt_reference_ok [OF ok]) (use x in blast)
  have sh: "same_shape c (add_deopt_reference a c)"
    unfolding add_deopt_reference_def by (rule same_shape_map_cell) (simp add: static_eq_def)
  show "cache_ok pins [] d" using drop_deopt_pin_ok(1) [OF pinned, of a] by (simp add: d_def)
  show s: "same_shape c d"
    unfolding d_def by (rule same_shape_trans [OF sh drop_deopt_pin_ok(2) [OF pinned]]) simp
  have "\<not> unowned (sub_deopt_reference a (add_deopt_reference a c)) a"
    by (rule resident_owned [of _ k]) (simp add: sub_deopt_reference_def wake_eq add_deopt_reference_def a)
  then have "d = sub_deopt_reference a (add_deopt_reference a c)"
    by (simp add: d_def drop_deopt_pin_def release_owner_owned)
  then show "cell d = cell c"
    using x by (auto simp: fun_eq_iff sub_deopt_reference_def wake_eq add_deopt_reference_def)
qed

text \<open>What an insertion does, by its result.\<close>

lemma cache_insert_cases:
  fixes sz :: type_sizes and artifact :: compiled_artifact and c :: code_cache
  defines "key \<equiv> art_key artifact"
  obtains (refused) e where "cache_insert sz artifact c = (Inl e, c)"
  | (baseline) new where "ak_tier key = TierBaseline" "charge_bytes sz artifact = Some (bt_bytes new)"
      "cache_insert sz artifact c = insert_pinned artifact None new c"
  | (optimized) new b where "ak_tier key = TierOptimizing" "charge_bytes sz artifact = Some (bt_bytes new)"
      "map_of (cc_artifacts c) (with_tier key TierBaseline) = Some b"
      "cache_insert sz artifact c =
        (case insert_pinned artifact (Some b) new (add_deopt_reference b c) of
           (Inl e, c) \<Rightarrow> (Inl e, drop_deopt_pin b c)
         | (Inr evicted, c) \<Rightarrow> (Inr evicted, c))"
proof -
  note def = cache_insert_def [of sz artifact c]
  consider e where "cache_insert sz artifact c = (Inl e, c)"
    | charge metadata where "cc_max_bytes c \<noteq> 0" "charge_bytes sz artifact = Some charge"
        "artifact_metadata_bytes sz artifact = Some metadata"
        "\<not> (cc_separate_limits c \<and> (cc_max_code_bytes c < code_bytes_of artifact \<or> cc_max_metadata_bytes c < metadata))"
        "\<not> cc_max_bytes c < charge"
    by (cases "cc_max_bytes c = 0"; cases "charge_bytes sz artifact";
        cases "artifact_metadata_bytes sz artifact") (force simp: def Let_def)+
  then show ?thesis
  proof cases
    case (2 charge metadata)
    define new where "new = \<lparr>bt_bytes = charge, bt_code = code_bytes_of artifact, bt_metadata = metadata\<rparr>"
    have new: "charge_bytes sz artifact = Some (bt_bytes new)" using 2 by (simp add: new_def)
    show ?thesis
    proof (cases "ak_tier key")
      case TierBaseline
      then have "cache_insert sz artifact c = insert_pinned artifact None new c"
        using 2 by (auto simp: def Let_def new_def key_def)
      then show ?thesis using baseline TierBaseline new by blast
    next
      case TierOptimizing
      show ?thesis
      proof (cases "map_of (cc_artifacts c) (with_tier key TierBaseline)")
        case None
        then have "cache_insert sz artifact c = (Inl MissingDeoptTarget, c)"
          using 2 TierOptimizing by (auto simp: def Let_def key_def)
        then show ?thesis by (rule refused)
      next
        case (Some b)
        then have "cache_insert sz artifact c =
            (case insert_pinned artifact (Some b) new (add_deopt_reference b c) of
               (Inl e, c) \<Rightarrow> (Inl e, drop_deopt_pin b c)
             | (Inr evicted, c) \<Rightarrow> (Inr evicted, c))"
          using 2 TierOptimizing by (auto simp: def Let_def key_def new_def)
        then show ?thesis using optimized TierOptimizing new Some by blast
      qed
    qed
  qed (rule refused)
qed

lemma baseline_pinned:
  assumes ok: "cache_ok pins [] c" and b: "map_of (cc_artifacts c) k = Some b"
  shows "cache_ok pins [b] (add_deopt_reference b c)" "same_shape c (add_deopt_reference b c)"
proof -
  obtain x where "cell c b = Some x" by (rule shape_resident [OF core_shape [OF cache_core [OF ok]] b])
  then show "cache_ok pins [b] (add_deopt_reference b c)" by (intro add_deopt_reference_ok [OF ok]) blast
  show "same_shape c (add_deopt_reference b c)"
    unfolding add_deopt_reference_def by (rule same_shape_map_cell) (simp add: static_eq_def)
qed

lemma cache_insert_Inl:
  assumes ok: "cache_ok pins [] c" and r: "cache_insert sz artifact c = (Inl e, d)"
  shows "cache_ok pins [] d \<and> same_shape c d \<and> cell d = cell c"
proof -
  have refl: "same_shape c c" by (simp add: same_shape_def)
  show ?thesis
  proof (cases rule: cache_insert_cases [of sz artifact c])
    case (refused e')
    then show ?thesis using r ok refl by simp
  next
    case (baseline new)
    then have "insert_pinned artifact None new c = (Inl e, d)" using r by simp
    then have "d = c" by (rule insert_pinned_Inl [OF cache_core [OF ok]])
    then show ?thesis using ok refl by simp
  next
    case (optimized new b)
    obtain r' d' where i: "insert_pinned artifact (Some b) new (add_deopt_reference b c) = (r', d')"
      by (cases "insert_pinned artifact (Some b) new (add_deopt_reference b c)")
    with optimized(4) r have "r' = Inl e" and d: "d = drop_deopt_pin b d'" by (cases r'; simp)+
    then have "d' = add_deopt_reference b c"
      using insert_pinned_Inl [OF cache_core [OF baseline_pinned(1) [OF ok optimized(3)]]] i by simp
    then show ?thesis using add_drop_deopt_pin [OF ok optimized(3)] d by simp
  qed
qed

text \<open>What an insertion keeps of a resident artifact it does not evict.\<close>

definition kept :: "cached_artifact \<Rightarrow> cached_artifact \<Rightarrow> bool" where
  "kept x y \<longleftrightarrow> ca_artifact y = ca_artifact x \<and> ca_execution_pins y = ca_execution_pins x \<and>
     ca_invalidated y = ca_invalidated x \<and> ca_last_used y = ca_last_used x"

lemma cache_insert_Inr:
  assumes ok: "cache_ok pins [] c" and r: "cache_insert sz artifact c = (Inr evicted, d)"
  obtains target new c' where "cache_ok pins (case target of None \<Rightarrow> [] | Some t \<Rightarrow> [t]) c'"
    "same_shape c c'"
    "\<And>a x. cell c' a = Some x \<Longrightarrow> \<exists>z. cell c a = Some z \<and> kept z x"
    "case ak_tier (art_key artifact) of TierBaseline \<Rightarrow> target = None
      | TierOptimizing \<Rightarrow> target \<noteq> None \<and>
          map_of (cc_artifacts c') (with_tier (art_key artifact) TierBaseline) = target"
    "insert_pinned artifact target new c' = (Inr evicted, d)"
    "charge_bytes sz artifact = Some (bt_bytes new)"
proof (cases rule: cache_insert_cases [of sz artifact c])
  case (baseline new)
  moreover have "same_shape c c" by (simp add: same_shape_def)
  ultimately show ?thesis using that [of None c new] ok r by (simp add: kept_def)
next
  case (optimized new b)
  note k = baseline_pinned [OF ok optimized(3)]
  have "insert_pinned artifact (Some b) new (add_deopt_reference b c) = (Inr evicted, d)"
    using optimized(4) r by (simp split: prod.splits sum.splits)
  moreover have "\<exists>z. cell c a = Some z \<and> kept z x" if "cell (add_deopt_reference b c) a = Some x" for a x
    using that by (auto simp: add_deopt_reference_def kept_def split: if_splits)
  moreover have "cc_artifacts (add_deopt_reference b c) = cc_artifacts c" by (simp add: add_deopt_reference_def)
  ultimately show ?thesis using that [of "Some b" "add_deopt_reference b c" new] k optimized(1-3) by simp
qed (use r in simp)

lemma cache_insert_ok:
  assumes ok: "cache_ok pins [] c"
  shows "cache_ok pins [] (snd (cache_insert sz artifact c))"
proof (cases "cache_insert sz artifact c")
  case (Pair r d)
  show ?thesis
  proof (cases r)
    case (Inl e)
    then show ?thesis using cache_insert_Inl [OF ok] Pair by simp
  next
    case (Inr evicted)
    have r: "cache_insert sz artifact c = (Inr evicted, d)" using Pair Inr by simp
    obtain target new c' where c': "cache_ok pins (case target of None \<Rightarrow> [] | Some t \<Rightarrow> [t]) c'"
      and t: "case ak_tier (art_key artifact) of TierBaseline \<Rightarrow> target = None
        | TierOptimizing \<Rightarrow> target \<noteq> None \<and>
            map_of (cc_artifacts c') (with_tier (art_key artifact) TierBaseline) = target"
      and i: "insert_pinned artifact target new c' = (Inr evicted, d)"
      by (rule cache_insert_Inr [OF ok r])
    have "wake_ok c'" using c' by (simp add: cache_ok_def)
    then show ?thesis using insert_pinned_Inr(1) [OF cache_core [OF c'] _ t i] Pair by simp
  qed
qed

end
