(* ===== verification/Cache_System.thy ===== *)
theory Cache_System
  imports Cache_Insert
begin

text \<open>
  The code cache in use: every sequence of its operations and of pins taken and dropped, from an
  empty cache. The invariant of \<open>Cache_Safety\<close> holds throughout, and gives the promises the cache
  makes: exact accounting within the limits, pinned code that stays, a resident baseline for every
  optimised artifact, insertions that either happen as planned or change nothing, and invalidated
  artifacts that never run again and are reclaimed as soon as nothing uses them.
\<close>

section \<open>Sequences of operations\<close>

text \<open>A cache and the cells its live execution pins refer to.\<close>

type_synonym cache_state = "code_cache \<times> nat list"

inductive cache_step :: "type_sizes \<Rightarrow> cache_state \<Rightarrow> cache_state \<Rightarrow> bool" for sz where
  step_insert: "cache_step sz (c, pins) (snd (cache_insert sz artifact c), pins)"
| step_touch: "cache_step sz (c, pins) (snd (touch key c), pins)"
| step_record_benefit: "cache_step sz (c, pins) (snd (record_benefit key benefit c), pins)"
| step_pin: "pin key c = (Some a, d) \<Longrightarrow> cache_step sz (c, pins) (d, a # pins)"
| step_pin_refused: "pin key c = (None, d) \<Longrightarrow> cache_step sz (c, pins) (d, pins)"
| step_unpin: "a \<in> set pins \<Longrightarrow> cache_step sz (c, pins) (drop_execution_pin a c, remove1 a pins)"
| step_invalidate_deferred: "cache_step sz (c, pins) (invalidate_deferred f c, pins)"
| step_invalidate: "cache_step sz (c, pins) (snd (cache_invalidate f c), pins)"
| step_collect: "cache_step sz (c, pins) (snd (collect_invalidated c), pins)"
| step_collect_budget: "cache_step sz (c, pins) (snd (collect_invalidated_with_budget budget c), pins)"
| step_poll: "cache_step sz (c, pins) (snd (poll_reclamation_with_budget budget c), pins)"

inductive cache_reach :: "type_sizes \<Rightarrow> cache_state \<Rightarrow> bool" for sz where
  reach_new: "cache_reach sz (new_cache max_bytes, [])"
| reach_new_separate: "cache_reach sz (new_with_separate_limits max_code max_metadata, [])"
| reach_step: "cache_reach sz s \<Longrightarrow> cache_step sz s t \<Longrightarrow> cache_reach sz t"

lemma new_cache_ok: "cache_ok [] [] (new_cache m)" "cache_ok [] [] (new_with_separate_limits a b)"
  by (simp_all add: cache_ok_def core_ok_def shape_ok_def charges_ok_def limits_ok_def counts_ok_def
      wake_ok_def sum_resident_def residents_def new_cache_def new_with_separate_limits_def map_filter_simps)

lemma cache_step_ok:
  assumes "cache_step sz s t" "cache_ok (snd s) [] (fst s)"
  shows "cache_ok (snd t) [] (fst t)"
  using assms
proof cases
  case (step_pin key c a d pins)
  then show ?thesis using assms(2) pin_ok [of pins "[]" c key] by simp
next
  case (step_pin_refused key c d pins)
  then show ?thesis using assms(2) pin_ok [of pins "[]" c key] by simp
next
  case (step_collect_budget c pins budget)
  then show ?thesis using assms(2) collect_ok(1,2) [of pins "[]" c budget] by (simp add: cache_ok_def)
qed (simp_all add: cache_insert_ok touch_ok record_benefit_ok drop_execution_pin_ok
    invalidate_deferred_ok collect_invalidated_ok cache_invalidate_def cache_core poll_ok)

lemma cache_reach_ok: "cache_reach sz s \<Longrightarrow> cache_ok (snd s) [] (fst s)"
  by (induction rule: cache_reach.induct) (simp_all add: new_cache_ok cache_step_ok)

lemma reach_cache_ok: "cache_reach sz (c, pins) \<Longrightarrow> cache_ok pins [] c"
  using cache_reach_ok by fastforce

section \<open>What reclamation leaves\<close>

lemma remove_candidate_removed:
  assumes core: "core_ok pins extra c" and n: "next_invalidated_candidate c = Some k"
  obtains a x where "map_of (cc_artifacts c) k = Some a" "cell c a = Some x" "ca_invalidated x"
    "is_evictable x" "removed k a x c (cache_remove k c)"
proof -
  obtain x where x: "resident c k = Some x" "ca_invalidated x" "is_evictable x"
    using candidate_Some [OF core_shape [OF core] n] by blast
  obtain a where "map_of (cc_artifacts c) k = Some a" "cell c a = Some x" "removed k a x c (cache_remove k c)"
    by (rule cache_remove_evictable [OF core x(1,3)]) blast
  then show ?thesis using that x by blast
qed

lemma collect_loop_done:
  assumes "core_ok pins extra c" "length (cc_artifacts c) \<le> budget"
  shows "next_invalidated_candidate (snd (collect_loop budget c)) = None"
  using assms
proof (induction budget arbitrary: c)
  case 0
  then show ?case by (simp add: next_invalidated_candidate_def residents_def map_filter_simps)
next
  case (Suc budget)
  show ?case
  proof (cases "next_invalidated_candidate c")
    case (Some k)
    obtain a x where a: "map_of (cc_artifacts c) k = Some a" and r: "removed k a x c (cache_remove k c)"
      by (rule remove_candidate_removed [OF Suc.prems(1) Some])
    have "(k, a) \<in> set (cc_artifacts c)" using a by (rule map_of_SomeD)
    then have "length (bt_remove k (cc_artifacts c)) < length (cc_artifacts c)"
      unfolding bt_remove_def by (intro length_filter_less) auto
    then have "length (cc_artifacts (cache_remove k c)) \<le> budget"
      using Suc.prems(2) r by (simp add: removed_def)
    then show ?thesis using Suc.IH [OF remove_candidate_ok(1) [OF Suc.prems(1) Some]]
      by (simp add: Some case_prod_unfold)
  qed simp
qed

text \<open>Reclamation takes invalidated artifacts only, and leaves the marks and keys of the others.\<close>

lemma collect_loop_keeps:
  assumes "core_ok pins extra c"
  shows "(\<forall>a y. cell (snd (collect_loop budget c)) a = Some y \<longrightarrow>
      (\<exists>x. cell c a = Some x \<and> ca_invalidated y = ca_invalidated x \<and> ca_artifact y = ca_artifact x)) \<and>
    (\<forall>a x. cell c a = Some x \<longrightarrow> \<not> ca_invalidated x \<longrightarrow> a \<in> dom (cell (snd (collect_loop budget c))))"
  using assms
proof (induction budget arbitrary: c)
  case (Suc budget)
  show ?case
  proof (cases "next_invalidated_candidate c")
    case (Some k)
    obtain a x where x: "cell c a = Some x" "ca_invalidated x" and r: "removed k a x c (cache_remove k c)"
      by (rule remove_candidate_removed [OF Suc.prems Some])
    note IH = Suc.IH [OF remove_candidate_ok(1) [OF Suc.prems Some]]
    have bwd: "\<exists>z. cell c b = Some z \<and> ca_invalidated y = ca_invalidated z \<and> ca_artifact y = ca_artifact z"
      if y: "cell (cache_remove k c) b = Some y" for b y
      by (rule removed_cell [OF r y]) (auto simp: drop_reference_def)
    have fwd: "\<exists>y. cell (cache_remove k c) b = Some y \<and> \<not> ca_invalidated y"
      if z: "cell c b = Some z" "\<not> ca_invalidated z" for b z
    proof -
      have "b \<in> dom (cell (cache_remove k c))" using z x unfolding removed_dom [OF r] by auto
      then obtain y where y: "cell (cache_remove k c) b = Some y" by blast
      then show ?thesis using bwd [OF y] z by auto
    qed
    show ?thesis unfolding collect_loop.simps Some option.case case_prod_unfold snd_conv
    proof (intro conjI allI impI)
      fix b y assume "cell (snd (collect_loop budget (cache_remove k c))) b = Some y"
      then show "\<exists>x. cell c b = Some x \<and> ca_invalidated y = ca_invalidated x \<and> ca_artifact y = ca_artifact x"
        using IH bwd by metis
    next
      fix b z assume "cell c b = Some z" "\<not> ca_invalidated z"
      then show "b \<in> dom (cell (snd (collect_loop budget (cache_remove k c))))" using IH fwd by metis
    qed
  qed auto
qed auto

text \<open>An invalidated artifact that is left after reclamation is still used.\<close>

lemma left_is_used:
  assumes ok: "core_ok pins [] d" and n: "next_invalidated_candidate d = None"
    and x: "cell d a = Some x" "ca_invalidated x"
  shows "a \<in> set pins \<or>
    (\<exists>b y. cell d b = Some y \<and> ca_deopt_target y = Some a \<and> (\<not> ca_invalidated y \<or> b \<in> set pins))"
proof (cases "a \<in> set pins")
  case False
  have sh: "shape_ok d" and ct: "counts_ok pins [] d" using ok by (simp_all add: core_ok_def)
  have used: "b \<in> set pins \<or> targets_of d b \<noteq> {}" if y: "cell d b = Some y" "ca_invalidated y" for b y
  proof -
    have "\<not> is_evictable y" using candidate_None [OF sh n y(1)] y(2) by blast
    moreover have "ca_execution_pins y = count_list pins b" "ca_deopt_references y = card (targets_of d b)"
      using ct y(1) by (simp_all add: counts_ok_def)
    ultimately show ?thesis by (auto simp: is_evictable_def count_list_0_iff)
  qed
  obtain b y where y: "cell d b = Some y" "ca_deopt_target y = Some a"
    using used [OF x] False by (auto simp: targets_of_def)
  have "targets_of d b = {}"
  proof (rule ccontr)
    assume "targets_of d b \<noteq> {}"
    then obtain e z where z: "cell d e = Some z" "ca_deopt_target z = Some b" by (auto simp: targets_of_def)
    have "cell_key y = with_tier (cell_key z) TierBaseline"
      using target_other_key(1) [OF sh z] shape_cell(1) [OF sh y(1)] shape_addr_inj [OF sh] by blast
    then show False using target_other_key(3) [OF sh y] by (cases "cell_key z") simp
  qed
  then show ?thesis using y used [OF y(1)] by blast
qed simp

lemma target_key:
  assumes ok: "shape_ok d" and y: "cell d b = Some y" "ca_deopt_target y = Some a" and x: "cell d a = Some x"
  shows "with_tier (cell_key y) TierBaseline = cell_key x"
  using target_other_key(1) [OF ok y] shape_cell(1) [OF ok x] shape_addr_inj [OF ok] by blast

definition mark_of :: "function_key \<Rightarrow> cached_artifact \<Rightarrow> cached_artifact" where
  "mark_of f x = (if ak_function_id (cell_key x) = fk_id f \<and> ak_generation (cell_key x) = fk_generation f
     then x\<lparr>ca_invalidated := True\<rparr> else x)"

lemma invalidate_deferred_cell:
  assumes ok: "shape_ok c"
  shows "cell (invalidate_deferred f c) a = map_option (mark_of f) (cell c a)"
    "cc_artifacts (invalidate_deferred f c) = cc_artifacts c"
proof -
  define hits where "hits = filter (\<lambda>e. ak_function_id (fst e) = fk_id f \<and>
    ak_generation (fst e) = fk_generation f) (cc_artifacts c)"
  have fold: "cell (fold (\<lambda>e. map_cell (snd e) (\<lambda>x. x\<lparr>ca_invalidated := True\<rparr>)) es c) a =
      map_option (\<lambda>x. if a \<in> snd ` set es then x\<lparr>ca_invalidated := True\<rparr> else x) (cell c a)"
    for es :: "(artifact_key \<times> nat) list" and c
    by (induction es arbitrary: c) (auto simp: option.map_comp comp_def option.map_ident intro!: option.map_cong0)
  have "cell (invalidate_deferred f c) a =
      map_option (\<lambda>x. if a \<in> snd ` set hits then x\<lparr>ca_invalidated := True\<rparr> else x) (cell c a)"
    using fold [of hits c] by (auto simp: invalidate_deferred_def Let_def option.map_ident simp flip: hits_def)
  moreover have "a \<in> snd ` set hits \<longleftrightarrow>
      ak_function_id (cell_key x) = fk_id f \<and> ak_generation (cell_key x) = fk_generation f"
    if x: "cell c a = Some x" for x
  proof -
    have m: "map_of (cc_artifacts c) (cell_key x) = Some a" by (rule shape_cell(1) [OF ok x])
    have "strict_sorted_keys (cc_artifacts c)" using ok by (simp add: shape_ok_def)
    then have "(k, a) \<in> set (cc_artifacts c) \<longleftrightarrow> k = cell_key x" for k
      using m shape_addr_inj [OF ok m] by (metis map_of_strict_sorted_iff)
    then show ?thesis by (force simp: hits_def)
  qed
  ultimately show "cell (invalidate_deferred f c) a = map_option (mark_of f) (cell c a)"
    by (cases "cell c a") (simp_all add: mark_of_def)
  have "cc_artifacts (fold (\<lambda>e. map_cell (snd e) (\<lambda>x. x\<lparr>ca_invalidated := True\<rparr>)) es c) = cc_artifacts c"
    for es :: "(artifact_key \<times> nat) list" and c by (induction es arbitrary: c) simp_all
  then show "cc_artifacts (invalidate_deferred f c) = cc_artifacts c"
    by (simp add: invalidate_deferred_def Let_def)
qed

section \<open>What the plan selects\<close>

lemma plan_loop_selects:
  assumes "plan_loop c excluded needed refs freed selected = Inr sel"
    and "distinct selected" "\<forall>k \<in> set selected. k \<noteq> excluded \<and>
      (\<exists>x. (k, x) \<in> set (residents c) \<and> ca_execution_pins x = 0)"
  shows "distinct sel \<and> (\<forall>k \<in> set sel. k \<noteq> excluded \<and>
    (\<exists>x. (k, x) \<in> set (residents c) \<and> ca_execution_pins x = 0))"
  using assms
proof (induction c excluded needed refs freed selected rule: plan_loop.induct)
  case (1 c excluded needed refs freed selected)
  from 1(2) show ?case
  proof (cases rule: plan_loop_Inr)
    case (more e f)
    note m = plan_candidate_mem [OF more(2)]
    have "(fst e, snd e) \<in> set (residents c)" using m by simp
    then have "\<exists>x. (fst e, x) \<in> set (residents c) \<and> ca_execution_pins x = 0" using m by blast
    then have "\<forall>k \<in> set (selected @ [fst e]). k \<noteq> excluded \<and>
        (\<exists>x. (k, x) \<in> set (residents c) \<and> ca_execution_pins x = 0)"
      using 1(4) m by auto
    moreover have "distinct (selected @ [fst e])" using 1(3) m by simp
    ultimately show ?thesis using 1(1) [OF more(1,2,3,4)] by blast
  qed (use 1(3,4) in blast)
qed

lemma insert_plan_selects:
  assumes ok: "shape_ok c" and p: "insert_plan c key new = Inr sel"
  shows "distinct sel" "k \<in> set sel \<Longrightarrow> k \<noteq> key \<and> (\<exists>x. resident c k = Some x \<and> ca_execution_pins x = 0)"
proof -
  obtain needed where "evict_plan c key needed = Inr sel" by (rule insert_plan_Inr [OF p])
  then have "distinct sel \<and> (\<forall>k \<in> set sel. k \<noteq> key \<and>
      (\<exists>x. (k, x) \<in> set (residents c) \<and> ca_execution_pins x = 0))"
    unfolding evict_plan_def Let_def by (rule plan_loop_selects) simp_all
  then show "distinct sel" "k \<in> set sel \<Longrightarrow> k \<noteq> key \<and> (\<exists>x. resident c k = Some x \<and> ca_execution_pins x = 0)"
    by (simp_all add: resident_mem [OF ok])
qed

lemma insert_plan_fits:
  assumes p: "insert_plan c key new = Inr sel" and l: "\<not> cc_separate_limits c"
    and b: "cc_charged_bytes c + bt_bytes new \<le> cc_max_bytes c"
  shows "sel = []"
proof -
  obtain needed where n: "bytes_needed c (bytes_of_cell (resident c key)) new = Inr needed"
    and e: "evict_plan c key needed = Inr sel" by (rule insert_plan_Inr [OF p])
  have "bt_bytes needed = 0" using bytes_needed_Inr(5) [OF n] b by simp
  moreover have "bt_code needed = 0 \<and> bt_metadata needed = 0"
    using n l by (auto simp: bytes_needed_def checked_add_def checked_sub_def split: if_splits)
  ultimately have "enough \<lparr>bt_bytes = 0, bt_code = 0, bt_metadata = 0\<rparr> needed" by (simp add: enough_def)
  then show ?thesis using e unfolding evict_plan_def Let_def
    by (auto elim: plan_loop_Inr)
qed

section \<open>What an insertion leaves\<close>

lemma stored_resident:
  assumes ok: "shape_ok m" and k: "map_of (cc_artifacts m) (art_key artifact) = None"
  shows "resident (stored artifact target new (next_tick m)) (art_key artifact) =
      Some (new_cached artifact (cc_clock (next_tick m)) target (bt_bytes new) (bt_code new) (bt_metadata new))"
    "k \<noteq> art_key artifact \<Longrightarrow> resident (stored artifact target new (next_tick m)) k = resident m k"
    "contains (stored artifact target new (next_tick m)) k \<longleftrightarrow> k = art_key artifact \<or> contains m k"
proof -
  have s: "strict_sorted_keys (cc_artifacts m)" and f: "\<forall>a \<in> dom (cell m). a < cc_fresh m"
    and dom: "dom (cell m) = snd ` set (cc_artifacts m)"
    using ok unfolding shape_ok_def by blast+
  have m: "map_of (cc_artifacts (stored artifact target new (next_tick m))) =
      (map_of (cc_artifacts m))(art_key artifact \<mapsto> cc_fresh m)"
    using s by (simp add: stored_def next_tick_def)
  show "resident (stored artifact target new (next_tick m)) (art_key artifact) =
      Some (new_cached artifact (cc_clock (next_tick m)) target (bt_bytes new) (bt_code new) (bt_metadata new))"
    unfolding resident_def m by (simp add: stored_cell) (simp add: next_tick_def)
  show "contains (stored artifact target new (next_tick m)) k \<longleftrightarrow> k = art_key artifact \<or> contains m k"
    unfolding contains_def m by simp
  assume k: "k \<noteq> art_key artifact"
  have "a \<noteq> cc_fresh m" if "map_of (cc_artifacts m) k = Some a" for a
    using map_of_SomeD [OF that] f dom by force
  then show "resident (stored artifact target new (next_tick m)) k = resident m k"
    using k unfolding resident_def m by (cases "map_of (cc_artifacts m) k") (auto simp: stored_cell next_tick_def)
qed

lemma simulates_resident:
  assumes s: "simulates pins extra c dead refs d" and y: "resident d k = Some y"
  shows "\<exists>x. resident c k = Some x \<and> kept x y"
proof -
  obtain a where a: "map_of (cc_artifacts d) k = Some a" "cell d a = Some y"
    using y by (auto simp: resident_def bind_eq_Some_conv)
  then obtain x where x: "cell c a = Some x" "y = x\<lparr>ca_deopt_references := ca_deopt_references y\<rparr>"
    using simulates_cell [OF s a(2)] by blast
  have "map_of (cc_artifacts c) k = Some a" using s a(1) by (simp add: simulates_def split: if_splits)
  moreover have "kept x y" unfolding kept_def by (intro conjI) (subst x(2), simp)+
  ultimately show ?thesis using x(1) by (auto simp: resident_def)
qed


lemma insert_effect:
  assumes ok: "cache_ok pins [] c" and ins: "cache_insert sz artifact c = (Inr evicted, d)"
  shows "contains d k \<longleftrightarrow> k = art_key artifact \<or> contains c k \<and> k \<notin> set evicted"
    and "\<exists>x. resident d (art_key artifact) = Some x \<and> ca_artifact x = artifact \<and> \<not> ca_invalidated x \<and>
       is_evictable x \<and> charge_bytes sz artifact = Some (ca_charge_bytes x)"
    and "k \<noteq> art_key artifact \<Longrightarrow> resident d k = Some y \<Longrightarrow> \<exists>x. resident c k = Some x \<and> kept x y"
    and "distinct evicted"
    and "k \<in> set evicted \<Longrightarrow> k \<noteq> art_key artifact \<and> (\<exists>x. resident c k = Some x \<and> ca_execution_pins x = 0)"
    and "\<not> cc_separate_limits c \<Longrightarrow> charge_bytes sz artifact = Some n \<Longrightarrow>
       cc_charged_bytes c + n \<le> cc_max_bytes c \<Longrightarrow> evicted = []"
    and "cell d a = Some y \<Longrightarrow> a \<in> dom (cell c) \<Longrightarrow> \<exists>x. cell c a = Some x \<and> kept x y"
    and "resident c (art_key artifact) = Some x \<Longrightarrow> ca_execution_pins x = 0"
proof -
  let ?k = "art_key artifact"
  obtain target new c' where c': "cache_ok pins (case target of None \<Rightarrow> [] | Some t \<Rightarrow> [t]) c'"
    and sh: "same_shape c c'" and cells: "\<And>a x. cell c' a = Some x \<Longrightarrow> \<exists>z. cell c a = Some z \<and> kept z x"
    and t: "case ak_tier ?k of TierBaseline \<Rightarrow> target = None
      | TierOptimizing \<Rightarrow> target \<noteq> None \<and> map_of (cc_artifacts c') (with_tier ?k TierBaseline) = target"
    and i: "insert_pinned artifact target new c' = (Inr evicted, d)"
    and ch: "charge_bytes sz artifact = Some (bt_bytes new)"
    by (rule cache_insert_Inr [OF ok ins]) blast
  have core': "core_ok pins (case target of None \<Rightarrow> [] | Some t \<Rightarrow> [t]) c'" and wake': "wake_ok c'"
    using c' by (simp_all add: cache_ok_def)
  note ip = insert_pinned_Inr [OF core' wake' t i]
  let ?m = "make_room ?k evicted c'"
  obtain refs where s: "simulates pins (case target of None \<Rightarrow> [] | Some t \<Rightarrow> [t]) c' (insert ?k (set evicted)) refs ?m"
    using ip(3) by blast
  have okm: "shape_ok ?m" and nk: "map_of (cc_artifacts ?m) ?k = None"
    using core_shape [OF simulates_core [OF s]] s by (simp_all add: simulates_def)
  note st = stored_resident [where target = target and new = new, OF okm nk, folded ip(2)]
  have arts: "cc_artifacts c' = cc_artifacts c" "cc_separate_limits c' = cc_separate_limits c"
    "cc_charged_bytes c' = cc_charged_bytes c" "cc_max_bytes c' = cc_max_bytes c"
    using sh by (simp_all add: same_shape_def)
  have back_c: "\<exists>x. resident c k = Some x \<and> kept x y" if "resident c' k = Some y" for k y
    using that cells by (auto simp: resident_def bind_eq_Some_conv arts)
  have m: "map_of (cc_artifacts ?m) k = (if k \<in> insert ?k (set evicted) then None else map_of (cc_artifacts c) k)" for k
    using s unfolding simulates_def arts by blast
  show "contains d k \<longleftrightarrow> k = ?k \<or> contains c k \<and> k \<notin> set evicted"
    unfolding st(3) unfolding contains_def m by simp
  show "\<exists>x. resident d ?k = Some x \<and> ca_artifact x = artifact \<and> \<not> ca_invalidated x \<and>
       is_evictable x \<and> charge_bytes sz artifact = Some (ca_charge_bytes x)"
    using ch by (simp add: st(1) new_cached_def is_evictable_def)
  show "\<exists>x. resident c k = Some x \<and> kept x y" if k: "k \<noteq> ?k" "resident d k = Some y"
  proof -
    have "resident ?m k = Some y" using k st(2) by simp
    then obtain z where z: "resident c' k = Some z" "kept z y" using simulates_resident [OF s] by blast
    then obtain x where "resident c k = Some x" "kept x z" using back_c by blast
    then show ?thesis using z(2) by (auto simp: kept_def)
  qed
  show "distinct evicted" by (rule insert_plan_selects(1) [OF core_shape [OF core'] ip(4)])
  show "k \<noteq> ?k \<and> (\<exists>x. resident c k = Some x \<and> ca_execution_pins x = 0)" if ev: "k \<in> set evicted"
  proof -
    obtain z where z: "k \<noteq> ?k" "resident c' k = Some z" "ca_execution_pins z = 0"
      using insert_plan_selects(2) [OF core_shape [OF core'] ip(4) ev] by blast
    then obtain x where "resident c k = Some x" "kept x z" using back_c by blast
    then show ?thesis using z by (auto simp: kept_def)
  qed
  show "evicted = []" if "\<not> cc_separate_limits c" "charge_bytes sz artifact = Some n"
      "cc_charged_bytes c + n \<le> cc_max_bytes c"
    using insert_plan_fits [OF ip(4)] that ch by (simp add: arts)
  show "\<exists>x. cell c a = Some x \<and> kept x y" if y: "cell d a = Some y" and a: "a \<in> dom (cell c)"
  proof -
    have "\<forall>a \<in> dom (cell c). a < cc_fresh c" using cache_core [OF ok] unfolding core_ok_def shape_ok_def by blast
    then have "a < cc_fresh c" using a by blast
    moreover have "cc_fresh ?m = cc_fresh c" using s sh by (simp add: simulates_def same_shape_def)
    ultimately have "cell ?m a = Some y" using y unfolding ip(2) stored_cell by (simp add: next_tick_def)
    then obtain z where z: "cell c' a = Some z" "y = z\<lparr>ca_deopt_references := ca_deopt_references y\<rparr>"
      using simulates_cell [OF s] by blast
    have "kept z y" unfolding kept_def by (intro conjI) (subst z(2), simp)+
    moreover obtain x where "cell c a = Some x" "kept x z" using cells [OF z(1)] by blast
    ultimately show ?thesis by (auto simp: kept_def)
  qed
  show "ca_execution_pins x = 0" if x: "resident c ?k = Some x"
  proof -
    obtain a where a: "map_of (cc_artifacts c) ?k = Some a" "cell c a = Some x"
      using x by (auto simp: resident_def bind_eq_Some_conv)
    have "map_of (cc_artifacts c') ?k = Some a" using a(1) by (simp add: arts)
    then obtain z where z: "cell c' a = Some z" by (rule shape_resident [OF core_shape [OF core']])
    then have r: "resident c' ?k = Some z" using a(1) by (simp add: resident_def arts)
    obtain needed where "\<And>x. resident c' ?k = Some x \<Longrightarrow> is_evictable x"
      by (rule insert_plan_Inr [OF ip(4)]) blast
    then have "is_evictable z" using r by blast
    then show ?thesis using cells [OF z] a(2) by (auto simp: kept_def is_evictable_def)
  qed
qed

section \<open>Promises of the cache\<close>

text \<open>
  C13. Every sequence of cache operations keeps the books exactly: the charged bytes are the bytes of
  the resident artifacts and stay within the configured limits. Code that a live execution pin
  refers to is resident, and counted as often as it is pinned. Every resident optimised artifact has
  its baseline resident, which counts the optimised artifacts that may fall back to it.
\<close>

theorem cache_safe:
  assumes "cache_reach sz (c, pins)"
  shows "cc_charged_bytes c = sum_resident ca_charge_bytes c \<and>
    cc_charged_code_bytes c = sum_resident ca_code_bytes c \<and>
    cc_charged_metadata_bytes c = sum_resident ca_metadata_bytes c \<and>
    cc_charged_bytes c \<le> cc_max_bytes c \<and>
    (cc_separate_limits c \<longrightarrow> cc_charged_code_bytes c \<le> cc_max_code_bytes c \<and>
       cc_charged_metadata_bytes c \<le> cc_max_metadata_bytes c) \<and>
    (\<forall>a \<in> set pins. \<exists>x. resident c (cell_key x) = Some x \<and> cell c a = Some x \<and>
       ca_execution_pins x = count_list pins a) \<and>
    (\<forall>k x. resident c k = Some x \<longrightarrow> cell_key x = k \<and> (ak_tier k = TierOptimizing \<longrightarrow>
       (\<exists>y b. map_of (cc_artifacts c) (with_tier k TierBaseline) = Some b \<and> cell c b = Some y \<and>
          ca_deopt_references y = card (targets_of c b) \<and> 0 < ca_deopt_references y)))"
proof -
  have core: "core_ok pins [] c" using reach_cache_ok [OF assms] by (rule cache_core)
  then have ok: "shape_ok c" and ch: "charges_ok c" "limits_ok c" and ct: "counts_ok pins [] c"
    by (simp_all add: core_ok_def)
  have pinned: "\<exists>x. resident c (cell_key x) = Some x \<and> cell c a = Some x \<and> ca_execution_pins x = count_list pins a"
    if a: "a \<in> set pins" for a
  proof -
    obtain x where x: "cell c a = Some x" using a ct by (auto simp: counts_ok_def)
    then show ?thesis using shape_cell(1) [OF ok x] ct by (auto simp: counts_ok_def resident_def)
  qed
  have opt: "cell_key x = k \<and> (ak_tier k = TierOptimizing \<longrightarrow>
       (\<exists>y b. map_of (cc_artifacts c) (with_tier k TierBaseline) = Some b \<and> cell c b = Some y \<and>
          ca_deopt_references y = card (targets_of c b) \<and> 0 < ca_deopt_references y))"
    if r: "resident c k = Some x" for k x
  proof -
    obtain a where a: "map_of (cc_artifacts c) k = Some a" "cell c a = Some x"
      using r by (auto simp: resident_def bind_eq_Some_conv)
    have key: "cell_key x = k" using shape_cell(1) [OF ok a(2)] shape_addr_inj [OF ok _ a(1)] by blast
    have "\<exists>y b. map_of (cc_artifacts c) (with_tier k TierBaseline) = Some b \<and> cell c b = Some y \<and>
        ca_deopt_references y = card (targets_of c b) \<and> 0 < ca_deopt_references y"
      if t: "ak_tier k = TierOptimizing"
    proof -
      obtain b where b: "ca_deopt_target x = Some b" "map_of (cc_artifacts c) (with_tier k TierBaseline) = Some b"
        using shape_cell(2) [OF ok a(2)] t by (auto simp: target_ok_def key)
      obtain y where y: "cell c b = Some y" by (rule shape_resident [OF ok b(2)])
      have "a \<in> targets_of c b" using a(2) b(1) by (simp add: targets_of_def)
      then have "0 < card (targets_of c b)" by (auto simp: card_gt_0_iff)
      then show ?thesis using b(2) y ct by (simp add: counts_ok_def)
    qed
    then show ?thesis using key by blast
  qed
  have books: "cc_charged_bytes c = sum_resident ca_charge_bytes c"
    "cc_charged_code_bytes c = sum_resident ca_code_bytes c"
    "cc_charged_metadata_bytes c = sum_resident ca_metadata_bytes c"
    "cc_charged_bytes c \<le> cc_max_bytes c"
    "cc_separate_limits c \<longrightarrow> cc_charged_code_bytes c \<le> cc_max_code_bytes c \<and>
       cc_charged_metadata_bytes c \<le> cc_max_metadata_bytes c"
    using ch by (simp_all add: charges_ok_def limits_ok_def)
  show ?thesis
    by (intro conjI ballI books pinned; (intro allI impI opt)?; assumption)
qed

text \<open>
  C17. A successful insertion stores exactly the artifact, charged with its bytes, unpinned and valid,
  and removes exactly the artifacts it reports, none of which was pinned. Every other artifact stays
  as it was. Without separate limits, nothing is evicted while the artifact fits beside the others.
\<close>

theorem insert_exact:
  assumes "cache_reach sz (c, pins)" and "cache_insert sz artifact c = (Inr evicted, d)"
  shows "(\<forall>k. contains d k \<longleftrightarrow> k = art_key artifact \<or> contains c k \<and> k \<notin> set evicted) \<and>
    (\<exists>x. resident d (art_key artifact) = Some x \<and> ca_artifact x = artifact \<and> \<not> ca_invalidated x \<and>
       is_evictable x \<and> charge_bytes sz artifact = Some (ca_charge_bytes x)) \<and>
    (\<forall>k y. k \<noteq> art_key artifact \<longrightarrow> resident d k = Some y \<longrightarrow> (\<exists>x. resident c k = Some x \<and> kept x y)) \<and>
    distinct evicted \<and>
    (\<forall>k \<in> set evicted. k \<noteq> art_key artifact \<and> (\<exists>x. resident c k = Some x \<and> ca_execution_pins x = 0)) \<and>
    (\<forall>n. \<not> cc_separate_limits c \<longrightarrow> charge_bytes sz artifact = Some n \<longrightarrow>
       cc_charged_bytes c + n \<le> cc_max_bytes c \<longrightarrow> evicted = [])"
proof -
  note e = insert_effect [OF reach_cache_ok [OF assms(1)] assms(2)]
  show ?thesis
    by (intro conjI allI impI ballI, rule e(1), rule e(2), erule (1) e(3), rule e(4),
        erule e(5) [THEN conjunct1], erule e(5) [THEN conjunct2], erule (2) e(6))
qed

text \<open>
  C18. A refused insertion is a refusal of everything: whatever the error, the resident artifacts,
  every cell with its counters, the charged bytes and the limits are the ones from before.
\<close>

theorem insert_refused:
  assumes "cache_reach sz (c, pins)" and "cache_insert sz artifact c = (Inl e, d)"
  shows "cc_artifacts d = cc_artifacts c \<and> cell d = cell c \<and>
    cc_charged_bytes d = cc_charged_bytes c \<and> cc_charged_code_bytes d = cc_charged_code_bytes c \<and>
    cc_charged_metadata_bytes d = cc_charged_metadata_bytes c \<and> cc_max_bytes d = cc_max_bytes c"
  using cache_insert_Inl [OF reach_cache_ok [OF assms(1)] assms(2)] by (simp add: same_shape_def)


text \<open>
  C15. No reclamation is lost. After any history, one poll with a budget for the resident artifacts
  finds every invalidated artifact that nothing uses: one that is left is pinned, or is the baseline
  of a resident optimised artifact that is itself pinned or still valid. Valid artifacts stay.
\<close>

theorem poll_reclaims:
  assumes "cache_reach sz (c, pins)" and "length (cc_artifacts c) \<le> budget"
    and "poll_reclamation_with_budget budget c = (poll, d)"
  shows "\<not> rp_may_have_remaining poll \<and>
    (\<forall>a x. cell d a = Some x \<longrightarrow> ca_invalidated x \<longrightarrow> a \<in> set pins \<or>
       (\<exists>b y. cell d b = Some y \<and> with_tier (cell_key y) TierBaseline = cell_key x \<and>
          (\<not> ca_invalidated y \<or> b \<in> set pins))) \<and>
    (\<forall>a x. cell c a = Some x \<longrightarrow> \<not> ca_invalidated x \<longrightarrow> a \<in> dom (cell d))"
proof -
  have ok: "cache_ok pins [] c" by (rule reach_cache_ok [OF assms(1)])
  have core: "core_ok pins [] d" using cache_core [OF poll_ok [OF ok, of budget]] assms(3) by simp
  let ?c = "c\<lparr>cc_reclaim_needed := False\<rparr>"
  have n: "next_invalidated_candidate d = None \<and> \<not> rp_may_have_remaining poll \<and>
      (\<forall>a x. cell c a = Some x \<longrightarrow> \<not> ca_invalidated x \<longrightarrow> a \<in> dom (cell d))"
  proof (cases "cc_reclaim_needed c")
    case False
    then have d: "cell d = cell c" and p: "\<not> rp_may_have_remaining poll"
      using assms(3) by (auto simp: poll_reclamation_with_budget_def)
    have "next_invalidated_candidate d = None"
    proof (rule ccontr)
      assume "next_invalidated_candidate d \<noteq> None"
      then obtain k where "next_invalidated_candidate d = Some k" by blast
      then obtain x where "resident d k = Some x" "ca_invalidated x" "is_evictable x"
        using candidate_Some [OF core_shape [OF core]] by blast
      then obtain a where "cell c a = Some x" "ca_invalidated x" "is_evictable x"
        by (auto simp: resident_def bind_eq_Some_conv d)
      then show False using ok False by (auto simp: cache_ok_def wake_ok_def)
    qed
    then show ?thesis using p d by auto
  next
    case True
    have core': "core_ok pins [] ?c" using cache_core [OF ok] by simp
    have len: "length (cc_artifacts ?c) \<le> budget" using assms(2) by simp
    let ?r = "collect_loop budget ?c"
    have stop: "next_invalidated_candidate (snd ?r) = None" by (rule collect_loop_done [OF core' len])
    have "poll = \<lparr>rp_reclaimed = fst ?r, rp_may_have_remaining = False\<rparr>" "d = snd ?r"
      using assms(3) True stop
      by (auto simp: poll_reclamation_with_budget_def collect_invalidated_with_budget_def case_prod_unfold)
    then show ?thesis using stop collect_loop_keeps [OF core', of budget] by simp
  qed
  have "a \<in> set pins \<or> (\<exists>b y. cell d b = Some y \<and> with_tier (cell_key y) TierBaseline = cell_key x \<and>
      (\<not> ca_invalidated y \<or> b \<in> set pins))" if x: "cell d a = Some x" "ca_invalidated x" for a x
    using left_is_used [OF core conjunct1 [OF n] x] target_key [OF core_shape [OF core] _ _ x(1)] by metis
  then show ?thesis using n by simp
qed

lemma ak_with_tier:
  "ak_function_id (with_tier k t) = ak_function_id k" "ak_generation (with_tier k t) = ak_generation k"
  by (cases k; simp)+

text \<open>The artifacts of a function, whatever their tier and specialisation.\<close>

lemma invalidated_unused_gone:
  assumes ok: "core_ok [] [] d" and n: "next_invalidated_candidate d = None"
    and all: "\<And>a y. cell d a = Some y \<Longrightarrow> ak_function_id (cell_key y) = fk_id f \<Longrightarrow>
      ak_generation (cell_key y) = fk_generation f \<Longrightarrow> ca_invalidated y"
    and x: "cell d a = Some x" "ak_function_id (cell_key x) = fk_id f" "ak_generation (cell_key x) = fk_generation f"
  shows False
proof -
  obtain b y where y: "cell d b = Some y" "ca_deopt_target y = Some a" "\<not> ca_invalidated y"
    using left_is_used [OF ok n x(1) all [OF x]] unfolding list.set empty_iff by blast
  have "with_tier (cell_key y) TierBaseline = cell_key x" by (rule target_key [OF core_shape [OF ok] y(1,2) x(1)])
  then have "ak_function_id (cell_key y) = ak_function_id (cell_key x)"
    "ak_generation (cell_key y) = ak_generation (cell_key x)"
    by (metis ak_with_tier)+
  then have "ak_function_id (cell_key y) = fk_id f" "ak_generation (cell_key y) = fk_generation f"
    using x(2,3) by simp_all
  then show False using all y(1,3) by blast
qed

text \<open>
  C16. An invalidated function never runs its old code again, and its code goes away. After an
  invalidation no artifact of that function and generation can be pinned, and when no execution pin
  is live every one of them is gone from the cache at once.
\<close>

theorem invalidate_reclaims:
  assumes "cache_reach sz (c, pins)" and "length (cc_artifacts c) \<le> usize_max"
    and "ak_function_id key = fk_id f" and "ak_generation key = fk_generation f"
  shows "fst (pin key (snd (cache_invalidate f c))) = None \<and>
    (pins = [] \<longrightarrow> \<not> contains (snd (cache_invalidate f c)) key)"
proof -
  let ?i = "(invalidate_deferred f c)\<lparr>cc_reclaim_needed := False\<rparr>" and ?d = "snd (cache_invalidate f c)"
  have ok: "cache_ok pins [] c" by (rule reach_cache_ok [OF assms(1)])
  have core: "core_ok pins [] ?i" using cache_core [OF invalidate_deferred_ok [OF ok]] by simp
  have oki: "shape_ok c" by (rule core_shape [OF cache_core [OF ok]])
  note arts = invalidate_deferred_cell(2) [OF oki, of f]
  have stop: "next_invalidated_candidate (snd (collect_loop usize_max ?i)) = None"
    by (rule collect_loop_done [OF core]) (simp add: arts assms(2))
  then have d: "?d = snd (collect_loop usize_max ?i)"
    by (simp add: cache_invalidate_def collect_invalidated_def Let_def
        collect_invalidated_with_budget_def case_prod_unfold)
  have cd: "core_ok pins [] ?d" unfolding d using collect_loop_ok [OF core] by blast
  have marked: "ca_invalidated y" if y: "cell ?d a = Some y" "ak_function_id (cell_key y) = fk_id f"
      "ak_generation (cell_key y) = fk_generation f" for a y
  proof -
    obtain x where x: "cell ?i a = Some x" "ca_invalidated y = ca_invalidated x" "ca_artifact y = ca_artifact x"
      using collect_loop_keeps [OF core, of usize_max] y(1) unfolding d by blast
    obtain z where z: "x = mark_of f z" using x(1) invalidate_deferred_cell(1) [OF oki, of f a] by auto
    have "cell_key z = cell_key y" using x(3) by (simp add: z mark_of_def)
    then show ?thesis using y(2,3) x(2) by (simp add: z mark_of_def)
  qed
  have "fst (pin key ?d) = None"
  proof (cases "map_of (cc_artifacts ?d) key")
    case (Some a)
    obtain y where y: "cell ?d a = Some y" "cell_key y = key"
      by (rule shape_resident [OF core_shape [OF cd] Some])
    then have "ca_invalidated y" using marked [OF y(1)] assms(3,4) by simp
    then show ?thesis using Some y(1) by (simp add: pin_def Let_def next_tick_def)
  qed (simp add: pin_def Let_def next_tick_def)
  moreover have "\<not> contains ?d key" if "pins = []"
  proof
    assume "contains ?d key"
    then obtain a where a: "map_of (cc_artifacts ?d) key = Some a" by (auto simp: contains_def)
    obtain y where y: "cell ?d a = Some y" "cell_key y = key"
      by (rule shape_resident [OF core_shape [OF cd] a])
    show False
      by (rule invalidated_unused_gone [of ?d f a y])
        (use cd that stop d marked y assms(3,4) in simp_all)
  qed
  ultimately show ?thesis by blast
qed


section \<open>An example history\<close>

text \<open>
  A baseline artifact, its optimised version, which is pinned, and a small cache that has to evict.
\<close>

definition sample_sizes :: type_sizes where
  "sample_sizes = \<lparr>size_relocation = 8, size_unwind_metadata = 8, size_stack_map = 8, size_frame_state = 8,
     size_dependency = 8, size_optimized_metadata = 8, size_deopt_site = 8, size_materialization = 8\<rparr>"

definition sample_key :: "nat \<Rightarrow> tier \<Rightarrow> artifact_key" where
  "sample_key f t = ArtifactKey 1 f 1 t 0 0 0 0 0 0 0"

definition sample_artifact :: "nat \<Rightarrow> tier \<Rightarrow> compiled_artifact" where
  "sample_artifact f t = from_parts (sample_key f t) [0, 1, 2, 3] [] [] [] []"

definition sample_base :: code_cache where
  "sample_base = snd (cache_insert sample_sizes (sample_artifact 7 TierBaseline) (new_cache 10))"

definition sample_both :: code_cache where
  "sample_both = snd (cache_insert sample_sizes (sample_artifact 7 TierOptimizing) sample_base)"

definition sample_pinned :: code_cache where
  "sample_pinned = snd (pin (sample_key 7 TierOptimizing) sample_both)"

lemma sample_reach:
  "cache_reach sample_sizes (sample_base, [])" "cache_reach sample_sizes (sample_both, [])"
  "cache_reach sample_sizes (sample_pinned, [1])"
proof -
  show b: "cache_reach sample_sizes (sample_base, [])"
    unfolding sample_base_def by (rule reach_step [OF reach_new step_insert])
  show o: "cache_reach sample_sizes (sample_both, [])"
    unfolding sample_both_def by (rule reach_step [OF b step_insert])
  have "fst (pin (sample_key 7 TierOptimizing) sample_both) = Some 1" by code_simp
  then have "pin (sample_key 7 TierOptimizing) sample_both = (Some 1, sample_pinned)"
    by (simp add: sample_pinned_def prod_eq_iff)
  then show "cache_reach sample_sizes (sample_pinned, [1])" by (rule reach_step [OF o step_pin])
qed

theorem cache_safe_witness:
  "cc_charged_bytes sample_pinned = sum_resident ca_charge_bytes sample_pinned \<and>
   cc_charged_bytes sample_pinned = 8 \<and>
   (\<exists>x. cell sample_pinned 1 = Some x \<and> ca_execution_pins x = 1) \<and>
   (\<exists>y. cell sample_pinned 0 = Some y \<and> 0 < ca_deopt_references y)"
proof -
  note safe = cache_safe [OF sample_reach(3)]
  have "resident sample_pinned (sample_key 7 TierOptimizing) = cell sample_pinned 1"
    "map_of (cc_artifacts sample_pinned) (with_tier (sample_key 7 TierOptimizing) TierBaseline) = Some 0"
    "ak_tier (sample_key 7 TierOptimizing) = TierOptimizing" "count_list [1] (1::nat) = 1"
    "cc_charged_bytes sample_pinned = 8"
    by code_simp+
  then show ?thesis using safe by (metis (no_types, lifting) list.set_intros(1) option.inject)
qed

theorem insert_exact_witness:
  "contains (snd (cache_insert sample_sizes (sample_artifact 8 TierBaseline) sample_both)) (sample_key 8 TierBaseline) \<and>
   \<not> contains (snd (cache_insert sample_sizes (sample_artifact 8 TierBaseline) sample_both)) (sample_key 7 TierOptimizing)"
proof -
  have "fst (cache_insert sample_sizes (sample_artifact 8 TierBaseline) sample_both) =
      Inr [sample_key 7 TierOptimizing]" by code_simp
  then have "cache_insert sample_sizes (sample_artifact 8 TierBaseline) sample_both =
      (Inr [sample_key 7 TierOptimizing], snd (cache_insert sample_sizes (sample_artifact 8 TierBaseline) sample_both))"
    by (simp add: prod_eq_iff)
  from insert_exact [OF sample_reach(2) this] show ?thesis
    by (simp add: sample_artifact_def from_parts_def sample_key_def)
qed

theorem insert_refused_witness:
  "cc_artifacts (snd (cache_insert sample_sizes (sample_artifact 8 TierBaseline) sample_pinned)) =
     cc_artifacts sample_pinned \<and>
   fst (cache_insert sample_sizes (sample_artifact 8 TierBaseline) sample_pinned) = Inl AllArtifactsPinned"
proof -
  have e: "fst (cache_insert sample_sizes (sample_artifact 8 TierBaseline) sample_pinned) = Inl AllArtifactsPinned"
    by code_simp
  then have "cache_insert sample_sizes (sample_artifact 8 TierBaseline) sample_pinned =
      (Inl AllArtifactsPinned, snd (cache_insert sample_sizes (sample_artifact 8 TierBaseline) sample_pinned))"
    by (simp add: prod_eq_iff)
  from insert_refused [OF sample_reach(3) this] e show ?thesis by simp
qed

theorem poll_reclaims_witness:
  "\<not> rp_may_have_remaining (fst (poll_reclamation_with_budget 2 sample_pinned)) \<and>
   1 \<in> dom (cell (snd (poll_reclamation_with_budget 2 sample_pinned)))"
proof -
  have l: "length (cc_artifacts sample_pinned) \<le> 2" by code_simp
  have "map_option ca_invalidated (cell sample_pinned 1) = Some False" by code_simp
  then show ?thesis using poll_reclaims [OF sample_reach(3) l surjective_pairing] by blast
qed

theorem invalidate_reclaims_witness:
  "fst (pin (sample_key 7 TierBaseline) (snd (cache_invalidate (FunctionKey 7 1) sample_both))) = None \<and>
   \<not> contains (snd (cache_invalidate (FunctionKey 7 1) sample_both)) (sample_key 7 TierBaseline)"
proof -
  have l: "length (cc_artifacts sample_both) = 2" by code_simp
  have "length (cc_artifacts sample_both) \<le> usize_max" unfolding l by (simp add: usize_max_def u64_max_def)
  from invalidate_reclaims [OF sample_reach(2) this, of "sample_key 7 TierBaseline" "FunctionKey 7 1"]
  show ?thesis by (simp add: sample_key_def)
qed

end
