(* ===== verification/Cache_Spec.thy ===== *)
theory Cache_Spec
  imports Cache_System
begin

text \<open>
  The abstract specification of the code cache and the proof that the cache implements it. The
  abstract cache is a map from keys to an artifact and a mark that says whether it is invalidated,
  with the keys of the live execution pins; bytes, clocks, reference counts, cells and the memo of
  the last benefit target do not occur in it. Every operation of the cache is a sequence of abstract
  steps.
\<close>

section \<open>The abstract cache\<close>

type_synonym abstract_cache = "(artifact_key \<rightharpoonup> compiled_artifact \<times> bool) \<times> artifact_key list"



section \<open>The abstraction\<close>

definition view :: "cached_artifact \<Rightarrow> compiled_artifact \<times> bool" where
  "view x = (ca_artifact x, ca_invalidated x)"

definition store :: "code_cache \<Rightarrow> artifact_key \<Rightarrow> (compiled_artifact \<times> bool) option" where
  "store c k = map_option view (resident c k)"

definition pinned_keys :: "code_cache \<Rightarrow> nat list \<Rightarrow> artifact_key list" where
  "pinned_keys c pins = map (\<lambda>a. cell_key (the (cell c a))) pins"

definition abstract_of :: "cache_state \<Rightarrow> abstract_cache" where
  "abstract_of s = (store (fst s), pinned_keys (fst s) (snd s))"

text \<open>Two caches with the same view.\<close>

definition same_view :: "code_cache \<Rightarrow> code_cache \<Rightarrow> bool" where
  "same_view c d \<longleftrightarrow> cc_artifacts d = cc_artifacts c \<and> (\<forall>a. map_option view (cell d a) = map_option view (cell c a))"




lemma same_view_refl [simp]: "same_view c c"
  by (simp add: same_view_def)

lemma same_view_tick [simp]: "same_view c (next_tick d) \<longleftrightarrow> same_view c d"
  by (simp add: same_view_def next_tick_def)





section \<open>Bookkeeping and pins\<close>








text \<open>The memo of the last benefit target never changes what is recorded.\<close>

definition record_benefit_lookup ::
  "artifact_key \<Rightarrow> nat \<Rightarrow> code_cache \<Rightarrow> (cache_error + unit) \<times> code_cache" where
  "record_benefit_lookup key benefit c =
     (let c = next_tick c in
      case map_of (cc_artifacts c) key of
        None \<Rightarrow> (Inl MissingArtifact, c)
      | Some a \<Rightarrow> (Inr (), map_cell a (score_cell benefit (cc_clock c)) (c\<lparr>cc_last_benefit_target := Some a\<rparr>)))"

lemma record_benefit_eq:
  assumes ok: "cache_ok pins [] c"
  shows "record_benefit key benefit c = record_benefit_lookup key benefit c"
proof -
  have core: "core_ok pins [] (next_tick c)" using ok by (simp add: cache_ok_def)
  note sh = core_shape [OF core] and eq = set_benefit_target_eq [OF core]
  show ?thesis
  proof (cases "map_of (cc_artifacts (next_tick c)) key")
    case None
    have "\<not> benefit_target_is (next_tick c) key"
      using None shape_cell(1) [OF sh]
      by (auto simp: benefit_target_is_def bind_eq_Some_conv split: option.splits)
    then show ?thesis using None by (simp add: record_benefit_def record_benefit_lookup_def Let_def)
  next
    case (Some a)
    note b = benefit_target_is_resident [OF sh Some]
    show ?thesis
    proof (cases "benefit_target_is (next_tick c) key")
      case True
      then have t: "cc_last_benefit_target (next_tick c) = Some a" using b by simp
      then have "(next_tick c)\<lparr>cc_last_benefit_target := Some a\<rparr> = next_tick c" by (cases "next_tick c") simp
      then show ?thesis using Some True t
        by (simp only: record_benefit_def record_benefit_lookup_def Let_def if_True sum.case option.case)
    next
      case False
      then show ?thesis using Some
        by (simp add: record_benefit_def record_benefit_lookup_def Let_def eq)
    qed
  qed
qed


section \<open>Insertion, invalidation and reclamation\<close>











lemma flag_view [simp]: "abstract_of (c\<lparr>cc_reclaim_needed := b\<rparr>, pins) = abstract_of (c, pins)"
  by (simp add: abstract_of_def store_def [abs_def] resident_def pinned_keys_def)









section \<open>Refinement\<close>



text \<open>
  C19. The memo of the last benefit target is an optimisation only: on every reachable cache,
  recording a benefit through the memo does exactly what a lookup of the key does.
\<close>

theorem record_benefit_memo:
  assumes "cache_reach sz (c, pins)"
  shows "record_benefit key benefit c = record_benefit_lookup key benefit c"
  by (rule record_benefit_eq [OF reach_cache_ok [OF assms]])

theorem record_benefit_memo_witness:
  "record_benefit (sample_key 7 TierBaseline) 5 sample_both = record_benefit_lookup (sample_key 7 TierBaseline) 5 sample_both \<and>
   fst (record_benefit (sample_key 7 TierBaseline) 5 sample_both) = Inr ()"
proof -
  have "fst (record_benefit (sample_key 7 TierBaseline) 5 sample_both) = Inr ()" by code_simp
  then show ?thesis using record_benefit_memo [OF sample_reach(2), of "sample_key 7 TierBaseline" 5] by blast
qed

end
