(* ===== verification/Loops.thy ===== *)
theory Loops
  imports Prelude
begin

text \<open>
  Dominance and natural loops, \<^verbatim>\<open>jit/src/ir/loops.rs\<close>. The optimiser trusts this analysis to tell
  which blocks dominate others, which blocks lie in loops and where a loop may be entered. The
  analysis works on the blocks of a function in order of their start, charges every step against a
  work budget, keeps the dominators of each block as a row of 64-bit words, and fails closed: a graph
  that is not reducible, or a budget that is too small, gives no analysis at all.

  Stacks (\<open>pending\<close>) are lists with their top first. Of the optimised representation the analysis
  reads the blocks and what tells the entry guard from other nodes.
\<close>

unbundle bit_operations_syntax

section \<open>Analysis\<close>

definition spend :: "nat \<Rightarrow> nat \<Rightarrow> nat option" where
  "spend work cost = checked_sub work cost"

record natural_loop =
  nl_header :: nat
  nl_preheader :: "nat option"
  nl_members :: "nat list"

type_synonym bit_row = "64 word list"

record loop_analysis =
  la_complete :: bool
  la_pcs :: "nat list"
  la_dominators :: "bit_row list"
  la_owners :: "(nat \<times> nat) option list"
  la_loop_nodes :: "bool list"
  la_loops :: "natural_loop list"

definition default_analysis :: loop_analysis where
  "default_analysis = \<lparr>la_complete = False, la_pcs = [], la_dominators = [], la_owners = [],
     la_loop_nodes = [], la_loops = []\<rparr>"

definition row_test :: "bit_row \<Rightarrow> nat \<Rightarrow> bool" where
  "row_test row a \<longleftrightarrow> row ! (a div 64) AND push_bit (a mod 64) 1 \<noteq> 0"

definition row_set :: "nat \<Rightarrow> bit_row \<Rightarrow> bit_row" where
  "row_set i row = row[i div 64 := row ! (i div 64) OR push_bit (i mod 64) 1]"

subsection \<open>Predecessors\<close>

fun add_edges :: "nat \<Rightarrow> nat list \<Rightarrow> nat list list \<Rightarrow> nat \<Rightarrow> (nat list list \<times> nat) option" where
  "add_edges from [] preds work = Some (preds, work)"
| "add_edges from (to # edges) preds work =
     Option.bind (spend work 1) (\<lambda>work.
       if to < length preds
       then add_edges from edges (preds[to := preds ! to @ [from]]) work
       else None)"

fun add_all_edges ::
  "nat \<Rightarrow> nat list list \<Rightarrow> nat list list \<Rightarrow> nat \<Rightarrow> (nat list list \<times> nat) option" where
  "add_all_edges from [] preds work = Some (preds, work)"
| "add_all_edges from (edges # rest) preds work =
     Option.bind (add_edges from edges preds work) (\<lambda>(preds, work).
       add_all_edges (from + 1) rest preds work)"

subsection \<open>Reachability\<close>

fun mark_next ::
  "nat list \<Rightarrow> bool list \<Rightarrow> nat list \<Rightarrow> nat \<Rightarrow> (bool list \<times> nat list \<times> nat) option" where
  "mark_next [] reachable pending work = Some (reachable, pending, work)"
| "mark_next (next # edges) reachable pending work =
     Option.bind (spend work 1) (\<lambda>work.
       if \<not> reachable ! next
       then mark_next edges (reachable[next := True]) (next # pending) work
       else mark_next edges reachable pending work)"

lemma spend_Some: "spend work cost = Some w \<longleftrightarrow> cost \<le> work \<and> w = work - cost"
  by (auto simp: spend_def checked_sub_def)

lemma mark_next_work: "mark_next edges reachable pending work = Some (r, p, w) \<Longrightarrow> w \<le> work"
proof (induction edges arbitrary: reachable pending work)
  case (Cons x xs)
  show ?case using Cons.prems
    by (auto simp: bind_eq_Some_conv spend_Some split: if_splits dest!: Cons.IH)
qed simp

function reach_loop ::
  "nat list list \<Rightarrow> bool list \<Rightarrow> nat list \<Rightarrow> nat \<Rightarrow> (bool list \<times> nat) option" where
  "reach_loop successors reachable [] work = Some (reachable, work)"
| "reach_loop successors reachable (block # pending) work =
     (case spend work 1 of
        None \<Rightarrow> None
      | Some work \<Rightarrow>
          (case mark_next (successors ! block) reachable pending work of
             None \<Rightarrow> None
           | Some (reachable, pending, work) \<Rightarrow> reach_loop successors reachable pending work))"
  by pat_completeness auto
termination
  by (relation "measure (\<lambda>(s, r, p, w). w)") (auto simp: spend_Some dest: mark_next_work)

definition reachable_row :: "nat \<Rightarrow> bool list \<Rightarrow> bit_row" where
  "reachable_row words reachable =
     fold (\<lambda>index row. if reachable ! index then row_set index row else row)
       [0..<length reachable] (replicate words 0)"

subsection \<open>Dominators\<close>

definition initial_rows :: "nat \<Rightarrow> bool list \<Rightarrow> bit_row \<Rightarrow> bit_row list" where
  "initial_rows words reachable reachable_bits =
     map (\<lambda>index. if index = 0 then (replicate words 0)[0 := 1]
                  else if reachable ! index then reachable_bits
                  else replicate words 0) [0..<length reachable]"

fun meet_preds ::
  "nat \<Rightarrow> bool list \<Rightarrow> bit_row list \<Rightarrow> nat list \<Rightarrow> bit_row \<Rightarrow> nat \<Rightarrow> (bit_row \<times> nat) option" where
  "meet_preds words reachable rows [] next work = Some (next, work)"
| "meet_preds words reachable rows (pred # preds) next work =
     Option.bind (spend work 1) (\<lambda>work.
       if \<not> reachable ! pred then meet_preds words reachable rows preds next work
       else
         Option.bind (spend work words) (\<lambda>work.
           meet_preds words reachable rows preds (map2 (\<lambda>word incoming. word AND incoming) next (rows ! pred)) work))"

fun dominator_round ::
  "nat \<Rightarrow> bool list \<Rightarrow> bit_row \<Rightarrow> nat list list \<Rightarrow> nat list \<Rightarrow> bit_row list \<Rightarrow> bool \<Rightarrow> nat \<Rightarrow>
   (bit_row list \<times> bool \<times> nat) option" where
  "dominator_round words reachable reachable_bits predecessors [] rows changed work =
     Some (rows, changed, work)"
| "dominator_round words reachable reachable_bits predecessors (block # blocks) rows changed work =
     Option.bind (spend work 1) (\<lambda>work.
       if \<not> reachable ! block
       then dominator_round words reachable reachable_bits predecessors blocks rows changed work
       else
         Option.bind (spend work words) (\<lambda>work.
         Option.bind (meet_preds words reachable rows (predecessors ! block) reachable_bits work)
           (\<lambda>(next, work).
             let next = row_set block next in
             Option.bind (spend work words) (\<lambda>work.
               if next \<noteq> rows ! block
               then dominator_round words reachable reachable_bits predecessors blocks
                      (rows[block := next]) True work
               else dominator_round words reachable reachable_bits predecessors blocks rows changed work))))"

lemma meet_preds_work: "meet_preds words reachable rows preds next work = Some (r, w) \<Longrightarrow> w \<le> work"
proof (induction preds arbitrary: "next" work)
  case (Cons x xs)
  show ?case using Cons.prems
    by (auto simp: bind_eq_Some_conv spend_Some split: if_splits dest!: Cons.IH)
qed simp

lemma dominator_round_work:
  "dominator_round words reachable reachable_bits predecessors blocks rows changed work = Some (rows', changed', w) \<Longrightarrow>
   w + length blocks \<le> work"
proof (induction blocks arbitrary: rows changed work)
  case (Cons block blocks)
  show ?case
  proof (cases "reachable ! block")
    case True
    then show ?thesis using Cons.prems
      by (auto simp: bind_eq_Some_conv spend_Some Let_def split: if_splits dest!: Cons.IH meet_preds_work)
  next
    case False
    then show ?thesis using Cons.prems by (auto simp: bind_eq_Some_conv spend_Some dest!: Cons.IH)
  qed
qed simp

function dominator_loop ::
  "nat \<Rightarrow> bool list \<Rightarrow> bit_row \<Rightarrow> nat list list \<Rightarrow> bit_row list \<Rightarrow> nat \<Rightarrow> (bit_row list \<times> nat) option" where
  "dominator_loop words reachable reachable_bits predecessors rows work =
     (case dominator_round words reachable reachable_bits predecessors [1..<length reachable] rows False work of
        None \<Rightarrow> None
      | Some (rows, changed, work) \<Rightarrow>
          if changed then dominator_loop words reachable reachable_bits predecessors rows work
          else Some (rows, work))"
  by pat_completeness auto
termination
proof (relation "measure (\<lambda>(ws, r, b, p, rows, w). w)", goal_cases)
  case (2 words reachable reachable_bits predecessors rows work x rows' y changed work')
  then have r: "dominator_round words reachable reachable_bits predecessors [1..<length reachable] rows False work =
      Some (rows', changed, work')" and changed by simp_all
  have "[1..<length reachable] \<noteq> []"
  proof
    assume e: "[1..<length reachable] = []"
    show False using r \<open>changed\<close> unfolding e by simp
  qed
  then have "work' < work" using dominator_round_work [OF r] by (cases "[1..<length reachable]") auto
  then show ?case by simp
qed simp

declare dominator_loop.simps [simp del]


subsection \<open>Reducibility\<close>

fun indegree_edges ::
  "bit_row list \<Rightarrow> nat \<Rightarrow> nat list \<Rightarrow> nat list \<Rightarrow> nat \<Rightarrow> (nat list \<times> nat) option" where
  "indegree_edges rows from [] indegree work = Some (indegree, work)"
| "indegree_edges rows from (to # edges) indegree work =
     Option.bind (spend work 1) (\<lambda>work.
       if \<not> row_test (rows ! from) to
       then Option.bind (checked_add usize_max (indegree ! to) 1) (\<lambda>degree.
              indegree_edges rows from edges (indegree[to := degree]) work)
       else indegree_edges rows from edges indegree work)"

fun indegree_all ::
  "bit_row list \<Rightarrow> bool list \<Rightarrow> nat \<Rightarrow> nat list list \<Rightarrow> nat list \<Rightarrow> nat \<Rightarrow> (nat list \<times> nat) option" where
  "indegree_all rows reachable from [] indegree work = Some (indegree, work)"
| "indegree_all rows reachable from (edges # rest) indegree work =
     Option.bind (spend work 1) (\<lambda>work.
       if \<not> reachable ! from then indegree_all rows reachable (from + 1) rest indegree work
       else Option.bind (indegree_edges rows from edges indegree work) (\<lambda>(indegree, work).
              indegree_all rows reachable (from + 1) rest indegree work))"

fun release_edges ::
  "bit_row list \<Rightarrow> nat \<Rightarrow> nat list \<Rightarrow> nat list \<Rightarrow> nat list \<Rightarrow> nat \<Rightarrow> (nat list \<times> nat list \<times> nat) option" where
  "release_edges rows from [] indegree pending work = Some (indegree, pending, work)"
| "release_edges rows from (to # edges) indegree pending work =
     Option.bind (spend work 1) (\<lambda>work.
       if row_test (rows ! from) to then release_edges rows from edges indegree pending work
       else Option.bind (checked_sub (indegree ! to) 1) (\<lambda>degree.
              release_edges rows from edges (indegree[to := degree])
                (if degree = 0 then to # pending else pending) work))"

lemma release_edges_work: "release_edges rows from edges indegree pending work = Some (d, p, w) \<Longrightarrow> w \<le> work"
proof (induction edges arbitrary: indegree pending work)
  case (Cons x xs)
  show ?case using Cons.prems
    by (auto simp: bind_eq_Some_conv spend_Some split: if_splits dest!: Cons.IH)
qed simp

function topo_loop ::
  "bit_row list \<Rightarrow> nat list list \<Rightarrow> nat list \<Rightarrow> nat list \<Rightarrow> nat \<Rightarrow> nat \<Rightarrow> (nat \<times> nat) option" where
  "topo_loop rows successors indegree [] visited work = Some (visited, work)"
| "topo_loop rows successors indegree (from # pending) visited work =
     (case spend work 1 of
        None \<Rightarrow> None
      | Some work \<Rightarrow>
          (case release_edges rows from (successors ! from) indegree pending work of
             None \<Rightarrow> None
           | Some (indegree, pending, work) \<Rightarrow>
               topo_loop rows successors indegree pending (visited + 1) work))"
  by pat_completeness auto
termination
  by (relation "measure (\<lambda>(r, s, d, p, v, w). w)") (auto simp: spend_Some dest: release_edges_work)

subsection \<open>Natural loops\<close>

fun find_latches :: "bit_row list \<Rightarrow> nat \<Rightarrow> nat list \<Rightarrow> nat list \<Rightarrow> nat \<Rightarrow> (nat list \<times> nat) option" where
  "find_latches rows header [] latches work = Some (latches, work)"
| "find_latches rows header (pred # preds) latches work =
     Option.bind (spend work 1) (\<lambda>work.
       find_latches rows header preds
         (if row_test (rows ! pred) header then latches @ [pred] else latches) work)"

fun seed_members :: "nat list \<Rightarrow> bool list \<Rightarrow> nat list \<Rightarrow> bool list \<times> nat list" where
  "seed_members [] members pending = (members, pending)"
| "seed_members (latch # latches) members pending =
     (if \<not> members ! latch then seed_members latches (members[latch := True]) (latch # pending)
      else seed_members latches members pending)"

fun grow_members ::
  "bit_row list \<Rightarrow> bool list \<Rightarrow> nat \<Rightarrow> nat list \<Rightarrow> bool list \<Rightarrow> nat list \<Rightarrow> nat \<Rightarrow>
   (bool list \<times> nat list \<times> nat) option" where
  "grow_members rows reachable header [] members pending work = Some (members, pending, work)"
| "grow_members rows reachable header (pred # preds) members pending work =
     Option.bind (spend work 1) (\<lambda>work.
       if \<not> reachable ! pred then grow_members rows reachable header preds members pending work
       else if \<not> row_test (rows ! pred) header then None
       else if \<not> members ! pred
       then grow_members rows reachable header preds (members[pred := True]) (pred # pending) work
       else grow_members rows reachable header preds members pending work)"

lemma grow_members_work:
  "grow_members rows reachable header preds members pending work = Some (m, p, w) \<Longrightarrow> w \<le> work"
proof (induction preds arbitrary: members pending work)
  case (Cons x xs)
  show ?case using Cons.prems
    by (auto simp: bind_eq_Some_conv spend_Some split: if_splits dest!: Cons.IH)
qed simp

function member_loop ::
  "bit_row list \<Rightarrow> bool list \<Rightarrow> nat \<Rightarrow> nat list list \<Rightarrow> bool list \<Rightarrow> nat list \<Rightarrow> nat \<Rightarrow> (bool list \<times> nat) option" where
  "member_loop rows reachable header predecessors members [] work = Some (members, work)"
| "member_loop rows reachable header predecessors members (block # pending) work =
     (case spend work 1 of
        None \<Rightarrow> None
      | Some work \<Rightarrow>
          (case grow_members rows reachable header (predecessors ! block) members pending work of
             None \<Rightarrow> None
           | Some (members, pending, work) \<Rightarrow>
               member_loop rows reachable header predecessors members pending work))"
  by pat_completeness auto
termination
  by (relation "measure (\<lambda>(r, b, h, p, m, q, w). w)") (auto simp: spend_Some dest: grow_members_work)

fun find_entries ::
  "bool list \<Rightarrow> bool list \<Rightarrow> nat list \<Rightarrow> nat \<Rightarrow> nat option \<Rightarrow> nat \<Rightarrow> (nat \<times> nat option \<times> nat) option" where
  "find_entries reachable members [] entries preheader work = Some (entries, preheader, work)"
| "find_entries reachable members (pred # preds) entries preheader work =
     Option.bind (spend work 1) (\<lambda>work.
       if reachable ! pred \<and> \<not> members ! pred
       then find_entries reachable members preds (entries + 1) (Some pred) work
       else find_entries reachable members preds entries preheader work)"

definition pick_preheader ::
  "bit_row list \<Rightarrow> nat list list \<Rightarrow> nat \<Rightarrow> nat \<Rightarrow> nat option \<Rightarrow> nat option" where
  "pick_preheader rows successors header entries preheader =
     (case preheader of
        None \<Rightarrow> None
      | Some pred \<Rightarrow>
          if entries = 1 \<and> successors ! pred = [header] \<and> row_test (rows ! header) pred
          then Some pred else None)"

definition blocks_of :: "bool list \<Rightarrow> nat list" where
  "blocks_of members = filter (\<lambda>block. members ! block) [0..<length members]"

text \<open>One header: nothing when no edge comes back to it.\<close>

definition header_loop ::
  "nat list \<Rightarrow> nat list list \<Rightarrow> nat list list \<Rightarrow> bool list \<Rightarrow> bit_row list \<Rightarrow> nat \<Rightarrow> nat \<Rightarrow>
   ((natural_loop \<times> bool list) option \<times> nat) option" where
  "header_loop pcs successors predecessors reachable rows header work =
     (let n = length pcs in
      Option.bind (spend work 1) (\<lambda>work.
      if \<not> reachable ! header then Some (None, work)
      else
        Option.bind (find_latches rows header (predecessors ! header) [] work) (\<lambda>(latches, work).
        if latches = [] then Some (None, work)
        else
          Option.bind (checked_mul usize_max n 2) (\<lambda>cost.
          Option.bind (spend work cost) (\<lambda>work.
          (case seed_members latches ((replicate n False)[header := True]) [] of (members, pending) \<Rightarrow>
          Option.bind (member_loop rows reachable header predecessors members pending work)
            (\<lambda>(members, work).
          Option.bind (find_entries reachable members (predecessors ! header) 0 None work)
            (\<lambda>(entries, preheader, work).
          Some (Some
            (\<lparr>nl_header = pcs ! header,
              nl_preheader = map_option ((!) pcs) (pick_preheader rows successors header entries preheader),
              nl_members = map ((!) pcs) (blocks_of members)\<rparr>, members), work)))))))))"

fun loops_from ::
  "nat list \<Rightarrow> nat list list \<Rightarrow> nat list list \<Rightarrow> bool list \<Rightarrow> bit_row list \<Rightarrow> nat list \<Rightarrow>
   natural_loop list \<Rightarrow> bool list \<Rightarrow> nat \<Rightarrow> (natural_loop list \<times> bool list \<times> nat) option" where
  "loops_from pcs successors predecessors reachable rows [] loops loop_blocks work =
     Some (loops, loop_blocks, work)"
| "loops_from pcs successors predecessors reachable rows (header # headers) loops loop_blocks work =
     Option.bind (header_loop pcs successors predecessors reachable rows header work) (\<lambda>(found, work).
       case found of
         None \<Rightarrow> loops_from pcs successors predecessors reachable rows headers loops loop_blocks work
       | Some (l, members) \<Rightarrow>
           loops_from pcs successors predecessors reachable rows headers (loops @ [l])
             (map2 (\<or>) loop_blocks members) work)"

fun mark_nodes :: "bool list \<Rightarrow> (nat \<times> nat) option list \<Rightarrow> bool list option" where
  "mark_nodes loop_blocks [] = Some []"
| "mark_nodes loop_blocks (owner # owners) =
     Option.bind
       (case owner of
          Some (block, _) \<Rightarrow> if block < length loop_blocks then Some (loop_blocks ! block) else None
        | None \<Rightarrow> Some False)
       (\<lambda>member. map_option ((#) member) (mark_nodes loop_blocks owners))"

subsection \<open>The whole analysis\<close>

definition strictly_increasing :: "nat list \<Rightarrow> bool" where
  "strictly_increasing pcs \<longleftrightarrow> (\<forall>i < length pcs - 1. pcs ! i < pcs ! (i + 1))"

definition analyze_graph ::
  "nat list \<Rightarrow> nat list list \<Rightarrow> (nat \<times> nat) option list \<Rightarrow> nat \<Rightarrow> loop_analysis option" where
  "analyze_graph pcs successors owners work =
     (let n = length pcs; words = (n + 63) div 64 in
      Option.bind (checked_mul usize_max n 16) (\<lambda>a.
      Option.bind (checked_mul usize_max n words) (\<lambda>b.
      Option.bind (checked_add usize_max a b) (\<lambda>cost.
      Option.bind (checked_add usize_max cost (length owners)) (\<lambda>cost.
      Option.bind (spend work cost) (\<lambda>work.
      if pcs = [] \<or> hd pcs \<noteq> 0 \<or> \<not> strictly_increasing pcs \<or> length successors \<noteq> n then None
      else
      Option.bind (add_all_edges 0 successors (replicate n []) work) (\<lambda>(predecessors, work).
      Option.bind (reach_loop successors ((replicate n False)[0 := True]) [0] work) (\<lambda>(reachable, work).
      let reachable_bits = reachable_row words reachable in
      Option.bind (dominator_loop words reachable reachable_bits predecessors
                     (initial_rows words reachable reachable_bits) work) (\<lambda>(rows, work).
      Option.bind (indegree_all rows reachable 0 successors (replicate n 0) work) (\<lambda>(indegree, work).
      Option.bind (topo_loop rows successors indegree
                     (rev (filter (\<lambda>i. reachable ! i \<and> indegree ! i = 0) [0..<n])) 0 work) (\<lambda>(visited, work).
      if visited \<noteq> length (filter id reachable) then None
      else
      Option.bind (loops_from pcs successors predecessors reachable rows [0..<n] [] (replicate n False) work)
        (\<lambda>(loops, loop_blocks, work).
      Option.bind (spend work (length owners)) (\<lambda>work.
      Option.bind (mark_nodes loop_blocks owners) (\<lambda>loop_nodes.
      Some \<lparr>la_complete = True, la_pcs = pcs, la_dominators = rows, la_owners = owners,
            la_loop_nodes = loop_nodes, la_loops = loops\<rparr>))))))))))))))"

subsection \<open>The optimised representation\<close>

record opt_node =
  on_id :: nat
  on_pc :: nat
  on_entry_guard :: bool

record opt_block =
  ob_start_pc :: nat
  ob_successors :: "nat list"
  ob_nodes :: "nat list"

record loop_ir =
  li_blocks :: "opt_block list"
  li_nodes :: "opt_node list"

text \<open>The search is used on strictly increasing slices only, where it finds the one position.\<close>

fun binary_search :: "nat list \<Rightarrow> nat \<Rightarrow> nat option" where
  "binary_search [] pc = None"
| "binary_search (x # xs) pc = (if x = pc then Some 0 else map_option Suc (binary_search xs pc))"

fun find_all :: "nat list \<Rightarrow> nat list \<Rightarrow> nat list option" where
  "find_all pcs [] = Some []"
| "find_all pcs (pc # rest) =
     Option.bind (binary_search pcs pc) (\<lambda>edge. map_option ((#) edge) (find_all pcs rest))"

fun own_nodes ::
  "opt_node list \<Rightarrow> nat \<Rightarrow> nat \<Rightarrow> nat list \<Rightarrow> (nat \<times> nat) option list \<Rightarrow> nat \<Rightarrow>
   ((nat \<times> nat) option list \<times> nat) option" where
  "own_nodes nodes at offset [] owners work = Some (owners, work)"
| "own_nodes nodes at offset (i # is) owners work =
     Option.bind (spend work 1) (\<lambda>work.
       if length nodes \<le> i then None
       else if on_id (nodes ! i) \<noteq> i \<or> owners ! i \<noteq> None then None
       else own_nodes nodes at (offset + 1) is (owners[i := Some (at, offset)]) work)"

fun read_blocks ::
  "nat list \<Rightarrow> opt_node list \<Rightarrow> nat \<Rightarrow> nat \<Rightarrow> opt_block list \<Rightarrow> nat list list \<Rightarrow>
   (nat \<times> nat) option list \<Rightarrow> nat \<Rightarrow> (nat list list \<times> (nat \<times> nat) option list \<times> nat) option" where
  "read_blocks pcs nodes search_cost at [] successors owners work = Some (successors, owners, work)"
| "read_blocks pcs nodes search_cost at (block # blocks) successors owners work =
     Option.bind (checked_mul usize_max (length (ob_successors block)) search_cost) (\<lambda>cost.
     Option.bind (spend work cost) (\<lambda>work.
     Option.bind (find_all pcs (ob_successors block)) (\<lambda>edges.
     Option.bind (own_nodes nodes at 0 (ob_nodes block) owners work) (\<lambda>(owners, work).
       read_blocks pcs nodes search_cost (at + 1) blocks (successors @ [edges]) owners work))))"

fun check_owners ::
  "opt_node list \<Rightarrow> nat \<Rightarrow> (nat \<times> nat) option list \<Rightarrow> nat \<Rightarrow> nat option" where
  "check_owners nodes i [] work = Some work"
| "check_owners nodes i (owner # owners) work =
     Option.bind (spend work 1) (\<lambda>work.
       if owner = None \<and> \<not> (i = 0 \<and> on_pc (nodes ! i) = 0 \<and> on_entry_guard (nodes ! i)) then None
       else check_owners nodes (i + 1) owners work)"

definition bit_length :: "nat \<Rightarrow> nat" where
  "bit_length n = length (takeWhile (\<lambda>k. 2 ^ k \<le> n) [0..<64])"

definition try_analyze :: "loop_ir \<Rightarrow> nat \<Rightarrow> loop_analysis option" where
  "try_analyze ir work =
     (let n = length (li_blocks ir) in
      Option.bind (checked_mul usize_max n 4) (\<lambda>a.
      Option.bind (checked_add usize_max a (length (li_nodes ir))) (\<lambda>cost.
      Option.bind (spend work cost) (\<lambda>work.
      let pcs = map ob_start_pc (li_blocks ir) in
      if pcs = [] \<or> hd pcs \<noteq> 0 \<or> \<not> strictly_increasing pcs then None
      else
      Option.bind (read_blocks pcs (li_nodes ir) (bit_length n + 1) 0 (li_blocks ir) []
                     (replicate (length (li_nodes ir)) None) work) (\<lambda>(successors, owners, work).
      Option.bind (check_owners (li_nodes ir) 0 owners work) (\<lambda>work.
        analyze_graph pcs successors owners work))))))"

definition analyze :: "loop_ir \<Rightarrow> nat \<Rightarrow> loop_analysis" where
  "analyze ir work = (case try_analyze ir work of None \<Rightarrow> default_analysis | Some r \<Rightarrow> r)"

definition loop_bytes_upper_bound :: "loop_ir \<Rightarrow> nat \<Rightarrow> nat" where
  "loop_bytes_upper_bound ir work =
     (let n = length (li_blocks ir);
          nodes = length (li_nodes ir);
          edges = fold (\<lambda>block sum. sat_add usize_max sum (length (ob_successors block))) (li_blocks ir) 0;
          graph_bound =
            sat_add usize_max
             (sat_add usize_max
               (sat_add usize_max
                 (sat_add usize_max (sat_mul usize_max (sat_mul usize_max n ((n + 63) div 64)) 8)
                   (sat_mul usize_max (sat_mul usize_max n n) 4))
                 (sat_mul usize_max n 256))
               (sat_mul usize_max nodes 64))
             (sat_mul usize_max edges 64)
      in min graph_bound (sat_mul usize_max work 64))"

definition la_contains :: "loop_analysis \<Rightarrow> nat \<Rightarrow> bool" where
  "la_contains r node \<longleftrightarrow> node < length (la_loop_nodes r) \<and> la_loop_nodes r ! node"

definition la_dominates :: "loop_analysis \<Rightarrow> nat \<Rightarrow> nat \<Rightarrow> bool" where
  "la_dominates r a b =
     (case (binary_search (la_pcs r) a, binary_search (la_pcs r) b) of
        (Some a, Some b) \<Rightarrow> row_test (la_dominators r ! b) a
      | _ \<Rightarrow> False)"

definition owner_of :: "loop_analysis \<Rightarrow> nat \<Rightarrow> (nat \<times> nat) option" where
  "owner_of r node = (if node < length (la_owners r) then la_owners r ! node else None)"

definition block_for_node :: "loop_analysis \<Rightarrow> nat \<Rightarrow> nat option" where
  "block_for_node r node =
     Option.bind (owner_of r node) (\<lambda>(block, _).
       if block < length (la_pcs r) then Some (la_pcs r ! block) else None)"

definition node_dominates :: "loop_analysis \<Rightarrow> nat \<Rightarrow> nat \<Rightarrow> bool" where
  "node_dominates r a b =
     (case (owner_of r a, owner_of r b) of
        (Some (ab, ai), Some (bb, bi)) \<Rightarrow>
          la_dominates r (la_pcs r ! ab) (la_pcs r ! bb) \<and> (ab \<noteq> bb \<or> ai \<le> bi)
      | _ \<Rightarrow> False)"

definition contains_block :: "natural_loop \<Rightarrow> nat \<Rightarrow> bool" where
  "contains_block l pc \<longleftrightarrow> binary_search (nl_members l) pc \<noteq> None"

end
