(* ===== verification/Loop_Sound.thy ===== *)
theory Loop_Sound
  imports Loops
begin

text \<open>
  Correctness of the loop analysis of \<open>Loops\<close>, over paths from the entry block: the rows of words
  hold exactly the dominators, an accepted graph is reducible, the loops are the natural loops of the
  edges that come back to a dominator, and a block is in a loop exactly when it lies on a cycle.
\<close>

section \<open>Paths and dominance\<close>

definition edge :: "nat list list \<Rightarrow> nat \<Rightarrow> nat \<Rightarrow> bool" where
  "edge succs u v \<longleftrightarrow> u < length succs \<and> v \<in> set (succs ! u)"

definition closed_graph :: "nat list list \<Rightarrow> bool" where
  "closed_graph succs \<longleftrightarrow> (\<forall>u v. edge succs u v \<longrightarrow> v < length succs)"

lemma closed_graphD: "closed_graph succs \<Longrightarrow> edge succs u v \<Longrightarrow> v < length succs"
  by (auto simp: closed_graph_def)

text \<open>A path from the entry, its last block first.\<close>

inductive entry_path :: "nat list list \<Rightarrow> nat list \<Rightarrow> nat \<Rightarrow> bool" for succs where
  path_entry: "entry_path succs [0] 0"
| path_step: "entry_path succs p u \<Longrightarrow> edge succs u v \<Longrightarrow> entry_path succs (v # p) v"

definition live :: "nat list list \<Rightarrow> nat \<Rightarrow> bool" where
  "live succs v \<longleftrightarrow> (\<exists>p. entry_path succs p v)"

definition dom_by :: "nat list list \<Rightarrow> nat \<Rightarrow> nat \<Rightarrow> bool" where
  "dom_by succs a b \<longleftrightarrow> (\<forall>p. entry_path succs p b \<longrightarrow> a \<in> set p)"

lemma live_entry [simp]: "live succs 0"
  by (auto simp: live_def intro: path_entry)

lemma live_edge: "live succs u \<Longrightarrow> edge succs u v \<Longrightarrow> live succs v"
  by (auto simp: live_def intro: path_step)

lemma live_path: "entry_path succs p v \<Longrightarrow> live succs v"
  by (auto simp: live_def)

lemma on_path_live: "entry_path succs p v \<Longrightarrow> x \<in> set p \<Longrightarrow> live succs x"
  by (induction rule: entry_path.induct) (auto intro: live_path path_step)

lemma dom_live: "dom_by succs a b \<Longrightarrow> live succs b \<Longrightarrow> live succs a"
  by (auto simp: dom_by_def live_def intro: on_path_live [unfolded live_def])

lemma live_bound:
  assumes "\<And>u v. edge succs u v \<Longrightarrow> v < n" "0 < n" "live succs v"
  shows "v < n"
proof -
  obtain p where "entry_path succs p v" using assms(3) by (auto simp: live_def)
  then show ?thesis by cases (use assms in auto)
qed

lemma live_induct [consumes 1, case_names entry step]:
  assumes "live succs v" "P 0" "\<And>u v. live succs u \<Longrightarrow> P u \<Longrightarrow> edge succs u v \<Longrightarrow> P v"
  shows "P v"
proof -
  obtain p where "entry_path succs p v" using assms(1) by (auto simp: live_def)
  then show ?thesis by induction (auto intro: assms live_path)
qed

text \<open>A dominator of a block is the block or dominates each of its live predecessors.\<close>

lemma dom_pred: "dom_by succs a v \<Longrightarrow> a \<noteq> v \<Longrightarrow> edge succs u v \<Longrightarrow> dom_by succs a u"
  unfolding dom_by_def using path_step by fastforce

section \<open>Predecessors\<close>

lemma add_edges_spec:
  assumes "add_edges f edges preds work = Some (preds', work')"
  shows "length preds' = length preds \<and> (\<forall>v \<in> set edges. v < length preds) \<and>
    (\<forall>v < length preds. set (preds' ! v) = set (preds ! v) \<union> (if v \<in> set edges then {f} else {}))"
  using assms
proof (induction edges arbitrary: preds work)
  case (Cons v edges)
  obtain w where v: "v < length preds" and r: "add_edges f edges (preds[v := preds ! v @ [f]]) w = Some (preds', work')"
    using Cons.prems by (auto simp: bind_eq_Some_conv split: if_splits)
  show ?case using Cons.IH [OF r] v by (auto simp: nth_list_update split: if_splits)
qed simp

lemma add_all_edges_spec:
  assumes "add_all_edges f rest preds work = Some (preds', work')"
  shows "length preds' = length preds \<and> (\<forall>i < length rest. \<forall>v \<in> set (rest ! i). v < length preds) \<and>
    (\<forall>v < length preds. set (preds' ! v) = set (preds ! v) \<union> {f + i | i. i < length rest \<and> v \<in> set (rest ! i)})"
  using assms
proof (induction rest arbitrary: f preds work)
  case (Cons edges rest)
  obtain preds1 w where a: "add_edges f edges preds work = Some (preds1, w)"
    and r: "add_all_edges (f + 1) rest preds1 w = Some (preds', work')"
    using Cons.prems by (auto simp: bind_eq_Some_conv)
  note s = add_edges_spec [OF a] and t = Cons.IH [OF r]
  have split: "{f + i | i. i < length (edges # rest) \<and> v \<in> set ((edges # rest) ! i)} =
      (if v \<in> set edges then {f} else {}) \<union> {f + 1 + i | i. i < length rest \<and> v \<in> set (rest ! i)}" for v
  proof (rule set_eqI)
    fix x
    have "(\<exists>i < length (edges # rest). x = f + i \<and> v \<in> set ((edges # rest) ! i)) \<longleftrightarrow>
        x = f \<and> v \<in> set edges \<or> (\<exists>i < length rest. x = f + 1 + i \<and> v \<in> set (rest ! i))"
      by (simp add: Ex_less_Suc2)
    then show "x \<in> {f + i | i. i < length (edges # rest) \<and> v \<in> set ((edges # rest) ! i)} \<longleftrightarrow>
        x \<in> (if v \<in> set edges then {f} else {}) \<union> {f + 1 + i | i. i < length rest \<and> v \<in> set (rest ! i)}"
      by auto
  qed
  have "v < length preds" if "i < length (edges # rest)" "v \<in> set ((edges # rest) ! i)" for i v
    using that s t by (cases i) auto
  moreover have "set (preds' ! v) = set (preds ! v) \<union>
      {f + i | i. i < length (edges # rest) \<and> v \<in> set ((edges # rest) ! i)}" if "v < length preds" for v
    unfolding split using s t that by auto
  ultimately show ?case using s t by simp
qed simp

lemma predecessors_spec:
  assumes "add_all_edges 0 succs (replicate n []) work = Some (preds, work')"
  shows "length preds = n" "edge succs u v \<Longrightarrow> v < n" "v < n \<Longrightarrow> u \<in> set (preds ! v) \<longleftrightarrow> edge succs u v"
  using add_all_edges_spec [OF assms] by (auto simp: edge_def)

text \<open>Parallel edges are kept apart.\<close>

lemma add_edges_count:
  assumes "add_edges f edges preds work = Some (preds', work')" "v < length preds"
  shows "count_list (preds' ! v) u = count_list (preds ! v) u + (if u = f then count_list edges v else 0)"
  using assms
proof (induction edges arbitrary: preds work)
  case (Cons t edges)
  obtain w where t: "t < length preds" and r: "add_edges f edges (preds[t := preds ! t @ [f]]) w = Some (preds', work')"
    using Cons.prems(1) by (auto simp: bind_eq_Some_conv split: if_splits)
  show ?case using Cons.IH [OF r] Cons.prems(2) t by (auto simp: nth_list_update)
qed simp

lemma add_all_edges_count:
  assumes "add_all_edges f rest preds work = Some (preds', work')" "v < length preds"
  shows "count_list (preds' ! v) u = count_list (preds ! v) u +
    (if f \<le> u \<and> u < f + length rest then count_list (rest ! (u - f)) v else 0)"
  using assms
proof (induction rest arbitrary: f preds work)
  case (Cons edges rest)
  obtain preds1 w where a: "add_edges f edges preds work = Some (preds1, w)"
    and r: "add_all_edges (f + 1) rest preds1 w = Some (preds', work')"
    using Cons.prems(1) by (auto simp: bind_eq_Some_conv)
  have "v < length preds1" using add_edges_spec [OF a] Cons.prems(2) by simp
  from Cons.IH [OF r this] add_edges_count [OF a Cons.prems(2), of u]
  show ?case by (cases "u = f") (auto simp: nth_Cons' Suc_le_eq)
qed simp

lemma predecessors_count:
  assumes "add_all_edges 0 succs (replicate n []) work = Some (preds, work')" "v < n" "u < length succs"
  shows "count_list (preds ! v) u = count_list (succs ! u) v"
  using add_all_edges_count [OF assms(1), of v u] assms(2,3) by simp

section \<open>Reachability\<close>

lemma mark_next_spec:
  assumes "mark_next edges marks pending work = Some (marks', pending', work')" "\<forall>e \<in> set edges. e < length marks"
  shows "length marks' = length marks \<and> (\<forall>v < length marks. marks' ! v \<longleftrightarrow> marks ! v \<or> v \<in> set edges) \<and>
    set pending' = set pending \<union> {v \<in> set edges. \<not> marks ! v}"
  using assms
proof (induction edges arbitrary: marks pending work)
  case (Cons e edges)
  show ?case
  proof (cases "marks ! e")
    case True
    then obtain w where "mark_next edges marks pending w = Some (marks', pending', work')"
      using Cons.prems(1) by (auto simp: bind_eq_Some_conv)
    from Cons.IH [OF this] show ?thesis using Cons.prems(2) True by auto
  next
    case False
    then obtain w where "mark_next edges (marks[e := True]) (e # pending) w = Some (marks', pending', work')"
      using Cons.prems(1) by (auto simp: bind_eq_Some_conv)
    from Cons.IH [OF this] show ?thesis using Cons.prems(2) False
      by (auto simp: nth_list_update split: if_splits)
  qed
qed simp

definition reach_inv :: "nat list list \<Rightarrow> bool list \<Rightarrow> nat list \<Rightarrow> bool" where
  "reach_inv succs marks pending \<longleftrightarrow>
     length marks = length succs \<and> (\<forall>v < length succs. marks ! v \<longrightarrow> live succs v) \<and> marks ! 0 \<and>
     (\<forall>v \<in> set pending. v < length succs \<and> marks ! v) \<and>
     (\<forall>u < length succs. marks ! u \<longrightarrow> u \<notin> set pending \<longrightarrow> (\<forall>v \<in> set (succs ! u). marks ! v))"

lemma reach_loop_inv:
  assumes "reach_inv succs marks pending" "closed_graph succs"
    and "reach_loop succs marks pending work = Some (marks', work')"
  shows "reach_inv succs marks' []"
  using assms
proof (induction succs marks pending work rule: reach_loop.induct)
  case (2 succs marks block pending work)
  obtain w where w: "spend work 1 = Some w" using 2(4) by (cases "spend work 1") simp_all
  obtain marks1 pending1 w1 where m: "mark_next (succs ! block) marks pending w = Some (marks1, pending1, w1)"
    using 2(4) w by (cases "mark_next (succs ! block) marks pending w") auto
  have rest: "reach_loop succs marks1 pending1 w1 = Some (marks', work')" using 2(4) w m by simp
  have inv: "length marks = length succs" "\<forall>v < length succs. marks ! v \<longrightarrow> live succs v" "marks ! 0"
    "\<forall>v \<in> set (block # pending). v < length succs \<and> marks ! v"
    "\<forall>u < length succs. marks ! u \<longrightarrow> u \<notin> set (block # pending) \<longrightarrow> (\<forall>v \<in> set (succs ! u). marks ! v)"
    using 2(2) unfolding reach_inv_def by blast+
  have b: "block < length succs" "live succs block" using inv(2,4) by auto
  have e: "v < length succs \<and> live succs v" if "v \<in> set (succs ! block)" for v
    using closed_graphD [OF 2(3), of block v] live_edge [OF b(2), of v] that b(1) by (simp add: edge_def)
  have edges: "\<forall>v \<in> set (succs ! block). v < length marks" using e inv(1) by simp
  note s = mark_next_spec [OF m edges]
  have "reach_inv succs marks1 pending1"
    unfolding reach_inv_def
  proof (intro conjI allI impI ballI)
    show "length marks1 = length succs" using s inv(1) by simp
    have up: "marks1 ! v \<longleftrightarrow> marks ! v \<or> v \<in> set (succs ! block)" if "v < length succs" for v
      using s inv(1) that by simp
    show "live succs v" if "v < length succs" "marks1 ! v" for v using that up inv(2) e by blast
    show "marks1 ! 0" using up [of 0] inv(3) b(1) by (cases "length succs") auto
    show "v < length succs" "marks1 ! v" if "v \<in> set pending1" for v
      using that s inv(4) e up by auto
    show "marks1 ! v" if u: "u < length succs" "marks1 ! u" "u \<notin> set pending1" and v: "v \<in> set (succs ! u)" for u v
    proof -
      have vn: "v < length succs" using closed_graphD [OF 2(3), of u v] u(1) v by (simp add: edge_def)
      show ?thesis
      proof (cases "u = block")
        case True
        then show ?thesis using up [OF vn] v by simp
      next
        case False
        have "marks ! u" using u up [OF u(1)] s by auto
        moreover have "u \<notin> set (block # pending)" using False u(3) s by auto
        ultimately show ?thesis using inv(5) u(1) v up [OF vn] by blast
      qed
    qed
  qed
  from 2(1) [OF w m refl refl this 2(3) rest] show ?case .
qed simp

lemma reach_loop_exact:
  assumes e: "closed_graph succs" and n: "0 < length succs"
    and r: "reach_loop succs ((replicate (length succs) False)[0 := True]) [0] work = Some (marks, work')"
  shows "length marks = length succs" "v < length succs \<Longrightarrow> marks ! v \<longleftrightarrow> live succs v"
proof -
  have "reach_inv succs ((replicate (length succs) False)[0 := True]) [0]"
    using n by (auto simp: reach_inv_def nth_list_update)
  then have inv: "reach_inv succs marks []" using e r by (rule reach_loop_inv)
  then show "length marks = length succs" by (simp add: reach_inv_def)
  have closed: "marks ! v" if "u < length succs" "marks ! u" "v \<in> set (succs ! u)" for u v
    using inv that unfolding reach_inv_def list.set empty_iff by blast
  have sound: "live succs v" if "v < length succs" "marks ! v" for v
    using inv that unfolding reach_inv_def by blast
  have "marks ! v" if "live succs v" for v
    using that
  proof (induction rule: live_induct)
    case (step u v)
    then show ?case using closed [of u v] by (simp add: edge_def)
  qed (use inv in \<open>simp add: reach_inv_def\<close>)
  then show "v < length succs \<Longrightarrow> marks ! v \<longleftrightarrow> live succs v" using sound by blast
qed


section \<open>Rows of words\<close>

lemma row_test_bit: "row_test row a \<longleftrightarrow> bit (row ! (a div 64)) (a mod 64)"
  by (simp add: row_test_def push_bit_of_1 and_exp_eq_0_iff_not_bit)

lemma same_position: "a div 64 = i div 64 \<Longrightarrow> a mod 64 = i mod 64 \<Longrightarrow> a = (i::nat)"
  by (metis mult_div_mod_eq)

lemma row_test_set:
  assumes "i div 64 < length row"
  shows "row_test (row_set i row) a \<longleftrightarrow> a = i \<or> row_test row a"
proof (cases "a div 64 = i div 64")
  case True
  have "a mod 64 < 64" by simp
  then show ?thesis using assms True same_position [of a i]
    by (auto simp: row_test_bit row_set_def bit_simps)
next
  case False
  then show ?thesis by (auto simp: row_test_bit row_set_def)
qed

lemma length_row_set [simp]: "length (row_set i row) = length row"
  by (simp add: row_set_def)

lemma row_test_meet:
  assumes "a div 64 < length x" "a div 64 < length y"
  shows "row_test (map2 (\<lambda>word incoming. word AND incoming) x y) a \<longleftrightarrow> row_test x a \<and> row_test y a"
  using assms by (simp add: row_test_bit bit_simps)

lemma row_test_zero [simp]: "a div 64 < words \<Longrightarrow> \<not> row_test (replicate words 0) a"
  by (simp add: row_test_bit)

lemma row_test_one:
  assumes "a div 64 < words"
  shows "row_test ((replicate words 0)[0 := 1]) a \<longleftrightarrow> a = 0"
proof (cases "a div 64 = 0")
  case True
  then have "a < 64" by simp
  then show ?thesis using assms by (auto simp: row_test_bit bit_simps)
next
  case False
  then show ?thesis using assms by (auto simp: row_test_bit)
qed

text \<open>The words of a row for \<open>n\<close> blocks.\<close>

lemma word_index: "a < n \<Longrightarrow> a div 64 < (n + 63) div (64::nat)"
  by (simp add: less_mult_imp_div_less)

lemma reachable_row_fold:
  assumes "\<forall>i \<in> set is. i div 64 < length row"
  shows "length (fold (\<lambda>i row. if marks ! i then row_set i row else row) is row) = length row \<and>
    (row_test (fold (\<lambda>i row. if marks ! i then row_set i row else row) is row) a \<longleftrightarrow>
      row_test row a \<or> a \<in> set is \<and> marks ! a)"
  using assms by (induction "is" arbitrary: row) (auto simp: row_test_set)

lemma reachable_row_spec:
  assumes "a div 64 < words" "words = (length marks + 63) div 64"
  shows "row_test (reachable_row words marks) a \<longleftrightarrow> a < length marks \<and> marks ! a"
    "length (reachable_row words marks) = words"
  using reachable_row_fold [of "[0..<length marks]" "replicate words 0" marks a] assms word_index [of _ "length marks"]
  by (auto simp: reachable_row_def)

lemma reachable_row_length: "length (reachable_row words marks) = words"
proof -
  have "length (fold (\<lambda>i row. if marks ! i then row_set i row else row) is row) = length row"
    for "is" and row :: bit_row by (induction "is" arbitrary: row) auto
  then show ?thesis by (simp add: reachable_row_def)
qed

section \<open>Dominators\<close>

lemma meet_preds_spec:
  assumes "meet_preds words marks rows preds next work = Some (next', work')"
    and "length next = words" "\<forall>p \<in> set preds. marks ! p \<longrightarrow> length (rows ! p) = words"
  shows "length next' = words \<and> (\<forall>a. a div 64 < words \<longrightarrow>
    (row_test next' a \<longleftrightarrow> row_test next a \<and> (\<forall>p \<in> set preds. marks ! p \<longrightarrow> row_test (rows ! p) a)))"
  using assms
proof (induction preds arbitrary: "next" work)
  case (Cons p preds)
  show ?case
  proof (cases "marks ! p")
    case False
    then obtain w where "meet_preds words marks rows preds next w = Some (next', work')"
      using Cons.prems(1) by (auto simp: bind_eq_Some_conv)
    from Cons.IH [OF this] show ?thesis using Cons.prems(2,3) False by auto
  next
    case True
    let ?next = "map2 (\<lambda>word incoming. word AND incoming) next (rows ! p)"
    obtain w where r: "meet_preds words marks rows preds ?next w = Some (next', work')"
      using Cons.prems(1) True by (auto simp: bind_eq_Some_conv)
    have len: "length (rows ! p) = words" using Cons.prems(3) True by simp
    from Cons.IH [OF r] show ?thesis using Cons.prems(2,3) True len by (auto simp: row_test_meet)
  qed
qed simp

text \<open>A round: what it keeps, and what it means when it changes nothing.\<close>

definition meets ::
  "bool list \<Rightarrow> nat list list \<Rightarrow> bit_row list \<Rightarrow> nat \<Rightarrow> nat \<Rightarrow> bool" where
  "meets marks preds rows block a \<longleftrightarrow>
     a = block \<or> a < length marks \<and> marks ! a \<and> (\<forall>p \<in> set (preds ! block). marks ! p \<longrightarrow> row_test (rows ! p) a)"

definition rows_ok :: "nat list list \<Rightarrow> bool list \<Rightarrow> nat \<Rightarrow> bit_row list \<Rightarrow> bool" where
  "rows_ok succs marks words rows \<longleftrightarrow>
     length rows = length marks \<and> (\<forall>b < length marks. length (rows ! b) = words) \<and>
     (\<forall>a b. b < length marks \<longrightarrow> a < length marks \<longrightarrow> marks ! b \<longrightarrow> dom_by succs a b \<longrightarrow> row_test (rows ! b) a) \<and>
     (\<forall>a. a div 64 < words \<longrightarrow> (row_test (rows ! 0) a \<longleftrightarrow> a = 0)) \<and>
     (\<forall>a b. a div 64 < words \<longrightarrow> b < length marks \<longrightarrow> \<not> marks ! b \<longrightarrow> \<not> row_test (rows ! b) a)"

lemma dominator_round_spec:
  assumes "dominator_round words marks (reachable_row words marks) preds blocks rows changed work =
      Some (rows', changed', work')"
    and "rows_ok succs marks words rows" "words = (length marks + 63) div 64"
    and "\<forall>b \<in> set blocks. 0 < b \<and> b < length marks"
    and "\<And>u v. v < length marks \<Longrightarrow> u \<in> set (preds ! v) \<longleftrightarrow> edge succs u v"
    and "\<And>v. v < length marks \<Longrightarrow> marks ! v \<longleftrightarrow> live succs v" "length marks = length succs"
  shows "rows_ok succs marks words rows' \<and> (changed \<longrightarrow> changed') \<and>
    (\<not> changed' \<longrightarrow> rows' = rows \<and> (\<forall>b \<in> set blocks. marks ! b \<longrightarrow>
       (\<forall>a. a div 64 < words \<longrightarrow> (row_test (rows ! b) a \<longleftrightarrow> meets marks preds rows b a))))"
  using assms(1,2,4)
proof (induction blocks arbitrary: rows changed work)
  case (Cons b blocks)
  have b: "0 < b" "b < length marks" using Cons.prems(3) by auto
  show ?case
  proof (cases "marks ! b")
    case False
    then obtain w where "dominator_round words marks (reachable_row words marks) preds blocks rows changed w =
        Some (rows', changed', work')"
      using Cons.prems(1) by (auto simp: bind_eq_Some_conv)
    from Cons.IH [OF this Cons.prems(2)] show ?thesis using Cons.prems(3) False by auto
  next
    case True
    obtain next1 w1 w2 where m: "meet_preds words marks rows (preds ! b) (reachable_row words marks) w1 = Some (next1, w2)"
      and r: "\<exists>w3. dominator_round words marks (reachable_row words marks) preds blocks
        (if row_set b next1 \<noteq> rows ! b then rows[b := row_set b next1] else rows)
        (if row_set b next1 \<noteq> rows ! b then True else changed) w3 = Some (rows', changed', work')"
      using Cons.prems(1) True by (fastforce simp: bind_eq_Some_conv Let_def split: if_splits)
    have ok: "length rows = length marks" "\<forall>b < length marks. length (rows ! b) = words"
      "\<forall>a b. b < length marks \<longrightarrow> a < length marks \<longrightarrow> marks ! b \<longrightarrow> dom_by succs a b \<longrightarrow> row_test (rows ! b) a"
      "\<forall>a. a div 64 < words \<longrightarrow> (row_test (rows ! 0) a \<longleftrightarrow> a = 0)"
      "\<forall>a b. a div 64 < words \<longrightarrow> b < length marks \<longrightarrow> \<not> marks ! b \<longrightarrow> \<not> row_test (rows ! b) a"
      using Cons.prems(2) unfolding rows_ok_def by blast+
    have preds: "p < length marks" if "p \<in> set (preds ! b)" for p
      using assms(5) [OF b(2)] that assms(7) by (simp add: edge_def)
    have wb: "b div 64 < words" using word_index [OF b(2)] assms(3) by simp
    from meet_preds_spec [OF m reachable_row_length] ok(2) preds
    have n1: "length next1 = words"
      and n2: "\<And>a. a div 64 < words \<Longrightarrow> row_test next1 a \<longleftrightarrow>
        row_test (reachable_row words marks) a \<and> (\<forall>p \<in> set (preds ! b). marks ! p \<longrightarrow> row_test (rows ! p) a)"
      by blast+
    have new: "row_test (row_set b next1) a \<longleftrightarrow> meets marks preds rows b a" if "a div 64 < words" for a
      using n1 n2 [OF that] reachable_row_spec(1) [OF that assms(3)] wb
      by (auto simp: row_test_set meets_def)
    have sound: "row_test (row_set b next1) a" if a: "a < length marks" "dom_by succs a b" for a
    proof -
      have lb: "live succs b" using True assms(6) b(2) by simp
      have "marks ! a" using dom_live [OF a(2) lb] assms(6) a(1) by simp
      moreover have "row_test (rows ! p) a" if p: "p \<in> set (preds ! b)" "marks ! p" "a \<noteq> b" for p
        using dom_pred [OF a(2) p(3)] p assms(5) [OF b(2)] preds [OF p(1)] ok(3) a(1) by blast
      ultimately show ?thesis using new word_index [OF a(1)] assms(3) a(1) by (auto simp: meets_def)
    qed
    show ?thesis
    proof (cases "row_set b next1 = rows ! b")
      case same: True
      then obtain w3 where r: "dominator_round words marks (reachable_row words marks) preds blocks rows changed w3 =
          Some (rows', changed', work')" using r by auto
      show ?thesis using Cons.IH [OF r Cons.prems(2)] Cons.prems(3) new same by auto
    next
      case False
      then obtain w3 where r: "dominator_round words marks (reachable_row words marks) preds blocks
          (rows[b := row_set b next1]) True w3 = Some (rows', changed', work')" using r by auto
      have "rows_ok succs marks words (rows[b := row_set b next1])"
        unfolding rows_ok_def
        using ok n1 sound b True by (auto simp: nth_list_update)
      from Cons.IH [OF r this] show ?thesis using Cons.prems(3) by auto
    qed
  qed
qed simp

lemma initial_rows_ok:
  assumes "words = (length marks + 63) div 64" "0 < length marks" "marks ! 0"
    and "\<And>v. v < length marks \<Longrightarrow> marks ! v \<longleftrightarrow> live succs v"
  shows "rows_ok succs marks words (initial_rows words marks (reachable_row words marks))"
proof -
  have w: "0 < words" using assms(1,2) by (simp add: div_greater_zero_iff Suc_le_eq)
  have dom0: "a = 0" if "dom_by succs a 0" for a using that path_entry unfolding dom_by_def by fastforce
  have d: "row_test (reachable_row words marks) a" if "a < length marks" "b < length marks" "marks ! b" "dom_by succs a b" for a b
    using dom_live [OF that(4)] assms(4) that reachable_row_spec(1) [OF _ assms(1), of a] word_index [OF that(1)] assms(1)
    by auto
  show ?thesis
    unfolding rows_ok_def
    using w assms(2,3) d
    by (auto simp: initial_rows_def reachable_row_length row_test_one dest!: dom0)
qed

lemma dominator_loop_exact:
  assumes "dominator_loop words marks (reachable_row words marks) preds rows work = Some (rows', work')"
    and "rows_ok succs marks words rows" "words = (length marks + 63) div 64"
    and p: "\<And>u v. v < length marks \<Longrightarrow> u \<in> set (preds ! v) \<longleftrightarrow> edge succs u v"
    and m: "\<And>v. v < length marks \<Longrightarrow> marks ! v \<longleftrightarrow> live succs v" "length marks = length succs"
  shows "rows_ok succs marks words rows' \<and> (\<forall>b < length marks. 0 < b \<longrightarrow> marks ! b \<longrightarrow>
    (\<forall>a. a div 64 < words \<longrightarrow> (row_test (rows' ! b) a \<longleftrightarrow> meets marks preds rows' b a)))"
  using assms(1,2)
proof (induction work arbitrary: rows rule: less_induct)
  case (less work)
  obtain rows1 changed w1 where r: "dominator_round words marks (reachable_row words marks) preds
      [1..<length marks] rows False work = Some (rows1, changed, w1)"
    and l: "(if changed then dominator_loop words marks (reachable_row words marks) preds rows1 w1
      else Some (rows1, w1)) = Some (rows', work')"
    using less.prems(1) by (subst (asm) dominator_loop.simps) (auto split: option.splits prod.splits)
  have blocks: "\<forall>b \<in> set [1..<length marks]. 0 < b \<and> b < length marks" by auto
  note s = dominator_round_spec [OF r less.prems(2) assms(3) blocks p m]
  show ?case
  proof (cases changed)
    case True
    have "[1..<length marks] \<noteq> []"
    proof
      assume n: "[1..<length marks] = []"
      show False using r True unfolding n by simp
    qed
    then have "w1 < work" using dominator_round_work [OF r] by (cases "[1..<length marks]") auto
    then show ?thesis using less.IH [of w1 rows1] l s True by simp
  next
    case False
    then show ?thesis using s l by auto
  qed
qed


text \<open>The rows at the fixed point are the dominators.\<close>

lemma fixed_point_dom:
  assumes ok: "rows_ok succs marks words rows" and w: "words = (length marks + 63) div 64"
    and fp: "\<forall>b < length marks. 0 < b \<longrightarrow> marks ! b \<longrightarrow>
      (\<forall>a. a div 64 < words \<longrightarrow> (row_test (rows ! b) a \<longleftrightarrow> meets marks preds rows b a))"
    and p: "\<And>u v. v < length marks \<Longrightarrow> u \<in> set (preds ! v) \<longleftrightarrow> edge succs u v"
    and m: "\<And>v. v < length marks \<Longrightarrow> marks ! v \<longleftrightarrow> live succs v" "length marks = length succs"
    and e: "closed_graph succs" and n: "0 < length succs"
    and ab: "a < length marks" "b < length marks"
  shows "row_test (rows ! b) a \<longleftrightarrow> live succs b \<and> dom_by succs a b"
proof
  have wa: "a div 64 < words" using word_index [OF ab(1)] w by simp
  assume t: "row_test (rows ! b) a"
  then have l: "live succs b" using ok wa ab(2) m(1) unfolding rows_ok_def by blast
  have "a \<in> set q" if "entry_path succs q v" "row_test (rows ! v) a" for q v
    using that
  proof (induction rule: entry_path.induct)
    case path_entry
    then show ?case using ok wa by (simp add: rows_ok_def)
  next
    case (path_step q u v)
    have uv: "u < length marks" "v < length marks" using path_step(2) closed_graphD [OF e] m(2) by (auto simp: edge_def)
    have lv: "live succs u" "live succs v" using path_step(1,2) live_path live_edge by blast+
    show ?case
    proof (cases "v = 0")
      case True
      then have "a = 0" using path_step.prems ok wa by (simp add: rows_ok_def)
      then show ?thesis using True by simp
    next
      case False
      then have "meets marks preds rows v a" using fp uv(2) m(1) lv(2) wa path_step.prems by blast
      then have "a = v \<or> row_test (rows ! u) a"
        using p [OF uv(2)] path_step(2) m(1) [OF uv(1)] lv(1) by (auto simp: meets_def)
      then show ?thesis using path_step.IH by auto
    qed
  qed
  then show "live succs b \<and> dom_by succs a b" using l t by (auto simp: dom_by_def)
next
  assume "live succs b \<and> dom_by succs a b"
  then show "row_test (rows ! b) a" using ok ab m(1) unfolding rows_ok_def by blast
qed

section \<open>Reducibility\<close>

text \<open>The edges that do not come back to a dominator.\<close>

definition forward :: "bit_row list \<Rightarrow> nat list list \<Rightarrow> nat \<Rightarrow> nat list" where
  "forward rows succs u = filter (\<lambda>v. \<not> row_test (rows ! u) v) (succs ! u)"

lemma indegree_edges_spec:
  assumes "indegree_edges rows u edges indegree work = Some (indegree', work')" "\<forall>v \<in> set edges. v < length indegree"
  shows "length indegree' = length indegree \<and> (\<forall>v < length indegree.
    indegree' ! v = indegree ! v + count_list (filter (\<lambda>v. \<not> row_test (rows ! u) v) edges) v)"
  using assms
proof (induction edges arbitrary: indegree work)
  case (Cons t edges)
  show ?case
  proof (cases "row_test (rows ! u) t")
    case True
    then obtain w where "indegree_edges rows u edges indegree w = Some (indegree', work')"
      using Cons.prems(1) by (auto simp: bind_eq_Some_conv)
    from Cons.IH [OF this] show ?thesis using Cons.prems(2) True by simp
  next
    case False
    then obtain w where "indegree_edges rows u edges (indegree[t := indegree ! t + 1]) w = Some (indegree', work')"
      using Cons.prems(1) by (auto simp: bind_eq_Some_conv checked_add_def split: if_splits)
    from Cons.IH [OF this] show ?thesis using Cons.prems(2) False by (auto simp: nth_list_update)
  qed
qed simp

lemma indegree_all_spec:
  assumes "indegree_all rows marks f rest indegree work = Some (indegree', work')"
    and "\<forall>i < length rest. \<forall>v \<in> set (rest ! i). v < length indegree"
    and "\<And>i. i < length rest \<Longrightarrow> rest ! i = succs ! (f + i)"
  shows "length indegree' = length indegree \<and> (\<forall>v < length indegree. indegree' ! v =
    indegree ! v + (\<Sum>u \<in> {u. f \<le> u \<and> u < f + length rest \<and> marks ! u}. count_list (forward rows succs u) v))"
  using assms
proof (induction rest arbitrary: f indegree work)
  case (Cons edges rest)
  have edges: "edges = succs ! f" using Cons.prems(3) [of 0] by simp
  have rest: "rest ! i = succs ! (f + 1 + i)" if "i < length rest" for i using Cons.prems(3) [of "Suc i"] that by simp
  have set: "{u. f \<le> u \<and> u < f + length (edges # rest) \<and> marks ! u} =
      (if marks ! f then {f} else {}) \<union> {u. f + 1 \<le> u \<and> u < f + 1 + length rest \<and> marks ! u}"
  proof (rule set_eqI)
    fix u
    show "u \<in> {u. f \<le> u \<and> u < f + length (edges # rest) \<and> marks ! u} \<longleftrightarrow>
        u \<in> (if marks ! f then {f} else {}) \<union> {u. f + 1 \<le> u \<and> u < f + 1 + length rest \<and> marks ! u}"
      by (cases "u = f") auto
  qed
  have fin: "finite {u. f + 1 \<le> u \<and> u < f + 1 + length rest \<and> marks ! u}" by simp
  show ?case
  proof (cases "marks ! f")
    case False
    then obtain w where r: "indegree_all rows marks (f + 1) rest indegree w = Some (indegree', work')"
      using Cons.prems(1) by (auto simp: bind_eq_Some_conv)
    have "\<forall>i < length rest. \<forall>v \<in> set (rest ! i). v < length indegree" using Cons.prems(2) by auto
    from Cons.IH [OF r this rest] show ?thesis unfolding set using False by simp
  next
    case True
    then obtain d1 w1 w where i: "indegree_edges rows f edges indegree w = Some (d1, w1)"
      and r: "indegree_all rows marks (f + 1) rest d1 w1 = Some (indegree', work')"
      using Cons.prems(1) by (auto simp: bind_eq_Some_conv)
    have "\<forall>v \<in> set edges. v < length indegree" using Cons.prems(2) by auto
    note s = indegree_edges_spec [OF i this]
    have "\<forall>i < length rest. \<forall>v \<in> set (rest ! i). v < length d1" using Cons.prems(2) s by auto
    note t = Cons.IH [OF r this rest]
    show ?thesis unfolding set using True s t fin
      by (simp add: forward_def edges)
  qed
qed simp

lemma indegree_exact:
  assumes "indegree_all rows marks 0 succs (replicate (length succs) 0) work = Some (indegree, work')"
    and "closed_graph succs"
    and "\<And>v. v < length succs \<Longrightarrow> marks ! v \<longleftrightarrow> live succs v"
  shows "length indegree = length succs" "v < length succs \<Longrightarrow>
    indegree ! v = (\<Sum>u \<in> {u. u < length succs \<and> live succs u}. count_list (forward rows succs u) v)"
proof -
  have "\<forall>i < length succs. \<forall>v \<in> set (succs ! i). v < length (replicate (length succs) (0::nat))"
    using closed_graphD [OF assms(2)] by (auto simp: edge_def)
  note s = indegree_all_spec [OF assms(1) this, of succs]
  show "length indegree = length succs" using s by simp
  have "{u. 0 \<le> u \<and> u < 0 + length succs \<and> marks ! u} = {u. u < length succs \<and> live succs u}"
    using assms(3) by auto
  then show "v < length succs \<Longrightarrow>
    indegree ! v = (\<Sum>u \<in> {u. u < length succs \<and> live succs u}. count_list (forward rows succs u) v)"
    using s by simp
qed

text \<open>An order of blocks, the last one first, in which the forward edges lead from earlier to later blocks.\<close>

fun ordered :: "(nat \<Rightarrow> nat set) \<Rightarrow> nat list \<Rightarrow> bool" where
  "ordered before [] \<longleftrightarrow> True"
| "ordered before (v # vs) \<longleftrightarrow> before v \<subseteq> set vs \<and> ordered before vs"

fun rank_in :: "nat list \<Rightarrow> nat \<Rightarrow> nat" where
  "rank_in [] v = 0"
| "rank_in (x # xs) v = (if x = v then length xs + 1 else rank_in xs v)"

lemma rank_in_le: "rank_in xs v \<le> length xs"
  by (induction xs) auto

lemma ordered_before: "ordered before vs \<Longrightarrow> v \<in> set vs \<Longrightarrow> before v \<subseteq> set vs"
  by (induction vs) auto

lemma ordered_rank:
  "ordered before vs \<Longrightarrow> distinct vs \<Longrightarrow> v \<in> set vs \<Longrightarrow> u \<in> before v \<Longrightarrow> rank_in vs u < rank_in vs v"
proof (induction vs)
  case (Cons x vs)
  show ?case
  proof (cases "x = v")
    case True
    then have "u \<in> set vs" using Cons.prems by auto
    then show ?thesis using True Cons.prems(2) rank_in_le [of vs u] by auto
  next
    case False
    then have v: "v \<in> set vs" using Cons.prems(3) by simp
    have "before v \<subseteq> set vs" using Cons.prems(1) v by (intro ordered_before) simp_all
    then have "x \<noteq> u" using Cons.prems(2,4) by auto
    then show ?thesis using Cons.IH Cons.prems False v by auto
  qed
qed simp

definition fwd_preds :: "bit_row list \<Rightarrow> nat list list \<Rightarrow> nat \<Rightarrow> nat set" where
  "fwd_preds rows succs v = {u. u < length succs \<and> live succs u \<and> v \<in> set (forward rows succs u)}"


text \<open>
  The state of the topological walk: \<open>done\<close> has left the stack, and of the block that is being left the
  forward edges \<open>edges\<close> are still to be released.
\<close>

definition walk_inv ::
  "bit_row list \<Rightarrow> nat list list \<Rightarrow> nat list \<Rightarrow> nat list \<Rightarrow> nat list \<Rightarrow> nat list \<Rightarrow> bool" where
  "walk_inv rows succs finished edges indegree pending \<longleftrightarrow>
     length indegree = length succs \<and> distinct (finished @ pending) \<and>
     (\<forall>v \<in> set (finished @ pending). v < length succs \<and> live succs v \<and> indegree ! v = 0) \<and>
     ordered (fwd_preds rows succs) finished \<and>
     (\<forall>v \<in> set pending. fwd_preds rows succs v \<subseteq> set finished) \<and>
     (\<forall>v < length succs. indegree ! v =
        (\<Sum>u \<in> {u. u < length succs \<and> live succs u} - set finished. count_list (forward rows succs u) v) +
        count_list edges v)"

lemma walk_release_one:
  assumes inv: "walk_inv rows succs finished (t # edges) indegree pending" and d: "indegree ! t = Suc d"
    and t: "t < length succs" "live succs t"
  shows "walk_inv rows succs finished edges (indegree[t := d]) (if d = 0 then t # pending else pending)"
proof -
  let ?L = "{u. u < length succs \<and> live succs u} - set finished"
  have i: "length indegree = length succs" "distinct (finished @ pending)"
    "\<forall>v \<in> set (finished @ pending). v < length succs \<and> live succs v \<and> indegree ! v = 0"
    "ordered (fwd_preds rows succs) finished" "\<forall>v \<in> set pending. fwd_preds rows succs v \<subseteq> set finished"
    "\<And>v. v < length succs \<Longrightarrow> indegree ! v = (\<Sum>u \<in> ?L. count_list (forward rows succs u) v) + count_list (t # edges) v"
    using inv unfolding walk_inv_def by blast+
  have new: "t \<notin> set (finished @ pending)" using i(3) d by auto
  have sum: "(indegree[t := d]) ! v = (\<Sum>u \<in> ?L. count_list (forward rows succs u) v) + count_list edges v"
    if "v < length succs" for v
    using i(6) [OF that] d t(1) i(1) by (auto simp: nth_list_update split: if_splits)
  have last: "fwd_preds rows succs t \<subseteq> set finished" if "d = 0"
  proof
    fix u assume u: "u \<in> fwd_preds rows succs t"
    have "(\<Sum>u \<in> ?L. count_list (forward rows succs u) t) = 0" using sum [OF t(1)] that t(1) i(1) by simp
    then have "\<forall>u \<in> ?L. count_list (forward rows succs u) t = 0" by (simp add: sum_eq_0_iff)
    then show "u \<in> set finished" using u by (auto simp: fwd_preds_def count_list_0_iff)
  qed
  have zero: "\<forall>v \<in> set (finished @ (if d = 0 then t # pending else pending)). (indegree[t := d]) ! v = 0"
    using i(1,3) new t(1) by (auto simp: nth_list_update)
  show ?thesis unfolding walk_inv_def
  proof (intro conjI)
    show "\<forall>v < length succs. (indegree[t := d]) ! v =
        (\<Sum>u \<in> ?L. count_list (forward rows succs u) v) + count_list edges v" using sum by blast
    show "\<forall>v \<in> set (finished @ (if d = 0 then t # pending else pending)).
        v < length succs \<and> live succs v \<and> (indegree[t := d]) ! v = 0" using zero i(3) t by auto
    show "\<forall>v \<in> set (if d = 0 then t # pending else pending). fwd_preds rows succs v \<subseteq> set finished"
      using i(5) last by auto
  qed (use i(1,2,4) new in auto)
qed

lemma release_edges_inv:
  assumes "release_edges rows u edges indegree pending work = Some (indegree', pending', work')"
    and "walk_inv rows succs finished (filter (\<lambda>v. \<not> row_test (rows ! u) v) edges) indegree pending"
    and "\<forall>v \<in> set edges. v < length succs \<and> live succs v"
  shows "walk_inv rows succs finished [] indegree' pending'"
  using assms
proof (induction edges arbitrary: indegree pending work)
  case (Cons t edges)
  show ?case
  proof (cases "row_test (rows ! u) t")
    case True
    then obtain w where "release_edges rows u edges indegree pending w = Some (indegree', pending', work')"
      using Cons.prems(1) by (auto simp: bind_eq_Some_conv)
    from Cons.IH [OF this] show ?thesis using Cons.prems(2,3) True by simp
  next
    case False
    then obtain d w where d: "indegree ! t = Suc d"
      and r: "release_edges rows u edges (indegree[t := d]) (if d = 0 then t # pending else pending) w =
        Some (indegree', pending', work')"
      using Cons.prems(1) by (cases "indegree ! t") (auto simp: bind_eq_Some_conv checked_sub_def)
    have "walk_inv rows succs finished (t # filter (\<lambda>v. \<not> row_test (rows ! u) v) edges) indegree pending"
      using Cons.prems(2) False by simp
    from walk_release_one [OF this d] Cons.prems(3)
    have "walk_inv rows succs finished (filter (\<lambda>v. \<not> row_test (rows ! u) v) edges)
        (indegree[t := d]) (if d = 0 then t # pending else pending)" by simp
    from Cons.IH [OF r this] Cons.prems(3) show ?thesis by simp
  qed
qed simp

lemma walk_pop:
  assumes "walk_inv rows succs finished [] indegree (u # pending)"
  shows "walk_inv rows succs (u # finished) (forward rows succs u) indegree pending"
proof -
  let ?A = "{u. u < length succs \<and> live succs u}"
  have i: "length indegree = length succs" "distinct (finished @ u # pending)"
    "\<forall>v \<in> set (finished @ u # pending). v < length succs \<and> live succs v \<and> indegree ! v = 0"
    "ordered (fwd_preds rows succs) finished" "\<forall>v \<in> set (u # pending). fwd_preds rows succs v \<subseteq> set finished"
    "\<And>v. v < length succs \<Longrightarrow> indegree ! v = (\<Sum>u \<in> ?A - set finished. count_list (forward rows succs u) v)"
    using assms unfolding walk_inv_def by auto
  have u: "u \<in> ?A - set finished" using i(2,3) by auto
  have "finite (?A - set finished)" by simp
  then have "(\<Sum>w \<in> ?A - set finished. count_list (forward rows succs w) v) =
      count_list (forward rows succs u) v + (\<Sum>w \<in> ?A - set finished - {u}. count_list (forward rows succs w) v)" for v
    using u by (rule sum.remove)
  moreover have "?A - set finished - {u} = ?A - set (u # finished)" by auto
  ultimately have sum: "indegree ! v = (\<Sum>w \<in> ?A - set (u # finished). count_list (forward rows succs w) v) +
      count_list (forward rows succs u) v" if "v < length succs" for v
    using i(6) [OF that] by simp
  show ?thesis unfolding walk_inv_def
  proof (intro conjI)
    show "\<forall>v < length succs. indegree ! v = (\<Sum>w \<in> ?A - set (u # finished). count_list (forward rows succs w) v) +
      count_list (forward rows succs u) v" using sum by blast
    show "\<forall>v \<in> set ((u # finished) @ pending). v < length succs \<and> live succs v \<and> indegree ! v = 0"
      using i(3) by simp
  qed (use i(1,2,4,5) in auto)
qed

lemma topo_loop_inv:
  assumes "topo_loop rows succs indegree pending visited work = Some (visited', work')"
    and "walk_inv rows succs finished [] indegree pending" "visited = length finished"
    and "closed_graph succs"
  shows "\<exists>order. distinct order \<and> (\<forall>v \<in> set order. v < length succs \<and> live succs v) \<and>
    ordered (fwd_preds rows succs) order \<and> visited' = length order"
  using assms
proof (induction rows succs indegree pending visited work arbitrary: finished rule: topo_loop.induct)
  case (1 rows succs indegree visited work)
  then show ?case by (intro exI [of _ finished]) (auto simp: walk_inv_def)
next
  case (2 rows succs indegree u pending visited work)
  obtain w where w: "spend work 1 = Some w" using 2(2) by (cases "spend work 1") simp_all
  obtain d1 p1 w1 where r: "release_edges rows u (succs ! u) indegree pending w = Some (d1, p1, w1)"
    using 2(2) w by (cases "release_edges rows u (succs ! u) indegree pending w") auto
  have rest: "topo_loop rows succs d1 p1 (visited + 1) w1 = Some (visited', work')" using 2(2) w r by simp
  have u: "u < length succs" "live succs u" using 2(3) by (auto simp: walk_inv_def)
  then have edges: "\<forall>v \<in> set (succs ! u). v < length succs \<and> live succs v"
    using closed_graphD [OF 2(5)] live_edge by (auto simp: edge_def)
  have "walk_inv rows succs (u # finished) [] d1 p1"
    by (rule release_edges_inv [OF r _ edges]) (use walk_pop [OF 2(3)] in \<open>simp add: forward_def\<close>)
  from 2(1) [OF w r refl refl rest this _ 2(5)] 2(4) show ?case by simp
qed

text \<open>Forward edges of an accepted graph decrease a rank, so every cycle has an edge to a dominator.\<close>

lemma reducible_rank:
  assumes ind: "indegree_all rows marks 0 succs (replicate (length succs) 0) work = Some (indegree, w1)"
    and topo: "topo_loop rows succs indegree
      (rev (filter (\<lambda>i. marks ! i \<and> indegree ! i = 0) [0..<length succs])) 0 w1 = Some (length (filter id marks), w2)"
    and m: "\<And>v. v < length succs \<Longrightarrow> marks ! v \<longleftrightarrow> live succs v" "length marks = length succs"
    and e: "closed_graph succs"
  shows "\<exists>rank :: nat \<Rightarrow> nat. \<forall>u v. u < length succs \<longrightarrow> live succs u \<longrightarrow>
    v \<in> set (forward rows succs u) \<longrightarrow> rank u < rank v"
proof -
  note d = indegree_exact [OF ind e m(1)]
  let ?A = "{u. u < length succs \<and> live succs u}"
  let ?p = "rev (filter (\<lambda>i. marks ! i \<and> indegree ! i = 0) [0..<length succs])"
  have "fwd_preds rows succs v = {}" if "v \<in> set ?p" for v
  proof -
    have "(\<Sum>u \<in> ?A. count_list (forward rows succs u) v) = 0" using d(2) [of v] that by auto
    then have "\<forall>u \<in> ?A. count_list (forward rows succs u) v = 0" by (simp add: sum_eq_0_iff)
    then show ?thesis by (auto simp: fwd_preds_def count_list_0_iff)
  qed
  then have "walk_inv rows succs [] [] indegree ?p"
    unfolding walk_inv_def using d m(1) by auto
  from topo_loop_inv [OF topo this _ e]
  obtain order where o: "distinct order" "\<forall>v \<in> set order. v < length succs \<and> live succs v"
    "ordered (fwd_preds rows succs) order" "length (filter id marks) = length order" by auto
  have "filter id marks = map ((!) marks) (filter (\<lambda>i. marks ! i) [0..<length marks])"
    by (metis (no_types, lifting) filter_cong filter_map id_apply map_nth o_apply)
  then have "length (filter id marks) = length (filter (\<lambda>i. marks ! i) [0..<length succs])"
    using m(2) by simp
  also have "\<dots> = card (set (filter (\<lambda>i. marks ! i) [0..<length succs]))"
    by (rule distinct_card [symmetric]) simp
  also have "set (filter (\<lambda>i. marks ! i) [0..<length succs]) = ?A" using m(1) by auto
  finally have "card (set order) = card ?A" unfolding distinct_card [OF o(1)] o(4) .
  then have all: "set order = ?A" using o(2) by (intro card_subset_eq) auto
  have "rank_in order u < rank_in order v" if "u < length succs" "live succs u" "v \<in> set (forward rows succs u)" for u v
  proof (rule ordered_rank [OF o(3,1)])
    have "edge succs u v" using that by (auto simp: forward_def edge_def)
    then show "v \<in> set order" using closed_graphD [OF e] live_edge [OF that(2)] by (auto simp: all)
    show "u \<in> fwd_preds rows succs v" using that by (simp add: fwd_preds_def)
  qed
  then show ?thesis by blast
qed


section \<open>Natural loops\<close>

text \<open>The edges that come back to \<open>h\<close>, and the blocks that reach one of them without passing \<open>h\<close>.\<close>

definition latch :: "nat list list \<Rightarrow> nat \<Rightarrow> nat \<Rightarrow> bool" where
  "latch succs h l \<longleftrightarrow> live succs l \<and> edge succs l h \<and> dom_by succs h l"

inductive_set loop_body :: "nat list list \<Rightarrow> nat \<Rightarrow> nat set" for succs h where
  body_latch: "latch succs h l \<Longrightarrow> l \<noteq> h \<Longrightarrow> l \<in> loop_body succs h"
| body_grow: "y \<in> loop_body succs h \<Longrightarrow> live succs x \<Longrightarrow> edge succs x y \<Longrightarrow> x \<noteq> h \<Longrightarrow> x \<in> loop_body succs h"

definition is_header :: "nat list list \<Rightarrow> nat \<Rightarrow> bool" where
  "is_header succs h \<longleftrightarrow> (\<exists>l. latch succs h l)"

lemma body_live: "x \<in> loop_body succs h \<Longrightarrow> live succs x \<and> x \<noteq> h"
  by (induction rule: loop_body.induct) (auto simp: latch_def)

lemma find_latches_spec:
  "find_latches rows h preds acc work = Some (latches, work') \<Longrightarrow>
   latches = acc @ filter (\<lambda>p. row_test (rows ! p) h) preds"
proof (induction preds arbitrary: acc work)
  case (Cons p preds)
  show ?case using Cons.prems by (auto simp: bind_eq_Some_conv split: if_splits dest!: Cons.IH)
qed simp

lemma seed_members_spec:
  assumes "seed_members latches members pending = (members', pending')" "\<forall>l \<in> set latches. l < length members"
  shows "length members' = length members \<and> (\<forall>v < length members. members' ! v \<longleftrightarrow> members ! v \<or> v \<in> set latches) \<and>
    set pending' = set pending \<union> {l \<in> set latches. \<not> members ! l}"
  using assms
proof (induction latches arbitrary: members pending)
  case (Cons l latches)
  then show ?case
    by (cases "members ! l") (auto simp: nth_list_update split: if_splits dest!: Cons.IH)
qed simp

lemma grow_members_spec:
  assumes "grow_members rows marks h preds members pending work = Some (members', pending', work')"
    and "\<forall>p \<in> set preds. p < length members"
  shows "length members' = length members \<and>
    (\<forall>v < length members. members' ! v \<longleftrightarrow> members ! v \<or> v \<in> set preds \<and> marks ! v) \<and>
    set pending' = set pending \<union> {p \<in> set preds. marks ! p \<and> \<not> members ! p}"
  using assms
proof (induction preds arbitrary: members pending work)
  case (Cons p preds)
  show ?case
  proof (cases "marks ! p \<and> \<not> members ! p")
    case True
    then obtain w where "grow_members rows marks h preds (members[p := True]) (p # pending) w = Some (members', pending', work')"
      using Cons.prems(1) by (auto simp: bind_eq_Some_conv split: if_splits)
    from Cons.IH [OF this] show ?thesis using Cons.prems(2) True by (auto simp: nth_list_update split: if_splits)
  next
    case False
    then obtain w where "grow_members rows marks h preds members pending w = Some (members', pending', work')"
      using Cons.prems(1) by (auto simp: bind_eq_Some_conv split: if_splits)
    from Cons.IH [OF this] show ?thesis using Cons.prems(2) False by auto
  qed
qed simp

definition member_inv :: "nat list list \<Rightarrow> nat \<Rightarrow> bool list \<Rightarrow> nat list \<Rightarrow> bool" where
  "member_inv succs h members pending \<longleftrightarrow>
     length members = length succs \<and> h < length succs \<and> members ! h \<and>
     (\<forall>v < length succs. members ! v \<longrightarrow> v = h \<or> v \<in> loop_body succs h) \<and>
     (\<forall>l < length succs. latch succs h l \<longrightarrow> members ! l) \<and>
     (\<forall>v \<in> set pending. v < length succs \<and> members ! v \<and> v \<noteq> h) \<and>
     (\<forall>y < length succs. members ! y \<longrightarrow> y \<noteq> h \<longrightarrow> y \<notin> set pending \<longrightarrow>
        (\<forall>x < length succs. live succs x \<longrightarrow> edge succs x y \<longrightarrow> members ! x))"

lemma member_loop_inv:
  assumes "member_loop rows marks h preds members pending work = Some (members', work')"
    and "member_inv succs h members pending"
    and "\<And>u v. v < length succs \<Longrightarrow> u \<in> set (preds ! v) \<longleftrightarrow> edge succs u v"
    and "\<And>v. v < length succs \<Longrightarrow> marks ! v \<longleftrightarrow> live succs v"
  shows "member_inv succs h members' []"
  using assms
proof (induction rows marks h preds members pending work rule: member_loop.induct)
  case (2 rows marks h preds members block pending work)
  obtain w where w: "spend work 1 = Some w" using 2(2) by (cases "spend work 1") simp_all
  obtain m1 p1 w1 where g: "grow_members rows marks h (preds ! block) members pending w = Some (m1, p1, w1)"
    using 2(2) w by (cases "grow_members rows marks h (preds ! block) members pending w") auto
  have rest: "member_loop rows marks h preds m1 p1 w1 = Some (members', work')" using 2(2) w g by simp
  have i: "length members = length succs" "members ! h"
    "\<forall>v < length succs. members ! v \<longrightarrow> v = h \<or> v \<in> loop_body succs h"
    "\<forall>l < length succs. latch succs h l \<longrightarrow> members ! l"
    "\<forall>v \<in> set (block # pending). v < length succs \<and> members ! v \<and> v \<noteq> h"
    "\<forall>y < length succs. members ! y \<longrightarrow> y \<noteq> h \<longrightarrow> y \<notin> set (block # pending) \<longrightarrow>
      (\<forall>x < length succs. live succs x \<longrightarrow> edge succs x y \<longrightarrow> members ! x)"
    and h: "h < length succs"
    using 2(3) unfolding member_inv_def by blast+
  have b: "block < length succs" "block \<noteq> h" "block \<in> loop_body succs h" using i(3,5) by auto
  have pb: "p \<in> set (preds ! block) \<longleftrightarrow> edge succs p block" for p using 2(4) [OF b(1)] by simp
  have bound: "\<forall>p \<in> set (preds ! block). p < length members" using pb i(1) by (auto simp: edge_def)
  note s = grow_members_spec [OF g bound]
  have up: "m1 ! v \<longleftrightarrow> members ! v \<or> edge succs v block \<and> live succs v" if "v < length succs" for v
    using s that i(1) pb 2(5) [OF that] by simp
  have "member_inv succs h m1 p1"
    unfolding member_inv_def
  proof (intro conjI allI impI ballI)
    show "length m1 = length succs" using s i(1) by simp
    show "h < length succs" by (rule h)
    show "m1 ! h" using up [OF h] i(2) by simp
    show "v = h \<or> v \<in> loop_body succs h" if "v < length succs" "m1 ! v" for v
      using up that i(3) body_grow [OF b(3)] by blast
    show "m1 ! l" if "l < length succs" "latch succs h l" for l using up that i(4) by blast
    show "v < length succs" if "v \<in> set p1" for v using that s i(5) bound i(1) by auto
    then show "m1 ! v" if "v \<in> set p1" for v using that s i(5) up pb 2(5) by auto
    show "v \<noteq> h" if "v \<in> set p1" for v using that s i(2,5) by auto
    show "m1 ! x" if y: "y < length succs" "m1 ! y" "y \<noteq> h" "y \<notin> set p1" and x: "x < length succs" "live succs x" "edge succs x y"
      for y x
    proof (cases "y = block")
      case True
      then show ?thesis using up [OF x(1)] x by simp
    next
      case False
      have "members ! y"
        using up [OF y(1)] y(2,4) s pb 2(5) [OF y(1)] by auto
      moreover have "y \<notin> set (block # pending)" using False y(4) s by auto
      ultimately show ?thesis using i(6) y(1,3) x up [OF x(1)] by blast
    qed
  qed
  from 2(1) [OF w g refl refl rest this 2(4,5)] show ?case by simp
qed simp


definition in_loop :: "nat list list \<Rightarrow> nat \<Rightarrow> nat \<Rightarrow> bool" where
  "in_loop succs h v \<longleftrightarrow> v = h \<or> v \<in> loop_body succs h"

lemma member_loop_exact:
  assumes "member_inv succs h members []" "closed_graph succs" "v < length succs"
  shows "members ! v \<longleftrightarrow> in_loop succs h v"
proof
  show "members ! v \<Longrightarrow> in_loop succs h v" using assms by (auto simp: member_inv_def in_loop_def)
  have i: "members ! h" "\<forall>l < length succs. latch succs h l \<longrightarrow> members ! l"
    "\<And>x y. y < length succs \<Longrightarrow> members ! y \<Longrightarrow> y \<noteq> h \<Longrightarrow> x < length succs \<Longrightarrow> live succs x \<Longrightarrow> edge succs x y \<Longrightarrow> members ! x"
    using assms(1) unfolding member_inv_def list.set empty_iff by blast+
  have "x < length succs \<and> members ! x" if "x \<in> loop_body succs h" for x
    using that
  proof (induction rule: loop_body.induct)
    case (body_latch l)
    then have "l < length succs" by (simp add: latch_def edge_def)
    then show ?case using i(2) body_latch by blast
  next
    case (body_grow y x)
    have "x < length succs" using body_grow by (simp add: edge_def)
    then show ?case using i(3) body_grow body_live by blast
  qed
  then show "in_loop succs h v \<Longrightarrow> members ! v" using i(1) by (auto simp: in_loop_def)
qed

lemma find_entries_spec:
  assumes "find_entries marks members preds entries pre work = Some (entries', pre', work')"
  shows "entries' = entries + length (filter (\<lambda>p. marks ! p \<and> \<not> members ! p) preds) \<and>
    pre' = (if filter (\<lambda>p. marks ! p \<and> \<not> members ! p) preds = [] then pre
            else Some (last (filter (\<lambda>p. marks ! p \<and> \<not> members ! p) preds)))"
  using assms
proof (induction preds arbitrary: entries pre work)
  case (Cons p preds)
  obtain w where "find_entries marks members preds (if marks ! p \<and> \<not> members ! p then entries + 1 else entries)
      (if marks ! p \<and> \<not> members ! p then Some p else pre) w = Some (entries', pre', work')"
    using Cons.prems by (cases "marks ! p \<and> \<not> members ! p") (auto simp: bind_eq_Some_conv)
  from Cons.IH [OF this] show ?case by simp
qed simp

text \<open>The one block from which a loop is entered, which leads nowhere else.\<close>

definition preheader_ok :: "nat list list \<Rightarrow> nat \<Rightarrow> nat \<Rightarrow> bool" where
  "preheader_ok succs h p \<longleftrightarrow>
     p < length succs \<and> live succs p \<and> \<not> in_loop succs h p \<and> succs ! p = [h] \<and> dom_by succs p h \<and>
     (\<forall>u. live succs u \<longrightarrow> edge succs u h \<longrightarrow> \<not> in_loop succs h u \<longrightarrow> u = p)"

definition loop_ok :: "nat list \<Rightarrow> nat list list \<Rightarrow> nat \<Rightarrow> natural_loop \<Rightarrow> bool" where
  "loop_ok pcs succs h l \<longleftrightarrow>
     nl_header l = pcs ! h \<and>
     nl_members l = map ((!) pcs) (filter (in_loop succs h) [0..<length succs]) \<and>
     (\<forall>p. preheader_ok succs h p \<longrightarrow> nl_preheader l = Some (pcs ! p)) \<and>
     (\<forall>pc. nl_preheader l = Some pc \<longrightarrow> (\<exists>p. preheader_ok succs h p \<and> pc = pcs ! p))"

lemma singleton_filter:
  assumes "\<And>x. x \<in> set xs \<Longrightarrow> P x \<Longrightarrow> x = p" "P p" "count_list xs p = 1"
  shows "filter P xs = [p]"
proof -
  have "filter P xs = filter ((=) p) xs" using assms(1,2) by (intro filter_cong) auto
  then have "filter P xs = replicate (count_list xs p) p"
    by (simp add: count_list_eq_length_filter replicate_length_filter)
  then show ?thesis using assms(3) by simp
qed

lemma pick_preheader_exact:
  assumes rows: "\<And>a b. a < length succs \<Longrightarrow> b < length succs \<Longrightarrow> row_test (rows ! b) a \<longleftrightarrow> live succs b \<and> dom_by succs a b"
    and h: "h < length succs" "live succs h"
    and m: "\<And>v. v < length succs \<Longrightarrow> marks ! v \<longleftrightarrow> live succs v"
    and mem: "\<And>v. v < length succs \<Longrightarrow> members ! v \<longleftrightarrow> in_loop succs h v"
    and preds: "\<And>u. u \<in> set preds \<longleftrightarrow> edge succs u h" "\<And>u. u < length succs \<Longrightarrow> count_list preds u = count_list (succs ! u) h"
    and f: "find_entries marks members preds 0 None work = Some (entries, pre, work')"
  shows "pick_preheader rows succs h entries pre = Some p \<longleftrightarrow> preheader_ok succs h p"
proof -
  let ?out = "filter (\<lambda>p. marks ! p \<and> \<not> members ! p) preds"
  have e: "entries = length ?out" "pre = (if ?out = [] then None else Some (last ?out))"
    using find_entries_spec [OF f] by simp_all
  have out: "u \<in> set ?out \<longleftrightarrow> live succs u \<and> edge succs u h \<and> \<not> in_loop succs h u" for u
    using preds(1) [of u] m [of u] mem [of u] by (auto simp: edge_def)
  have dom: "row_test (rows ! h) p \<longleftrightarrow> dom_by succs p h" if "p < length succs" for p using rows [OF that h(1)] h(2) by simp
  show ?thesis
  proof
    assume p: "pick_preheader rows succs h entries pre = Some p"
    then have "length ?out = 1" "pre = Some p" and s: "succs ! p = [h]" and r: "row_test (rows ! h) p"
      using e(1) by (auto simp: pick_preheader_def split: option.splits if_splits)
    then have o: "?out = [p]" using e(2) by (cases ?out) auto
    have "live succs p \<and> edge succs p h \<and> \<not> in_loop succs h p" using out [of p] o by simp
    then show "preheader_ok succs h p"
      using s r dom out o by (auto simp: preheader_ok_def edge_def)
  next
    assume p: "preheader_ok succs h p"
    then have pn: "p < length succs" "succs ! p = [h]" by (simp_all add: preheader_ok_def)
    have "?out = [p]"
    proof (rule singleton_filter)
      show "x = p" if "x \<in> set preds" "marks ! x \<and> \<not> members ! x" for x
        using out [of x] that p by (simp add: preheader_ok_def)
      show "marks ! p \<and> \<not> members ! p" using p m mem by (simp add: preheader_ok_def)
      show "count_list preds p = 1" using preds(2) [OF pn(1)] pn(2) by simp
    qed
    then show "pick_preheader rows succs h entries pre = Some p"
      using e p dom [OF pn(1)] by (simp add: pick_preheader_def preheader_ok_def)
  qed
qed

lemma seed_members_inv:
  assumes "seed_members ls ((replicate (length succs) False)[h := True]) [] = (members, pending)"
    and h: "h < length succs" and ls: "\<And>x. x \<in> set ls \<longleftrightarrow> latch succs h x"
  shows "member_inv succs h members pending"
proof -
  have lb: "l < length succs" if "latch succs h l" for l using that by (simp add: latch_def edge_def)
  then have "\<forall>l \<in> set ls. l < length ((replicate (length succs) False)[h := True])" using ls by simp
  note s = seed_members_spec [OF assms(1) this]
  have len: "length members = length succs" using s by simp
  have m: "members ! v \<longleftrightarrow> v = h \<or> latch succs h v" if "v < length succs" for v
    using s that ls [of v] by (cases "v = h") simp_all
  have q: "v \<in> set pending \<longleftrightarrow> latch succs h v \<and> v \<noteq> h" for v
    using s ls [of v] lb [of v] h by (cases "v = h") auto
  show ?thesis unfolding member_inv_def using len h m q lb by (auto intro: body_latch)
qed

lemma header_loop_exact:
  assumes "header_loop pcs succs preds marks rows h work = Some (found, work')"
    and rows: "\<And>a b. a < length succs \<Longrightarrow> b < length succs \<Longrightarrow> row_test (rows ! b) a \<longleftrightarrow> live succs b \<and> dom_by succs a b"
    and h: "h < length succs" and n: "length pcs = length succs" and e: "closed_graph succs"
    and m: "\<And>v. v < length succs \<Longrightarrow> marks ! v \<longleftrightarrow> live succs v"
    and p: "\<And>u v. v < length succs \<Longrightarrow> u \<in> set (preds ! v) \<longleftrightarrow> edge succs u v"
    and c: "\<And>u v. u < length succs \<Longrightarrow> v < length succs \<Longrightarrow> count_list (preds ! v) u = count_list (succs ! u) v"
  shows "case found of None \<Rightarrow> \<not> is_header succs h
    | Some (l, members) \<Rightarrow> is_header succs h \<and> loop_ok pcs succs h l \<and> length members = length succs \<and>
        (\<forall>v < length succs. members ! v \<longleftrightarrow> in_loop succs h v)"
proof -
  have header_live: "live succs h" if "is_header succs h"
    using that live_edge by (auto simp: is_header_def latch_def)
  have latches: "x \<in> set (filter (\<lambda>p. row_test (rows ! p) h) (preds ! h)) \<longleftrightarrow> latch succs h x" for x
    using p [OF h, of x] rows [OF h, of x] by (auto simp: latch_def edge_def)
  show ?thesis
  proof (cases "marks ! h")
    case False
    then have "found = None" using assms(1) by (auto simp: header_loop_def Let_def bind_eq_Some_conv)
    then show ?thesis using False header_live m [OF h] by auto
  next
    case True
    obtain ls w1 w2 where f: "find_latches rows h (preds ! h) [] w1 = Some (ls, w2)"
      and rest: "(if ls = [] then Some (None, w2)
        else
          Option.bind (checked_mul usize_max (length pcs) 2) (\<lambda>cost.
          Option.bind (spend w2 cost) (\<lambda>work.
          (case seed_members ls ((replicate (length pcs) False)[h := True]) [] of (members, pending) \<Rightarrow>
          Option.bind (member_loop rows marks h preds members pending work) (\<lambda>(members, work).
          Option.bind (find_entries marks members (preds ! h) 0 None work) (\<lambda>(entries, preheader, work).
          Some (Some
            (\<lparr>nl_header = pcs ! h,
              nl_preheader = map_option ((!) pcs) (pick_preheader rows succs h entries preheader),
              nl_members = map ((!) pcs) (blocks_of members)\<rparr>, members), work))))))) = Some (found, work')"
      using assms(1) True by (auto simp: header_loop_def Let_def bind_eq_Some_conv)
    have ls: "ls = filter (\<lambda>p. row_test (rows ! p) h) (preds ! h)" using find_latches_spec [OF f] by simp
    show ?thesis
    proof (cases "ls = []")
      case empty: True
      then have "\<not> is_header succs h" using latches unfolding ls is_header_def by force
      then show ?thesis using rest empty by simp
    next
      case False
      then have hd: "is_header succs h" using latches unfolding ls is_header_def by (metis list.set_intros(1) neq_Nil_conv)
      obtain m0 p0 where s: "seed_members ls ((replicate (length pcs) False)[h := True]) [] = (m0, p0)"
        by (cases "seed_members ls ((replicate (length pcs) False)[h := True]) []")
      obtain m1 w3 w4 where l: "member_loop rows marks h preds m0 p0 w3 = Some (m1, w4)"
        and rest: "Option.bind (find_entries marks m1 (preds ! h) 0 None w4) (\<lambda>(entries, preheader, work).
          Some (Some
            (\<lparr>nl_header = pcs ! h,
              nl_preheader = map_option ((!) pcs) (pick_preheader rows succs h entries preheader),
              nl_members = map ((!) pcs) (blocks_of m1)\<rparr>, m1), work)) = Some (found, work')"
        using rest False s by (auto simp: bind_eq_Some_conv)
      obtain entries pre w5 where fe: "find_entries marks m1 (preds ! h) 0 None w4 = Some (entries, pre, w5)"
        and found: "found = Some (\<lparr>nl_header = pcs ! h,
              nl_preheader = map_option ((!) pcs) (pick_preheader rows succs h entries pre),
              nl_members = map ((!) pcs) (blocks_of m1)\<rparr>, m1)"
        using rest by (auto simp: bind_eq_Some_conv)
      have "member_inv succs h m0 p0"
        using seed_members_inv [OF s [unfolded n] h] latches unfolding ls by blast
      then have inv: "member_inv succs h m1 []" by (rule member_loop_inv [OF l _ p m])
      note mem = member_loop_exact [OF inv e]
      have len: "length m1 = length succs" using inv by (simp add: member_inv_def)
      have pick: "pick_preheader rows succs h entries pre = Some q \<longleftrightarrow> preheader_ok succs h q" for q
        by (rule pick_preheader_exact [OF rows h header_live [OF hd] m mem p [OF h] c [OF _ h] fe])
      have "blocks_of m1 = filter (in_loop succs h) [0..<length succs]"
        unfolding blocks_of_def len using mem by (intro filter_cong) auto
      then have "loop_ok pcs succs h (fst (the found))"
        using pick by (auto simp: loop_ok_def found)
      then show ?thesis using hd len mem by (simp add: found)
    qed
  qed
qed


lemma loops_from_exact:
  assumes "loops_from pcs succs preds marks rows headers loops seen work = Some (loops', seen', work')"
    and "\<forall>h \<in> set headers. h < length succs" "length seen = length succs"
    and rows: "\<And>a b. a < length succs \<Longrightarrow> b < length succs \<Longrightarrow> row_test (rows ! b) a \<longleftrightarrow> live succs b \<and> dom_by succs a b"
    and n: "length pcs = length succs" and e: "closed_graph succs"
    and m: "\<And>v. v < length succs \<Longrightarrow> marks ! v \<longleftrightarrow> live succs v"
    and p: "\<And>u v. v < length succs \<Longrightarrow> u \<in> set (preds ! v) \<longleftrightarrow> edge succs u v"
    and c: "\<And>u v. u < length succs \<Longrightarrow> v < length succs \<Longrightarrow> count_list (preds ! v) u = count_list (succs ! u) v"
  shows "\<exists>ls. loops' = loops @ ls \<and> list_all2 (loop_ok pcs succs) (filter (is_header succs) headers) ls \<and>
    length seen' = length succs \<and>
    (\<forall>v < length succs. seen' ! v \<longleftrightarrow> seen ! v \<or> (\<exists>h \<in> set headers. is_header succs h \<and> in_loop succs h v))"
  using assms(1-3)
proof (induction headers arbitrary: loops seen work)
  case (Cons h headers)
  obtain found w where f: "header_loop pcs succs preds marks rows h work = Some (found, w)"
    and rest: "(case found of
         None \<Rightarrow> loops_from pcs succs preds marks rows headers loops seen w
       | Some (l, members) \<Rightarrow> loops_from pcs succs preds marks rows headers (loops @ [l]) (map2 (\<or>) seen members) w) =
       Some (loops', seen', work')"
    using Cons.prems(1) by (auto simp: bind_eq_Some_conv)
  have h: "h < length succs" "\<forall>h \<in> set headers. h < length succs" using Cons.prems(2) by simp_all
  note x = header_loop_exact [OF f rows h(1) n e m p c]
  show ?case
  proof (cases found)
    case None
    then have "loops_from pcs succs preds marks rows headers loops seen w = Some (loops', seen', work')" using rest by simp
    from Cons.IH [OF this h(2) Cons.prems(3)] x None show ?thesis by simp
  next
    case (Some a)
    then obtain l members where a: "found = Some (l, members)" by (cases a) simp
    have x': "is_header succs h" "loop_ok pcs succs h l" "length members = length succs"
      "\<And>v. v < length succs \<Longrightarrow> members ! v \<longleftrightarrow> in_loop succs h v"
      using x a by simp_all
    have "loops_from pcs succs preds marks rows headers (loops @ [l]) (map2 (\<or>) seen members) w = Some (loops', seen', work')"
      using rest a by simp
    from Cons.IH [OF this h(2)] Cons.prems(3) x'(3) obtain ls where
      "loops' = (loops @ [l]) @ ls" "list_all2 (loop_ok pcs succs) (filter (is_header succs) headers) ls"
      "length seen' = length succs"
      "\<forall>v < length succs. seen' ! v \<longleftrightarrow> map2 (\<or>) seen members ! v \<or> (\<exists>h \<in> set headers. is_header succs h \<and> in_loop succs h v)"
      by auto
    then show ?thesis using x' Cons.prems(3) by (intro exI [of _ "l # ls"]) auto
  qed
qed simp

lemma mark_nodes_exact:
  "mark_nodes seen owners = Some marks \<Longrightarrow>
   length marks = length owners \<and>
   (\<forall>i < length owners. (marks ! i \<longleftrightarrow> (\<exists>b k. owners ! i = Some (b, k) \<and> seen ! b)) \<and>
     (\<forall>b k. owners ! i = Some (b, k) \<longrightarrow> b < length seen))"
proof (induction owners arbitrary: marks)
  case (Cons owner owners)
  obtain x xs where x: "marks = x # xs" "mark_nodes seen owners = Some xs"
    "(case owner of Some (b, _) \<Rightarrow> if b < length seen then Some (seen ! b) else None | None \<Rightarrow> Some False) = Some x"
    using Cons.prems by (auto simp: bind_eq_Some_conv)
  show ?case using Cons.IH [OF x(2)] x(1,3) by (auto simp: All_less_Suc2 split: option.splits if_splits)
qed simp

section \<open>Cycles\<close>

definition on_cycle :: "nat list list \<Rightarrow> nat \<Rightarrow> bool" where
  "on_cycle succs v \<longleftrightarrow> (edge succs)\<^sup>+\<^sup>+ v v"

lemma path_reaches: "entry_path succs p v \<Longrightarrow> a \<in> set p \<Longrightarrow> (edge succs)\<^sup>*\<^sup>* a v"
  by (induction rule: entry_path.induct) (auto intro: rtranclp.rtrancl_into_rtrancl)

lemma dom_reaches: "dom_by succs a v \<Longrightarrow> live succs v \<Longrightarrow> (edge succs)\<^sup>*\<^sup>* a v"
  by (auto simp: dom_by_def live_def dest: path_reaches)

lemma live_reaches: "(edge succs)\<^sup>*\<^sup>* u v \<Longrightarrow> live succs u \<Longrightarrow> live succs v"
  by (induction rule: rtranclp_induct) (auto intro: live_edge)

lemma body_reaches:
  "v \<in> loop_body succs h \<Longrightarrow> dom_by succs h v \<and> (\<exists>l. latch succs h l \<and> (edge succs)\<^sup>*\<^sup>* v l)"
proof (induction rule: loop_body.induct)
  case (body_grow y x)
  then show ?case using dom_pred [of succs h y x] body_live [of y succs h]
    by (auto intro: converse_rtranclp_into_rtranclp)
qed (auto simp: latch_def)

text \<open>A block of a natural loop comes back to itself.\<close>

lemma in_loop_cycle:
  assumes "is_header succs h" "in_loop succs h v"
  shows "live succs v \<and> on_cycle succs v"
proof -
  obtain l where l: "latch succs h l" "(edge succs)\<^sup>*\<^sup>* v l" and v: "(edge succs)\<^sup>*\<^sup>* h v" "live succs v"
  proof (cases "v = h")
    case True
    from assms(1) obtain l where l: "latch succs h l" by (auto simp: is_header_def)
    then have "(edge succs)\<^sup>*\<^sup>* h l" by (auto simp: latch_def intro: dom_reaches)
    then show ?thesis using that [OF l] l True live_edge by (auto simp: latch_def)
  next
    case False
    then have b: "v \<in> loop_body succs h" using assms(2) by (simp add: in_loop_def)
    show ?thesis using body_reaches [OF b] body_live [OF b] that by (auto intro: dom_reaches)
  qed
  have "(edge succs)\<^sup>+\<^sup>+ v h" using l by (auto simp: latch_def intro: rtranclp_into_tranclp1)
  then show ?thesis using v by (auto simp: on_cycle_def)
qed

text \<open>
  In a reducible graph, the block of a cycle that comes first in the order of the forward edges heads
  a loop around all of it.
\<close>

lemma cycle_in_loop:
  assumes rank: "\<And>u v. live succs u \<Longrightarrow> edge succs u v \<Longrightarrow> \<not> dom_by succs v u \<Longrightarrow> (rank :: nat \<Rightarrow> nat) u < rank v"
    and x: "live succs x" "on_cycle succs x"
  shows "\<exists>h. is_header succs h \<and> in_loop succs h x"
proof -
  let ?S = "\<lambda>y. (edge succs)\<^sup>*\<^sup>* x y \<and> (edge succs)\<^sup>*\<^sup>* y x"
  obtain h where h: "?S h" "\<forall>y. ?S y \<longrightarrow> rank h \<le> rank y"
    using ex_has_least_nat [of ?S x rank] by auto
  have l: "latch succs h y" if "?S y" "edge succs y h" for y
  proof -
    have "live succs y" using that(1) x(1) live_reaches by blast
    moreover have "\<not> rank y < rank h" using h(2) that(1) by (simp add: not_less)
    ultimately show ?thesis using rank that(2) by (auto simp: latch_def)
  qed
  have "(edge succs)\<^sup>+\<^sup>+ x h" using x(2) h(1) unfolding on_cycle_def by (meson tranclp_rtranclp_tranclp)
  then have "\<exists>l0. (edge succs)\<^sup>*\<^sup>* x l0 \<and> edge succs l0 h" by cases (auto intro: tranclp_into_rtranclp)
  then obtain l0 where "(edge succs)\<^sup>*\<^sup>* x l0" "edge succs l0 h" by blast
  then have "latch succs h l0" using l h(1) by (meson converse_rtranclp_into_rtranclp)
  then have hd: "is_header succs h" by (auto simp: is_header_def)
  have "?S y \<Longrightarrow> in_loop succs h y" if "(edge succs)\<^sup>*\<^sup>* y h" for y
    using that
  proof (induction rule: converse_rtranclp_induct)
    case (step y z)
    have z: "?S z" using step h(1) by (meson rtranclp.rtrancl_into_rtrancl rtranclp_trans)
    have y: "live succs y" using step(4) x(1) live_reaches by blast
    show ?case
    proof (cases "y = h \<or> z = h")
      case True
      then show ?thesis using l [OF step(4)] step(1) body_latch unfolding in_loop_def by metis
    next
      case False
      then have "z \<in> loop_body succs h" using step.IH [OF z] by (simp add: in_loop_def)
      then show ?thesis using body_grow [OF _ y step(1)] False by (simp add: in_loop_def)
    qed
  qed (simp add: in_loop_def)
  then have "in_loop succs h x" using h(1) by blast
  then show ?thesis using hd by blast
qed


section \<open>The whole analysis\<close>

lemma bind_SomeE: "Option.bind x f = Some y \<Longrightarrow> (\<And>a. x = Some a \<Longrightarrow> f a = Some y \<Longrightarrow> P) \<Longrightarrow> P"
  by (auto simp: bind_eq_Some_conv)

lemma bind_pairE:
  "Option.bind x (\<lambda>(a, b). f a b) = Some y \<Longrightarrow> (\<And>a b. x = Some (a, b) \<Longrightarrow> f a b = Some y \<Longrightarrow> P) \<Longrightarrow> P"
  by (auto simp: bind_eq_Some_conv)

lemma bind_tripleE:
  "Option.bind x (\<lambda>(a, b, c). f a b c) = Some y \<Longrightarrow>
   (\<And>a b c. x = Some (a, b, c) \<Longrightarrow> f a b c = Some y \<Longrightarrow> P) \<Longrightarrow> P"
  by (auto simp: bind_eq_Some_conv)

lemma if_NoneE: "(if c then None else x) = Some y \<Longrightarrow> (\<not> c \<Longrightarrow> x = Some y \<Longrightarrow> P) \<Longrightarrow> P"
  by (cases c) auto

text \<open>What the stages of an accepted graph returned.\<close>

lemma analyze_graph_stages:
  assumes "analyze_graph pcs succs owners work = Some r"
  shows "\<exists>preds marks rows indegree loops seen nodes w0 w1 w2 w3 w4 w5 w6.
    pcs \<noteq> [] \<and> hd pcs = 0 \<and> strictly_increasing pcs \<and> length succs = length pcs \<and>
    add_all_edges 0 succs (replicate (length pcs) []) w0 = Some (preds, w1) \<and>
    reach_loop succs ((replicate (length pcs) False)[0 := True]) [0] w1 = Some (marks, w2) \<and>
    dominator_loop ((length pcs + 63) div 64) marks (reachable_row ((length pcs + 63) div 64) marks) preds
      (initial_rows ((length pcs + 63) div 64) marks (reachable_row ((length pcs + 63) div 64) marks)) w2 = Some (rows, w3) \<and>
    indegree_all rows marks 0 succs (replicate (length pcs) 0) w3 = Some (indegree, w4) \<and>
    topo_loop rows succs indegree (rev (filter (\<lambda>i. marks ! i \<and> indegree ! i = 0) [0..<length pcs])) 0 w4 =
      Some (length (filter id marks), w5) \<and>
    loops_from pcs succs preds marks rows [0..<length pcs] [] (replicate (length pcs) False) w5 = Some (loops, seen, w6) \<and>
    mark_nodes seen owners = Some nodes \<and>
    r = \<lparr>la_complete = True, la_pcs = pcs, la_dominators = rows, la_owners = owners, la_loop_nodes = nodes, la_loops = loops\<rparr>"
  using assms unfolding analyze_graph_def Let_def
  by (elim bind_tripleE bind_pairE if_NoneE bind_SomeE) (simp only: de_Morgan_disj not_not option.inject, blast)


lemma analyze_graph_exact:
  assumes "analyze_graph pcs succs owners work = Some r"
  shows "la_complete r" "la_pcs r = pcs" "la_owners r = owners" "strictly_increasing pcs" "length succs = length pcs"
    and "a < length succs \<Longrightarrow> b < length succs \<Longrightarrow> row_test (la_dominators r ! b) a \<longleftrightarrow> live succs b \<and> dom_by succs a b"
    and "list_all2 (loop_ok pcs succs) (filter (is_header succs) [0..<length succs]) (la_loops r)"
    and "la_contains r node \<longleftrightarrow> node < length owners \<and>
      (\<exists>b k. owners ! node = Some (b, k) \<and> live succs b \<and> on_cycle succs b)"
proof -
  obtain preds marks rows indegree loops seen nodes w0 w1 w2 w3 w4 w5 w6 where
    pcs: "pcs \<noteq> []" "strictly_increasing pcs" and n: "length succs = length pcs" and
    ps: "add_all_edges 0 succs (replicate (length pcs) []) w0 = Some (preds, w1)" and
    rs: "reach_loop succs ((replicate (length pcs) False)[0 := True]) [0] w1 = Some (marks, w2)" and
    ds: "dominator_loop ((length pcs + 63) div 64) marks (reachable_row ((length pcs + 63) div 64) marks) preds
      (initial_rows ((length pcs + 63) div 64) marks (reachable_row ((length pcs + 63) div 64) marks)) w2 = Some (rows, w3)" and
    ins: "indegree_all rows marks 0 succs (replicate (length pcs) 0) w3 = Some (indegree, w4)" and
    ts: "topo_loop rows succs indegree (rev (filter (\<lambda>i. marks ! i \<and> indegree ! i = 0) [0..<length pcs])) 0 w4 =
      Some (length (filter id marks), w5)" and
    ls: "loops_from pcs succs preds marks rows [0..<length pcs] [] (replicate (length pcs) False) w5 = Some (loops, seen, w6)" and
    ns: "mark_nodes seen owners = Some nodes" and
    r: "r = \<lparr>la_complete = True, la_pcs = pcs, la_dominators = rows, la_owners = owners, la_loop_nodes = nodes, la_loops = loops\<rparr>"
    using analyze_graph_stages [OF assms] by blast
  have pos: "0 < length succs" using pcs n by simp
  have e: "closed_graph succs" using predecessors_spec(2) [OF ps] n by (auto simp: closed_graph_def)
  note p = predecessors_spec(3) [OF ps, folded n] and c = predecessors_count [OF ps [folded n]]
  note m = reach_loop_exact [OF e pos rs [folded n]]
  have m0: "marks ! 0" using m(2) [OF pos] by simp
  have ml: "v < length marks \<Longrightarrow> marks ! v \<longleftrightarrow> live succs v" for v using m by simp
  have w: "(length pcs + 63) div 64 = (length marks + 63) div 64" using m(1) n by simp
  note ok = initial_rows_ok [OF w _ m0 ml]
  have pm: "v < length marks \<Longrightarrow> u \<in> set (preds ! v) \<longleftrightarrow> edge succs u v" for u v using p m(1) by simp
  have fp: "rows_ok succs marks ((length pcs + 63) div 64) rows \<and> (\<forall>b < length marks. 0 < b \<longrightarrow> marks ! b \<longrightarrow>
    (\<forall>a. a div 64 < (length pcs + 63) div 64 \<longrightarrow> (row_test (rows ! b) a \<longleftrightarrow> meets marks preds rows b a)))"
    by (rule dominator_loop_exact [OF ds ok w pm ml m(1)]) (use m(1) pos in auto)
  have dom: "row_test (rows ! b) a \<longleftrightarrow> live succs b \<and> dom_by succs a b" if "a < length succs" "b < length succs" for a b
    using that by (intro fixed_point_dom [OF conjunct1 [OF fp] w conjunct2 [OF fp] pm ml m(1) e pos]) (simp_all add: m(1))
  have ex: "\<exists>ls. loops = [] @ ls \<and> list_all2 (loop_ok pcs succs) (filter (is_header succs) [0..<length pcs]) ls \<and>
    length seen = length succs \<and> (\<forall>v < length succs. seen ! v \<longleftrightarrow> replicate (length pcs) False ! v \<or>
      (\<exists>h \<in> set [0..<length pcs]. is_header succs h \<and> in_loop succs h v))"
    by (rule loops_from_exact [OF ls _ _ dom n [symmetric] e m(2) p c]) (simp_all add: n)
  then have seen: "length seen = length succs"
      "\<forall>v < length succs. seen ! v \<longleftrightarrow> (\<exists>h < length succs. is_header succs h \<and> in_loop succs h v)"
    and loops: "list_all2 (loop_ok pcs succs) (filter (is_header succs) [0..<length succs]) loops"
    using n by auto
  obtain rank :: "nat \<Rightarrow> nat" where rank: "\<forall>u v. u < length succs \<longrightarrow> live succs u \<longrightarrow> v \<in> set (forward rows succs u) \<longrightarrow> rank u < rank v"
    using reducible_rank [OF ins [folded n] ts [folded n] m(2,1) e] by blast
  have rank': "rank u < rank v" if "live succs u" "edge succs u v" "\<not> dom_by succs v u" for u v
    using that rank dom [of v u] closed_graphD [OF e that(2)] by (auto simp: forward_def edge_def)
  have cyc: "seen ! v \<longleftrightarrow> live succs v \<and> on_cycle succs v" if "v < length succs" for v
  proof -
    have "h < length succs" if "is_header succs h" for h
      using that closed_graphD [OF e] by (auto simp: is_header_def latch_def)
    then show ?thesis using seen(2) that in_loop_cycle cycle_in_loop [of succs rank v, OF rank'] by blast
  qed
  show "la_complete r" "la_pcs r = pcs" "la_owners r = owners" "strictly_increasing pcs" "length succs = length pcs"
    using r pcs n by simp_all
  show "a < length succs \<Longrightarrow> b < length succs \<Longrightarrow> row_test (la_dominators r ! b) a \<longleftrightarrow> live succs b \<and> dom_by succs a b"
    using dom r by simp
  show "list_all2 (loop_ok pcs succs) (filter (is_header succs) [0..<length succs]) (la_loops r)" using loops r by simp
  show "la_contains r node \<longleftrightarrow> node < length owners \<and>
      (\<exists>b k. owners ! node = Some (b, k) \<and> live succs b \<and> on_cycle succs b)"
    using mark_nodes_exact [OF ns] cyc seen(1) r unfolding la_contains_def by fastforce
qed


section \<open>From the optimised representation to the graph\<close>

text \<open>Each edge list holds the positions of the blocks that the block's successors start.\<close>

definition block_graph :: "loop_ir \<Rightarrow> nat list list \<Rightarrow> bool" where
  "block_graph ir succs \<longleftrightarrow>
     list_all2 (\<lambda>block edges. list_all (\<lambda>e. e < length (li_blocks ir)) edges \<and>
       map (\<lambda>e. ob_start_pc (li_blocks ir ! e)) edges = ob_successors block) (li_blocks ir) succs"

text \<open>Node \<open>i\<close> is entry \<open>k\<close> of block \<open>b\<close>.\<close>

definition placed :: "loop_ir \<Rightarrow> nat \<Rightarrow> nat \<Rightarrow> nat \<Rightarrow> bool" where
  "placed ir b k i \<longleftrightarrow> b < length (li_blocks ir) \<and> k < length (ob_nodes (li_blocks ir ! b)) \<and>
     ob_nodes (li_blocks ir ! b) ! k = i"

lemma strictly_increasing_distinct: "strictly_increasing pcs \<Longrightarrow> distinct pcs"
proof -
  assume "strictly_increasing pcs"
  then have "sorted_wrt (<) pcs"
    by (auto simp: strictly_increasing_def sorted_wrt_iff_nth_Suc_transp)
  then show "distinct pcs" by (simp add: strict_sorted_iff)
qed

lemma binary_search_Some: "binary_search pcs pc = Some i \<Longrightarrow> i < length pcs \<and> pcs ! i = pc"
  by (induction pcs arbitrary: i) (auto split: if_splits)

lemma binary_search_nth: "distinct pcs \<Longrightarrow> i < length pcs \<Longrightarrow> binary_search pcs (pcs ! i) = Some i"
proof (induction pcs arbitrary: i)
  case (Cons pc pcs)
  then show ?case by (cases i) auto
qed simp

lemma find_all_spec:
  "find_all pcs rest = Some es \<Longrightarrow> (\<forall>e \<in> set es. e < length pcs) \<and> map ((!) pcs) es = rest"
  by (induction rest arbitrary: es) (auto simp: bind_eq_Some_conv dest: binary_search_Some)

lemma own_nodes_spec:
  assumes "own_nodes nodes at off ns owners work = Some (owners', work')" "length owners = length nodes"
  shows "length owners' = length nodes \<and> (\<forall>i \<in> set ns. i < length nodes) \<and>
    (\<forall>i < length nodes. \<forall>b k. owners' ! i = Some (b, k) \<longleftrightarrow>
      owners ! i = Some (b, k) \<or> b = at \<and> off \<le> k \<and> k - off < length ns \<and> ns ! (k - off) = i)"
  using assms
proof (induction ns arbitrary: off owners work)
  case (Cons n ns)
  obtain w where n: "n < length nodes" "owners ! n = None"
    and r: "own_nodes nodes at (off + 1) ns (owners[n := Some (at, off)]) w = Some (owners', work')"
    using Cons.prems(1) by (cases "owners ! n") (auto simp: bind_eq_Some_conv split: if_splits)
  have at: "(k = off \<and> i = n) \<or> off + 1 \<le> k \<and> k - (off + 1) < length ns \<and> ns ! (k - (off + 1)) = i \<longleftrightarrow>
      off \<le> k \<and> k - off < length (n # ns) \<and> (n # ns) ! (k - off) = i" for i k
    by (cases "k = off") (auto simp: nth_Cons' Suc_le_eq)
  note s = Cons.IH [OF r]
  have "owners' ! i = Some (b, k) \<longleftrightarrow> owners ! i = Some (b, k) \<or>
      b = at \<and> off \<le> k \<and> k - off < length (n # ns) \<and> (n # ns) ! (k - off) = i" if "i < length nodes" for i b k
    unfolding at [symmetric] using s Cons.prems(2) that n by (auto simp: nth_list_update)
  then show ?case using s Cons.prems(2) n by simp
qed simp

lemma read_blocks_spec:
  assumes "read_blocks pcs nodes cost at blocks succs owners work = Some (succs', owners', work')"
    and "length owners = length nodes"
  shows "\<exists>es. succs' = succs @ es \<and>
    list_all2 (\<lambda>block edges. (\<forall>e \<in> set edges. e < length pcs) \<and> map ((!) pcs) edges = ob_successors block) blocks es \<and>
    length owners' = length nodes \<and> (\<forall>block \<in> set blocks. \<forall>i \<in> set (ob_nodes block). i < length nodes) \<and>
    (\<forall>i < length nodes. \<forall>b k. owners' ! i = Some (b, k) \<longleftrightarrow> owners ! i = Some (b, k) \<or>
      at \<le> b \<and> b - at < length blocks \<and> k < length (ob_nodes (blocks ! (b - at))) \<and> ob_nodes (blocks ! (b - at)) ! k = i)"
  using assms
proof (induction blocks arbitrary: at succs owners work)
  case (Cons block blocks)
  obtain w w1 edges owners1 where f: "find_all pcs (ob_successors block) = Some edges"
    and o: "own_nodes nodes at 0 (ob_nodes block) owners w = Some (owners1, w1)"
    and r: "read_blocks pcs nodes cost (at + 1) blocks (succs @ [edges]) owners1 w1 = Some (succs', owners', work')"
    using Cons.prems(1) by (auto simp: bind_eq_Some_conv)
  note s = own_nodes_spec [OF o Cons.prems(2)]
  obtain es where es: "succs' = (succs @ [edges]) @ es"
    "list_all2 (\<lambda>block edges. (\<forall>e \<in> set edges. e < length pcs) \<and> map ((!) pcs) edges = ob_successors block) blocks es"
    "length owners' = length nodes" "\<forall>block \<in> set blocks. \<forall>i \<in> set (ob_nodes block). i < length nodes"
    "\<forall>i < length nodes. \<forall>b k. owners' ! i = Some (b, k) \<longleftrightarrow> owners1 ! i = Some (b, k) \<or>
      at + 1 \<le> b \<and> b - (at + 1) < length blocks \<and> k < length (ob_nodes (blocks ! (b - (at + 1)))) \<and>
      ob_nodes (blocks ! (b - (at + 1))) ! k = i"
    using Cons.IH [OF r] s by blast
  have at: "b = at \<and> k < length (ob_nodes block) \<and> ob_nodes block ! k = i \<or>
      at + 1 \<le> b \<and> b - (at + 1) < length blocks \<and> k < length (ob_nodes (blocks ! (b - (at + 1)))) \<and>
        ob_nodes (blocks ! (b - (at + 1))) ! k = i \<longleftrightarrow>
      at \<le> b \<and> b - at < length (block # blocks) \<and> k < length (ob_nodes ((block # blocks) ! (b - at))) \<and>
        ob_nodes ((block # blocks) ! (b - at)) ! k = i" for b k i
    by (cases "b = at") (auto simp: nth_Cons' Suc_le_eq)
  have own: "owners' ! i = Some (b, k) \<longleftrightarrow> owners ! i = Some (b, k) \<or>
      at \<le> b \<and> b - at < length (block # blocks) \<and> k < length (ob_nodes ((block # blocks) ! (b - at))) \<and>
        ob_nodes ((block # blocks) ! (b - at)) ! k = i" if "i < length nodes" for i b k
  proof -
    have "owners1 ! i = Some (b, k) \<longleftrightarrow> owners ! i = Some (b, k) \<or> b = at \<and> k < length (ob_nodes block) \<and> ob_nodes block ! k = i"
      using s that by simp
    then show ?thesis unfolding at [symmetric] using es(5) that by blast
  qed
  show ?case
    using es(1-4) find_all_spec [OF f] s own by (intro exI [of _ "edges # es"] conjI) simp_all
qed simp

lemma block_graphD:
  assumes "block_graph ir succs" "i < length succs"
  shows "set (succs ! i) \<subseteq> {..<length (li_blocks ir)}"
    and "map (\<lambda>e. ob_start_pc (li_blocks ir ! e)) (succs ! i) = ob_successors (li_blocks ir ! i)"
proof -
  have "list_all (\<lambda>e. e < length (li_blocks ir)) (succs ! i) \<and>
      map (\<lambda>e. ob_start_pc (li_blocks ir ! e)) (succs ! i) = ob_successors (li_blocks ir ! i)"
    using assms list_all2_nthD2 unfolding block_graph_def by fastforce
  then show "set (succs ! i) \<subseteq> {..<length (li_blocks ir)}"
    and "map (\<lambda>e. ob_start_pc (li_blocks ir ! e)) (succs ! i) = ob_successors (li_blocks ir ! i)"
    by (auto simp: list_all_iff)
qed

lemma block_graph_length: "block_graph ir succs \<Longrightarrow> length succs = length (li_blocks ir)"
  unfolding block_graph_def using list_all2_lengthD by fastforce

lemma block_graph_unique:
  assumes "block_graph ir s" "block_graph ir t" "distinct (map ob_start_pc (li_blocks ir))"
  shows "s = t"
proof (rule nth_equalityI)
  show len: "length s = length t" using assms(1,2) by (simp add: block_graph_length)
  fix i assume i: "i < length s"
  have inj: "inj_on (\<lambda>e. ob_start_pc (li_blocks ir ! e)) {..<length (li_blocks ir)}"
    using assms(3) by (auto simp: distinct_conv_nth inj_on_def)
  have x: "set (s ! i) \<subseteq> {..<length (li_blocks ir)}" "set (t ! i) \<subseteq> {..<length (li_blocks ir)}"
    "map (\<lambda>e. ob_start_pc (li_blocks ir ! e)) (s ! i) = map (\<lambda>e. ob_start_pc (li_blocks ir ! e)) (t ! i)"
    using block_graphD [OF assms(1) i] block_graphD [OF assms(2) i [unfolded len]] by simp_all
  have "inj_on (\<lambda>e. ob_start_pc (li_blocks ir ! e)) (set (s ! i) \<union> set (t ! i))"
    by (rule inj_on_subset [OF inj]) (use x in blast)
  then show "s ! i = t ! i" by (rule map_inj_on [OF x(3)])
qed

lemma try_analyze_graph:
  assumes "try_analyze ir work = Some r"
  shows "\<exists>succs owners w. block_graph ir succs \<and> length owners = length (li_nodes ir) \<and>
    (\<forall>i b k. placed ir b k i \<longrightarrow> i < length owners) \<and>
    (\<forall>i < length owners. \<forall>b k. owners ! i = Some (b, k) \<longleftrightarrow> placed ir b k i) \<and>
    analyze_graph (map ob_start_pc (li_blocks ir)) succs owners w = Some r"
proof -
  obtain succs owners cost w1 w2 w3 where
    b: "read_blocks (map ob_start_pc (li_blocks ir)) (li_nodes ir) cost 0 (li_blocks ir) []
         (replicate (length (li_nodes ir)) None) w1 = Some (succs, owners, w2)"
    and g: "analyze_graph (map ob_start_pc (li_blocks ir)) succs owners w3 = Some r"
    using assms unfolding try_analyze_def Let_def by (elim bind_tripleE if_NoneE bind_SomeE)
  let ?n = "length (li_blocks ir)"
  have s: "list_all2 (\<lambda>block edges. (\<forall>e \<in> set edges. e < ?n) \<and>
      map ((!) (map ob_start_pc (li_blocks ir))) edges = ob_successors block) (li_blocks ir) succs"
    "length owners = length (li_nodes ir)" "\<forall>block \<in> set (li_blocks ir). \<forall>i \<in> set (ob_nodes block). i < length (li_nodes ir)"
    "\<forall>i < length (li_nodes ir). \<forall>b k. owners ! i = Some (b, k) \<longleftrightarrow> placed ir b k i"
    using read_blocks_spec [OF b] by (auto simp: placed_def)
  have "map ((!) (map ob_start_pc (li_blocks ir))) es = map (\<lambda>e. ob_start_pc (li_blocks ir ! e)) es"
    if "\<forall>e \<in> set es. e < ?n" for es
    using that by simp
  then have "block_graph ir succs"
    unfolding block_graph_def list_all_iff by (intro list_all2_mono [OF s(1)]) metis
  moreover have "i < length owners" if "placed ir b k i" for b k i
    using s(3) that unfolding s(2) placed_def by (metis nth_mem)
  moreover have "\<forall>i < length owners. \<forall>b k. owners ! i = Some (b, k) \<longleftrightarrow> placed ir b k i" using s(4) unfolding s(2) .
  ultimately show ?thesis using s(2) g by blast
qed


text \<open>All that a complete analysis says, over the one graph of the blocks.\<close>

lemma analyze_exact:
  assumes "la_complete (analyze ir work)" "block_graph ir succs"
  shows "la_pcs (analyze ir work) = map ob_start_pc (li_blocks ir)" "distinct (map ob_start_pc (li_blocks ir))"
    and "a < length succs \<Longrightarrow> b < length succs \<Longrightarrow>
      row_test (la_dominators (analyze ir work) ! b) a \<longleftrightarrow> live succs b \<and> dom_by succs a b"
    and "list_all2 (loop_ok (map ob_start_pc (li_blocks ir)) succs)
      (filter (is_header succs) [0..<length succs]) (la_loops (analyze ir work))"
    and "owner_of (analyze ir work) node = Some (b, k) \<longleftrightarrow> placed ir b k node"
    and "la_contains (analyze ir work) node \<longleftrightarrow> (\<exists>b k. placed ir b k node \<and> live succs b \<and> on_cycle succs b)"
proof -
  obtain r where r: "try_analyze ir work = Some r" "analyze ir work = r"
    using assms(1) by (auto simp: analyze_def default_analysis_def split: option.splits)
  obtain s owners w where s: "block_graph ir s" "\<forall>i b k. placed ir b k i \<longrightarrow> i < length owners"
    "\<forall>i < length owners. \<forall>b k. owners ! i = Some (b, k) \<longleftrightarrow> placed ir b k i"
    "analyze_graph (map ob_start_pc (li_blocks ir)) s owners w = Some r"
    using try_analyze_graph [OF r(1)] by blast
  note x = analyze_graph_exact [OF s(4)]
  show d: "distinct (map ob_start_pc (li_blocks ir))" by (rule strictly_increasing_distinct [OF x(4)])
  have eq: "s = succs" by (rule block_graph_unique [OF s(1) assms(2) d])
  show "la_pcs (analyze ir work) = map ob_start_pc (li_blocks ir)" using x(2) r(2) by simp
  show "a < length succs \<Longrightarrow> b < length succs \<Longrightarrow>
      row_test (la_dominators (analyze ir work) ! b) a \<longleftrightarrow> live succs b \<and> dom_by succs a b"
    using x(6) r(2) eq by simp
  show "list_all2 (loop_ok (map ob_start_pc (li_blocks ir)) succs)
      (filter (is_header succs) [0..<length succs]) (la_loops (analyze ir work))"
    using x(7) r(2) eq by simp
  show "owner_of (analyze ir work) node = Some (b, k) \<longleftrightarrow> placed ir b k node"
    using s(2,3) x(3) r(2) unfolding owner_of_def by (cases "node < length owners") auto
  show "la_contains (analyze ir work) node \<longleftrightarrow> (\<exists>b k. placed ir b k node \<and> live succs b \<and> on_cycle succs b)"
    using x(8) [of node] s(2,3) r(2) unfolding eq by meson
qed

lemma la_dominates_nth:
  assumes "la_complete (analyze ir work)" "block_graph ir succs" "a < length succs" "b < length succs"
  shows "la_dominates (analyze ir work) (ob_start_pc (li_blocks ir ! a)) (ob_start_pc (li_blocks ir ! b)) \<longleftrightarrow>
    live succs b \<and> dom_by succs a b"
proof -
  note x = analyze_exact [OF assms(1,2)]
  have n: "length succs = length (li_blocks ir)" using assms(2) by (rule block_graph_length)
  have "binary_search (map ob_start_pc (li_blocks ir)) (ob_start_pc (li_blocks ir ! i)) = Some i" if "i < length succs" for i
    using binary_search_nth [OF x(2), of i] that n by simp
  then show ?thesis using x(1) x(3) [OF assms(3,4)] assms(3,4) by (simp add: la_dominates_def)
qed

section \<open>What the optimiser relies on\<close>

text \<open>Blocks 1 and 2 both come back to block 3, which only block 0 enters; node 0 guards the entry.\<close>

definition two_latch_ir :: loop_ir where
  "two_latch_ir =
     \<lparr>li_blocks =
        [\<lparr>ob_start_pc = 0, ob_successors = [9], ob_nodes = [1]\<rparr>,
         \<lparr>ob_start_pc = 4, ob_successors = [9], ob_nodes = [2]\<rparr>,
         \<lparr>ob_start_pc = 7, ob_successors = [9], ob_nodes = [3]\<rparr>,
         \<lparr>ob_start_pc = 9, ob_successors = [4, 7, 12], ob_nodes = [4, 6]\<rparr>,
         \<lparr>ob_start_pc = 12, ob_successors = [], ob_nodes = [5]\<rparr>],
      li_nodes =
        [\<lparr>on_id = 0, on_pc = 0, on_entry_guard = True\<rparr>, \<lparr>on_id = 1, on_pc = 0, on_entry_guard = False\<rparr>,
         \<lparr>on_id = 2, on_pc = 4, on_entry_guard = False\<rparr>, \<lparr>on_id = 3, on_pc = 7, on_entry_guard = False\<rparr>,
         \<lparr>on_id = 4, on_pc = 9, on_entry_guard = False\<rparr>, \<lparr>on_id = 5, on_pc = 12, on_entry_guard = False\<rparr>,
         \<lparr>on_id = 6, on_pc = 10, on_entry_guard = False\<rparr>]\<rparr>"

definition two_latch_succs :: "nat list list" where
  "two_latch_succs = [[3], [3], [3], [1, 2, 4], []]"

lemma strictly_increasing_eval:
  "strictly_increasing [x]" "strictly_increasing (x # y # ys) = (x < y \<and> strictly_increasing (y # ys))"
  by (auto simp: strictly_increasing_def less_Suc_eq_0_disj)

lemma lists_eval:
  "replicate 5 x = [x, x, x, x, x]" "replicate 7 x = [x, x, x, x, x, x, x]"
  "i < j \<Longrightarrow> [i..<j] = i # [i + 1..<j]"
  by (simp_all add: numeral_eq_Suc upt_conv_Cons)

lemmas analysis_eval =
  usize_max_def checked_mul_def checked_add_def spend_def checked_sub_def row_test_def row_set_def Let_def
  lists_eval strictly_increasing_eval analyze_graph_def reachable_row_def initial_rows_def dominator_loop.simps
  header_loop_def pick_preheader_def blocks_of_def

lemma two_latch_analysis:
  "analyze two_latch_ir 1000 =
     \<lparr>la_complete = True, la_pcs = [0, 4, 7, 9, 12],
      la_dominators = [[1], [11], [13], [9], [25]],
      la_owners = [None, Some (0, 0), Some (1, 0), Some (2, 0), Some (3, 0), Some (4, 0), Some (3, 1)],
      la_loop_nodes = [False, False, True, True, True, False, True],
      la_loops = [\<lparr>nl_header = 9, nl_preheader = Some 0, nl_members = [4, 7, 9]\<rparr>]\<rparr>"
  by (simp add: analyze_def try_analyze_def two_latch_ir_def bit_length_def analysis_eval)

lemma two_latch_complete: "la_complete (analyze two_latch_ir 1000)"
  by (simp add: two_latch_analysis)

lemma two_latch_graph: "block_graph two_latch_ir two_latch_succs"
  by (simp add: block_graph_def two_latch_ir_def two_latch_succs_def)

text \<open>
  C20. A complete analysis answers dominance exactly: the block that starts at one pc dominates the block
  that starts at another when the second is reachable from the entry and every path from the entry to it
  passes the first.
\<close>

theorem dominates_exact:
  assumes "la_complete (analyze ir work)" "block_graph ir succs"
    and "a < length (li_blocks ir)" "b < length (li_blocks ir)"
  shows "la_dominates (analyze ir work) (ob_start_pc (li_blocks ir ! a)) (ob_start_pc (li_blocks ir ! b)) \<longleftrightarrow>
    live succs b \<and> (\<forall>p. entry_path succs p b \<longrightarrow> a \<in> set p)"
  using la_dominates_nth [OF assms(1,2)] assms(3,4) block_graph_length [OF assms(2)] by (simp add: dom_by_def)

theorem dominates_exact_witness:
  "la_dominates (analyze two_latch_ir 1000) 9 12 \<and> live two_latch_succs 4 \<and>
   \<not> (la_dominates (analyze two_latch_ir 1000) 4 9)"
proof -
  have "la_dominates (analyze two_latch_ir 1000) 9 12" "\<not> la_dominates (analyze two_latch_ir 1000) 4 9"
    by (simp_all add: two_latch_analysis la_dominates_def row_test_def)
  moreover have "live two_latch_succs 4"
    using dominates_exact [OF two_latch_complete two_latch_graph, of 3 4] calculation(1)
    by (simp add: two_latch_ir_def)
  ultimately show ?thesis by simp
qed

text \<open>
  C22. The loops of a complete analysis are the natural loops of the graph, one for each block with an edge
  back to it from a reachable block it dominates, in block order. The members of each are the header and
  the reachable blocks that reach such an edge without passing the header. A preheader is named exactly when
  one reachable block outside the loop enters it, has the header as its only successor and dominates it.
\<close>

theorem loops_exact:
  assumes "la_complete (analyze ir work)" "block_graph ir succs"
  shows "list_all2 (loop_ok (map ob_start_pc (li_blocks ir)) succs)
    (filter (is_header succs) [0..<length (li_blocks ir)]) (la_loops (analyze ir work))"
  using analyze_exact(4) [OF assms] block_graph_length [OF assms(2)] by simp

theorem loops_exact_witness:
  "\<exists>h. is_header two_latch_succs h \<and> filter (is_header two_latch_succs) [0..<5] = [h] \<and>
    loop_ok [0, 4, 7, 9, 12] two_latch_succs h \<lparr>nl_header = 9, nl_preheader = Some 0, nl_members = [4, 7, 9]\<rparr>"
proof -
  have pcs: "map ob_start_pc (li_blocks two_latch_ir) = [0, 4, 7, 9, 12]" and n: "length (li_blocks two_latch_ir) = 5"
    by (simp_all add: two_latch_ir_def)
  have "list_all2 (loop_ok [0, 4, 7, 9, 12] two_latch_succs) (filter (is_header two_latch_succs) [0..<5])
      [\<lparr>nl_header = 9, nl_preheader = Some 0, nl_members = [4, 7, 9]\<rparr>]"
    using loops_exact [OF two_latch_complete two_latch_graph] unfolding two_latch_analysis pcs n by simp
  then show ?thesis by (auto simp: list_all2_Cons2 filter_eq_Cons_iff)
qed

text \<open>
  C21. A complete analysis says that a node is in a loop exactly when the block that holds the node is
  reachable from the entry and lies on a cycle of the graph: no cycle escapes the analysis, since a graph
  with a cycle that no block dominates is never complete.
\<close>

theorem contains_iff_cycle:
  assumes "la_complete (analyze ir work)" "block_graph ir succs"
  shows "la_contains (analyze ir work) node \<longleftrightarrow>
    (\<exists>b k. placed ir b k node \<and> live succs b \<and> (edge succs)\<^sup>+\<^sup>+ b b)"
  using analyze_exact(6) [OF assms] by (simp add: on_cycle_def)

theorem contains_iff_cycle_witness:
  "la_contains (analyze two_latch_ir 1000) 6 \<and> \<not> la_contains (analyze two_latch_ir 1000) 5 \<and>
   (\<exists>b k. placed two_latch_ir b k 6 \<and> live two_latch_succs b \<and> (edge two_latch_succs)\<^sup>+\<^sup>+ b b)"
proof -
  have "la_contains (analyze two_latch_ir 1000) 6" "\<not> la_contains (analyze two_latch_ir 1000) 5"
    by (simp_all add: two_latch_analysis la_contains_def)
  then show ?thesis using contains_iff_cycle [OF two_latch_complete two_latch_graph] by simp
qed

text \<open>
  A node dominates another when its block dominates the other's and, within one block, it comes first.
\<close>

lemma node_dominates_exact:
  assumes "la_complete (analyze ir work)" "block_graph ir succs" "placed ir b k n" "placed ir b' k' n'"
  shows "node_dominates (analyze ir work) n n' \<longleftrightarrow> live succs b' \<and> dom_by succs b b' \<and> (b = b' \<longrightarrow> k \<le> k')"
proof -
  have o: "owner_of (analyze ir work) n = Some (b, k)" "owner_of (analyze ir work) n' = Some (b', k')"
    using analyze_exact(5) [OF assms(1,2)] assms(3,4) by blast+
  have l: "b < length (li_blocks ir)" "b' < length (li_blocks ir)" using assms(3,4) by (simp_all add: placed_def)
  show ?thesis
    using la_dominates_nth [OF assms(1,2), of b b'] l block_graph_length [OF assms(2)] analyze_exact(1) [OF assms(1,2)]
    by (auto simp: node_dominates_def o)
qed

end
