(* ===== verification/Feedback.thy ===== *)
theory Feedback
  imports Shape_Feedback Array_Feedback
begin

text \<open>
  Value feedback, \<^verbatim>\<open>jit/src/runtime/feedback.rs\<close>: per function and pc the types of values, arguments,
  operands, results and branch conditions that the interpreter saw, the targets of calls, and the frozen
  snapshots from which the optimising compiler reads specialisations.

  An entry holds the types seen at one place until they exceed the diversity limit; then it forgets them
  and stays megamorphic. The table has two memos: the arguments of the last call, and the last four type
  observations with the state they returned and the version at that time. The version is a \<open>u64\<close> that
  wraps around, except for changes of the array table, which saturate it.
\<close>

section \<open>Data\<close>

datatype feedback_kind = KindValue | KindCallTarget | KindExit

fun kind_rank :: "feedback_kind \<Rightarrow> nat" where
  "kind_rank KindValue = 0"
| "kind_rank KindCallTarget = 1"
| "kind_rank KindExit = 2"

lemma kind_rank_inject [simp]: "kind_rank a = kind_rank b \<longleftrightarrow> a = b"
  by (cases a; cases b) simp_all

datatype feedback_key = FeedbackKey (fb_function: function_key) (fb_pc: nat) (fb_kind: feedback_kind)

fun feedback_rank :: "feedback_key \<Rightarrow> function_key \<times> nat \<times> nat" where
  "feedback_rank (FeedbackKey f pc kind) = (f, pc, kind_rank kind)"

lemma feedback_rank_inject [simp]: "feedback_rank a = feedback_rank b \<longleftrightarrow> a = b"
  by (cases a; cases b) auto

instantiation feedback_key :: linorder
begin

definition less_eq_feedback_key :: "feedback_key \<Rightarrow> feedback_key \<Rightarrow> bool" where
  "less_eq_feedback_key a b \<longleftrightarrow> feedback_rank a \<le> feedback_rank b"

definition less_feedback_key :: "feedback_key \<Rightarrow> feedback_key \<Rightarrow> bool" where
  "less_feedback_key a b \<longleftrightarrow> feedback_rank a < feedback_rank b"

instance
proof
  fix a b c :: feedback_key
  show "a < b \<longleftrightarrow> a \<le> b \<and> \<not> b \<le> a"
    unfolding less_eq_feedback_key_def less_feedback_key_def by (rule less_le_not_le)
  show "a \<le> a" by (simp add: less_eq_feedback_key_def)
  show "a \<le> b \<Longrightarrow> b \<le> c \<Longrightarrow> a \<le> c" unfolding less_eq_feedback_key_def by (rule order_trans)
  show "a \<le> b \<Longrightarrow> b \<le> a \<Longrightarrow> a = b"
    unfolding less_eq_feedback_key_def by (metis antisym feedback_rank_inject)
  show "a \<le> b \<or> b \<le> a" unfolding less_eq_feedback_key_def by (rule linear)
qed

end

datatype feedback_representation = ReprInt32 | ReprFloat64 | ReprHeapRef | ReprBool

definition MAX_SPECIALIZED_ARGUMENTS :: nat where "MAX_SPECIALIZED_ARGUMENTS = 8"

record bounded_signature =
  sg_function :: function_key
  sg_arguments :: "feedback_representation list"
  sg_result :: feedback_representation
  sg_feedback_epoch :: nat

record call_specialization_key =
  ck_caller :: function_key
  ck_callee :: function_key
  ck_arguments :: "feedback_representation list"
  ck_result :: feedback_representation
  ck_feedback_epoch :: nat
  ck_callee_identity :: nat
  ck_callee_bytecode_identity :: nat

record call_link_status =
  cl_caller :: function_key
  cl_pc :: nat
  cl_callee :: function_key
  cl_callee_identity :: nat
  cl_callee_bytecode_identity :: nat

fun representation_tag :: "feedback_representation \<Rightarrow> 64 word" where
  "representation_tag ReprInt32 = 1"
| "representation_tag ReprFloat64 = 2"
| "representation_tag ReprHeapRef = 3"
| "representation_tag ReprBool = 4"

definition mix :: "64 word \<Rightarrow> 64 word \<Rightarrow> 64 word" where
  "mix state value = (state XOR value) * 0x100000001b3"

definition fingerprint :: "bounded_signature \<Rightarrow> 64 word" where
  "fingerprint s =
     (let state = 0xcbf29ce484222325;
          state = mix state (of_nat (fk_id (sg_function s)));
          state = mix state (of_nat (fk_generation (sg_function s)));
          state = mix state (of_nat (length (sg_arguments s)));
          state = fold (\<lambda>argument state. mix state (representation_tag argument)) (sg_arguments s) state;
          state = mix state (representation_tag (sg_result s))
      in mix state (of_nat (sg_feedback_epoch s)))"

type_synonym binary_flags = "32 word"

definition flags_NONE :: binary_flags where "flags_NONE = 0"
definition flags_OVERFLOW :: binary_flags where "flags_OVERFLOW = push_bit 0 1"
definition flags_NEGATIVE_ZERO :: binary_flags where "flags_NEGATIVE_ZERO = push_bit 1 1"
definition flags_NAN :: binary_flags where "flags_NAN = push_bit 2 1"

definition flags_contains :: "binary_flags \<Rightarrow> binary_flags \<Rightarrow> bool" where
  "flags_contains a b \<longleftrightarrow> a AND b = b"

section \<open>Entries\<close>

record feedback_entry =
  en_observations :: "observed_type list"
  en_megamorphic :: bool

definition empty_entry :: feedback_entry where
  "empty_entry = \<lparr>en_observations = [], en_megamorphic = False\<rparr>"

definition entry_observe :: "observed_type \<Rightarrow> nat \<Rightarrow> feedback_entry \<Rightarrow> feedback_state \<times> feedback_entry" where
  "entry_observe observation diversity_limit e =
     (if en_megamorphic e then (Megamorphic, e)
      else if observation \<notin> set (en_observations e) \<and> diversity_limit \<le> length (en_observations e)
      then (Megamorphic, \<lparr>en_observations = [], en_megamorphic = True\<rparr>)
      else
        let obs = (if observation \<notin> set (en_observations e) then en_observations e @ [observation]
                   else en_observations e)
        in (if length obs = 1 then Monomorphic else Polymorphic, e\<lparr>en_observations := obs\<rparr>))"

definition entry_shape :: "feedback_entry \<Rightarrow> nat \<times> bool" where
  "entry_shape e = (length (en_observations e), en_megamorphic e)"

definition slots_shape :: "feedback_entry list \<Rightarrow> nat \<times> nat" where
  "slots_shape slots =
     fold (\<lambda>slot (observations, megamorphic).
             (observations + length (en_observations slot), megamorphic + of_bool (en_megamorphic slot)))
       slots (0, 0)"

definition combined_state :: "feedback_entry list \<Rightarrow> bool \<Rightarrow> feedback_state" where
  "combined_state entries additional_polymorphism =
     (if list_ex en_megamorphic entries then Megamorphic
      else if additional_polymorphism \<or> list_ex (\<lambda>e. 1 < length (en_observations e)) entries then Polymorphic
      else Monomorphic)"

definition observe_bounded_distinct :: "'a \<Rightarrow> nat \<Rightarrow> 'a list \<times> bool \<Rightarrow> 'a list \<times> bool" where
  "observe_bounded_distinct observation diversity_limit =
     (\<lambda>(observations, megamorphic).
        if megamorphic \<or> observation \<in> set observations then (observations, megamorphic)
        else if diversity_limit \<le> length observations then ([], True)
        else (observations @ [observation], megamorphic))"

text \<open>The vector of argument slots grows to the number of arguments; then each argument is observed.\<close>

definition resize_slots :: "nat \<Rightarrow> feedback_entry list \<Rightarrow> feedback_entry list" where
  "resize_slots n slots = (if length slots < n then slots @ replicate (n - length slots) empty_entry else slots)"

fun observe_slots :: "nat \<Rightarrow> feedback_entry list \<Rightarrow> observed_type list \<Rightarrow> feedback_entry list" where
  "observe_slots limit (slot # slots) (a # as) = snd (entry_observe a limit slot) # observe_slots limit slots as"
| "observe_slots limit slots _ = slots"

record call_feedback_entry =
  cf_slots :: "feedback_entry list"
  cf_arities :: "nat list"
  cf_arity_megamorphic :: bool

record binary_feedback_entry =
  bf_lhs :: feedback_entry
  bf_rhs :: feedback_entry
  bf_result :: feedback_entry
  bf_flags :: binary_flags

record conversion_feedback_entry =
  cv_operand :: feedback_entry
  cv_result :: feedback_entry

record branch_feedback_entry =
  br_condition_types :: feedback_entry
  br_outcomes :: "8 word"

record call_signature_entry =
  cs_targets :: "function_key list"
  cs_targets_megamorphic :: bool
  cs_arities :: "nat list"
  cs_arities_megamorphic :: bool
  cs_arguments :: "feedback_entry list"
  cs_results :: feedback_entry
  cs_callee_identity :: nat
  cs_callee_bytecode_identity :: nat

definition call_signature_state :: "call_signature_entry \<Rightarrow> feedback_state" where
  "call_signature_state e =
     (if cs_targets_megamorphic e \<or> cs_arities_megamorphic e \<or> en_megamorphic (cs_results e) \<or>
         list_ex en_megamorphic (cs_arguments e)
      then Megamorphic
      else if length (cs_targets e) \<noteq> 1 \<or> length (cs_arities e) \<noteq> 1 \<or>
              length (en_observations (cs_results e)) \<noteq> 1 \<or>
              list_ex (\<lambda>slot. length (en_observations slot) \<noteq> 1) (cs_arguments e)
      then Polymorphic
      else Monomorphic)"

definition call_target_state :: "call_signature_entry \<Rightarrow> feedback_state" where
  "call_target_state e =
     (if cs_targets_megamorphic e then Megamorphic
      else if length (cs_targets e) = 1 then Monomorphic
      else Polymorphic)"

section \<open>The table\<close>

record feedback_table =
  ft_capacity :: nat
  ft_diversity_limit :: nat
  ft_dropped :: nat
  ft_version :: nat
  ft_recent_types :: "(feedback_key \<times> observed_type \<times> feedback_state \<times> nat) option list"
  ft_recent_type_cursor :: nat
  ft_last_call :: "function_key option"
  ft_last_call_arguments :: "observed_type list"
  ft_entries :: "(feedback_key \<times> feedback_entry) list"
  ft_calls :: "(function_key \<times> call_feedback_entry) list"
  ft_binaries :: "((function_key \<times> nat) \<times> binary_feedback_entry) list"
  ft_conversions :: "((function_key \<times> nat) \<times> conversion_feedback_entry) list"
  ft_branches :: "((function_key \<times> nat) \<times> branch_feedback_entry) list"
  ft_call_signatures :: "((function_key \<times> nat) \<times> call_signature_entry) list"
  ft_arrays :: array_feedback_table

definition new_feedback_table :: "nat \<Rightarrow> nat \<Rightarrow> feedback_table" where
  "new_feedback_table capacity diversity_limit =
     \<lparr>ft_capacity = capacity, ft_diversity_limit = max diversity_limit 1, ft_dropped = 0, ft_version = 0,
      ft_recent_types = [None, None, None, None], ft_recent_type_cursor = 0,
      ft_last_call = None, ft_last_call_arguments = [],
      ft_entries = [], ft_calls = [], ft_binaries = [], ft_conversions = [], ft_branches = [],
      ft_call_signatures = [], ft_arrays = new_array_table capacity diversity_limit\<rparr>"

definition bump :: "bool \<Rightarrow> feedback_table \<Rightarrow> feedback_table" where
  "bump changed t = (if changed then t\<lparr>ft_version := (ft_version t + 1) mod 2 ^ 64\<rparr> else t)"

definition saturate :: "bool \<Rightarrow> feedback_table \<Rightarrow> feedback_table" where
  "saturate changed t = (if changed then t\<lparr>ft_version := sat_add u64_max (ft_version t) 1\<rparr> else t)"

definition forget_function :: "function_key \<Rightarrow> feedback_table \<Rightarrow> feedback_table" where
  "forget_function function t =
     (let t = t\<lparr>ft_entries := filter (\<lambda>e. fb_function (fst e) \<noteq> function) (ft_entries t),
                ft_calls := bt_remove function (ft_calls t),
                ft_binaries := filter (\<lambda>e. fst (fst e) \<noteq> function) (ft_binaries t),
                ft_conversions := filter (\<lambda>e. fst (fst e) \<noteq> function) (ft_conversions t),
                ft_branches := filter (\<lambda>e. fst (fst e) \<noteq> function) (ft_branches t),
                ft_call_signatures := filter (\<lambda>e. fst (fst e) \<noteq> function) (ft_call_signatures t),
                ft_arrays := forget_array_function function (ft_arrays t)\<rparr>;
          t = (if ft_last_call t = Some function
               then t\<lparr>ft_last_call := None, ft_last_call_arguments := []\<rparr> else t)
      in t\<lparr>ft_recent_types := [None, None, None, None]\<rparr>)"

definition ft_observe_array ::
  "function_key \<Rightarrow> nat \<Rightarrow> array_access \<Rightarrow> array_mode \<Rightarrow> array_hazards \<Rightarrow> feedback_table \<Rightarrow>
   feedback_state \<times> feedback_table" where
  "ft_observe_array function pc access mode hazards t =
     (case observe_array function pc access mode hazards (ft_arrays t) of
        (state, arrays) \<Rightarrow>
          (state, saturate (at_version arrays \<noteq> at_version (ft_arrays t)) (t\<lparr>ft_arrays := arrays\<rparr>)))"

definition ft_observe_array_raw ::
  "function_key \<Rightarrow> nat \<Rightarrow> 32 word \<Rightarrow> 32 word \<Rightarrow> feedback_table \<Rightarrow> feedback_state option \<times> feedback_table" where
  "ft_observe_array_raw function pc mode flags t =
     (case observe_raw function pc mode flags (ft_arrays t) of
        (None, arrays) \<Rightarrow> (None, t\<lparr>ft_arrays := arrays\<rparr>)
      | (Some state, arrays) \<Rightarrow>
          (Some state, saturate (at_version arrays \<noteq> at_version (ft_arrays t)) (t\<lparr>ft_arrays := arrays\<rparr>)))"

definition default_call :: call_feedback_entry where
  "default_call = \<lparr>cf_slots = [], cf_arities = [], cf_arity_megamorphic = False\<rparr>"

definition call_shape :: "call_feedback_entry \<Rightarrow> nat \<times> bool \<times> nat \<times> nat \<times> nat" where
  "call_shape call =
     (length (cf_arities call), cf_arity_megamorphic call, length (cf_slots call), slots_shape (cf_slots call))"

definition observe_arguments :: "nat \<Rightarrow> observed_type list \<Rightarrow> call_feedback_entry \<Rightarrow> call_feedback_entry" where
  "observe_arguments diversity_limit arguments call =
     (let call = (if \<not> cf_arity_megamorphic call \<and> length arguments \<notin> set (cf_arities call)
                  then if diversity_limit \<le> length (cf_arities call)
                       then call\<lparr>cf_arity_megamorphic := True, cf_arities := []\<rparr>
                       else call\<lparr>cf_arities := cf_arities call @ [length arguments]\<rparr>
                  else call);
          call = call\<lparr>cf_slots := resize_slots (length arguments) (cf_slots call)\<rparr>
      in call\<lparr>cf_slots := observe_slots diversity_limit (cf_slots call) arguments\<rparr>)"

definition observe_call :: "function_key \<Rightarrow> observed_type list \<Rightarrow> feedback_table \<Rightarrow> feedback_table" where
  "observe_call function arguments t =
     (if ft_last_call t = Some function \<and> ft_last_call_arguments t = arguments then t
      else
        let (call, is_new) = (case map_of (ft_calls t) function of
                                Some call \<Rightarrow> (call, False) | None \<Rightarrow> (default_call, True));
            before = call_shape call;
            call = observe_arguments (ft_diversity_limit t) arguments call;
            t = t\<lparr>ft_calls := bt_insert function call (ft_calls t)\<rparr>;
            t = bump (is_new \<or> before \<noteq> call_shape call) t
        in t\<lparr>ft_last_call := Some function, ft_last_call_arguments := arguments\<rparr>)"

definition states_join :: "feedback_state list \<Rightarrow> feedback_state" where
  "states_join states =
     (if Megamorphic \<in> set states then Megamorphic
      else if Polymorphic \<in> set states then Polymorphic
      else Monomorphic)"

definition binary_shape :: "binary_feedback_entry \<Rightarrow> (nat \<times> bool) \<times> (nat \<times> bool) \<times> (nat \<times> bool) \<times> binary_flags" where
  "binary_shape e = (entry_shape (bf_lhs e), entry_shape (bf_rhs e), entry_shape (bf_result e), bf_flags e)"

definition observe_binary ::
  "function_key \<Rightarrow> nat \<Rightarrow> observed_type \<Rightarrow> observed_type \<Rightarrow> observed_type \<Rightarrow> binary_flags \<Rightarrow> feedback_table \<Rightarrow>
   feedback_state \<times> feedback_table" where
  "observe_binary function pc lhs rhs result flags t =
     (let limit = ft_diversity_limit t;
          old = (case map_of (ft_binaries t) (function, pc) of
                   Some e \<Rightarrow> e
                 | None \<Rightarrow> \<lparr>bf_lhs = empty_entry, bf_rhs = empty_entry, bf_result = empty_entry,
                            bf_flags = flags_NONE\<rparr>);
          (s1, l) = entry_observe lhs limit (bf_lhs old);
          (s2, r) = entry_observe rhs limit (bf_rhs old);
          (s3, v) = entry_observe result limit (bf_result old);
          e = \<lparr>bf_lhs = l, bf_rhs = r, bf_result = v, bf_flags = bf_flags old OR flags\<rparr>;
          t = t\<lparr>ft_binaries := bt_insert (function, pc) e (ft_binaries t)\<rparr>;
          t = bump (binary_shape old \<noteq> binary_shape e) t
      in (states_join [s1, s2, s3], t))"

definition observe_conversion ::
  "function_key \<Rightarrow> nat \<Rightarrow> observed_type \<Rightarrow> observed_type \<Rightarrow> feedback_table \<Rightarrow> feedback_state \<times> feedback_table" where
  "observe_conversion function pc operand result t =
     (let limit = ft_diversity_limit t;
          old = (case map_of (ft_conversions t) (function, pc) of
                   Some e \<Rightarrow> e | None \<Rightarrow> \<lparr>cv_operand = empty_entry, cv_result = empty_entry\<rparr>);
          e = \<lparr>cv_operand = snd (entry_observe operand limit (cv_operand old)),
               cv_result = snd (entry_observe result limit (cv_result old))\<rparr>;
          t = t\<lparr>ft_conversions := bt_insert (function, pc) e (ft_conversions t)\<rparr>;
          t = bump ((entry_shape (cv_operand old), entry_shape (cv_result old)) \<noteq>
                    (entry_shape (cv_operand e), entry_shape (cv_result e))) t
      in (combined_state [cv_operand e, cv_result e] False, t))"

definition observe_branch ::
  "function_key \<Rightarrow> nat \<Rightarrow> observed_type \<Rightarrow> bool \<Rightarrow> feedback_table \<Rightarrow> feedback_state \<times> feedback_table" where
  "observe_branch function pc condition_type taken t =
     (let limit = ft_diversity_limit t;
          old = (case map_of (ft_branches t) (function, pc) of
                   Some e \<Rightarrow> e | None \<Rightarrow> \<lparr>br_condition_types = empty_entry, br_outcomes = 0\<rparr>);
          e = \<lparr>br_condition_types = snd (entry_observe condition_type limit (br_condition_types old)),
               br_outcomes = br_outcomes old OR (if taken then 1 else 2)\<rparr>;
          t = t\<lparr>ft_branches := bt_insert (function, pc) e (ft_branches t)\<rparr>;
          t = bump ((entry_shape (br_condition_types old), br_outcomes old) \<noteq>
                    (entry_shape (br_condition_types e), br_outcomes e)) t
      in (combined_state [br_condition_types e] (br_outcomes e = 3), t))"

definition signature_shape ::
  "call_signature_entry \<Rightarrow> nat \<times> bool \<times> nat \<times> bool \<times> nat \<times> (nat \<times> nat) \<times> (nat \<times> bool) \<times> nat \<times> nat" where
  "signature_shape e =
     (length (cs_targets e), cs_targets_megamorphic e, length (cs_arities e), cs_arities_megamorphic e,
      length (cs_arguments e), slots_shape (cs_arguments e), entry_shape (cs_results e),
      cs_callee_identity e, cs_callee_bytecode_identity e)"

definition observe_signature ::
  "nat \<Rightarrow> function_key \<Rightarrow> nat \<Rightarrow> nat \<Rightarrow> observed_type list \<Rightarrow> observed_type \<Rightarrow>
   call_signature_entry \<Rightarrow> call_signature_entry" where
  "observe_signature limit callee identity bytecode_identity arguments result e =
     (let e = (if cs_callee_identity e \<noteq> identity
               then e\<lparr>cs_targets_megamorphic := True, cs_callee_identity := 0\<rparr> else e);
          e = (if cs_callee_bytecode_identity e \<noteq> bytecode_identity
               then e\<lparr>cs_targets_megamorphic := True, cs_callee_bytecode_identity := 0\<rparr> else e);
          (targets, tm) = observe_bounded_distinct callee limit (cs_targets e, cs_targets_megamorphic e);
          (arities, am) = observe_bounded_distinct (length arguments) limit (cs_arities e, cs_arities_megamorphic e)
      in e\<lparr>cs_targets := targets, cs_targets_megamorphic := tm, cs_arities := arities,
           cs_arities_megamorphic := am,
           cs_arguments := observe_slots limit (resize_slots (length arguments) (cs_arguments e)) arguments,
           cs_results := snd (entry_observe result limit (cs_results e))\<rparr>)"

definition observe_call_signature_with_identity ::
  "function_key \<Rightarrow> nat \<Rightarrow> function_key \<Rightarrow> nat \<Rightarrow> nat \<Rightarrow> observed_type list \<Rightarrow> observed_type \<Rightarrow>
   feedback_table \<Rightarrow> feedback_state \<times> feedback_table" where
  "observe_call_signature_with_identity caller pc callee identity bytecode_identity arguments result t =
     (let old = (case map_of (ft_call_signatures t) (caller, pc) of
                   Some e \<Rightarrow> e
                 | None \<Rightarrow> \<lparr>cs_targets = [], cs_targets_megamorphic = False, cs_arities = [],
                            cs_arities_megamorphic = False, cs_arguments = [], cs_results = empty_entry,
                            cs_callee_identity = identity,
                            cs_callee_bytecode_identity = bytecode_identity\<rparr>);
          e = observe_signature (ft_diversity_limit t) callee identity bytecode_identity arguments result old;
          t = t\<lparr>ft_call_signatures := bt_insert (caller, pc) e (ft_call_signatures t)\<rparr>;
          t = bump (signature_shape old \<noteq> signature_shape e) t
      in (call_signature_state e, t))"

definition observe_call_signature ::
  "function_key \<Rightarrow> nat \<Rightarrow> function_key \<Rightarrow> observed_type list \<Rightarrow> observed_type \<Rightarrow>
   feedback_table \<Rightarrow> feedback_state \<times> feedback_table" where
  "observe_call_signature caller pc callee arguments result t =
     observe_call_signature_with_identity caller pc callee 0 0 arguments result t"

definition recent_type :: "feedback_key \<Rightarrow> observed_type \<Rightarrow> feedback_table \<Rightarrow> feedback_state option" where
  "recent_type key observation t =
     map_option (\<lambda>(_, _, state, _). state)
       (find (\<lambda>(cached, ty, _, version). cached = key \<and> ty = observation \<and> version = ft_version t)
         (List.map_filter id (ft_recent_types t)))"

definition observe_type ::
  "function_key \<Rightarrow> nat \<Rightarrow> feedback_kind \<Rightarrow> observed_type \<Rightarrow> feedback_table \<Rightarrow> feedback_state \<times> feedback_table" where
  "observe_type function pc kind observation t =
     (let key = FeedbackKey function pc kind in
      case recent_type key observation t of
        Some state \<Rightarrow> (state, t)
      | None \<Rightarrow>
          if map_of (ft_entries t) key = None \<and> ft_capacity t \<le> length (ft_entries t)
          then (Megamorphic, t\<lparr>ft_dropped := sat_add u64_max (ft_dropped t) 1\<rparr>)
          else
            let (old, before) = (case map_of (ft_entries t) key of
                                   Some e \<Rightarrow> (e, Some (entry_shape e)) | None \<Rightarrow> (empty_entry, None));
                (state, e) = entry_observe observation (ft_diversity_limit t) old;
                t = t\<lparr>ft_entries := bt_insert key e (ft_entries t)\<rparr>;
                t = bump (before \<noteq> Some (entry_shape e)) t
            in (state,
                t\<lparr>ft_recent_types := (ft_recent_types t)[ft_recent_type_cursor t :=
                     Some (key, observation, state, ft_version t)],
                  ft_recent_type_cursor := (ft_recent_type_cursor t + 1) mod length (ft_recent_types t)\<rparr>))"

definition observe_return :: "function_key \<Rightarrow> nat \<Rightarrow> observed_type \<Rightarrow> feedback_table \<Rightarrow> feedback_table" where
  "observe_return function pc result t = snd (observe_type function pc KindExit result t)"

definition ft_len :: "feedback_table \<Rightarrow> nat" where
  "ft_len t = length (ft_entries t)"

definition dropped_observations :: "feedback_table \<Rightarrow> nat" where
  "dropped_observations t = sat_add u64_max (ft_dropped t) (at_dropped (ft_arrays t))"

end
