(* ===== verification/Feedback_Snapshot.thy ===== *)
theory Feedback_Snapshot
  imports Feedback
begin

text \<open>
  Frozen feedback, \<^verbatim>\<open>jit/src/runtime/feedback.rs\<close>: the snapshot of a table, its lookups, and the
  specialisations that compilation reads from it. All lookups are searches for the first match.
\<close>

section \<open>Snapshots\<close>

record snapshot_entry =
  se_function :: function_key
  se_pc :: nat
  se_kind :: feedback_kind
  se_state :: feedback_state
  se_observations :: "observed_type list"

record call_snapshot =
  cp_function :: function_key
  cp_state :: feedback_state
  cp_arguments :: "observed_type list list"
  cp_stable_types :: "observed_type list option"
  cp_stable_arity :: "nat option"

record binary_snapshot =
  bp_function :: function_key
  bp_pc :: nat
  bp_state :: feedback_state
  bp_lhs :: "observed_type list"
  bp_rhs :: "observed_type list"
  bp_result :: "observed_type list"
  bp_flags :: binary_flags

record conversion_snapshot =
  vp_function :: function_key
  vp_pc :: nat
  vp_state :: feedback_state
  vp_operand :: "observed_type list"
  vp_result :: "observed_type list"

record branch_snapshot =
  rp_function :: function_key
  rp_pc :: nat
  rp_state :: feedback_state
  rp_condition_types :: "observed_type list"
  rp_outcomes :: "8 word"

record call_signature_snapshot =
  sp_caller :: function_key
  sp_pc :: nat
  sp_state :: feedback_state
  sp_target_state :: feedback_state
  sp_targets :: "function_key list"
  sp_stable_arity :: "nat option"
  sp_arguments :: "observed_type list list"
  sp_results :: "observed_type list"
  sp_callee_identity :: nat
  sp_callee_bytecode_identity :: nat

record feedback_snapshot =
  fs_epoch :: nat
  fs_entries :: "snapshot_entry list"
  fs_calls :: "call_snapshot list"
  fs_binaries :: "binary_snapshot list"
  fs_conversions :: "conversion_snapshot list"
  fs_branches :: "branch_snapshot list"
  fs_call_signatures :: "call_signature_snapshot list"
  fs_properties :: "(nat \<times> shape_feedback_site) list"
  fs_arrays :: "array_entry list"

definition empty_feedback :: "nat \<Rightarrow> feedback_snapshot" where
  "empty_feedback epoch =
     \<lparr>fs_epoch = epoch, fs_entries = [], fs_calls = [], fs_binaries = [], fs_conversions = [],
      fs_branches = [], fs_call_signatures = [], fs_properties = [], fs_arrays = []\<rparr>"

definition entry_state :: "feedback_entry \<Rightarrow> feedback_state" where
  "entry_state e =
     (if en_megamorphic e then Megamorphic
      else if length (en_observations e) = 1 then Monomorphic
      else Polymorphic)"

definition freeze_entry :: "feedback_key \<times> feedback_entry \<Rightarrow> snapshot_entry" where
  "freeze_entry = (\<lambda>(key, e).
     \<lparr>se_function = fb_function key, se_pc = fb_pc key, se_kind = fb_kind key,
      se_state = entry_state e, se_observations = en_observations e\<rparr>)"

definition call_state :: "call_feedback_entry \<Rightarrow> feedback_state" where
  "call_state call =
     (if cf_arity_megamorphic call \<or> list_ex en_megamorphic (cf_slots call) then Megamorphic
      else if length (cf_arities call) \<noteq> 1 \<or>
              list_ex (\<lambda>slot. length (en_observations slot) \<noteq> 1) (cf_slots call)
      then Polymorphic
      else Monomorphic)"

definition freeze_call :: "function_key \<times> call_feedback_entry \<Rightarrow> call_snapshot" where
  "freeze_call = (\<lambda>(function, call).
     \<lparr>cp_function = function, cp_state = call_state call,
      cp_arguments = map en_observations (cf_slots call),
      cp_stable_types =
        (if call_state call = Monomorphic then Some (map (\<lambda>slot. en_observations slot ! 0) (cf_slots call))
         else None),
      cp_stable_arity = (if length (cf_arities call) = 1 then Some (cf_arities call ! 0) else None)\<rparr>)"

definition freeze_binary :: "(function_key \<times> nat) \<times> binary_feedback_entry \<Rightarrow> binary_snapshot" where
  "freeze_binary = (\<lambda>((function, pc), e).
     \<lparr>bp_function = function, bp_pc = pc,
      bp_state = combined_state [bf_lhs e, bf_rhs e, bf_result e] False,
      bp_lhs = en_observations (bf_lhs e), bp_rhs = en_observations (bf_rhs e),
      bp_result = en_observations (bf_result e), bp_flags = bf_flags e\<rparr>)"

definition freeze_conversion :: "(function_key \<times> nat) \<times> conversion_feedback_entry \<Rightarrow> conversion_snapshot" where
  "freeze_conversion = (\<lambda>((function, pc), e).
     \<lparr>vp_function = function, vp_pc = pc, vp_state = combined_state [cv_operand e, cv_result e] False,
      vp_operand = en_observations (cv_operand e), vp_result = en_observations (cv_result e)\<rparr>)"

definition freeze_branch :: "(function_key \<times> nat) \<times> branch_feedback_entry \<Rightarrow> branch_snapshot" where
  "freeze_branch = (\<lambda>((function, pc), e).
     \<lparr>rp_function = function, rp_pc = pc,
      rp_state = combined_state [br_condition_types e] (br_outcomes e = 3),
      rp_condition_types = en_observations (br_condition_types e), rp_outcomes = br_outcomes e\<rparr>)"

definition freeze_signature :: "(function_key \<times> nat) \<times> call_signature_entry \<Rightarrow> call_signature_snapshot" where
  "freeze_signature = (\<lambda>((caller, pc), e).
     \<lparr>sp_caller = caller, sp_pc = pc, sp_state = call_signature_state e,
      sp_target_state = call_target_state e, sp_targets = cs_targets e,
      sp_stable_arity = (if length (cs_arities e) = 1 then Some (cs_arities e ! 0) else None),
      sp_arguments = map en_observations (cs_arguments e),
      sp_results = en_observations (cs_results e),
      sp_callee_identity = cs_callee_identity e,
      sp_callee_bytecode_identity = cs_callee_bytecode_identity e\<rparr>)"

definition table_snapshot :: "nat \<Rightarrow> feedback_table \<Rightarrow> feedback_snapshot" where
  "table_snapshot epoch t =
     \<lparr>fs_epoch = epoch, fs_entries = map freeze_entry (ft_entries t), fs_calls = map freeze_call (ft_calls t),
      fs_binaries = map freeze_binary (ft_binaries t),
      fs_conversions = map freeze_conversion (ft_conversions t),
      fs_branches = map freeze_branch (ft_branches t),
      fs_call_signatures = map freeze_signature (ft_call_signatures t),
      fs_properties = [], fs_arrays = array_snapshot (ft_arrays t)\<rparr>"

definition with_properties :: "(nat \<times> shape_feedback_site) list \<Rightarrow> feedback_snapshot \<Rightarrow> feedback_snapshot" where
  "with_properties properties s = s\<lparr>fs_properties := properties\<rparr>"

section \<open>Lookups\<close>

definition property_at :: "feedback_snapshot \<Rightarrow> nat \<Rightarrow> shape_feedback_site option" where
  "property_at s pc = map_option snd (find (\<lambda>(p, _). p = pc) (fs_properties s))"

definition array_at :: "feedback_snapshot \<Rightarrow> function_key \<Rightarrow> nat \<Rightarrow> array_entry option" where
  "array_at s function pc = find (\<lambda>e. ae_function e = function \<and> ae_pc e = pc) (fs_arrays s)"

definition first_function :: "feedback_snapshot \<Rightarrow> function_key option" where
  "first_function s =
     (case fs_entries s of e # _ \<Rightarrow> Some (se_function e) | [] \<Rightarrow>
     (case fs_calls s of e # _ \<Rightarrow> Some (cp_function e) | [] \<Rightarrow>
     (case fs_binaries s of e # _ \<Rightarrow> Some (bp_function e) | [] \<Rightarrow>
     (case fs_conversions s of e # _ \<Rightarrow> Some (vp_function e) | [] \<Rightarrow>
     (case fs_branches s of e # _ \<Rightarrow> Some (rp_function e) | [] \<Rightarrow>
     (case fs_call_signatures s of e # _ \<Rightarrow> Some (sp_caller e) | [] \<Rightarrow>
     (case fs_arrays s of e # _ \<Rightarrow> Some (ae_function e) | [] \<Rightarrow> None)))))))"

definition snapshot_function :: "feedback_snapshot \<Rightarrow> function_key option" where
  "snapshot_function s =
     Option.bind (first_function s) (\<lambda>function.
       if list_all (\<lambda>e. se_function e = function) (fs_entries s) \<and>
          list_all (\<lambda>e. cp_function e = function) (fs_calls s) \<and>
          list_all (\<lambda>e. bp_function e = function) (fs_binaries s) \<and>
          list_all (\<lambda>e. vp_function e = function) (fs_conversions s) \<and>
          list_all (\<lambda>e. rp_function e = function) (fs_branches s) \<and>
          list_all (\<lambda>e. sp_caller e = function) (fs_call_signatures s) \<and>
          list_all (\<lambda>e. ae_function e = function) (fs_arrays s)
       then Some function else None)"

definition call_at :: "feedback_snapshot \<Rightarrow> function_key \<Rightarrow> call_snapshot option" where
  "call_at s function = find (\<lambda>e. cp_function e = function) (fs_calls s)"

definition call_argument_types :: "feedback_snapshot \<Rightarrow> function_key \<Rightarrow> observed_type list option" where
  "call_argument_types s function = Option.bind (call_at s function) cp_stable_types"

definition stable_at :: "feedback_kind \<Rightarrow> feedback_snapshot \<Rightarrow> function_key \<Rightarrow> nat \<Rightarrow> observed_type option" where
  "stable_at kind s function pc =
     map_option (\<lambda>e. se_observations e ! 0)
       (find (\<lambda>e. se_function e = function \<and> se_pc e = pc \<and> se_kind e = kind \<and> se_state e = Monomorphic \<and>
                  length (se_observations e) = 1) (fs_entries s))"

definition stable_return_at :: "feedback_snapshot \<Rightarrow> function_key \<Rightarrow> nat \<Rightarrow> observed_type option" where
  "stable_return_at = stable_at KindExit"

definition stable_observation_at :: "feedback_snapshot \<Rightarrow> function_key \<Rightarrow> nat \<Rightarrow> observed_type option" where
  "stable_observation_at = stable_at KindValue"

definition binary_at :: "feedback_snapshot \<Rightarrow> function_key \<Rightarrow> nat \<Rightarrow> binary_snapshot option" where
  "binary_at s function pc = find (\<lambda>e. bp_function e = function \<and> bp_pc e = pc) (fs_binaries s)"

definition conversion_at :: "feedback_snapshot \<Rightarrow> function_key \<Rightarrow> nat \<Rightarrow> conversion_snapshot option" where
  "conversion_at s function pc = find (\<lambda>e. vp_function e = function \<and> vp_pc e = pc) (fs_conversions s)"

definition branch_at :: "feedback_snapshot \<Rightarrow> function_key \<Rightarrow> nat \<Rightarrow> branch_snapshot option" where
  "branch_at s function pc = find (\<lambda>e. rp_function e = function \<and> rp_pc e = pc) (fs_branches s)"

definition call_signature_at :: "feedback_snapshot \<Rightarrow> function_key \<Rightarrow> nat \<Rightarrow> call_signature_snapshot option" where
  "call_signature_at s caller pc = find (\<lambda>e. sp_caller e = caller \<and> sp_pc e = pc) (fs_call_signatures s)"

definition has_stable_value_for :: "feedback_snapshot \<Rightarrow> function_key \<Rightarrow> bool" where
  "has_stable_value_for s function \<longleftrightarrow>
     fs_epoch s \<noteq> 0 \<and>
     list_ex (\<lambda>e. se_function e = function \<and> se_kind e = KindValue \<and> se_state e = Monomorphic \<and>
                  length (se_observations e) = 1) (fs_entries s)"

definition contains_stable_observation ::
  "feedback_snapshot \<Rightarrow> function_key \<Rightarrow> nat \<Rightarrow> observed_type \<Rightarrow> bool" where
  "contains_stable_observation s function pc observation \<longleftrightarrow>
     list_ex (\<lambda>e. se_function e = function \<and> se_pc e = pc \<and> se_kind e = KindExit \<and> se_state e = Monomorphic \<and>
                  se_observations e = [observation]) (fs_entries s)"

section \<open>Specialisations\<close>

fun observed_representation :: "observed_type \<Rightarrow> feedback_representation option" where
  "observed_representation ObsInt32 = Some ReprInt32"
| "observed_representation ObsFloat64 = Some ReprFloat64"
| "observed_representation ObsObject = Some ReprHeapRef"
| "observed_representation ObsBool = Some ReprBool"
| "observed_representation _ = None"

definition observed_direct_argument_representation :: "observed_type \<Rightarrow> feedback_representation option" where
  "observed_direct_argument_representation observed = observed_representation observed"

fun observed_scalar_representation :: "observed_type \<Rightarrow> feedback_representation option" where
  "observed_scalar_representation ObsInt32 = Some ReprInt32"
| "observed_scalar_representation ObsFloat64 = Some ReprFloat64"
| "observed_scalar_representation ObsBool = Some ReprBool"
| "observed_scalar_representation _ = None"

fun collect_opt :: "'a option list \<Rightarrow> 'a list option" where
  "collect_opt [] = Some []"
| "collect_opt (x # xs) = Option.bind x (\<lambda>y. map_option ((#) y) (collect_opt xs))"

definition call_specialization_at :: "feedback_snapshot \<Rightarrow> function_key \<Rightarrow> nat \<Rightarrow> call_specialization_key option" where
  "call_specialization_at s caller pc =
     (if fs_epoch s = 0 then None
      else
      Option.bind (call_signature_at s caller pc) (\<lambda>call.
      if sp_state call \<noteq> Monomorphic \<or> length (sp_targets call) \<noteq> 1 then None
      else
      Option.bind (sp_stable_arity call) (\<lambda>arity.
      if MAX_SPECIALIZED_ARGUMENTS < arity \<or> length (sp_arguments call) \<noteq> arity then None
      else
      Option.bind (collect_opt (map (\<lambda>observations.
        if length observations = 1 then observed_direct_argument_representation (observations ! 0) else None)
        (sp_arguments call))) (\<lambda>arguments.
      if length (sp_results call) \<noteq> 1 then None
      else
      Option.bind (observed_scalar_representation (sp_results call ! 0)) (\<lambda>result.
      Some \<lparr>ck_caller = caller, ck_callee = sp_targets call ! 0, ck_arguments = arguments,
            ck_result = result, ck_feedback_epoch = fs_epoch s,
            ck_callee_identity = sp_callee_identity call,
            ck_callee_bytecode_identity = sp_callee_bytecode_identity call\<rparr>)))))"

definition call_link_at :: "feedback_snapshot \<Rightarrow> function_key \<Rightarrow> nat \<Rightarrow> call_link_status option" where
  "call_link_at s caller pc =
     (if fs_epoch s = 0 \<or> fk_id caller = 0 \<or> fk_generation caller = 0 then None
      else
      Option.bind (call_signature_at s caller pc) (\<lambda>call.
      if sp_target_state call \<noteq> Monomorphic \<or> length (sp_targets call) \<noteq> 1 \<or>
         sp_callee_identity call = 0 \<or> sp_callee_bytecode_identity call = 0 then None
      else
        let callee = sp_targets call ! 0 in
        if fk_id callee = 0 \<or> fk_generation callee = 0 then None
        else Some \<lparr>cl_caller = caller, cl_pc = pc, cl_callee = callee,
                   cl_callee_identity = sp_callee_identity call,
                   cl_callee_bytecode_identity = sp_callee_bytecode_identity call\<rparr>))"

definition call_specializations_for :: "feedback_snapshot \<Rightarrow> function_key \<Rightarrow> call_specialization_key list" where
  "call_specializations_for s caller =
     List.map_filter (\<lambda>e. call_specialization_at s caller (sp_pc e))
       (filter (\<lambda>e. sp_caller e = caller) (fs_call_signatures s))"

text \<open>The result type all exits agree on, if there is one.\<close>

fun return_type_of :: "snapshot_entry list \<Rightarrow> observed_type option \<Rightarrow> observed_type option" where
  "return_type_of [] return_type = return_type"
| "return_type_of (e # es) return_type =
     (if se_state e \<noteq> Monomorphic \<or> length (se_observations e) \<noteq> 1 then None
      else
        let observed = se_observations e ! 0 in
        if (case return_type of Some prior \<Rightarrow> prior \<noteq> observed | None \<Rightarrow> False) then None
        else return_type_of es (Some observed))"

text \<open>The number of binary sites that saw only the expected type; a heap reference is no numeric result.\<close>

fun matching_binaries :: "feedback_representation \<Rightarrow> binary_snapshot list \<Rightarrow> nat \<Rightarrow> nat option" where
  "matching_binaries representation [] count = Some count"
| "matching_binaries representation (b # bs) count =
     (case representation of
        ReprBool \<Rightarrow> matching_binaries representation bs count
      | ReprHeapRef \<Rightarrow> None
      | _ \<Rightarrow>
          let expected = (if representation = ReprInt32 then ObsInt32 else ObsFloat64) in
          matching_binaries representation bs
            (if bp_state b = Monomorphic \<and> bp_lhs b = [expected] \<and> bp_rhs b = [expected] \<and>
                bp_result b = [expected]
             then count + 1 else count))"

definition bounded_specialization :: "feedback_snapshot \<Rightarrow> function_key \<Rightarrow> bounded_signature option" where
  "bounded_specialization s function =
     (if fs_epoch s = 0 then None
      else
      Option.bind (call_at s function) (\<lambda>call.
      Option.bind (cp_stable_arity call) (\<lambda>arity.
      if cp_state call \<noteq> Monomorphic \<or> MAX_SPECIALIZED_ARGUMENTS < arity then None
      else
      Option.bind (cp_stable_types call) (\<lambda>argument_types.
      if length argument_types \<noteq> arity then None
      else
      Option.bind (return_type_of
        (filter (\<lambda>e. se_function e = function \<and> se_kind e = KindExit) (fs_entries s)) None) (\<lambda>return_type.
      Option.bind (observed_scalar_representation return_type) (\<lambda>representation.
      Option.bind (collect_opt (map observed_representation argument_types)) (\<lambda>arguments.
      Option.bind (matching_binaries representation
        (filter (\<lambda>b. bp_function b = function) (fs_binaries s)) 0) (\<lambda>matching_binary_count.
      if representation \<noteq> ReprBool \<and> matching_binary_count = 0 then None
      else Some \<lparr>sg_function = function, sg_arguments = arguments, sg_result = representation,
                 sg_feedback_epoch = fs_epoch s\<rparr>))))))))"

end
