(* ===== verification/Feedback_Sound.thy ===== *)
theory Feedback_Sound
  imports Feedback_Snapshot
begin

text \<open>
  Correctness of value feedback: entries absorb what they observe and only widen, the version tells
  exactly when they change, the memos change nothing but the work, and the specialisations read from a
  snapshot hold of every observation since the function was last forgotten.
\<close>

section \<open>Entries\<close>

definition absorbs :: "feedback_entry \<Rightarrow> observed_type \<Rightarrow> bool" where
  "absorbs e ty \<longleftrightarrow> en_megamorphic e \<or> ty \<in> set (en_observations e)"

definition observed_entry_ok :: "nat \<Rightarrow> feedback_entry \<Rightarrow> bool" where
  "observed_entry_ok limit e \<longleftrightarrow>
     distinct (en_observations e) \<and> length (en_observations e) \<le> limit \<and>
     (en_megamorphic e \<longleftrightarrow> en_observations e = [])"

lemmas entry_defs = entry_observe_def absorbs_def entry_shape_def entry_state_def Let_def

lemma entry_observe_absorbs [simp]: "absorbs (snd (entry_observe ty limit e)) ty"
  by (simp add: entry_defs)

lemma entry_observe_widens: "absorbs e x \<Longrightarrow> absorbs (snd (entry_observe ty limit e)) x"
  by (auto simp: entry_defs)

lemma entry_observe_absorbed: "absorbs e ty \<Longrightarrow> entry_observe ty limit e = (entry_state e, e)"
  by (auto simp: entry_defs)

lemma entry_observe_state: "fst (entry_observe ty limit e) = entry_state (snd (entry_observe ty limit e))"
  by (auto simp: entry_defs)

lemma entry_observe_shape: "entry_shape (snd (entry_observe ty limit e)) = entry_shape e \<longleftrightarrow> snd (entry_observe ty limit e) = e"
  by (cases e) (auto simp: entry_defs)

lemma entry_observe_ok:
  "1 \<le> limit \<Longrightarrow> observed_entry_ok limit e \<or> e = empty_entry \<Longrightarrow> observed_entry_ok limit (snd (entry_observe ty limit e))"
  by (auto simp: observed_entry_ok_def entry_defs empty_entry_def)

lemma monomorphic_absorbs: "entry_state e = Monomorphic \<Longrightarrow> absorbs e x \<Longrightarrow> en_observations e = [x]"
  by (cases "en_observations e") (auto simp: entry_defs split: if_splits)

section \<open>Argument slots\<close>

lemma length_observe_slots [simp]: "length (observe_slots limit slots as) = length slots"
  by (induction limit slots as rule: observe_slots.induct) simp_all

lemma nth_observe_slots:
  "i < length slots \<Longrightarrow> observe_slots limit slots as ! i =
     (if i < length as then snd (entry_observe (as ! i) limit (slots ! i)) else slots ! i)"
proof (induction limit slots as arbitrary: i rule: observe_slots.induct)
  case (1 limit slot slots a as)
  then show ?case by (cases i) simp_all
qed simp_all

lemma length_resize_slots [simp]: "length (resize_slots n slots) = max n (length slots)"
  by (simp add: resize_slots_def)

lemma nth_resize_slots: "i < length slots \<Longrightarrow> resize_slots n slots ! i = slots ! i"
  by (simp add: resize_slots_def nth_append)

lemma resize_slots_id: "n \<le> length slots \<Longrightarrow> resize_slots n slots = slots"
  by (simp add: resize_slots_def)

definition slots_absorb :: "feedback_entry list \<Rightarrow> observed_type list \<Rightarrow> bool" where
  "slots_absorb slots as \<longleftrightarrow> length as \<le> length slots \<and> (\<forall>i < length as. absorbs (slots ! i) (as ! i))"

lemma observe_slots_absorb [simp]: "slots_absorb (observe_slots limit (resize_slots (length as) slots) as) as"
  by (simp add: slots_absorb_def nth_observe_slots)

lemma observe_slots_widens:
  "slots_absorb slots xs \<Longrightarrow> slots_absorb (observe_slots limit (resize_slots n slots) as) xs"
  by (auto simp: slots_absorb_def nth_observe_slots nth_resize_slots entry_observe_widens)

lemma observe_slots_absorbed:
  "slots_absorb slots as \<Longrightarrow> observe_slots limit (resize_slots (length as) slots) as = slots"
  by (rule nth_equalityI)
    (auto simp: slots_absorb_def resize_slots_id nth_observe_slots entry_observe_absorbed)

text \<open>The sums that fingerprint the slots tell exactly whether one of them changed.\<close>

lemma slots_shape_sums:
  "slots_shape slots = (sum_list (map (\<lambda>s. length (en_observations s)) slots),
     sum_list (map (\<lambda>s. of_bool (en_megamorphic s)) slots))"
proof -
  have "fold (\<lambda>slot (observations, megamorphic).
      (observations + length (en_observations slot), megamorphic + of_bool (en_megamorphic slot))) slots (a, b) =
    (a + sum_list (map (\<lambda>s. length (en_observations s)) slots), b + sum_list (map (\<lambda>s. of_bool (en_megamorphic s)) slots))"
    for a b :: nat
    by (induction slots arbitrary: a b) (simp_all add: add.assoc)
  from this [of 0 0] show ?thesis by (simp add: slots_shape_def)
qed

lemma entry_observe_grows:
  "of_bool (en_megamorphic e) \<le> (of_bool (en_megamorphic (snd (entry_observe ty limit e))) :: nat)"
  "en_megamorphic (snd (entry_observe ty limit e)) = en_megamorphic e \<Longrightarrow>
   length (en_observations e) \<le> length (en_observations (snd (entry_observe ty limit e)))"
  "en_megamorphic (snd (entry_observe ty limit e)) = en_megamorphic e \<Longrightarrow>
   length (en_observations (snd (entry_observe ty limit e))) = length (en_observations e) \<Longrightarrow>
   snd (entry_observe ty limit e) = e"
  by (auto simp: entry_defs)

lemma slots_sums:
  fixes limit :: nat
  defines "obs \<equiv> \<lambda>slots. sum_list (map (\<lambda>s. length (en_observations s)) slots)"
    and "mega \<equiv> \<lambda>slots. sum_list (map (\<lambda>s. of_bool (en_megamorphic s)) slots) :: nat"
  shows "mega slots \<le> mega (observe_slots limit slots as) \<and>
    (mega (observe_slots limit slots as) = mega slots \<longrightarrow>
      obs slots \<le> obs (observe_slots limit slots as) \<and>
      (obs (observe_slots limit slots as) = obs slots \<longrightarrow> observe_slots limit slots as = slots))"
proof (induction limit slots as rule: observe_slots.induct)
  case (1 limit slot slots a as)
  let ?s = "snd (entry_observe a limit slot)"
  have g: "of_bool (en_megamorphic slot) \<le> (of_bool (en_megamorphic ?s) :: nat)" by (rule entry_observe_grows)
  have m: "mega (slot # slots) \<le> mega (?s # observe_slots limit slots as)"
    using g 1 by (simp add: mega_def)
  have eq: "en_megamorphic ?s = en_megamorphic slot \<and> mega (observe_slots limit slots as) = mega slots"
    if "mega (?s # observe_slots limit slots as) = mega (slot # slots)"
    using that g 1 by (auto simp: mega_def of_bool_def split: if_splits)
  have o: "obs (slot # slots) \<le> obs (?s # observe_slots limit slots as) \<and>
      (obs (?s # observe_slots limit slots as) = obs (slot # slots) \<longrightarrow> ?s # observe_slots limit slots as = slot # slots)"
    if "mega (?s # observe_slots limit slots as) = mega (slot # slots)"
  proof -
    have e: "en_megamorphic ?s = en_megamorphic slot" and r: "mega (observe_slots limit slots as) = mega slots"
      using eq [OF that] by simp_all
    have a: "length (en_observations slot) \<le> length (en_observations ?s)" by (rule entry_observe_grows(2) [OF e])
    have b: "obs slots \<le> obs (observe_slots limit slots as)"
      "obs (observe_slots limit slots as) = obs slots \<Longrightarrow> observe_slots limit slots as = slots"
      using 1 r by simp_all
    show ?thesis
    proof (intro conjI impI)
      show "obs (slot # slots) \<le> obs (?s # observe_slots limit slots as)" using a b(1) by (simp add: obs_def)
      assume "obs (?s # observe_slots limit slots as) = obs (slot # slots)"
      then have "length (en_observations ?s) = length (en_observations slot)" "obs (observe_slots limit slots as) = obs slots"
        using a b(1) by (simp_all add: obs_def)
      then show "?s # observe_slots limit slots as = slot # slots" using entry_observe_grows(3) [OF e] b(2) by simp
    qed
  qed
  show ?case using m o by simp
qed (simp_all add: obs_def mega_def)

lemma slots_shape_exact:
  "(length (observe_slots limit (resize_slots n slots) as), slots_shape (observe_slots limit (resize_slots n slots) as)) =
     (length slots, slots_shape slots) \<longleftrightarrow>
   observe_slots limit (resize_slots n slots) as = slots"
proof
  assume h: "(length (observe_slots limit (resize_slots n slots) as), slots_shape (observe_slots limit (resize_slots n slots) as)) =
     (length slots, slots_shape slots)"
  then have "n \<le> length slots" by (auto simp: max_def split: if_splits)
  then have r: "resize_slots n slots = slots" by (rule resize_slots_id)
  show "observe_slots limit (resize_slots n slots) as = slots"
    using h slots_sums [of slots limit as] unfolding r slots_shape_sums by simp
qed simp

section \<open>Calls and call signatures\<close>

definition call_absorbs :: "call_feedback_entry \<Rightarrow> observed_type list \<Rightarrow> bool" where
  "call_absorbs c as \<longleftrightarrow>
     (cf_arity_megamorphic c \<or> length as \<in> set (cf_arities c)) \<and> slots_absorb (cf_slots c) as"

lemma observe_arguments_absorbs [simp]: "call_absorbs (observe_arguments limit as c) as"
  by (simp add: call_absorbs_def observe_arguments_def Let_def)

lemma observe_arguments_widens: "call_absorbs c xs \<Longrightarrow> call_absorbs (observe_arguments limit as c) xs"
  by (auto simp: call_absorbs_def observe_arguments_def Let_def observe_slots_widens)

lemma observe_arguments_absorbed: "call_absorbs c as \<Longrightarrow> observe_arguments limit as c = c"
  by (auto simp: call_absorbs_def observe_arguments_def Let_def observe_slots_absorbed)

lemma call_shape_exact: "call_shape (observe_arguments limit as c) = call_shape c \<longleftrightarrow> observe_arguments limit as c = c"
proof
  assume h: "call_shape (observe_arguments limit as c) = call_shape c"
  then have "observe_slots limit (resize_slots (length as) (cf_slots c)) as = cf_slots c"
    using slots_shape_exact [of limit "length as" "cf_slots c" as]
    by (auto simp: call_shape_def observe_arguments_def Let_def split: if_splits)
  then show "observe_arguments limit as c = c"
    using h by (cases c) (auto simp: call_shape_def observe_arguments_def Let_def split: if_splits)
qed simp

definition signature_absorbs ::
  "call_signature_entry \<Rightarrow> function_key \<Rightarrow> nat \<Rightarrow> nat \<Rightarrow> observed_type list \<Rightarrow> observed_type \<Rightarrow> bool" where
  "signature_absorbs e callee identity bytecode_identity as result \<longleftrightarrow>
     (cs_targets_megamorphic e \<or> callee \<in> set (cs_targets e) \<and> cs_callee_identity e = identity \<and>
        cs_callee_bytecode_identity e = bytecode_identity) \<and>
     (cs_arities_megamorphic e \<or> length as \<in> set (cs_arities e)) \<and>
     slots_absorb (cs_arguments e) as \<and> absorbs (cs_results e) result"

lemma observe_bounded_distinct_cases:
  assumes "observe_bounded_distinct x limit (xs, m) = (xs', m')"
  shows "m' \<or> x \<in> set xs' \<and> set xs \<subseteq> set xs'" "m \<Longrightarrow> m' \<and> xs' = xs"
    "length xs' = length xs \<and> m' = m \<longleftrightarrow> xs' = xs \<and> m' = m"
  using assms by (auto simp: observe_bounded_distinct_def split: if_splits)

lemma observe_signature_absorbs [simp]:
  "signature_absorbs (observe_signature limit callee i b as result e) callee i b as result"
  by (auto simp: signature_absorbs_def observe_signature_def Let_def observe_bounded_distinct_def)

lemma observe_signature_widens:
  "signature_absorbs e callee' i' b' xs result' \<Longrightarrow>
   signature_absorbs (observe_signature limit callee i b as result e) callee' i' b' xs result'"
  by (auto simp: signature_absorbs_def observe_signature_def Let_def observe_bounded_distinct_def
        observe_slots_widens entry_observe_widens)


lemma signature_shape_exact:
  "signature_shape (observe_signature limit callee i b as result e) = signature_shape e \<longleftrightarrow>
   observe_signature limit callee i b as result e = e"
proof
  assume h: "signature_shape (observe_signature limit callee i b as result e) = signature_shape e"
  obtain ts tm ar am where
    t: "observe_bounded_distinct callee limit (cs_targets e,
      cs_targets_megamorphic e \<or> cs_callee_identity e \<noteq> i \<or> cs_callee_bytecode_identity e \<noteq> b) = (ts, tm)"
    and a: "observe_bounded_distinct (length as) limit (cs_arities e, cs_arities_megamorphic e) = (ar, am)"
    by (meson surj_pair)
  have eq: "observe_signature limit callee i b as result e = e\<lparr>cs_targets := ts, cs_targets_megamorphic := tm,
      cs_arities := ar, cs_arities_megamorphic := am,
      cs_arguments := observe_slots limit (resize_slots (length as) (cs_arguments e)) as,
      cs_results := snd (entry_observe result limit (cs_results e)),
      cs_callee_identity := (if cs_callee_identity e \<noteq> i then 0 else i),
      cs_callee_bytecode_identity := (if cs_callee_bytecode_identity e \<noteq> b then 0 else b)\<rparr>"
    using t a by (cases e) (auto simp: observe_signature_def Let_def split: prod.splits if_splits)
  have x: "length ts = length (cs_targets e)" "tm = cs_targets_megamorphic e" "length ar = length (cs_arities e)"
    "am = cs_arities_megamorphic e"
    "observe_slots limit (resize_slots (length as) (cs_arguments e)) as = cs_arguments e"
    "snd (entry_observe result limit (cs_results e)) = cs_results e"
    "(if cs_callee_identity e \<noteq> i then 0 else i) = cs_callee_identity e"
    "(if cs_callee_bytecode_identity e \<noteq> b then 0 else b) = cs_callee_bytecode_identity e"
    using h slots_shape_exact [of limit "length as" "cs_arguments e" as] entry_observe_shape [of result limit "cs_results e"]
    unfolding eq signature_shape_def by simp_all
  have "ts = cs_targets e" using observe_bounded_distinct_cases(2,3) [OF t] x(1,2) by (metis (full_types))
  moreover have "ar = cs_arities e" using observe_bounded_distinct_cases(3) [OF a] x(3,4) by simp
  ultimately show "observe_signature limit callee i b as result e = e" unfolding eq using x by (cases e) simp
qed simp

section \<open>Sequences of operations\<close>

datatype feedback_op =
    OpCall function_key "observed_type list"
  | OpReturn function_key nat observed_type
  | OpType function_key nat feedback_kind observed_type
  | OpBinary function_key nat observed_type observed_type observed_type binary_flags
  | OpConversion function_key nat observed_type observed_type
  | OpBranch function_key nat observed_type bool
  | OpCallSignature function_key nat function_key nat nat "observed_type list" observed_type
  | OpArray function_key nat array_access array_mode array_hazards
  | OpArrayRaw function_key nat "32 word" "32 word"
  | OpForget function_key

fun op_function :: "feedback_op \<Rightarrow> function_key" where
  "op_function (OpCall f _) = f"
| "op_function (OpReturn f _ _) = f"
| "op_function (OpType f _ _ _) = f"
| "op_function (OpBinary f _ _ _ _ _) = f"
| "op_function (OpConversion f _ _ _) = f"
| "op_function (OpBranch f _ _ _) = f"
| "op_function (OpCallSignature f _ _ _ _ _ _) = f"
| "op_function (OpArray f _ _ _ _) = f"
| "op_function (OpArrayRaw f _ _ _) = f"
| "op_function (OpForget f) = f"

fun feedback_step :: "feedback_op \<Rightarrow> feedback_table \<Rightarrow> feedback_table" where
  "feedback_step (OpCall f as) t = observe_call f as t"
| "feedback_step (OpReturn f pc ty) t = observe_return f pc ty t"
| "feedback_step (OpType f pc kind ty) t = snd (observe_type f pc kind ty t)"
| "feedback_step (OpBinary f pc l r v flags) t = snd (observe_binary f pc l r v flags t)"
| "feedback_step (OpConversion f pc v r) t = snd (observe_conversion f pc v r t)"
| "feedback_step (OpBranch f pc ty taken) t = snd (observe_branch f pc ty taken t)"
| "feedback_step (OpCallSignature f pc callee i b as r) t =
     snd (observe_call_signature_with_identity f pc callee i b as r t)"
| "feedback_step (OpArray f pc access mode hazards) t = snd (ft_observe_array f pc access mode hazards t)"
| "feedback_step (OpArrayRaw f pc mode flags) t = snd (ft_observe_array_raw f pc mode flags t)"
| "feedback_step (OpForget f) t = forget_function f t"

text \<open>What a table keeps of an observation; a type observation may be dropped when the table is full.\<close>

fun absorbed :: "feedback_table \<Rightarrow> feedback_op \<Rightarrow> bool" where
  "absorbed t (OpCall f as) \<longleftrightarrow> (\<exists>c. map_of (ft_calls t) f = Some c \<and> call_absorbs c as)"
| "absorbed t (OpReturn f pc ty) \<longleftrightarrow>
     0 < ft_dropped t \<or> (\<exists>e. map_of (ft_entries t) (FeedbackKey f pc KindExit) = Some e \<and> absorbs e ty)"
| "absorbed t (OpType f pc kind ty) \<longleftrightarrow>
     0 < ft_dropped t \<or> (\<exists>e. map_of (ft_entries t) (FeedbackKey f pc kind) = Some e \<and> absorbs e ty)"
| "absorbed t (OpBinary f pc l r v flags) \<longleftrightarrow>
     (\<exists>e. map_of (ft_binaries t) (f, pc) = Some e \<and> absorbs (bf_lhs e) l \<and> absorbs (bf_rhs e) r \<and>
        absorbs (bf_result e) v \<and> flags_contains (bf_flags e) flags)"
| "absorbed t (OpConversion f pc v r) \<longleftrightarrow>
     (\<exists>e. map_of (ft_conversions t) (f, pc) = Some e \<and> absorbs (cv_operand e) v \<and> absorbs (cv_result e) r)"
| "absorbed t (OpBranch f pc ty taken) \<longleftrightarrow>
     (\<exists>e. map_of (ft_branches t) (f, pc) = Some e \<and> absorbs (br_condition_types e) ty \<and>
        br_outcomes e AND (if taken then 1 else 2) \<noteq> 0)"
| "absorbed t (OpCallSignature f pc callee i b as r) \<longleftrightarrow>
     (\<exists>e. map_of (ft_call_signatures t) (f, pc) = Some e \<and> signature_absorbs e callee i b as r)"
| "absorbed t (OpArray f pc access mode hazards) \<longleftrightarrow> True"
| "absorbed t (OpArrayRaw f pc mode flags) \<longleftrightarrow> True"
| "absorbed t (OpForget f) \<longleftrightarrow> True"

text \<open>The operations since \<open>f\<close> was last forgotten.\<close>

definition since :: "function_key \<Rightarrow> feedback_op list \<Rightarrow> feedback_op list" where
  "since f ops = rev (takeWhile (\<lambda>op. op \<noteq> OpForget f) (rev ops))"

lemma since_Nil [simp]: "since f [] = []"
  by (simp add: since_def)

lemma since_snoc [simp]: "since f (ops @ [op]) = (if op = OpForget f then [] else since f ops @ [op])"
  by (simp add: since_def)

section \<open>Effects\<close>

lemma bump_fields [simp]:
  "ft_capacity (bump c t) = ft_capacity t" "ft_diversity_limit (bump c t) = ft_diversity_limit t"
  "ft_dropped (bump c t) = ft_dropped t" "ft_recent_types (bump c t) = ft_recent_types t"
  "ft_recent_type_cursor (bump c t) = ft_recent_type_cursor t" "ft_last_call (bump c t) = ft_last_call t"
  "ft_last_call_arguments (bump c t) = ft_last_call_arguments t" "ft_entries (bump c t) = ft_entries t"
  "ft_calls (bump c t) = ft_calls t" "ft_binaries (bump c t) = ft_binaries t"
  "ft_conversions (bump c t) = ft_conversions t" "ft_branches (bump c t) = ft_branches t"
  "ft_call_signatures (bump c t) = ft_call_signatures t" "ft_arrays (bump c t) = ft_arrays t"
  by (simp_all add: bump_def)

lemma saturate_fields [simp]:
  "ft_capacity (saturate c t) = ft_capacity t" "ft_diversity_limit (saturate c t) = ft_diversity_limit t"
  "ft_dropped (saturate c t) = ft_dropped t" "ft_recent_types (saturate c t) = ft_recent_types t"
  "ft_recent_type_cursor (saturate c t) = ft_recent_type_cursor t" "ft_last_call (saturate c t) = ft_last_call t"
  "ft_last_call_arguments (saturate c t) = ft_last_call_arguments t" "ft_entries (saturate c t) = ft_entries t"
  "ft_calls (saturate c t) = ft_calls t" "ft_binaries (saturate c t) = ft_binaries t"
  "ft_conversions (saturate c t) = ft_conversions t" "ft_branches (saturate c t) = ft_branches t"
  "ft_call_signatures (saturate c t) = ft_call_signatures t" "ft_arrays (saturate c t) = ft_arrays t"
  by (simp_all add: saturate_def)

definition old_binary :: "feedback_table \<Rightarrow> function_key \<times> nat \<Rightarrow> binary_feedback_entry" where
  "old_binary t key =
     (case map_of (ft_binaries t) key of Some e \<Rightarrow> e
      | None \<Rightarrow> \<lparr>bf_lhs = empty_entry, bf_rhs = empty_entry, bf_result = empty_entry, bf_flags = flags_NONE\<rparr>)"

definition new_binary ::
  "nat \<Rightarrow> observed_type \<Rightarrow> observed_type \<Rightarrow> observed_type \<Rightarrow> binary_flags \<Rightarrow> binary_feedback_entry \<Rightarrow> binary_feedback_entry" where
  "new_binary limit l r v flags e =
     \<lparr>bf_lhs = snd (entry_observe l limit (bf_lhs e)), bf_rhs = snd (entry_observe r limit (bf_rhs e)),
      bf_result = snd (entry_observe v limit (bf_result e)), bf_flags = bf_flags e OR flags\<rparr>"

lemma observe_binary_eq:
  "snd (observe_binary f pc l r v flags t) =
     (let e = new_binary (ft_diversity_limit t) l r v flags (old_binary t (f, pc)) in
      bump (binary_shape (old_binary t (f, pc)) \<noteq> binary_shape e)
        (t\<lparr>ft_binaries := bt_insert (f, pc) e (ft_binaries t)\<rparr>))"
  by (simp add: observe_binary_def old_binary_def new_binary_def Let_def split: prod.splits)

definition old_conversion :: "feedback_table \<Rightarrow> function_key \<times> nat \<Rightarrow> conversion_feedback_entry" where
  "old_conversion t key =
     (case map_of (ft_conversions t) key of Some e \<Rightarrow> e | None \<Rightarrow> \<lparr>cv_operand = empty_entry, cv_result = empty_entry\<rparr>)"

definition old_branch :: "feedback_table \<Rightarrow> function_key \<times> nat \<Rightarrow> branch_feedback_entry" where
  "old_branch t key =
     (case map_of (ft_branches t) key of Some e \<Rightarrow> e | None \<Rightarrow> \<lparr>br_condition_types = empty_entry, br_outcomes = 0\<rparr>)"

lemma observe_conversion_eq:
  "snd (observe_conversion f pc v r t) =
     (let old = old_conversion t (f, pc); limit = ft_diversity_limit t;
          e = \<lparr>cv_operand = snd (entry_observe v limit (cv_operand old)), cv_result = snd (entry_observe r limit (cv_result old))\<rparr>
      in bump ((entry_shape (cv_operand old), entry_shape (cv_result old)) \<noteq> (entry_shape (cv_operand e), entry_shape (cv_result e)))
           (t\<lparr>ft_conversions := bt_insert (f, pc) e (ft_conversions t)\<rparr>))"
  by (simp add: observe_conversion_def old_conversion_def Let_def)

lemma observe_branch_eq:
  "snd (observe_branch f pc ty taken t) =
     (let old = old_branch t (f, pc);
          e = \<lparr>br_condition_types = snd (entry_observe ty (ft_diversity_limit t) (br_condition_types old)),
               br_outcomes = br_outcomes old OR (if taken then 1 else 2)\<rparr>
      in bump ((entry_shape (br_condition_types old), br_outcomes old) \<noteq> (entry_shape (br_condition_types e), br_outcomes e))
           (t\<lparr>ft_branches := bt_insert (f, pc) e (ft_branches t)\<rparr>))"
  by (simp add: observe_branch_def old_branch_def Let_def)


definition old_call :: "feedback_table \<Rightarrow> function_key \<Rightarrow> call_feedback_entry" where
  "old_call t f = (case map_of (ft_calls t) f of Some c \<Rightarrow> c | None \<Rightarrow> default_call)"

lemma observe_call_eq:
  "observe_call f as t =
     (if ft_last_call t = Some f \<and> ft_last_call_arguments t = as then t
      else
        let c = observe_arguments (ft_diversity_limit t) as (old_call t f) in
        (bump (map_of (ft_calls t) f = None \<or> call_shape (old_call t f) \<noteq> call_shape c)
          (t\<lparr>ft_calls := bt_insert f c (ft_calls t)\<rparr>))\<lparr>ft_last_call := Some f, ft_last_call_arguments := as\<rparr>)"
  by (auto simp: observe_call_def old_call_def Let_def split: option.splits)

definition old_signature :: "feedback_table \<Rightarrow> function_key \<times> nat \<Rightarrow> nat \<Rightarrow> nat \<Rightarrow> call_signature_entry" where
  "old_signature t key i b =
     (case map_of (ft_call_signatures t) key of Some e \<Rightarrow> e
      | None \<Rightarrow> \<lparr>cs_targets = [], cs_targets_megamorphic = False, cs_arities = [], cs_arities_megamorphic = False,
                 cs_arguments = [], cs_results = empty_entry, cs_callee_identity = i, cs_callee_bytecode_identity = b\<rparr>)"

lemma observe_call_signature_eq:
  "snd (observe_call_signature_with_identity f pc callee i b as r t) =
     (let old = old_signature t (f, pc) i b;
          e = observe_signature (ft_diversity_limit t) callee i b as r old
      in bump (signature_shape old \<noteq> signature_shape e)
           (t\<lparr>ft_call_signatures := bt_insert (f, pc) e (ft_call_signatures t)\<rparr>))"
  by (simp add: observe_call_signature_with_identity_def old_signature_def Let_def)

definition old_type :: "feedback_table \<Rightarrow> feedback_key \<Rightarrow> feedback_entry" where
  "old_type t key = (case map_of (ft_entries t) key of Some e \<Rightarrow> e | None \<Rightarrow> empty_entry)"

definition full_at :: "feedback_table \<Rightarrow> feedback_key \<Rightarrow> bool" where
  "full_at t key \<longleftrightarrow> map_of (ft_entries t) key = None \<and> ft_capacity t \<le> length (ft_entries t)"

text \<open>The work of \<open>observe_type\<close> when the memo does not answer.\<close>

definition store_type :: "feedback_key \<Rightarrow> observed_type \<Rightarrow> feedback_table \<Rightarrow> feedback_table" where
  "store_type key ty t =
     (let e = snd (entry_observe ty (ft_diversity_limit t) (old_type t key)) in
      bump (map_of (ft_entries t) key = None \<or> entry_shape (old_type t key) \<noteq> entry_shape e)
        (t\<lparr>ft_entries := bt_insert key e (ft_entries t)\<rparr>))"

lemma observe_type_eq:
  "observe_type f pc kind ty t =
     (let key = FeedbackKey f pc kind in
      case recent_type key ty t of
        Some state \<Rightarrow> (state, t)
      | None \<Rightarrow>
          if full_at t key then (Megamorphic, t\<lparr>ft_dropped := sat_add u64_max (ft_dropped t) 1\<rparr>)
          else
            let state = fst (entry_observe ty (ft_diversity_limit t) (old_type t key)); u = store_type key ty t in
            (state,
             u\<lparr>ft_recent_types := (ft_recent_types u)[ft_recent_type_cursor u := Some (key, ty, state, ft_version u)],
               ft_recent_type_cursor := (ft_recent_type_cursor u + 1) mod length (ft_recent_types u)\<rparr>))"
  by (auto simp: observe_type_def store_type_def old_type_def full_at_def Let_def split: option.splits prod.splits)

lemmas step_eqs =
  observe_call_eq observe_binary_eq observe_conversion_eq observe_branch_eq observe_call_signature_eq

section \<open>Absorption\<close>

text \<open>The maps are ordered, and the memos hold absorbed observations only.\<close>

definition feedback_inv :: "feedback_table \<Rightarrow> bool" where
  "feedback_inv t \<longleftrightarrow>
     strict_sorted_keys (ft_entries t) \<and> strict_sorted_keys (ft_calls t) \<and> strict_sorted_keys (ft_binaries t) \<and>
     strict_sorted_keys (ft_conversions t) \<and> strict_sorted_keys (ft_branches t) \<and>
     strict_sorted_keys (ft_call_signatures t) \<and>
     length (ft_recent_types t) = 4 \<and> ft_recent_type_cursor t < 4 \<and>
     (\<forall>key ty state v. Some (key, ty, state, v) \<in> set (ft_recent_types t) \<longrightarrow>
        (\<exists>e. map_of (ft_entries t) key = Some e \<and> absorbs e ty)) \<and>
     (\<forall>f. ft_last_call t = Some f \<longrightarrow> (\<exists>c. map_of (ft_calls t) f = Some c \<and> call_absorbs c (ft_last_call_arguments t)))"

lemma feedback_invD:
  assumes "feedback_inv t"
  shows "strict_sorted_keys (ft_entries t)" "strict_sorted_keys (ft_calls t)" "strict_sorted_keys (ft_binaries t)"
    "strict_sorted_keys (ft_conversions t)" "strict_sorted_keys (ft_branches t)" "strict_sorted_keys (ft_call_signatures t)"
    "length (ft_recent_types t) = 4" "ft_recent_type_cursor t < 4"
    "Some (key, ty, state, v) \<in> set (ft_recent_types t) \<Longrightarrow> \<exists>e. map_of (ft_entries t) key = Some e \<and> absorbs e ty"
    "ft_last_call t = Some f \<Longrightarrow> \<exists>c. map_of (ft_calls t) f = Some c \<and> call_absorbs c (ft_last_call_arguments t)"
  using assms unfolding feedback_inv_def by blast+

lemma set_somes [simp]: "x \<in> set (List.map_filter id ys) \<longleftrightarrow> Some x \<in> set ys"
  by (force simp: List.map_filter_def)

lemma find_in: "find P xs = Some x \<Longrightarrow> x \<in> set xs \<and> P x"
  by (induction xs) (auto split: if_splits)

lemma recent_type_Some:
  assumes "recent_type key ty t = Some state"
  shows "Some (key, ty, state, ft_version t) \<in> set (ft_recent_types t)"
proof -
  obtain x where x: "find (\<lambda>(cached, ty', _, version). cached = key \<and> ty' = ty \<and> version = ft_version t)
      (List.map_filter id (ft_recent_types t)) = Some x" "state = (\<lambda>(_, _, state, _). state) x"
    using assms by (auto simp: recent_type_def)
  then have "x \<in> set (List.map_filter id (ft_recent_types t))" "x = (key, ty, state, ft_version t)"
    by (auto dest!: find_in simp del: set_somes)
  then show ?thesis by simp
qed

lemma flags_contains_or [simp]: "flags_contains (a OR b) b" "flags_contains a c \<Longrightarrow> flags_contains (a OR b) c"
  by (auto simp: flags_contains_def bit_eq_iff bit_simps)

lemma outcome_or: "(w OR y) AND x = (0 :: 8 word) \<Longrightarrow> w AND x = 0"
  by (auto simp: bit_eq_iff bit_simps)

lemma absorbed_call:
  assumes "feedback_inv t" "absorbed t op"
  shows "absorbed (observe_call f as t) op" and "absorbed (observe_call f as t) (OpCall f as)"
proof -
  show "absorbed (observe_call f as t) (OpCall f as)"
    using feedback_invD(2,10) [OF assms(1)] by (auto simp: observe_call_eq Let_def)
  show "absorbed (observe_call f as t) op"
    using feedback_invD(2) [OF assms(1)] assms(2)
    by (cases op) (auto simp: observe_call_eq Let_def old_call_def intro: observe_arguments_widens)
qed


lemma absorbed_binary:
  assumes "feedback_inv t" "absorbed t op"
  shows "absorbed (snd (observe_binary f pc l r v flags t)) op"
    and "absorbed (snd (observe_binary f pc l r v flags t)) (OpBinary f pc l r v flags)"
proof -
  note s = feedback_invD(3) [OF assms(1)]
  show "absorbed (snd (observe_binary f pc l r v flags t)) (OpBinary f pc l r v flags)"
    using s by (simp add: observe_binary_eq Let_def new_binary_def)
  show "absorbed (snd (observe_binary f pc l r v flags t)) op"
    using s assms(2)
    by (cases op) (auto simp: observe_binary_eq Let_def new_binary_def old_binary_def intro: entry_observe_widens)
qed

lemma absorbed_conversion:
  assumes "feedback_inv t" "absorbed t op"
  shows "absorbed (snd (observe_conversion f pc v r t)) op"
    and "absorbed (snd (observe_conversion f pc v r t)) (OpConversion f pc v r)"
proof -
  note s = feedback_invD(4) [OF assms(1)]
  show "absorbed (snd (observe_conversion f pc v r t)) (OpConversion f pc v r)"
    using s by (simp add: observe_conversion_eq Let_def)
  show "absorbed (snd (observe_conversion f pc v r t)) op"
    using s assms(2) by (cases op) (auto simp: observe_conversion_eq Let_def old_conversion_def intro: entry_observe_widens)
qed

lemma absorbed_branch:
  assumes "feedback_inv t" "absorbed t op"
  shows "absorbed (snd (observe_branch f pc ty taken t)) op"
    and "absorbed (snd (observe_branch f pc ty taken t)) (OpBranch f pc ty taken)"
proof -
  note s = feedback_invD(5) [OF assms(1)]
  have "(w OR x) AND x = x" for w x :: "8 word" by (auto simp: bit_eq_iff bit_simps)
  then have "(w OR (if taken then 1 else 2)) AND (if taken then 1 else 2) \<noteq> (0 :: 8 word)" for w by simp
  then show "absorbed (snd (observe_branch f pc ty taken t)) (OpBranch f pc ty taken)"
    using s by (simp add: observe_branch_eq Let_def)
  show "absorbed (snd (observe_branch f pc ty taken t)) op"
    using s assms(2)
    by (cases op) (auto simp: observe_branch_eq Let_def old_branch_def intro: entry_observe_widens dest: outcome_or)
qed

lemma absorbed_signature:
  assumes "feedback_inv t" "absorbed t op"
  shows "absorbed (snd (observe_call_signature_with_identity f pc callee i b as r t)) op"
    and "absorbed (snd (observe_call_signature_with_identity f pc callee i b as r t)) (OpCallSignature f pc callee i b as r)"
proof -
  note s = feedback_invD(6) [OF assms(1)]
  show "absorbed (snd (observe_call_signature_with_identity f pc callee i b as r t)) (OpCallSignature f pc callee i b as r)"
    using s by (simp add: observe_call_signature_eq Let_def)
  show "absorbed (snd (observe_call_signature_with_identity f pc callee i b as r t)) op"
    using s assms(2)
    by (cases op) (auto simp: observe_call_signature_eq Let_def old_signature_def intro: observe_signature_widens)
qed

lemma store_type_fields [simp]:
  "ft_calls (store_type key ty t) = ft_calls t" "ft_binaries (store_type key ty t) = ft_binaries t"
  "ft_conversions (store_type key ty t) = ft_conversions t" "ft_branches (store_type key ty t) = ft_branches t"
  "ft_call_signatures (store_type key ty t) = ft_call_signatures t" "ft_dropped (store_type key ty t) = ft_dropped t"
  "ft_recent_types (store_type key ty t) = ft_recent_types t" "ft_last_call (store_type key ty t) = ft_last_call t"
  "ft_recent_type_cursor (store_type key ty t) = ft_recent_type_cursor t" "ft_arrays (store_type key ty t) = ft_arrays t"
  "ft_last_call_arguments (store_type key ty t) = ft_last_call_arguments t"
  "ft_capacity (store_type key ty t) = ft_capacity t" "ft_diversity_limit (store_type key ty t) = ft_diversity_limit t"
  by (simp_all add: store_type_def Let_def)

lemma map_of_store_type:
  "strict_sorted_keys (ft_entries t) \<Longrightarrow>
   map_of (ft_entries (store_type key ty t)) = (map_of (ft_entries t))(key \<mapsto> snd (entry_observe ty (ft_diversity_limit t) (old_type t key)))"
  by (simp add: store_type_def Let_def)

lemma store_type_keeps:
  assumes "strict_sorted_keys (ft_entries t)" "\<exists>e. map_of (ft_entries t) k = Some e \<and> absorbs e x"
  shows "\<exists>e. map_of (ft_entries (store_type key ty t)) k = Some e \<and> absorbs e x"
  using assms by (auto simp: map_of_store_type old_type_def intro: entry_observe_widens)

lemma absorbed_type:
  assumes "feedback_inv t" "absorbed t op"
  shows "absorbed (snd (observe_type f pc kind ty t)) op"
    and "absorbed (snd (observe_type f pc kind ty t)) (OpType f pc kind ty)"
proof -
  note s = feedback_invD(1) [OF assms(1)]
  have d: "0 < sat_add u64_max (ft_dropped t) 1" by (simp add: sat_add_def u64_max_def)
  have k: "\<exists>e. map_of (ft_entries t) (FeedbackKey f pc kind) = Some e \<and> absorbs e ty"
    if "recent_type (FeedbackKey f pc kind) ty t = Some state" for state
    using feedback_invD(9) [OF assms(1) recent_type_Some [OF that]] .
  show "absorbed (snd (observe_type f pc kind ty t)) (OpType f pc kind ty)"
    using k d s by (auto simp: observe_type_eq Let_def map_of_store_type split: option.splits)
  show "absorbed (snd (observe_type f pc kind ty t)) op"
    using assms(2) d store_type_keeps [OF s]
    by (cases op) (auto simp: observe_type_eq Let_def split: option.splits)
qed

lemma absorbed_forget:
  assumes "absorbed t op" "op_function op \<noteq> f"
  shows "absorbed (forget_function f t) op"
proof -
  note a = map_of_filter_keep [of "\<lambda>k. fb_function k \<noteq> f"] and b = map_of_filter_keep [of "\<lambda>k. fst k \<noteq> f"]
  show ?thesis
    using assms by (cases op) (simp_all add: forget_function_def Let_def a b)
qed

lemma absorbed_array:
  assumes "absorbed t op"
  shows "absorbed (snd (ft_observe_array f pc access mode hazards t)) op"
    and "absorbed (snd (ft_observe_array_raw f pc m flags t)) op"
  using assms by (cases op; auto simp: ft_observe_array_def ft_observe_array_raw_def split: prod.splits option.splits)+

lemma absorbed_step:
  assumes "feedback_inv t" "absorbed t op" "op' \<noteq> OpForget (op_function op)"
  shows "absorbed (feedback_step op' t) op"
  using assms
  by (cases op')
    (auto simp: observe_return_def absorbed_call absorbed_binary absorbed_conversion absorbed_branch absorbed_signature
      absorbed_type absorbed_forget absorbed_array)

lemma absorbed_self:
  assumes "feedback_inv t"
  shows "absorbed (feedback_step op t) op"
proof -
  have base: "absorbed t (OpForget f)" for f by simp
  show ?thesis
  proof (cases op)
    case (OpReturn f pc ty)
    then show ?thesis using absorbed_type(2) [OF assms base, of f pc KindExit ty] by (simp add: observe_return_def)
  qed (use absorbed_call(2) [OF assms base] absorbed_binary(2) [OF assms base] absorbed_conversion(2) [OF assms base]
        absorbed_branch(2) [OF assms base] absorbed_signature(2) [OF assms base] absorbed_type(2) [OF assms base] in auto)
qed


section \<open>Every reachable table\<close>

abbreviation feedback_run :: "nat \<Rightarrow> nat \<Rightarrow> feedback_op list \<Rightarrow> feedback_table" where
  "feedback_run capacity limit ops \<equiv> fold feedback_step ops (new_feedback_table capacity limit)"

lemma feedback_inv_new [simp]: "feedback_inv (new_feedback_table capacity limit)"
  by (simp add: feedback_inv_def new_feedback_table_def)

lemma sorted_filter_keys: "strict_sorted_keys m \<Longrightarrow> strict_sorted_keys (filter P m)"
  by (induction m) auto

lemma feedback_inv_same:
  assumes "feedback_inv t" "ft_entries u = ft_entries t" "ft_calls u = ft_calls t"
    "ft_recent_types u = ft_recent_types t" "ft_recent_type_cursor u = ft_recent_type_cursor t"
    "ft_last_call u = ft_last_call t" "ft_last_call_arguments u = ft_last_call_arguments t"
    "strict_sorted_keys (ft_binaries u)" "strict_sorted_keys (ft_conversions u)"
    "strict_sorted_keys (ft_branches u)" "strict_sorted_keys (ft_call_signatures u)"
  shows "feedback_inv u"
  using assms by (simp add: feedback_inv_def)

lemma feedback_inv_call:
  assumes "feedback_inv t"
  shows "feedback_inv (observe_call f as t)"
proof -
  have "\<exists>c. map_of (ft_calls (observe_call f as t)) g = Some c \<and> call_absorbs c (ft_last_call_arguments (observe_call f as t))"
    if "ft_last_call (observe_call f as t) = Some g" for g
  proof (cases "ft_last_call t = Some f \<and> ft_last_call_arguments t = as")
    case True
    then show ?thesis using that feedback_invD(10) [OF assms] by (simp add: observe_call_eq)
  next
    case False
    then have "ft_last_call (observe_call f as t) = Some f" "ft_last_call_arguments (observe_call f as t) = as"
      by (auto simp: observe_call_eq Let_def)
    then show ?thesis using that absorbed_call(2) [OF assms, of "OpForget f" f as] by simp
  qed
  moreover have "strict_sorted_keys (ft_calls (observe_call f as t))"
    using feedback_invD(2) [OF assms] by (simp add: observe_call_eq Let_def)
  moreover have "ft_entries (observe_call f as t) = ft_entries t" "ft_binaries (observe_call f as t) = ft_binaries t"
    "ft_conversions (observe_call f as t) = ft_conversions t" "ft_branches (observe_call f as t) = ft_branches t"
    "ft_call_signatures (observe_call f as t) = ft_call_signatures t" "ft_recent_types (observe_call f as t) = ft_recent_types t"
    "ft_recent_type_cursor (observe_call f as t) = ft_recent_type_cursor t"
    by (simp_all add: observe_call_eq Let_def)
  ultimately show ?thesis using assms by (simp add: feedback_inv_def)
qed

lemma feedback_inv_type:
  assumes "feedback_inv t"
  shows "feedback_inv (snd (observe_type f pc kind ty t))"
proof -
  let ?key = "FeedbackKey f pc kind" and ?u = "snd (observe_type f pc kind ty t)"
  note s = feedback_invD(1) [OF assms]
  consider (hit) state where "recent_type ?key ty t = Some state"
    | (full) "recent_type ?key ty t = None" "full_at t ?key"
    | (store) "recent_type ?key ty t = None" "\<not> full_at t ?key"
    by fastforce
  then show ?thesis
  proof cases
    case hit
    then show ?thesis using assms by (simp add: observe_type_eq Let_def)
  next
    case full
    then show ?thesis using assms by (simp add: observe_type_eq Let_def feedback_inv_def)
  next
    case store
    let ?st = "fst (entry_observe ty (ft_diversity_limit t) (old_type t ?key))"
    have u: "?u = (store_type ?key ty t)\<lparr>ft_recent_types := (ft_recent_types t)[ft_recent_type_cursor t :=
        Some (?key, ty, ?st, ft_version (store_type ?key ty t))],
        ft_recent_type_cursor := (ft_recent_type_cursor t + 1) mod length (ft_recent_types t)\<rparr>"
      using store by (simp add: observe_type_eq Let_def)
    have r: "\<exists>e. map_of (ft_entries ?u) key = Some e \<and> absorbs e x"
      if "Some (key, x, st, v) \<in> set (ft_recent_types ?u)" for key x st v
    proof -
      have "(key, x) = (?key, ty) \<or> Some (key, x, st, v) \<in> set (ft_recent_types t)"
        using that set_update_subset_insert [of "ft_recent_types t" "ft_recent_type_cursor t"] unfolding u by fastforce
      then show ?thesis
      proof
        assume "(key, x) = (?key, ty)"
        then show ?thesis using s unfolding u by (simp add: map_of_store_type)
      next
        assume "Some (key, x, st, v) \<in> set (ft_recent_types t)"
        from store_type_keeps [OF s feedback_invD(9) [OF assms this]] show ?thesis unfolding u by simp
      qed
    qed
    have "strict_sorted_keys (ft_entries (store_type ?key ty t))" using s by (simp add: store_type_def Let_def)
    then show ?thesis
      using assms r unfolding feedback_inv_def by (simp add: u) 
  qed
qed

lemma feedback_inv_forget:
  assumes "feedback_inv t"
  shows "feedback_inv (forget_function f t)"
proof -
  have "\<exists>c. map_of (ft_calls (forget_function f t)) g = Some c \<and> call_absorbs c (ft_last_call_arguments (forget_function f t))"
    if "ft_last_call (forget_function f t) = Some g" for g
  proof -
    have "g \<noteq> f" "ft_last_call t = Some g" "ft_last_call_arguments (forget_function f t) = ft_last_call_arguments t"
      using that by (auto simp: forget_function_def Let_def split: if_splits)
    then show ?thesis using feedback_invD(10) [OF assms, of g] by (simp add: forget_function_def Let_def)
  qed
  moreover have "ft_recent_types (forget_function f t) = [None, None, None, None]"
    "ft_recent_type_cursor (forget_function f t) = ft_recent_type_cursor t"
    by (simp_all add: forget_function_def Let_def)
  moreover have "strict_sorted_keys (ft_entries (forget_function f t))" "strict_sorted_keys (ft_calls (forget_function f t))"
    "strict_sorted_keys (ft_binaries (forget_function f t))" "strict_sorted_keys (ft_conversions (forget_function f t))"
    "strict_sorted_keys (ft_branches (forget_function f t))" "strict_sorted_keys (ft_call_signatures (forget_function f t))"
    using feedback_invD(1-6) [OF assms] by (simp_all add: forget_function_def Let_def sorted_filter_keys)
  ultimately show ?thesis using feedback_invD(8) [OF assms] by (simp add: feedback_inv_def)
qed

lemma feedback_inv_step:
  assumes "feedback_inv t"
  shows "feedback_inv (feedback_step op t)"
proof -
  note s = feedback_invD(3-6) [OF assms]
  note same = feedback_inv_same [OF assms]
  show ?thesis
  proof (cases op)
    case (OpArrayRaw f pc mode flags)
    then show ?thesis using s
      by (auto simp: ft_observe_array_raw_def split: prod.splits option.splits intro!: same)
  qed (use s assms in \<open>auto simp: feedback_inv_call observe_return_def feedback_inv_type feedback_inv_forget
        observe_binary_eq observe_conversion_eq observe_branch_eq observe_call_signature_eq ft_observe_array_def Let_def
        split: prod.splits intro!: same\<close>)
qed

interpretation feedback: invariant_component feedback_step feedback_inv
  by unfold_locales (rule feedback_inv_step)

lemma feedback_run_inv: "feedback_inv (feedback_run capacity limit ops)"
  by (rule feedback.inv_run) simp

lemma absorbed_run:
  "op \<in> set (since f ops) \<Longrightarrow> op_function op = f \<Longrightarrow> absorbed (feedback_run capacity limit ops) op"
proof (induction ops rule: rev_induct)
  case (snoc op' ops)
  have i: "feedback_inv (feedback_run capacity limit ops)" by (rule feedback_run_inv)
  show ?case
  proof (cases "op' = op")
    case True
    then show ?thesis using absorbed_self [OF i] by simp
  next
    case False
    then have o: "op' \<noteq> OpForget f" "op \<in> set (since f ops)" using snoc.prems by (auto split: if_splits)
    show ?thesis
      using absorbed_step [OF i snoc.IH [OF o(2) snoc.prems(2)]] o(1) snoc.prems(2) by simp
  qed
qed simp


section \<open>What is recorded\<close>

text \<open>
  Whether the table takes a type observation at a key: it has an entry there, or room for one. An
  observation that finds the table full is dropped.
\<close>

definition accepts :: "feedback_table \<Rightarrow> feedback_key \<Rightarrow> bool" where
  "accepts t key \<longleftrightarrow> map_of (ft_entries t) key \<noteq> None \<or> length (ft_entries t) < ft_capacity t"

definition holds_type :: "feedback_table \<Rightarrow> feedback_key \<Rightarrow> observed_type \<Rightarrow> bool" where
  "holds_type t key ty \<longleftrightarrow> (\<exists>e. map_of (ft_entries t) key = Some e \<and> absorbs e ty)"

lemma accepted_held:
  assumes inv: "feedback_inv t" and a: "accepts t (FeedbackKey f pc kind)"
  shows "holds_type (snd (observe_type f pc kind ty t)) (FeedbackKey f pc kind) ty"
proof (cases "recent_type (FeedbackKey f pc kind) ty t")
  case None
  have "\<not> full_at t (FeedbackKey f pc kind)" using a by (auto simp: accepts_def full_at_def)
  then show ?thesis using None feedback_invD(1) [OF inv]
    by (simp add: observe_type_eq Let_def holds_type_def map_of_store_type)
next
  case (Some state)
  then show ?thesis using feedback_invD(9) [OF inv recent_type_Some [OF Some]]
    by (simp add: observe_type_eq Let_def holds_type_def)
qed

lemma held_type:
  assumes "feedback_inv t" "holds_type t key x"
  shows "holds_type (snd (observe_type f pc kind ty t)) key x"
  using store_type_keeps [OF feedback_invD(1) [OF assms(1)], of key x] assms(2)
  by (auto simp: observe_type_eq Let_def holds_type_def split: option.splits)

lemma forget_fields:
  "ft_entries (forget_function f t) = filter (\<lambda>e. fb_function (fst e) \<noteq> f) (ft_entries t)"
  "ft_calls (forget_function f t) = bt_remove f (ft_calls t)"
  "ft_binaries (forget_function f t) = filter (\<lambda>e. fst (fst e) \<noteq> f) (ft_binaries t)"
  by (simp_all add: forget_function_def Let_def)

lemma held_step:
  assumes inv: "feedback_inv t" and h: "holds_type t key x" and op: "op \<noteq> OpForget (fb_function key)"
  shows "holds_type (feedback_step op t) key x"
proof (cases op)
  case (OpForget f)
  then have "f \<noteq> fb_function key" using op by blast
  then have "map_of (ft_entries (forget_function f t)) key = map_of (ft_entries t) key"
    using map_of_filter_keep [of "\<lambda>k. fb_function k \<noteq> f" key "ft_entries t"]
    by (simp add: forget_fields)
  then show ?thesis using h OpForget by (simp add: holds_type_def)
next
  case (OpArrayRaw f pc m flags)
  then show ?thesis using h
    by (auto simp: holds_type_def ft_observe_array_raw_def split: prod.splits option.splits)
qed (use h held_type [OF inv h] in \<open>auto simp: holds_type_def observe_call_eq observe_return_def observe_binary_eq
      observe_conversion_eq observe_branch_eq observe_call_signature_eq ft_observe_array_def Let_def split: prod.splits\<close>)


lemma held_run:
  assumes "holds_type (feedback_run capacity limit ops) key x" "OpForget (fb_function key) \<notin> set post"
  shows "holds_type (feedback_run capacity limit (ops @ post)) key x"
  using assms(2)
proof (induction post rule: rev_induct)
  case (snoc op post)
  then have "holds_type (feedback_step op (feedback_run capacity limit (ops @ post))) key x"
    by (intro held_step feedback_run_inv) auto
  then show ?case by simp
qed (use assms(1) in simp)

text \<open>The observations of a function's exit, by either operation.\<close>

definition exit_op :: "function_key \<Rightarrow> nat \<Rightarrow> observed_type \<Rightarrow> feedback_op \<Rightarrow> bool" where
  "exit_op f pc ty op \<longleftrightarrow> op = OpReturn f pc ty \<or> op = OpType f pc KindExit ty"

lemma recorded_exit:
  assumes "exit_op f pc ty op" "OpForget f \<notin> set post"
    and "accepts (feedback_run capacity limit pre) (FeedbackKey f pc KindExit)"
  shows "holds_type (feedback_run capacity limit (pre @ op # post)) (FeedbackKey f pc KindExit) ty"
proof -
  have "feedback_run capacity limit (pre @ [op]) = snd (observe_type f pc KindExit ty (feedback_run capacity limit pre))"
    using assms(1) by (auto simp: exit_op_def observe_return_def)
  then have "holds_type (feedback_run capacity limit (pre @ [op])) (FeedbackKey f pc KindExit) ty"
    using accepted_held [OF feedback_run_inv assms(3)] by metis
  from held_run [OF this, of post] assms(2) show ?thesis by simp
qed

text \<open>Nothing is recorded that was not observed since the function was last forgotten.\<close>

lemma observe_type_entries:
  assumes "feedback_inv t" "map_of (ft_entries (snd (observe_type f pc kind ty t))) key \<noteq> None"
  shows "map_of (ft_entries t) key \<noteq> None \<or> key = FeedbackKey f pc kind"
  using assms map_of_store_type [OF feedback_invD(1) [OF assms(1)]]
  by (auto simp: observe_type_eq Let_def split: option.splits if_splits)

lemma map_of_filter_drop: "\<not> P k \<Longrightarrow> map_of (filter (\<lambda>e. P (fst e)) m) k = None"
  by (auto simp: map_of_eq_None_iff)

lemma entries_step:
  assumes inv: "feedback_inv t" and e: "map_of (ft_entries (feedback_step op t)) (FeedbackKey f pc KindExit) \<noteq> None"
  shows "op \<noteq> OpForget f \<and> (map_of (ft_entries t) (FeedbackKey f pc KindExit) \<noteq> None \<or> (\<exists>ty. exit_op f pc ty op))"
proof (cases op)
  case (OpForget g)
  then show ?thesis
    using e map_of_filter_drop [of "\<lambda>k. fb_function k \<noteq> g" "FeedbackKey f pc KindExit" "ft_entries t"]
      map_of_filter_keep [of "\<lambda>k. fb_function k \<noteq> g" "FeedbackKey f pc KindExit" "ft_entries t"]
    by (cases "g = f") (simp_all add: forget_fields)
next
  case (OpReturn g p ty)
  then show ?thesis using e observe_type_entries [OF inv, of g p KindExit ty "FeedbackKey f pc KindExit"]
    by (auto simp: observe_return_def exit_op_def)
next
  case (OpType g p kind ty)
  then show ?thesis using e observe_type_entries [OF inv, of g p kind ty "FeedbackKey f pc KindExit"]
    by (auto simp: exit_op_def)
next
  case (OpArrayRaw g p m flags)
  then show ?thesis using e by (auto simp: ft_observe_array_raw_def split: prod.splits option.splits)
qed (use e in \<open>auto simp: observe_call_eq observe_binary_eq observe_conversion_eq observe_branch_eq
      observe_call_signature_eq ft_observe_array_def Let_def split: prod.splits if_splits\<close>)

lemma binaries_step:
  assumes inv: "feedback_inv t" and e: "map_of (ft_binaries (feedback_step op t)) (f, pc) \<noteq> None"
  shows "op \<noteq> OpForget f \<and> (map_of (ft_binaries t) (f, pc) \<noteq> None \<or> (\<exists>l r v flags. op = OpBinary f pc l r v flags))"
proof (cases op)
  case (OpForget g)
  then show ?thesis
    using e map_of_filter_drop [of "\<lambda>k. fst k \<noteq> g" "(f, pc)" "ft_binaries t"]
      map_of_filter_keep [of "\<lambda>k. fst k \<noteq> g" "(f, pc)" "ft_binaries t"]
    by (cases "g = f") (simp_all add: forget_fields)
next
  case (OpBinary g p l r v flags)
  then show ?thesis using e feedback_invD(3) [OF inv] by (auto simp: observe_binary_eq Let_def split: if_splits)
next
  case (OpArrayRaw g p m flags)
  then show ?thesis using e by (auto simp: ft_observe_array_raw_def split: prod.splits option.splits)
qed (use e in \<open>auto simp: observe_call_eq observe_return_def observe_type_eq observe_conversion_eq observe_branch_eq
      observe_call_signature_eq ft_observe_array_def Let_def split: prod.splits if_splits option.splits\<close>)

lemma calls_step:
  assumes inv: "feedback_inv t" and e: "map_of (ft_calls (feedback_step op t)) f \<noteq> None"
  shows "op \<noteq> OpForget f \<and> (map_of (ft_calls t) f \<noteq> None \<or> (\<exists>as. op = OpCall f as))"
proof (cases op)
  case (OpForget g)
  then show ?thesis using e feedback_invD(2) [OF inv] by (auto simp: forget_fields split: if_splits)
next
  case (OpCall g as)
  then show ?thesis using e feedback_invD(2) [OF inv] by (auto simp: observe_call_eq Let_def split: if_splits)
next
  case (OpArrayRaw g p m flags)
  then show ?thesis using e by (auto simp: ft_observe_array_raw_def split: prod.splits option.splits)
qed (use e in \<open>auto simp: observe_binary_eq observe_return_def observe_type_eq observe_conversion_eq observe_branch_eq
      observe_call_signature_eq ft_observe_array_def Let_def split: prod.splits if_splits option.splits\<close>)

lemma run_origin:
  assumes step: "\<And>op t. feedback_inv t \<Longrightarrow> present (feedback_step op t) \<Longrightarrow> op \<noteq> OpForget f \<and> (present t \<or> origin op)"
    and none: "\<not> present (new_feedback_table capacity limit)"
  shows "present (feedback_run capacity limit ops) \<Longrightarrow> \<exists>op \<in> set (since f ops). origin op"
proof (induction ops rule: rev_induct)
  case (snoc op ops)
  have "present (feedback_step op (feedback_run capacity limit ops))" using snoc.prems by simp
  from step [OF feedback_run_inv this] snoc.IH show ?case by auto
qed (use none in simp)

lemma exit_origin:
  "map_of (ft_entries (feedback_run capacity limit ops)) (FeedbackKey f pc KindExit) \<noteq> None \<Longrightarrow>
   \<exists>op \<in> set (since f ops). \<exists>ty. exit_op f pc ty op"
  by (rule run_origin [where present = "\<lambda>t. map_of (ft_entries t) (FeedbackKey f pc KindExit) \<noteq> None", OF entries_step]) (simp_all add: new_feedback_table_def)

lemma binary_origin:
  "map_of (ft_binaries (feedback_run capacity limit ops)) (f, pc) \<noteq> None \<Longrightarrow>
   \<exists>op \<in> set (since f ops). \<exists>l r v flags. op = OpBinary f pc l r v flags"
  by (rule run_origin [where present = "\<lambda>t. map_of (ft_binaries t) (f, pc) \<noteq> None", OF binaries_step]) (simp_all add: new_feedback_table_def)

lemma call_origin:
  "map_of (ft_calls (feedback_run capacity limit ops)) f \<noteq> None \<Longrightarrow> \<exists>op \<in> set (since f ops). \<exists>as. op = OpCall f as"
  by (rule run_origin [where present = "\<lambda>t. map_of (ft_calls t) f \<noteq> None", OF calls_step]) (simp_all add: new_feedback_table_def)


lemma return_type_of_some: "return_type_of es None = Some ty \<Longrightarrow> es \<noteq> []"
  by auto

section \<open>Specialisations\<close>

lemma collect_opt_Some: "collect_opt xs = Some ys \<longleftrightarrow> xs = map Some ys"
proof (induction xs arbitrary: ys)
  case (Cons x xs)
  show ?case by (cases x; cases ys) (auto simp: Cons)
qed auto

lemma find_map_in: "find P (map g xs) = Some y \<Longrightarrow> \<exists>x \<in> set xs. y = g x \<and> P y"
  by (induction xs) (auto split: if_splits)

lemma return_type_of_all:
  "return_type_of es r = Some ty \<Longrightarrow>
   (\<forall>e \<in> set es. se_state e = Monomorphic \<and> se_observations e = [ty]) \<and> (r = None \<or> r = Some ty)"
proof (induction es arbitrary: r)
  case (Cons e es)
  have e: "se_state e = Monomorphic" "length (se_observations e) = 1" "r = None \<or> r = Some (se_observations e ! 0)"
    "return_type_of es (Some (se_observations e ! 0)) = Some ty"
    using Cons.prems by (auto simp: Let_def split: if_splits option.splits)
  then obtain x where "se_observations e = [x]" by (metis One_nat_def length_0_conv length_Suc_conv)
  then show ?case using Cons.IH [OF e(4)] e(1,3) by auto
qed simp

lemma matching_binaries_some:
  "matching_binaries r bs n = Some m \<Longrightarrow> r \<noteq> ReprBool \<Longrightarrow> n < m \<Longrightarrow>
   \<exists>b \<in> set bs. bp_state b = Monomorphic \<and>
     (\<exists>ty. observed_scalar_representation ty = Some r \<and> bp_lhs b = [ty] \<and> bp_rhs b = [ty] \<and> bp_result b = [ty])"
proof (induction bs arbitrary: n)
  case (Cons b bs)
  show ?case
  proof (cases "bp_state b = Monomorphic \<and>
     (\<exists>ty. observed_scalar_representation ty = Some r \<and> bp_lhs b = [ty] \<and> bp_rhs b = [ty] \<and> bp_result b = [ty])")
    case False
    have "matching_binaries r bs n = Some m"
      using Cons.prems(1,2) False by (cases r) (auto simp: Let_def split: if_splits)
    then show ?thesis using Cons.IH Cons.prems(2,3) by auto
  qed auto
qed simp

text \<open>A call that its entry calls monomorphic had the stable argument types.\<close>

lemma stable_call_types:
  assumes "call_state c = Monomorphic" "call_absorbs c as" "length (cf_slots c) = cf_arities c ! 0"
  shows "as = map (\<lambda>slot. en_observations slot ! 0) (cf_slots c)"
proof -
  have m: "\<not> cf_arity_megamorphic c" "length (cf_arities c) = 1"
    "\<And>slot. slot \<in> set (cf_slots c) \<Longrightarrow> \<not> en_megamorphic slot \<and> length (en_observations slot) = 1"
    using assms(1) by (auto simp: call_state_def list_ex_iff split: if_splits)
  then have n: "length as = length (cf_slots c)"
    using assms(2,3) by (cases "cf_arities c") (auto simp: call_absorbs_def)
  show ?thesis
  proof (rule nth_equalityI)
    fix i assume i: "i < length as"
    then have "absorbs (cf_slots c ! i) (as ! i)" using assms(2) by (simp add: call_absorbs_def slots_absorb_def)
    moreover have "entry_state (cf_slots c ! i) = Monomorphic" using m(3) [of "cf_slots c ! i"] i n by (simp add: entry_state_def)
    ultimately show "as ! i = map (\<lambda>slot. en_observations slot ! 0) (cf_slots c) ! i"
      using monomorphic_absorbs i n by fastforce
  qed (simp add: n)
qed

lemma bounded_specialization_stages:
  assumes "bounded_specialization s f = Some sg"
  shows "\<exists>call ty. fs_epoch s \<noteq> 0 \<and> call_at s f = Some call \<and> cp_state call = Monomorphic \<and>
    cp_stable_types call \<noteq> None \<and> cp_stable_arity call = Some (length (the (cp_stable_types call))) \<and>
    length (the (cp_stable_types call)) \<le> MAX_SPECIALIZED_ARGUMENTS \<and>
    return_type_of (filter (\<lambda>e. se_function e = f \<and> se_kind e = KindExit) (fs_entries s)) None = Some ty \<and>
    observed_scalar_representation ty = Some (sg_result sg) \<and>
    map observed_representation (the (cp_stable_types call)) = map Some (sg_arguments sg) \<and>
    (sg_result sg \<noteq> ReprBool \<longrightarrow> (\<exists>m. 0 < m \<and>
      matching_binaries (sg_result sg) (filter (\<lambda>b. bp_function b = f) (fs_binaries s)) 0 = Some m)) \<and>
    sg_function sg = f \<and> sg_feedback_epoch sg = fs_epoch s"
  using assms unfolding bounded_specialization_def
  by (auto simp: bind_eq_Some_conv collect_opt_Some not_less split: if_splits)

lemma call_at_snapshot:
  assumes "feedback_inv t" "call_at (table_snapshot epoch t) f = Some call"
  shows "\<exists>c. map_of (ft_calls t) f = Some c \<and> call = freeze_call (f, c)"
proof -
  obtain x where x: "x \<in> set (ft_calls t)" "call = freeze_call x" "cp_function call = f"
    using find_map_in assms(2) unfolding call_at_def table_snapshot_def by fastforce
  then have "x = (f, snd x)" by (auto simp: freeze_call_def split: prod.splits)
  then have "map_of (ft_calls t) f = Some (snd x)"
    using x(1) map_of_eq_Some_iff [OF strict_sorted_distinct [OF feedback_invD(2) [OF assms(1)]]] by metis
  then show ?thesis using x(2) \<open>x = (f, snd x)\<close> by metis
qed

lemma signature_at_snapshot:
  assumes "feedback_inv t" "call_signature_at (table_snapshot epoch t) f pc = Some call"
  shows "\<exists>e. map_of (ft_call_signatures t) (f, pc) = Some e \<and> call = freeze_signature ((f, pc), e)"
proof -
  obtain x where x: "x \<in> set (ft_call_signatures t)" "call = freeze_signature x" "sp_caller call = f \<and> sp_pc call = pc"
    using find_map_in assms(2) unfolding call_signature_at_def table_snapshot_def by fastforce
  then have "x = ((f, pc), snd x)" by (auto simp: freeze_signature_def split: prod.splits)
  then have "map_of (ft_call_signatures t) (f, pc) = Some (snd x)"
    using x(1) map_of_eq_Some_iff [OF strict_sorted_distinct [OF feedback_invD(6) [OF assms(1)]]] by metis
  then show ?thesis using x(2) \<open>x = ((f, pc), snd x)\<close> by metis
qed


text \<open>The exits a specialisation rests on: all recorded ones have the agreed type, and there is one.\<close>

lemma snapshot_exits:
  assumes r: "return_type_of (filter (\<lambda>e. se_function e = f \<and> se_kind e = KindExit)
      (fs_entries (table_snapshot epoch (feedback_run capacity limit ops)))) None = Some rty"
  shows "holds_type (feedback_run capacity limit ops) (FeedbackKey f pc KindExit) ty \<Longrightarrow> ty = rty"
    and "\<exists>pc ty. \<exists>op \<in> set (since f ops). exit_op f pc ty op"
proof -
  let ?t = "feedback_run capacity limit ops"
  show "ty = rty" if h: "holds_type ?t (FeedbackKey f pc KindExit) ty"
  proof -
    obtain e where e: "map_of (ft_entries ?t) (FeedbackKey f pc KindExit) = Some e" "absorbs e ty"
      using h by (auto simp: holds_type_def)
    have "freeze_entry (FeedbackKey f pc KindExit, e) \<in> set (filter (\<lambda>e. se_function e = f \<and> se_kind e = KindExit)
        (fs_entries (table_snapshot epoch ?t)))"
      using map_of_SomeD [OF e(1)] by (force simp: table_snapshot_def freeze_entry_def)
    then have "entry_state e = Monomorphic" "en_observations e = [rty]"
      using return_type_of_all [OF r] by (auto simp: freeze_entry_def)
    then show ?thesis using monomorphic_absorbs [OF _ e(2)] by simp
  qed
  obtain key e where e: "(key, e) \<in> set (ft_entries ?t)" "fb_function key = f" "fb_kind key = KindExit"
    using return_type_of_some [OF r] by (auto simp: filter_empty_conv table_snapshot_def freeze_entry_def)
  then have k: "key = FeedbackKey f (fb_pc key) KindExit" by (cases key) simp
  have "key \<in> fst ` set (ft_entries ?t)" using e(1) by force
  then have "map_of (ft_entries ?t) (FeedbackKey f (fb_pc key) KindExit) \<noteq> None"
    using k by (metis map_of_eq_None_iff)
  from exit_origin [OF this] show "\<exists>pc ty. \<exists>op \<in> set (since f ops). exit_op f pc ty op" by blast
qed

text \<open>The binary operation a numeric specialisation rests on: it was observed, and with one type only.\<close>

lemma snapshot_binaries:
  assumes m: "matching_binaries repr (filter (\<lambda>b. bp_function b = f)
      (fs_binaries (table_snapshot epoch (feedback_run capacity limit ops)))) 0 = Some m" "0 < m" "repr \<noteq> ReprBool"
  shows "\<exists>pc. (\<exists>l r v flags. OpBinary f pc l r v flags \<in> set (since f ops)) \<and>
    (\<forall>l r v flags. OpBinary f pc l r v flags \<in> set (since f ops) \<longrightarrow>
      observed_scalar_representation l = Some repr \<and> r = l \<and> v = l)"
proof -
  let ?t = "feedback_run capacity limit ops"
  obtain b bty where b: "b \<in> set (filter (\<lambda>b. bp_function b = f) (fs_binaries (table_snapshot epoch ?t)))"
    "bp_state b = Monomorphic" "observed_scalar_representation bty = Some repr"
    "bp_lhs b = [bty]" "bp_rhs b = [bty]" "bp_result b = [bty]"
    using matching_binaries_some [OF m(1,3,2)] by blast
  obtain pc e where e: "((f, pc), e) \<in> set (ft_binaries ?t)" "b = freeze_binary ((f, pc), e)"
    using b(1) by (auto simp: table_snapshot_def freeze_binary_def)
  have bin: "map_of (ft_binaries ?t) (f, pc) = Some e"
    using e(1) map_of_eq_Some_iff [OF strict_sorted_distinct [OF feedback_invD(3) [OF feedback_run_inv]]] by metis
  have o: "en_observations (bf_lhs e) = [bty]" "en_observations (bf_rhs e) = [bty]" "en_observations (bf_result e) = [bty]"
    "\<not> en_megamorphic (bf_lhs e)" "\<not> en_megamorphic (bf_rhs e)" "\<not> en_megamorphic (bf_result e)"
    using b(2,4-6) unfolding e(2) by (auto simp: freeze_binary_def combined_state_def split: if_splits)
  have "l = bty \<and> r = bty \<and> v = bty" if "OpBinary f pc l r v flags \<in> set (since f ops)" for l r v flags
    using absorbed_run [OF that, of capacity limit] bin o by (auto simp: absorbs_def)
  moreover have "\<exists>l r v flags. OpBinary f pc l r v flags \<in> set (since f ops)"
    using binary_origin [of ops capacity limit f pc] bin by auto
  ultimately show ?thesis using b(3) by metis
qed

lemma specialization_facts:
  assumes "bounded_specialization (table_snapshot epoch (feedback_run capacity limit ops)) f = Some sg"
  shows "OpCall f as \<in> set (since f ops) \<Longrightarrow> map observed_representation as = map Some (sg_arguments sg)"
    and "\<exists>as. OpCall f as \<in> set (since f ops)"
    and "holds_type (feedback_run capacity limit ops) (FeedbackKey f pc KindExit) ty \<Longrightarrow>
      observed_scalar_representation ty = Some (sg_result sg)"
    and "\<exists>pc ty. \<exists>op \<in> set (since f ops). exit_op f pc ty op"
    and "sg_result sg \<noteq> ReprBool \<Longrightarrow> \<exists>pc. (\<exists>l r v flags. OpBinary f pc l r v flags \<in> set (since f ops)) \<and>
      (\<forall>l r v flags. OpBinary f pc l r v flags \<in> set (since f ops) \<longrightarrow>
        observed_scalar_representation l = Some (sg_result sg) \<and> r = l \<and> v = l)"
    and "length (sg_arguments sg) \<le> MAX_SPECIALIZED_ARGUMENTS"
    and "sg_function sg = f \<and> sg_feedback_epoch sg = epoch \<and> epoch \<noteq> 0"
proof -
  let ?t = "feedback_run capacity limit ops"
  have inv: "feedback_inv ?t" by (rule feedback_run_inv)
  obtain call rty where g: "call_at (table_snapshot epoch ?t) f = Some call" "cp_state call = Monomorphic"
    "cp_stable_types call \<noteq> None" "cp_stable_arity call = Some (length (the (cp_stable_types call)))"
    "length (the (cp_stable_types call)) \<le> MAX_SPECIALIZED_ARGUMENTS"
    "return_type_of (filter (\<lambda>e. se_function e = f \<and> se_kind e = KindExit) (fs_entries (table_snapshot epoch ?t))) None = Some rty"
    "observed_scalar_representation rty = Some (sg_result sg)"
    "map observed_representation (the (cp_stable_types call)) = map Some (sg_arguments sg)"
    "sg_result sg \<noteq> ReprBool \<longrightarrow> (\<exists>m. 0 < m \<and>
      matching_binaries (sg_result sg) (filter (\<lambda>b. bp_function b = f) (fs_binaries (table_snapshot epoch ?t))) 0 = Some m)"
    and sg: "fs_epoch (table_snapshot epoch ?t) \<noteq> 0" "sg_function sg = f" "sg_feedback_epoch sg = fs_epoch (table_snapshot epoch ?t)"
    using bounded_specialization_stages [OF assms] by blast
  show "sg_function sg = f \<and> sg_feedback_epoch sg = epoch \<and> epoch \<noteq> 0" using sg by (simp add: table_snapshot_def)
  obtain c where c: "map_of (ft_calls ?t) f = Some c" "call = freeze_call (f, c)" using call_at_snapshot [OF inv g(1)] by blast
  have ty: "the (cp_stable_types call) = map (\<lambda>slot. en_observations slot ! 0) (cf_slots c)"
    and st: "call_state c = Monomorphic" and ar: "length (cf_slots c) = cf_arities c ! 0"
    using g(2-4) unfolding c(2) freeze_call_def by (auto split: if_splits)
  show "length (sg_arguments sg) \<le> MAX_SPECIALIZED_ARGUMENTS" using g(5,8) by (metis length_map)
  show "\<exists>as. OpCall f as \<in> set (since f ops)" using call_origin [of ops capacity limit f] c(1) by auto
  show "map observed_representation as = map Some (sg_arguments sg)" if "OpCall f as \<in> set (since f ops)"
  proof -
    have "call_absorbs c as" using absorbed_run [OF that, of capacity limit] c(1) by simp
    then show ?thesis using stable_call_types [OF st _ ar] ty g(8) by metis
  qed
  show "observed_scalar_representation ty = Some (sg_result sg)"
    if "holds_type ?t (FeedbackKey f pc KindExit) ty" for pc ty
    using snapshot_exits(1) [OF g(6) that] g(7) by simp
  show "\<exists>pc ty. \<exists>op \<in> set (since f ops). exit_op f pc ty op" by (rule snapshot_exits(2) [OF g(6)])
  show "\<exists>pc. (\<exists>l r v flags. OpBinary f pc l r v flags \<in> set (since f ops)) \<and>
      (\<forall>l r v flags. OpBinary f pc l r v flags \<in> set (since f ops) \<longrightarrow>
        observed_scalar_representation l = Some (sg_result sg) \<and> r = l \<and> v = l)" if nb: "sg_result sg \<noteq> ReprBool"
    using g(9) nb snapshot_binaries [OF _ _ nb] by blast
qed

text \<open>A history: after a forgotten call, two calls with an integer and an object, an integer addition, a call and an exit.\<close>

definition sample_feedback_ops :: "feedback_op list" where
  "sample_feedback_ops =
     [OpCall (FunctionKey 7 1) [ObsString],
      OpForget (FunctionKey 7 1),
      OpCall (FunctionKey 7 1) [ObsInt32, ObsObject],
      OpBinary (FunctionKey 7 1) 4 ObsInt32 ObsInt32 ObsInt32 0,
      OpCallSignature (FunctionKey 7 1) 9 (FunctionKey 8 2) 41 42 [ObsInt32] ObsBool,
      OpReturn (FunctionKey 7 1) 12 ObsInt32,
      OpCall (FunctionKey 7 1) [ObsInt32, ObsObject],
      OpReturn (FunctionKey 7 1) 12 ObsInt32]"

text \<open>
  C23. The signature under which a function is specialised holds of what was observed of the function
  since it was last forgotten. Every call had exactly as many arguments, of types with exactly the
  representations of the signature. Every return that the table recorded had a type with the
  representation of the result; a return is not recorded only if it was dropped, because the table had
  no entry for its place and no room for one. A numeric result is backed by a binary operation of the
  function that was observed, with operands and results of this one type only. A call and a return
  were observed at all, and the signature names the function and the epoch, which is not zero.
\<close>

theorem specialization_sound:
  assumes "bounded_specialization (table_snapshot epoch (feedback_run capacity limit ops)) f = Some sg"
  shows "(\<forall>as. OpCall f as \<in> set (since f ops) \<longrightarrow> map observed_representation as = map Some (sg_arguments sg)) \<and>
    (\<exists>as. OpCall f as \<in> set (since f ops)) \<and>
    (\<forall>pre op post pc ty. ops = pre @ op # post \<longrightarrow> exit_op f pc ty op \<longrightarrow> OpForget f \<notin> set post \<longrightarrow>
      accepts (feedback_run capacity limit pre) (FeedbackKey f pc KindExit) \<longrightarrow>
      observed_scalar_representation ty = Some (sg_result sg)) \<and>
    (\<exists>pc ty. \<exists>op \<in> set (since f ops). exit_op f pc ty op) \<and>
    (sg_result sg \<noteq> ReprBool \<longrightarrow> (\<exists>pc. (\<exists>l r v flags. OpBinary f pc l r v flags \<in> set (since f ops)) \<and>
      (\<forall>l r v flags. OpBinary f pc l r v flags \<in> set (since f ops) \<longrightarrow>
        observed_scalar_representation l = Some (sg_result sg) \<and> r = l \<and> v = l))) \<and>
    length (sg_arguments sg) \<le> MAX_SPECIALIZED_ARGUMENTS \<and>
    sg_function sg = f \<and> sg_feedback_epoch sg = epoch \<and> epoch \<noteq> 0"
proof -
  note facts = specialization_facts [OF assms]
  have "observed_scalar_representation ty = Some (sg_result sg)"
    if "ops = pre @ op # post" "exit_op f pc ty op" "OpForget f \<notin> set post"
      "accepts (feedback_run capacity limit pre) (FeedbackKey f pc KindExit)" for pre op post pc ty
    using facts(3) [of pc ty] recorded_exit [OF that(2-4)] that(1) by simp
  then show ?thesis using facts(1,2,4-7) by blast
qed


definition sample_signature :: bounded_signature where
  "sample_signature = \<lparr>sg_function = FunctionKey 7 1, sg_arguments = [ReprInt32, ReprHeapRef],
     sg_result = ReprInt32, sg_feedback_epoch = 5\<rparr>"

lemma sample_specialization:
  "bounded_specialization (table_snapshot 5 (feedback_run 16 4 sample_feedback_ops)) (FunctionKey 7 1) = Some sample_signature"
  by code_simp

theorem specialization_sound_witness:
  "bounded_specialization (table_snapshot 5 (feedback_run 16 4 sample_feedback_ops)) (FunctionKey 7 1) = Some sample_signature \<and>
   map observed_representation [ObsInt32, ObsObject] = map Some (sg_arguments sample_signature) \<and>
   observed_scalar_representation ObsInt32 = Some (sg_result sample_signature)"
proof -
  note th = specialization_sound [OF sample_specialization]
  have "OpCall (FunctionKey 7 1) [ObsInt32, ObsObject] \<in> set (since (FunctionKey 7 1) sample_feedback_ops)"
    by (simp add: sample_feedback_ops_def since_def)
  then have a: "map observed_representation [ObsInt32, ObsObject] = map Some (sg_arguments sample_signature)"
    using th by blast
  have "observed_scalar_representation ObsInt32 = Some (sg_result sample_signature)"
  proof (rule th [THEN conjunct2, THEN conjunct2, THEN conjunct1, rule_format])
    show "sample_feedback_ops = take 5 sample_feedback_ops @ OpReturn (FunctionKey 7 1) 12 ObsInt32 # drop 6 sample_feedback_ops"
      by (simp add: sample_feedback_ops_def)
    show "exit_op (FunctionKey 7 1) 12 ObsInt32 (OpReturn (FunctionKey 7 1) 12 ObsInt32)" by (simp add: exit_op_def)
    show "OpForget (FunctionKey 7 1) \<notin> set (drop 6 sample_feedback_ops)" by (simp add: sample_feedback_ops_def)
    show "accepts (feedback_run 16 4 (take 5 sample_feedback_ops)) (FeedbackKey (FunctionKey 7 1) 12 KindExit)" by code_simp
  qed
  with a sample_specialization show ?thesis by blast
qed

text \<open>
  C24. A call link or a call specialisation read from a snapshot holds of every call observed at the site
  since the caller was last forgotten: the calls went to the one callee with the recorded identities, and
  for a specialisation they also had the recorded number and representations of arguments and a result of
  the recorded representation. The identities of a link are never zero.
\<close>

theorem call_link_sound:
  assumes "OpCallSignature f pc callee i b as r \<in> set (since f ops)"
  shows "(\<forall>link. call_link_at (table_snapshot epoch (feedback_run capacity limit ops)) f pc = Some link \<longrightarrow>
      cl_callee link = callee \<and> cl_callee_identity link = i \<and> cl_callee_bytecode_identity link = b \<and>
      i \<noteq> 0 \<and> b \<noteq> 0 \<and> fk_id callee \<noteq> 0 \<and> fk_generation callee \<noteq> 0) \<and>
    (\<forall>key. call_specialization_at (table_snapshot epoch (feedback_run capacity limit ops)) f pc = Some key \<longrightarrow>
      ck_callee key = callee \<and> ck_callee_identity key = i \<and> ck_callee_bytecode_identity key = b \<and>
      map observed_direct_argument_representation as = map Some (ck_arguments key) \<and>
      observed_scalar_representation r = Some (ck_result key))"
proof -
  let ?t = "feedback_run capacity limit ops"
  define s where "s = table_snapshot epoch ?t"
  have inv: "feedback_inv ?t" by (rule feedback_run_inv)
  obtain e where e: "map_of (ft_call_signatures ?t) (f, pc) = Some e" "signature_absorbs e callee i b as r"
    using absorbed_run [OF assms(1), of capacity limit] by auto
  have at: "call = freeze_signature ((f, pc), e)" if "call_signature_at s f pc = Some call" for call
    using signature_at_snapshot [OF inv, of epoch f pc call] that e(1) by (auto simp: s_def)
  have one: "\<not> cs_targets_megamorphic e \<Longrightarrow> length (cs_targets e) = 1 \<Longrightarrow> cs_targets e = [callee] \<and>
      cs_callee_identity e = i \<and> cs_callee_bytecode_identity e = b"
    using e(2) by (cases "cs_targets e") (auto simp: signature_absorbs_def)
  have link: "cl_callee link = callee \<and> cl_callee_identity link = i \<and> cl_callee_bytecode_identity link = b \<and>
      i \<noteq> 0 \<and> b \<noteq> 0 \<and> fk_id callee \<noteq> 0 \<and> fk_generation callee \<noteq> 0" if l: "call_link_at s f pc = Some link" for link
  proof -
    obtain call where "call_signature_at s f pc = Some call" using l by (auto simp: call_link_at_def bind_eq_Some_conv split: if_splits)
    from at [OF this] this have c: "call_signature_at s f pc = Some (freeze_signature ((f, pc), e))" by simp
    have "call_target_state e = Monomorphic" "length (cs_targets e) = 1"
      using l unfolding call_link_at_def c by (auto simp: freeze_signature_def Let_def split: if_splits)
    then have "\<not> cs_targets_megamorphic e" by (auto simp: call_target_state_def split: if_splits)
    from one [OF this \<open>length (cs_targets e) = 1\<close>] show ?thesis
      using l unfolding call_link_at_def c by (auto simp: freeze_signature_def Let_def split: if_splits)
  qed
  have spec: "ck_callee key = callee \<and> ck_callee_identity key = i \<and> ck_callee_bytecode_identity key = b \<and>
      map observed_direct_argument_representation as = map Some (ck_arguments key) \<and>
      observed_scalar_representation r = Some (ck_result key)" if k: "call_specialization_at s f pc = Some key" for key
  proof -
    obtain call where "call_signature_at s f pc = Some call" using k by (auto simp: call_specialization_at_def bind_eq_Some_conv split: if_splits)
    from at [OF this] this have c: "call_signature_at s f pc = Some (freeze_signature ((f, pc), e))" by simp
    have st: "call_signature_state e = Monomorphic" "length (cs_arities e) = 1" "length (cs_arguments e) = cs_arities e ! 0"
      and key: "ck_callee key = cs_targets e ! 0" "ck_callee_identity key = cs_callee_identity e"
        "ck_callee_bytecode_identity key = cs_callee_bytecode_identity e"
        "observed_scalar_representation (en_observations (cs_results e) ! 0) = Some (ck_result key)"
        "map (\<lambda>obs. if length obs = 1 then observed_direct_argument_representation (obs ! 0) else None)
           (map en_observations (cs_arguments e)) = map Some (ck_arguments key)"
      using k unfolding call_specialization_at_def c
      by (auto simp: freeze_signature_def bind_eq_Some_conv collect_opt_Some split: if_splits)
    have m: "\<not> cs_targets_megamorphic e" "\<not> cs_arities_megamorphic e" "\<not> en_megamorphic (cs_results e)"
      "length (cs_targets e) = 1" "length (en_observations (cs_results e)) = 1"
      "\<And>slot. slot \<in> set (cs_arguments e) \<Longrightarrow> \<not> en_megamorphic slot \<and> length (en_observations slot) = 1"
      using st(1) by (auto simp: call_signature_state_def list_ex_iff split: if_splits)
    have n: "length as = length (cs_arguments e)"
      using e(2) m(2) st(2,3) by (cases "cs_arities e") (auto simp: signature_absorbs_def)
    have a: "en_observations (cs_arguments e ! j) = [as ! j]" if "j < length as" for j
    proof (rule monomorphic_absorbs)
      show "entry_state (cs_arguments e ! j) = Monomorphic" using m(6) [of "cs_arguments e ! j"] that n by (simp add: entry_state_def)
      show "absorbs (cs_arguments e ! j) (as ! j)" using e(2) that by (simp add: signature_absorbs_def slots_absorb_def)
    qed
    have "map observed_direct_argument_representation as = map Some (ck_arguments key)"
      unfolding key(5) [symmetric] by (rule nth_equalityI) (use a n in simp_all)
    moreover have "en_observations (cs_results e) = [r]"
      by (rule monomorphic_absorbs) (use e(2) m(3,5) in \<open>simp_all add: signature_absorbs_def entry_state_def\<close>)
    ultimately show ?thesis using key(1-4) one [OF m(1,4)] by simp
  qed
  show ?thesis unfolding s_def [symmetric] using link spec by blast
qed

theorem call_link_sound_witness:
  "call_link_at (table_snapshot 5 (feedback_run 16 4 sample_feedback_ops)) (FunctionKey 7 1) 9 =
     Some \<lparr>cl_caller = FunctionKey 7 1, cl_pc = 9, cl_callee = FunctionKey 8 2, cl_callee_identity = 41,
       cl_callee_bytecode_identity = 42\<rparr> \<and> (41::nat) \<noteq> 0"
proof -
  have l: "call_link_at (table_snapshot 5 (feedback_run 16 4 sample_feedback_ops)) (FunctionKey 7 1) 9 =
     Some \<lparr>cl_caller = FunctionKey 7 1, cl_pc = 9, cl_callee = FunctionKey 8 2, cl_callee_identity = 41,
       cl_callee_bytecode_identity = 42\<rparr>" by code_simp
  have "OpCallSignature (FunctionKey 7 1) 9 (FunctionKey 8 2) 41 42 [ObsInt32] ObsBool \<in>
      set (since (FunctionKey 7 1) sample_feedback_ops)"
    by (simp add: sample_feedback_ops_def since_def)
  from call_link_sound [OF this, of 5 16 4] l show ?thesis by simp
qed

end
