(* ===== verification/Feedback_Memo.thy ===== *)
theory Feedback_Memo
  imports Feedback_Sound
begin

text \<open>
  The version and the memos of the feedback table. The version advances by one exactly when an
  observation changes what the table knows, and therefore the two memos change no result and no state but their own.
\<close>

section \<open>The version\<close>

text \<open>What the table knows.\<close>

definition lattice_of ::
  "feedback_table \<Rightarrow> (feedback_key \<times> feedback_entry) list \<times> (function_key \<times> call_feedback_entry) list \<times>
     ((function_key \<times> nat) \<times> binary_feedback_entry) list \<times> ((function_key \<times> nat) \<times> conversion_feedback_entry) list \<times>
     ((function_key \<times> nat) \<times> branch_feedback_entry) list \<times> ((function_key \<times> nat) \<times> call_signature_entry) list \<times>
     ((function_key \<times> nat) \<times> array_entry) list" where
  "lattice_of t = (ft_entries t, ft_calls t, ft_binaries t, ft_conversions t, ft_branches t, ft_call_signatures t,
     at_entries (ft_arrays t))"

text \<open>An operation leaves the version and the knowledge alone, or advances the version by one.\<close>

definition versioned :: "feedback_table \<Rightarrow> feedback_table \<Rightarrow> bool" where
  "versioned t u \<longleftrightarrow> ft_version u = ft_version t + (if lattice_of u = lattice_of t then 0 else 1)"

lemma bt_insert_iff: "strict_sorted_keys m \<Longrightarrow> bt_insert k v m = m \<longleftrightarrow> map_of m k = Some v"
  using map_of_bt_insert [of m k v] bt_insert_same by (metis fun_upd_same)

lemma bump_version: "ft_version t + 1 < 2 ^ 64 \<Longrightarrow> ft_version (bump c t) = ft_version t + (if c then 1 else 0)"
  by (simp add: bump_def)

lemma versionedI:
  assumes "lattice_of u = lattice_of t \<longleftrightarrow> \<not> c" "ft_version u = ft_version (bump c t0)" "ft_version t0 = ft_version t"
    and "ft_version t + 1 < 2 ^ 64"
  shows "versioned t u"
  unfolding versioned_def assms(2) using assms(1,3,4) bump_version [of t0 c] by (cases c) simp_all

lemma bump_lattice [simp]: "lattice_of (bump c t) = lattice_of t"
  by (simp add: lattice_of_def)

lemma saturate_lattice [simp]: "lattice_of (saturate c t) = lattice_of t"
  by (simp add: lattice_of_def)

lemma empty_entry_observe [simp]:
  "snd (entry_observe ty limit empty_entry) \<noteq> empty_entry" "empty_entry \<noteq> snd (entry_observe ty limit empty_entry)"
  by (simp_all add: entry_observe_def empty_entry_def)

lemma entry_shape_changes:
  "entry_shape e = entry_shape (snd (entry_observe ty limit e)) \<longleftrightarrow> e = snd (entry_observe ty limit e)"
  unfolding eq_commute [of "entry_shape e"] eq_commute [of e] by (rule entry_observe_shape)

text \<open>Storing what becomes of the old entry, or of a default, changes the map unless the entry stays.\<close>

lemma stored_iff:
  "d \<noteq> g d \<Longrightarrow> m = Some (g (case m of None \<Rightarrow> d | Some e \<Rightarrow> e)) \<longleftrightarrow>
     (case m of None \<Rightarrow> d | Some e \<Rightarrow> e) = g (case m of None \<Rightarrow> d | Some e \<Rightarrow> e)"
  by (cases m) simp_all

lemma stored_shape_iff:
  assumes "\<And>e. shape (g e) = shape e \<longleftrightarrow> g e = e"
  shows "m = Some (g (case m of None \<Rightarrow> d | Some e \<Rightarrow> e)) \<longleftrightarrow>
     \<not> (m = None \<or> shape (case m of None \<Rightarrow> d | Some e \<Rightarrow> e) \<noteq> shape (g (case m of None \<Rightarrow> d | Some e \<Rightarrow> e)))"
proof (cases m)
  case (Some e)
  have "shape e = shape (g e) \<longleftrightarrow> e = g e" using assms [of e] by metis
  then show ?thesis by (simp add: Some)
qed simp

lemma versioned_call:
  assumes "feedback_inv t" "ft_version t + 1 < 2 ^ 64"
  shows "versioned t (observe_call f as t)"
proof (cases "ft_last_call t = Some f \<and> ft_last_call_arguments t = as")
  case True
  then show ?thesis by (simp add: observe_call_eq versioned_def)
next
  case False
  let ?c = "observe_arguments (ft_diversity_limit t) as (old_call t f)"
  have "lattice_of (observe_call f as t) = lattice_of t \<longleftrightarrow> map_of (ft_calls t) f = Some ?c"
    using False bt_insert_iff [OF feedback_invD(2) [OF assms(1)]] by (auto simp: observe_call_eq Let_def lattice_of_def)
  also have "\<dots> \<longleftrightarrow> \<not> (map_of (ft_calls t) f = None \<or> call_shape (old_call t f) \<noteq> call_shape ?c)"
    unfolding old_call_def by (rule stored_shape_iff) (rule call_shape_exact)
  finally show ?thesis
    by (rule versionedI [where ?t0.0 = "t\<lparr>ft_calls := bt_insert f ?c (ft_calls t)\<rparr>"])
      (use False assms(2) in \<open>auto simp: observe_call_eq Let_def\<close>)
qed

lemma versioned_binary:
  assumes "feedback_inv t" "ft_version t + 1 < 2 ^ 64"
  shows "versioned t (snd (observe_binary f pc l r v flags t))"
proof -
  let ?old = "old_binary t (f, pc)" and ?e = "new_binary (ft_diversity_limit t) l r v flags (old_binary t (f, pc))"
  have "lattice_of (snd (observe_binary f pc l r v flags t)) = lattice_of t \<longleftrightarrow> map_of (ft_binaries t) (f, pc) = Some ?e"
    using bt_insert_iff [OF feedback_invD(3) [OF assms(1)]] by (auto simp: observe_binary_eq Let_def lattice_of_def)
  also have "\<dots> \<longleftrightarrow> ?old = ?e"
    unfolding old_binary_def by (rule stored_iff) (simp add: new_binary_def)
  also have "\<dots> \<longleftrightarrow> binary_shape ?old = binary_shape ?e"
    by (cases ?old) (simp add: binary_shape_def new_binary_def entry_shape_changes)
  finally show ?thesis
    by (intro versionedI [where ?t0.0 = "t\<lparr>ft_binaries := bt_insert (f, pc) ?e (ft_binaries t)\<rparr>"])
      (use assms(2) in \<open>simp_all add: observe_binary_eq Let_def\<close>)
qed

lemma versioned_conversion:
  assumes "feedback_inv t" "ft_version t + 1 < 2 ^ 64"
  shows "versioned t (snd (observe_conversion f pc v r t))"
proof -
  let ?old = "old_conversion t (f, pc)"
  let ?e = "\<lparr>cv_operand = snd (entry_observe v (ft_diversity_limit t) (cv_operand ?old)),
    cv_result = snd (entry_observe r (ft_diversity_limit t) (cv_result ?old))\<rparr>"
  have "lattice_of (snd (observe_conversion f pc v r t)) = lattice_of t \<longleftrightarrow> map_of (ft_conversions t) (f, pc) = Some ?e"
    using bt_insert_iff [OF feedback_invD(4) [OF assms(1)]] by (auto simp: observe_conversion_eq Let_def lattice_of_def)
  also have "\<dots> \<longleftrightarrow> ?old = ?e"
    unfolding old_conversion_def
    by (rule stored_iff [where g = "\<lambda>old. \<lparr>cv_operand = snd (entry_observe v (ft_diversity_limit t) (cv_operand old)),
      cv_result = snd (entry_observe r (ft_diversity_limit t) (cv_result old))\<rparr>"]) simp
  also have "\<dots> \<longleftrightarrow> (entry_shape (cv_operand ?old), entry_shape (cv_result ?old)) = (entry_shape (cv_operand ?e), entry_shape (cv_result ?e))"
    by (cases ?old) (simp add: entry_shape_changes)
  finally show ?thesis
    by (intro versionedI [where ?t0.0 = "t\<lparr>ft_conversions := bt_insert (f, pc) ?e (ft_conversions t)\<rparr>"])
      (use assms(2) in \<open>simp_all add: observe_conversion_eq Let_def\<close>)
qed

lemma versioned_branch:
  assumes "feedback_inv t" "ft_version t + 1 < 2 ^ 64"
  shows "versioned t (snd (observe_branch f pc ty taken t))"
proof -
  let ?old = "old_branch t (f, pc)"
  let ?e = "\<lparr>br_condition_types = snd (entry_observe ty (ft_diversity_limit t) (br_condition_types ?old)),
    br_outcomes = br_outcomes ?old OR (if taken then 1 else 2)\<rparr>"
  have "lattice_of (snd (observe_branch f pc ty taken t)) = lattice_of t \<longleftrightarrow> map_of (ft_branches t) (f, pc) = Some ?e"
    using bt_insert_iff [OF feedback_invD(5) [OF assms(1)]] by (auto simp: observe_branch_eq Let_def lattice_of_def)
  also have "\<dots> \<longleftrightarrow> ?old = ?e"
    unfolding old_branch_def
    by (rule stored_iff [where g = "\<lambda>old. \<lparr>br_condition_types = snd (entry_observe ty (ft_diversity_limit t) (br_condition_types old)),
      br_outcomes = br_outcomes old OR (if taken then 1 else 2)\<rparr>"]) simp
  also have "\<dots> \<longleftrightarrow> (entry_shape (br_condition_types ?old), br_outcomes ?old) = (entry_shape (br_condition_types ?e), br_outcomes ?e)"
    by (cases ?old) (simp add: entry_shape_changes)
  finally show ?thesis
    by (intro versionedI [where ?t0.0 = "t\<lparr>ft_branches := bt_insert (f, pc) ?e (ft_branches t)\<rparr>"])
      (use assms(2) in \<open>simp_all add: observe_branch_eq Let_def\<close>)
qed

lemma versioned_signature:
  assumes "feedback_inv t" "ft_version t + 1 < 2 ^ 64"
  shows "versioned t (snd (observe_call_signature_with_identity f pc callee i b as r t))"
proof -
  let ?old = "old_signature t (f, pc) i b" and ?e = "observe_signature (ft_diversity_limit t) callee i b as r (old_signature t (f, pc) i b)"
  have "cs_results (observe_signature limit callee i b as r e) = snd (entry_observe r limit (cs_results e))" for limit e
    by (simp add: observe_signature_def Let_def split: prod.splits)
  then have new: "e \<noteq> observe_signature limit callee i b as r e" if "cs_results e = empty_entry" for limit e
    using that empty_entry_observe by metis
  have "lattice_of (snd (observe_call_signature_with_identity f pc callee i b as r t)) = lattice_of t \<longleftrightarrow>
      map_of (ft_call_signatures t) (f, pc) = Some ?e"
    using bt_insert_iff [OF feedback_invD(6) [OF assms(1)]] by (auto simp: observe_call_signature_eq Let_def lattice_of_def)
  also have "\<dots> \<longleftrightarrow> ?old = ?e"
    unfolding old_signature_def by (rule stored_iff) (simp add: new)
  also have "\<dots> \<longleftrightarrow> signature_shape ?old = signature_shape ?e"
    using signature_shape_exact by metis
  finally show ?thesis
    by (intro versionedI [where ?t0.0 = "t\<lparr>ft_call_signatures := bt_insert (f, pc) ?e (ft_call_signatures t)\<rparr>"])
      (use assms(2) in \<open>simp_all add: observe_call_signature_eq Let_def\<close>)
qed

lemma versioned_store:
  assumes "feedback_inv t" "ft_version t + 1 < 2 ^ 64"
  shows "versioned t (store_type key ty t)"
proof -
  let ?e = "snd (entry_observe ty (ft_diversity_limit t) (old_type t key))"
  have "lattice_of (store_type key ty t) = lattice_of t \<longleftrightarrow> map_of (ft_entries t) key = Some ?e"
    using bt_insert_iff [OF feedback_invD(1) [OF assms(1)]] by (auto simp: store_type_def Let_def lattice_of_def)
  also have "\<dots> \<longleftrightarrow> \<not> (map_of (ft_entries t) key = None \<or> entry_shape (old_type t key) \<noteq> entry_shape ?e)"
    unfolding old_type_def by (rule stored_shape_iff) (rule entry_observe_shape)
  finally show ?thesis
    by (rule versionedI [where ?t0.0 = "t\<lparr>ft_entries := bt_insert key ?e (ft_entries t)\<rparr>"])
      (use assms(2) in \<open>simp_all add: store_type_def Let_def\<close>)
qed

lemma versioned_type:
  assumes "feedback_inv t" "ft_version t + 1 < 2 ^ 64"
  shows "versioned t (snd (observe_type f pc kind ty t))"
proof -
  have "versioned t (store_type (FeedbackKey f pc kind) ty t)" by (rule versioned_store [OF assms])
  then show ?thesis
    by (auto simp: observe_type_eq Let_def versioned_def lattice_of_def split: option.splits)
qed


lemma saturate_version:
  "ft_version t < u64_max \<Longrightarrow> ft_version (saturate c t) = ft_version t + (if c then 1 else 0)"
  by (simp add: saturate_def sat_add_def)

text \<open>The version of the array table changes exactly with its entries.\<close>

lemma observe_array_version:
  assumes "array_inv a" "at_version a < u64_max"
  shows "at_version (snd (observe_array f pc access mode hazards a)) \<noteq> at_version a \<longleftrightarrow>
    at_entries (snd (observe_array f pc access mode hazards a)) \<noteq> at_entries a"
proof (cases "full_for a (f, pc)")
  case True
  then show ?thesis by (simp add: observe_array_full)
next
  case False
  have sorted: "strict_sorted_keys (at_entries a)" using assms(1) by (simp add: array_inv_def)
  show ?thesis
    using observe_unchanged [OF sorted, of f pc "at_diversity_limit a" access mode hazards] assms(2)
    by (simp add: observe_array_stored [OF False] Let_def sat_add_def)
qed

lemma versioned_saturate:
  assumes "ft_version t < u64_max" "c \<longleftrightarrow> at_entries a \<noteq> at_entries (ft_arrays t)"
  shows "versioned t (saturate c (t\<lparr>ft_arrays := a\<rparr>))"
  using assms saturate_version [of "t\<lparr>ft_arrays := a\<rparr>" c] by (auto simp: versioned_def lattice_of_def)

lemma versioned_array:
  assumes "array_inv (ft_arrays t)" "at_version (ft_arrays t) < u64_max" "ft_version t < u64_max"
  shows "versioned t (snd (ft_observe_array f pc access mode hazards t))"
    and "versioned t (snd (ft_observe_array_raw f pc m flags t))"
proof -
  have v: "versioned t (saturate (at_version (snd (observe_array f pc access mode hazards (ft_arrays t))) \<noteq> at_version (ft_arrays t))
      (t\<lparr>ft_arrays := snd (observe_array f pc access mode hazards (ft_arrays t))\<rparr>))" for access mode hazards
    by (rule versioned_saturate [OF assms(3) observe_array_version [OF assms(1,2)]])
  show "versioned t (snd (ft_observe_array f pc access mode hazards t))"
    using v [of access mode hazards] by (simp add: ft_observe_array_def case_prod_unfold)
  show "versioned t (snd (ft_observe_array_raw f pc m flags t))"
  proof (cases "decode_array m flags")
    case None
    then show ?thesis by (simp add: ft_observe_array_raw_def observe_raw_def versioned_def lattice_of_def)
  next
    case (Some x)
    then obtain access mode hazards where "decode_array m flags = Some (access, mode, hazards)" by (cases x) auto
    then show ?thesis
      using v [of access mode hazards] by (simp add: ft_observe_array_raw_def observe_raw_def case_prod_unfold)
  qed
qed

lemma versioned_step:
  assumes "feedback_inv t" "array_inv (ft_arrays t)" "at_version (ft_arrays t) < u64_max" "ft_version t < u64_max"
    and "\<And>f. op \<noteq> OpForget f"
  shows "versioned t (feedback_step op t)"
proof -
  have v: "ft_version t + 1 < 2 ^ 64" using assms(4) by (simp add: u64_max_def)
  note ops = versioned_call [OF assms(1) v] versioned_type [OF assms(1) v] versioned_binary [OF assms(1) v]
    versioned_conversion [OF assms(1) v] versioned_branch [OF assms(1) v] versioned_signature [OF assms(1) v]
    versioned_array [OF assms(2-4)]
  show ?thesis by (cases op) (simp_all add: ops observe_return_def assms(5))
qed

section \<open>Versions of reachable tables\<close>

lemma bump_le: "ft_version (bump c t) \<le> ft_version t + 1"
  by (simp add: bump_def)

lemma saturate_le: "ft_version (saturate c t) \<le> ft_version t + 1"
  by (simp add: saturate_def sat_add_def)

lemma observe_array_version_le: "at_version (snd (observe_array f pc access mode hazards a)) \<le> at_version a + 1"
  by (cases "full_for a (f, pc)") (simp_all add: observe_array_full observe_array_stored Let_def sat_add_def)

lemma observe_raw_cases:
  "snd (observe_raw f pc m flags a) = a \<or> (\<exists>access mode hazards. snd (observe_raw f pc m flags a) = snd (observe_array f pc access mode hazards a))"
  by (auto simp: observe_raw_step split: option.splits)

lemma ft_version_step: "ft_version (feedback_step op t) \<le> ft_version t + 1"
proof (cases op)
  case (OpArray f pc access mode hazards)
  then show ?thesis
    using saturate_le [of _ "t\<lparr>ft_arrays := snd (observe_array f pc access mode hazards (ft_arrays t))\<rparr>"]
    by (simp add: ft_observe_array_def case_prod_unfold)
next
  case (OpArrayRaw f pc m flags)
  then show ?thesis
    using saturate_le [of _ "t\<lparr>ft_arrays := snd (observe_raw f pc m flags (ft_arrays t))\<rparr>"]
    by (auto simp: ft_observe_array_raw_def split: prod.splits option.splits)
next
  case (OpForget f)
  then show ?thesis by (simp add: forget_function_def Let_def)
qed (auto simp: observe_call_eq observe_return_def observe_type_eq observe_binary_eq observe_conversion_eq observe_branch_eq
      observe_call_signature_eq store_type_def Let_def bump_def split: option.splits)

lemma ft_arrays_step:
  "ft_arrays (feedback_step op t) = ft_arrays t \<or>
   (\<exists>f pc access mode hazards. ft_arrays (feedback_step op t) = snd (observe_array f pc access mode hazards (ft_arrays t))) \<or>
   (\<exists>f. ft_arrays (feedback_step op t) = forget_array_function f (ft_arrays t))"
proof (cases op)
  case (OpArray f pc access mode hazards)
  then have "ft_arrays (feedback_step op t) = snd (observe_array f pc access mode hazards (ft_arrays t))"
    by (simp add: ft_observe_array_def case_prod_unfold)
  then show ?thesis by blast
next
  case (OpArrayRaw f pc m flags)
  then have "ft_arrays (feedback_step op t) = snd (observe_raw f pc m flags (ft_arrays t))"
    by (auto simp: ft_observe_array_raw_def split: prod.splits option.splits)
  then show ?thesis using observe_raw_cases [of f pc m flags "ft_arrays t"] by metis
next
  case (OpForget f)
  then show ?thesis by (auto simp: forget_function_def Let_def)
qed (auto simp: observe_call_eq observe_return_def observe_type_eq observe_binary_eq observe_conversion_eq observe_branch_eq
      observe_call_signature_eq Let_def split: option.splits)

lemma run_versions:
  "ft_version (feedback_run capacity limit ops) \<le> length ops \<and> at_version (ft_arrays (feedback_run capacity limit ops)) \<le> length ops \<and>
   array_inv (ft_arrays (feedback_run capacity limit ops))"
proof (induction ops rule: rev_induct)
  case Nil
  show ?case using new_array_table_inv [of capacity limit] by (simp add: new_feedback_table_def new_array_table_def)
next
  case (snoc op ops)
  let ?t = "feedback_run capacity limit ops"
  have "at_version (ft_arrays (feedback_step op ?t)) \<le> at_version (ft_arrays ?t) + 1 \<and> array_inv (ft_arrays (feedback_step op ?t))"
    using ft_arrays_step [of op ?t] snoc observe_array_version_le observe_array_inv forget_inv
    by (auto simp: forget_array_function_def)
  then show ?case using snoc ft_version_step [of op ?t] by auto
qed

lemma run_versioned:
  assumes "length ops < u64_max" "\<And>f. op \<noteq> OpForget f"
  shows "versioned (feedback_run capacity limit ops) (feedback_step op (feedback_run capacity limit ops))"
  using run_versions [of ops capacity limit] assms by (intro versioned_step feedback_run_inv) auto







section \<open>The memos\<close>

text \<open>The table without the memo fields, and the operations without the memos.\<close>

definition view_of :: "feedback_table \<Rightarrow> feedback_table" where
  "view_of t = t\<lparr>ft_recent_types := [], ft_recent_type_cursor := 0, ft_last_call := None, ft_last_call_arguments := []\<rparr>"

definition observe_call_plain :: "function_key \<Rightarrow> observed_type list \<Rightarrow> feedback_table \<Rightarrow> feedback_table" where
  "observe_call_plain f as t =
     (let c = observe_arguments (ft_diversity_limit t) as (old_call t f) in
      bump (map_of (ft_calls t) f = None \<or> call_shape (old_call t f) \<noteq> call_shape c)
        (t\<lparr>ft_calls := bt_insert f c (ft_calls t)\<rparr>))"

definition observe_type_plain ::
  "function_key \<Rightarrow> nat \<Rightarrow> feedback_kind \<Rightarrow> observed_type \<Rightarrow> feedback_table \<Rightarrow> feedback_state \<times> feedback_table" where
  "observe_type_plain f pc kind ty t =
     (let key = FeedbackKey f pc kind in
      if full_at t key then (Megamorphic, t\<lparr>ft_dropped := sat_add u64_max (ft_dropped t) 1\<rparr>)
      else (fst (entry_observe ty (ft_diversity_limit t) (old_type t key)), store_type key ty t))"

fun plain_step :: "feedback_op \<Rightarrow> feedback_table \<Rightarrow> feedback_table" where
  "plain_step (OpCall f as) t = observe_call_plain f as t"
| "plain_step (OpReturn f pc ty) t = snd (observe_type_plain f pc KindExit ty t)"
| "plain_step (OpType f pc kind ty) t = snd (observe_type_plain f pc kind ty t)"
| "plain_step op t = feedback_step op t"

abbreviation plain_run :: "nat \<Rightarrow> nat \<Rightarrow> feedback_op list \<Rightarrow> feedback_table" where
  "plain_run capacity limit ops \<equiv> fold plain_step ops (new_feedback_table capacity limit)"

lemma view_fields [simp]:
  "ft_capacity (view_of t) = ft_capacity t" "ft_diversity_limit (view_of t) = ft_diversity_limit t"
  "ft_dropped (view_of t) = ft_dropped t" "ft_version (view_of t) = ft_version t"
  "ft_entries (view_of t) = ft_entries t" "ft_calls (view_of t) = ft_calls t" "ft_binaries (view_of t) = ft_binaries t"
  "ft_conversions (view_of t) = ft_conversions t" "ft_branches (view_of t) = ft_branches t"
  "ft_call_signatures (view_of t) = ft_call_signatures t" "ft_arrays (view_of t) = ft_arrays t"
  by (simp_all add: view_of_def)

lemma view_olds [simp]:
  "old_call (view_of t) = old_call t" "old_type (view_of t) = old_type t" "old_binary (view_of t) = old_binary t"
  "old_conversion (view_of t) = old_conversion t" "old_branch (view_of t) = old_branch t"
  "old_signature (view_of t) = old_signature t" "full_at (view_of t) = full_at t"
  by (simp_all add: fun_eq_iff old_call_def old_type_def old_binary_def old_conversion_def old_branch_def
      old_signature_def full_at_def)

lemma view_bump: "view_of (bump c t) = bump c (view_of t)"
  by (simp add: bump_def view_of_def)

lemma view_saturate: "view_of (saturate c t) = saturate c (view_of t)"
  by (simp add: saturate_def view_of_def)

lemma view_updates [simp]:
  "view_of (t\<lparr>ft_calls := a\<rparr>) = (view_of t)\<lparr>ft_calls := a\<rparr>" "view_of (t\<lparr>ft_entries := b\<rparr>) = (view_of t)\<lparr>ft_entries := b\<rparr>"
  "view_of (t\<lparr>ft_binaries := c\<rparr>) = (view_of t)\<lparr>ft_binaries := c\<rparr>"
  "view_of (t\<lparr>ft_conversions := d\<rparr>) = (view_of t)\<lparr>ft_conversions := d\<rparr>"
  "view_of (t\<lparr>ft_branches := e\<rparr>) = (view_of t)\<lparr>ft_branches := e\<rparr>"
  "view_of (t\<lparr>ft_call_signatures := g\<rparr>) = (view_of t)\<lparr>ft_call_signatures := g\<rparr>"
  "view_of (t\<lparr>ft_arrays := h\<rparr>) = (view_of t)\<lparr>ft_arrays := h\<rparr>"
  "view_of (t\<lparr>ft_dropped := i\<rparr>) = (view_of t)\<lparr>ft_dropped := i\<rparr>"
  "view_of (t\<lparr>ft_recent_types := j\<rparr>) = view_of t" "view_of (t\<lparr>ft_recent_type_cursor := k\<rparr>) = view_of t"
  "view_of (t\<lparr>ft_last_call := l\<rparr>) = view_of t" "view_of (t\<lparr>ft_last_call_arguments := m\<rparr>) = view_of t"
  "view_of (view_of t) = view_of t"
  by (simp_all add: view_of_def)

lemma view_store_type: "view_of (store_type key ty t) = store_type key ty (view_of t)"
  by (simp add: store_type_def Let_def view_bump)

text \<open>The operations without memos read and write the view only.\<close>

lemma plain_step_view: "view_of (plain_step op t) = view_of (plain_step op (view_of t))"
proof (cases op)
  case (OpForget f)
  have "view_of (forget_function f t) = (view_of t)\<lparr>
      ft_entries := filter (\<lambda>e. fb_function (fst e) \<noteq> f) (ft_entries t), ft_calls := bt_remove f (ft_calls t),
      ft_binaries := filter (\<lambda>e. fst (fst e) \<noteq> f) (ft_binaries t),
      ft_conversions := filter (\<lambda>e. fst (fst e) \<noteq> f) (ft_conversions t),
      ft_branches := filter (\<lambda>e. fst (fst e) \<noteq> f) (ft_branches t),
      ft_call_signatures := filter (\<lambda>e. fst (fst e) \<noteq> f) (ft_call_signatures t),
      ft_arrays := forget_array_function f (ft_arrays t)\<rparr>" for t
    by (simp add: forget_function_def Let_def)
  from this [of t] this [of "view_of t"] OpForget show ?thesis by simp
qed (simp_all add: observe_call_plain_def observe_type_plain_def observe_binary_eq observe_conversion_eq
      observe_branch_eq observe_call_signature_eq ft_observe_array_def ft_observe_array_raw_def Let_def
      view_bump view_saturate view_store_type case_prod_unfold split: option.splits)

text \<open>A memo of a type observation is older than the table, or returns the state its entry has now.\<close>

definition memo_current :: "feedback_table \<Rightarrow> bool" where
  "memo_current t \<longleftrightarrow>
     (\<forall>key ty state v. Some (key, ty, state, v) \<in> set (ft_recent_types t) \<longrightarrow>
        v < ft_version t \<or> v = ft_version t \<and> map_option entry_state (map_of (ft_entries t) key) = Some state)"

lemma store_type_absorbed:
  assumes "strict_sorted_keys (ft_entries t)" "map_of (ft_entries t) key = Some e" "absorbs e ty"
  shows "store_type key ty t = t" "fst (entry_observe ty limit (old_type t key)) = entry_state e"
  using assms by (simp_all add: store_type_def Let_def old_type_def entry_observe_absorbed bt_insert_same bump_def)

lemma memo_type:
  assumes "feedback_inv t" "memo_current t"
  shows "view_of (snd (observe_type f pc kind ty t)) = view_of (snd (observe_type_plain f pc kind ty t)) \<and>
    fst (observe_type f pc kind ty t) = fst (observe_type_plain f pc kind ty t)"
proof (cases "recent_type (FeedbackKey f pc kind) ty t")
  case None
  then show ?thesis by (simp add: observe_type_eq observe_type_plain_def Let_def)
next
  case (Some state)
  note r = recent_type_Some [OF Some]
  obtain e where e: "map_of (ft_entries t) (FeedbackKey f pc kind) = Some e" "absorbs e ty"
    using feedback_invD(9) [OF assms(1) r] by blast
  have "state = entry_state e" using assms(2) r e(1) unfolding memo_current_def by fastforce
  then show ?thesis
    using Some e store_type_absorbed [OF feedback_invD(1) [OF assms(1)] e]
    by (simp add: observe_type_eq observe_type_plain_def Let_def full_at_def)
qed

lemma memo_call:
  assumes "feedback_inv t"
  shows "view_of (observe_call f as t) = view_of (observe_call_plain f as t)"
proof (cases "ft_last_call t = Some f \<and> ft_last_call_arguments t = as")
  case True
  then obtain c where c: "map_of (ft_calls t) f = Some c" "call_absorbs c as"
    using feedback_invD(10) [OF assms, of f] by auto
  then show ?thesis
    using True bt_insert_same [OF feedback_invD(2) [OF assms] c(1)]
    by (simp add: observe_call_eq observe_call_plain_def old_call_def Let_def observe_arguments_absorbed bump_def)
next
  case False
  then show ?thesis by (auto simp: observe_call_eq observe_call_plain_def Let_def)
qed

lemma memo_step:
  "feedback_inv t \<Longrightarrow> memo_current t \<Longrightarrow> view_of (feedback_step op t) = view_of (plain_step op t)"
  by (cases op) (simp_all add: memo_call memo_type observe_return_def)


text \<open>Only \<open>observe_type\<close> adds to the memo of type observations, and forgetting clears it.\<close>

lemma memo_added:
  assumes "feedback_inv t" "Some (key, ty, state, v) \<in> set (ft_recent_types (feedback_step op t))"
  shows "Some (key, ty, state, v) \<in> set (ft_recent_types t) \<or>
    v = ft_version (feedback_step op t) \<and> map_option entry_state (map_of (ft_entries (feedback_step op t)) key) = Some state"
proof -
  have ty: "Some (key, ty, state, v) \<in> set (ft_recent_types t) \<or>
      v = ft_version u \<and> map_option entry_state (map_of (ft_entries u) key) = Some state"
    if u: "u = snd (observe_type f pc kind x t)" "Some (key, ty, state, v) \<in> set (ft_recent_types u)" for f pc kind x u
  proof -
    let ?key = "FeedbackKey f pc kind" and ?st = "fst (entry_observe x (ft_diversity_limit t) (old_type t (FeedbackKey f pc kind)))"
    consider "ft_recent_types u = ft_recent_types t"
      | "ft_recent_types u = (ft_recent_types t)[ft_recent_type_cursor t := Some (?key, x, ?st, ft_version u)]"
        "ft_entries u = ft_entries (store_type ?key x t)"
      unfolding u(1) by (cases "recent_type ?key x t"; cases "full_at t ?key") (simp_all add: observe_type_eq Let_def)
    then show ?thesis
    proof cases
      case 2
      have "map_of (ft_entries u) ?key = Some (snd (entry_observe x (ft_diversity_limit t) (old_type t ?key)))"
        unfolding 2(2) using feedback_invD(1) [OF assms(1)] by (simp add: map_of_store_type)
      then have "map_option entry_state (map_of (ft_entries u) ?key) = Some ?st" by (simp add: entry_observe_state)
      moreover have "Some (key, ty, state, v) = Some (?key, x, ?st, ft_version u) \<or> Some (key, ty, state, v) \<in> set (ft_recent_types t)"
        using u(2) set_update_subset_insert [of "ft_recent_types t" "ft_recent_type_cursor t"] unfolding 2(1) by blast
      ultimately show ?thesis by auto
    qed (use u(2) in simp)
  qed
  show ?thesis
  proof (cases op)
    case (OpReturn f pc x)
    then show ?thesis using ty [of _ f pc KindExit x] assms(2) by (simp add: observe_return_def)
  next
    case (OpType f pc kind x)
    then show ?thesis using ty [of _ f pc kind x] assms(2) by simp
  next
    case (OpArrayRaw f pc m flags)
    then show ?thesis using assms(2) by (auto simp: ft_observe_array_raw_def split: prod.splits option.splits)
  qed (use assms(2) in \<open>auto simp: observe_call_eq observe_binary_eq observe_conversion_eq observe_branch_eq
        observe_call_signature_eq ft_observe_array_def forget_function_def Let_def split: prod.splits if_splits\<close>)
qed

lemma memo_current_step:
  assumes "feedback_inv t" "memo_current t" "(\<And>f. op \<noteq> OpForget f) \<Longrightarrow> versioned t (feedback_step op t)"
  shows "memo_current (feedback_step op t)"
proof (cases "\<exists>f. op = OpForget f")
  case True
  then obtain f where "op = OpForget f" ..
  then show ?thesis by (simp add: memo_current_def forget_function_def Let_def)
next
  case False
  let ?u = "feedback_step op t"
  have v: "versioned t ?u" by (rule assms(3)) (use False in blast)
  show ?thesis
    unfolding memo_current_def
  proof (intro allI impI)
    fix key ty state w assume m: "Some (key, ty, state, w) \<in> set (ft_recent_types ?u)"
    from memo_added [OF assms(1) m]
    show "w < ft_version ?u \<or> w = ft_version ?u \<and> map_option entry_state (map_of (ft_entries ?u) key) = Some state"
    proof
      assume "Some (key, ty, state, w) \<in> set (ft_recent_types t)"
      then have o: "w < ft_version t \<or> w = ft_version t \<and> map_option entry_state (map_of (ft_entries t) key) = Some state"
        using assms(2) unfolding memo_current_def by blast
      show ?thesis
      proof (cases "lattice_of ?u = lattice_of t")
        case True
        then have "ft_version ?u = ft_version t" "ft_entries ?u = ft_entries t" using v by (simp_all add: versioned_def lattice_of_def)
        then show ?thesis using o by simp
      next
        case False
        then show ?thesis using o v by (auto simp: versioned_def)
      qed
    qed simp
  qed
qed

lemma run_memo_current: "length ops \<le> u64_max \<Longrightarrow> memo_current (feedback_run capacity limit ops)"
proof (induction ops rule: rev_induct)
  case (snoc op ops)
  then have n: "length ops < u64_max" and m: "memo_current (feedback_run capacity limit ops)" by simp_all
  have "memo_current (feedback_step op (feedback_run capacity limit ops))"
    by (rule memo_current_step [OF feedback_run_inv m]) (rule run_versioned [OF n])
  then show ?case by simp
qed (simp add: memo_current_def new_feedback_table_def)

text \<open>
  C25. The two memos of the feedback table are transparent. As long as fewer operations than 64 bits can
  count have happened, a table that answers repeated calls and repeated type observations from its memos
  knows, counts and versions exactly what a table without memos does, and a type observation returns the
  same state from both.
\<close>

theorem feedback_memo_transparent:
  assumes "length ops \<le> u64_max"
  shows "view_of (feedback_run capacity limit ops) = view_of (plain_run capacity limit ops) \<and>
    fst (observe_type f pc kind ty (feedback_run capacity limit ops)) =
    fst (observe_type_plain f pc kind ty (plain_run capacity limit ops))"
proof -
  have v: "view_of (feedback_run capacity limit ops) = view_of (plain_run capacity limit ops)"
    using assms
  proof (induction ops rule: rev_induct)
    case (snoc op ops)
    let ?t = "feedback_run capacity limit ops" and ?u = "plain_run capacity limit ops"
    have "view_of (feedback_step op ?t) = view_of (plain_step op ?t)"
      by (rule memo_step [OF feedback_run_inv run_memo_current]) (use snoc.prems in simp)
    also have "\<dots> = view_of (plain_step op ?u)"
      using plain_step_view [of op ?t] plain_step_view [of op ?u] snoc by simp
    finally show ?case by simp
  qed simp
  have "fst (observe_type f pc kind ty (feedback_run capacity limit ops)) =
      fst (observe_type_plain f pc kind ty (feedback_run capacity limit ops))"
    using memo_type [OF feedback_run_inv run_memo_current [OF assms]] by blast
  also have "fst (observe_type_plain f pc kind ty t) = fst (observe_type_plain f pc kind ty (view_of t))" for t
    by (simp add: observe_type_plain_def Let_def)
  note this [of "feedback_run capacity limit ops"]
  also have "fst (observe_type_plain f pc kind ty (view_of (feedback_run capacity limit ops))) =
      fst (observe_type_plain f pc kind ty (plain_run capacity limit ops))"
    unfolding v by (simp add: observe_type_plain_def Let_def)
  finally show ?thesis using v by simp
qed

theorem feedback_memo_transparent_witness:
  "fst (observe_type (FunctionKey 7 1) 12 KindExit ObsInt32 (feedback_run 16 4 sample_feedback_ops)) = Monomorphic \<and>
   fst (observe_type_plain (FunctionKey 7 1) 12 KindExit ObsInt32 (plain_run 16 4 sample_feedback_ops)) = Monomorphic"
proof -
  have n: "length sample_feedback_ops \<le> u64_max" by (simp add: sample_feedback_ops_def u64_max_def)
  have "fst (observe_type_plain (FunctionKey 7 1) 12 KindExit ObsInt32 (plain_run 16 4 sample_feedback_ops)) = Monomorphic"
    by code_simp
  then show ?thesis using feedback_memo_transparent [OF n] by simp
qed

end
