(* ===== verification/Spec2Isabelle.thy ===== *)
theory Spec2Isabelle
  imports Policy Osr Invalidate Array_Feedback Hotness Cache_Spec Loop_Sound Feedback_Memo
begin

text \<open>
  A verification development for the just-in-time compiler of the QuickJS binding in this repository
  (the crate \<^verbatim>\<open>jit\<close>). All paths below are under \<^verbatim>\<open>src/jit/src/\<close>.

  \<^bold>\<open>The program.\<close> The interpreter hands a function's bytecode to the JIT as a snapshot. The snapshot is
  decoded, split into basic blocks and verified by abstract interpretation before any compiler sees it.
  Hot functions are compiled by a baseline compiler, later by an optimising compiler that relies on
  feedback tables (value types, call targets, shapes, array accesses) and on analyses of the control flow.
  Compiled artifacts live in a code cache with byte limits. They depend on object shapes and on each
  other, and a dependency graph invalidates them when a shape or a prototype changes. A running
  interpreter frame enters compiled code at loop headers through on-stack replacement maps.

  \<^bold>\<open>Shape of the model.\<close> Rust structs are records, enums are datatypes, methods that change their receiver
  return the new state beside their result. Fallible code returns \<open>'e failure + 'a\<close>, where an error the
  code returns is told from a panic. Integers are natural numbers with the saturating, checked or wrapping
  arithmetic of the source written out against the width; bit masks are machine words. Ordered maps and
  sets are association lists and lists in key order. Loops are recursive functions with a proved
  termination measure, which is the remaining work or the remaining input: no fuel is added to what the
  code itself counts, so every operation of the model is total.

  \<^bold>\<open>Theories.\<close>
  \<^item> \<open>Prelude\<close>: results and panics, bounded arithmetic, ordered maps and sets, lists, words.
  \<^item> \<open>Decode\<close> (\<^verbatim>\<open>bytecode/decode.rs\<close>): operand formats, instructions and the bounded decoder. Decoding
    succeeds exactly on concatenations of table instructions within the limit and re-encodes to its input;
    an error names the first position that cannot be decoded and the true reason. The opcode table that
    the build generates is a parameter.
  \<^item> \<open>Snapshot\<close> (\<^verbatim>\<open>bytecode/mod.rs\<close>): snapshots, flags, metadata and the copy of a C snapshot, whose contents
    are what the C side announced and stay below the byte limit.
  \<^item> \<open>Cfg\<close> (\<^verbatim>\<open>bytecode/cfg.rs\<close>): basic blocks, successors, loop headers and the return edges of finally blocks.
    The graph partitions the instructions, its edges are exact, and executions that follow explicit return
    addresses through finally blocks stay on it.
  \<^item> \<open>Stack\<close>, \<open>Stack_Sound\<close>, \<open>Stack_Total\<close> (\<^verbatim>\<open>bytecode/stack.rs\<close>): abstract states, the transfer function of every
    opcode, merges, and the worklist with its work budget. \<open>Stack_Sound\<close> shows that the transfer function is
    monotone and that an accepted result covers every state an abstract machine reaches; \<open>Stack_Total\<close> that
    the worklist ends within its budget and never panics.
  \<^item> \<open>Verify_Error\<close>, \<open>Verify\<close> (\<^verbatim>\<open>bytecode/verify.rs\<close>): limits, index and metadata validation, the verifier.
    Verification always returns, and what it accepts respects all limits and is safe to execute.
  \<^item> \<open>Policy\<close> (\<^verbatim>\<open>bytecode/policy.rs\<close>, \<^verbatim>\<open>policy_audit.rs\<close>): the audited opcode table and the eligibility of functions
    for the baseline compiler.
  \<^item> \<open>Runtime_Keys\<close>: identities of functions and shapes with their derived order, and the locales for components
    whose operations keep an invariant or grow along an order.
  \<^item> \<open>Shape_Feedback\<close>, \<open>Array_Feedback\<close> (\<^verbatim>\<open>runtime/shape_feedback.rs\<close>, \<^verbatim>\<open>runtime/array_feedback.rs\<close>): bounded
    tables of observed shapes and array accesses, their versions, and the soundness of specialisation.
  \<^item> \<open>Feedback\<close>, \<open>Feedback_Snapshot\<close> (\<^verbatim>\<open>runtime/feedback.rs\<close>): the table of observed types, calls, operators,
    conversions, branches and call signatures, with all its operations, and the frozen snapshots from which
    specialisations and call links are read. \<open>Feedback_Sound\<close> shows that what is read holds of every
    observation since the function was last forgotten; \<open>Feedback_Memo\<close> that the version advances exactly
    with the knowledge of the table, and that the two memos change neither state nor results. Both need
    that fewer operations have happened than 64 bits can count, the point where the version wraps around.
  \<^item> \<open>Invalidate\<close> (\<^verbatim>\<open>runtime/invalidate.rs\<close>): the dependency graph. Invalidation marks exactly the transitive
    dependents, everything a valid node depends on is valid, and retired shapes stay retired.
  \<^item> \<open>Hotness\<close> (\<^verbatim>\<open>runtime/hotness.rs\<close>): the profitability model and the hotness counters.
  \<^item> \<open>Osr\<close> (\<^verbatim>\<open>runtime/osr.rs\<close>): on-stack replacement maps, which describe exactly the reached frame.
  \<^item> \<open>Artifact\<close>, \<open>Code_Cache\<close> (\<^verbatim>\<open>code_cache/artifact.rs\<close>, \<^verbatim>\<open>mod.rs\<close>, \<^verbatim>\<open>evict.rs\<close>): artifacts with their exact charge, and
    the cache over an explicit heap of shared cells. \<open>Cache_Safety\<close> has the invariant, \<open>Cache_Insert\<close> the planned
    eviction and insertion, \<open>Cache_System\<close> all sequences of operations with pins, \<open>Cache_Spec\<close> the abstract
    cache and the refinement.
  \<^item> \<open>Loops\<close>, \<open>Loop_Sound\<close> (\<^verbatim>\<open>ir/loops.rs\<close>): the work-bounded dominator and loop analysis. A complete analysis
    is exact: dominance over all paths, natural loops with their members and preheaders, and membership in
    a loop for exactly the nodes of blocks on a cycle.

  \<^bold>\<open>Bounds.\<close> \<open>usize\<close> and \<open>u64\<close> are 64 bits wide, as on all targets the JIT supports. Sizes of Rust types, which
  enter the charge of an artifact, are a parameter.

  \<^bold>\<open>Not modelled.\<close> The two code generators (\<^verbatim>\<open>compiler/\<close>) build Cranelift functions: their meaning is that of
  Cranelift's instructions, of the machine code it emits and of the C runtime they call, none of which is
  in this repository. The translation of bytecode into the optimising representation and the passes that
  only transform that representation (\<^verbatim>\<open>ir/baseline.rs\<close>, \<^verbatim>\<open>ir/scalar.rs\<close>, \<^verbatim>\<open>ir/inlining.rs\<close>, \<^verbatim>\<open>ir/property.rs\<close>)
  are outside for the same reason: what they promise is a relation to the semantics of QuickJS bytecode.
  The coordinator and the background compiler drive threads, channels and installation of machine code; of
  the coordinator the identities and the tiering decisions are modelled. The runtime hooks (\<^verbatim>\<open>lib.rs\<close>,
  \<^verbatim>\<open>abi.rs\<close>) and the platform layer are bindings to C and to the operating system. The other crates of the
  repository (the safe binding, its macros, the standard library modules, the C bindings) do not take part
  in the JIT.
\<close>

end
